(* ===== verification/Prelude.thy ===== *)
theory Prelude
  imports Complex_Main "HOL-Library.AList" "HOL-Library.Log_Nat" "HOL-Library.Sublist"
begin

text \<open>
  Shared vocabulary of the development: JavaScript's insertion-ordered \<open>Map\<close> and \<open>Set\<close>
  as association lists and distinct lists, \<open>Array.prototype.slice\<close>, string helpers, and
  the \<open>named_theorems\<close> collections the component theories extend.

  A JavaScript \<open>Map\<close> enumerates its keys in insertion order, \<open>set\<close> on a present key
  keeps its place and \<open>set\<close> on an absent key appends; \<open>AList.update\<close>, \<open>AList.delete\<close>
  and \<open>map_of\<close> behave exactly so on association lists with distinct keys.  A \<open>Set\<close> is a
  distinct list with the same convention.
\<close>

named_theorems wf_intros "preservation of the well-formedness predicates"
named_theorems view_simps "how an operation changes what later reads see"

type_synonym 'v jsmap = "(string \<times> 'v) list"
type_synonym jsset = "string list"

abbreviation jsmap_set :: "string \<Rightarrow> 'v \<Rightarrow> 'v jsmap \<Rightarrow> 'v jsmap" where
  "jsmap_set \<equiv> AList.update"

abbreviation jsmap_delete :: "string \<Rightarrow> 'v jsmap \<Rightarrow> 'v jsmap" where
  "jsmap_delete \<equiv> AList.delete"

abbreviation jsmap_keys :: "'v jsmap \<Rightarrow> string list" where
  "jsmap_keys m \<equiv> map fst m"

abbreviation jsmap_has :: "'v jsmap \<Rightarrow> string \<Rightarrow> bool" where
  "jsmap_has m k \<equiv> map_of m k \<noteq> None"

abbreviation jsmap_wf :: "'v jsmap \<Rightarrow> bool" where
  "jsmap_wf m \<equiv> distinct (map fst m)"

definition jsset_add :: "string \<Rightarrow> jsset \<Rightarrow> jsset" where
  "jsset_add x s = (if x \<in> set s then s else s @ [x])"

definition jsset_delete :: "string \<Rightarrow> jsset \<Rightarrow> jsset" where
  "jsset_delete x s = removeAll x s"

text \<open>Object spread \<open>{...a, ...b}\<close> on objects with string values.\<close>

definition js_spread :: "'v jsmap \<Rightarrow> 'v jsmap \<Rightarrow> 'v jsmap" where
  "js_spread a b = fold (\<lambda>(k, v) m. AList.update k v m) b a"

text \<open>
  \<open>xs.slice(start, end)\<close>: a negative index counts from the end, both are clipped to the
  array, and an empty range gives the empty array.
\<close>

definition js_slice :: "int \<Rightarrow> int \<Rightarrow> 'a list \<Rightarrow> 'a list" where
  "js_slice start stop xs =
     (let n = int (length xs);
          s = (if start < 0 then max 0 (n + start) else min start n);
          e = (if stop < 0 then max 0 (n + stop) else min stop n)
      in take (nat (e - s)) (drop (nat s) xs))"

text \<open>\<open>s.startsWith(p)\<close> and \<open>s.slice(p.length)\<close>.\<close>

abbreviation starts_with :: "string \<Rightarrow> string \<Rightarrow> bool" where
  "starts_with p s \<equiv> prefix p s"

text \<open>\<open>v || d\<close> on an optional string: the empty string is falsy too.\<close>

definition str_or :: "string option \<Rightarrow> string \<Rightarrow> string" where
  "str_or v d = (case v of Some s \<Rightarrow> if s = [] then d else s | None \<Rightarrow> d)"

subsection \<open>Maps\<close>

lemma map_of_update [simp]: "map_of (AList.update k v m) = (map_of m)(k \<mapsto> v)"
  by (rule AList.update_conv')

lemma map_of_jsmap_delete [simp]: "map_of (AList.delete k m) = (map_of m)(k := None)"
  by (rule AList.delete_conv')

lemma update_fresh: "k \<notin> fst ` set m \<Longrightarrow> AList.update k v m = m @ [(k, v)]"
  by (induction m) auto

lemma jsmap_wf_update [wf_intros]: "jsmap_wf m \<Longrightarrow> jsmap_wf (AList.update k v m)"
  by (rule AList.distinct_update)

lemma jsmap_wf_delete [wf_intros]: "jsmap_wf m \<Longrightarrow> jsmap_wf (AList.delete k m)"
  by (rule AList.distinct_delete)

lemma jsmap_keys_set: "k \<in> set (jsmap_keys m) \<longleftrightarrow> jsmap_has m k"
  by (simp add: map_of_eq_None_iff)

lemma set_keys_update [simp]: "set (jsmap_keys (AList.update k v m)) = insert k (set (jsmap_keys m))"
  using AList.dom_update [of k v m] by simp

lemma set_update_wf:
  "jsmap_wf m \<Longrightarrow> set (AList.update k v m) = insert (k, v) {p \<in> set m. fst p \<noteq> k}"
  by (induction m) (auto simp: rev_image_eqI)

lemma set_delete_filter: "set (AList.delete k m) = {p \<in> set m. fst p \<noteq> k}"
  by (auto simp: AList.delete_eq)

lemma jsmap_wf_spread [wf_intros]: "jsmap_wf a \<Longrightarrow> jsmap_wf (js_spread a b)"
  unfolding js_spread_def
  by (induction b arbitrary: a) (auto intro: jsmap_wf_update)

lemma map_of_spread:
  "jsmap_wf b \<Longrightarrow> map_of (js_spread a b) k = (case map_of b k of None \<Rightarrow> map_of a k | Some v \<Rightarrow> Some v)"
  unfolding js_spread_def
proof (induction b arbitrary: a)
  case Nil
  then show ?case by simp
next
  case (Cons kv b)
  obtain k' v' where kv: "kv = (k', v')" by (cases kv)
  with Cons.prems have notin: "map_of b k' = None" by (auto simp: map_of_eq_None_iff)
  have "map_of (fold (\<lambda>(k, v) m. AList.update k v m) (kv # b) a) k =
        (case map_of b k of None \<Rightarrow> map_of (AList.update k' v' a) k | Some v \<Rightarrow> Some v)"
    using Cons.IH [of "AList.update k' v' a"] Cons.prems by (simp add: kv)
  then show ?case using notin by (auto simp: kv split: option.splits)
qed

subsection \<open>Sets\<close>

lemma set_jsset_add [simp]: "set (jsset_add x s) = insert x (set s)"
  by (auto simp: jsset_add_def)

lemma set_jsset_delete [simp]: "set (jsset_delete x s) = set s - {x}"
  by (auto simp: jsset_delete_def)

lemma distinct_jsset_add [wf_intros]: "distinct s \<Longrightarrow> distinct (jsset_add x s)"
  by (auto simp: jsset_add_def)

lemma distinct_jsset_delete [wf_intros]: "distinct s \<Longrightarrow> distinct (jsset_delete x s)"
  by (auto simp: jsset_delete_def distinct_removeAll)

lemma length_jsset_add: "length (jsset_add x s) = length s + (if x \<in> set s then 0 else 1)"
  by (simp add: jsset_add_def)

subsection \<open>Slices\<close>

lemma js_slice_full [simp]: "js_slice 0 (int (length xs)) xs = xs"
  by (simp add: js_slice_def)

lemma js_slice_nonneg:
  assumes "0 \<le> i" "0 \<le> j"
  shows "js_slice i j xs = take (nat j - nat i) (drop (nat i) xs)"
  using assms by (auto simp: js_slice_def Let_def min_def nat_diff_distrib')

lemma length_js_slice_nonneg:
  assumes "0 \<le> i" "i \<le> j" "j \<le> int (length xs)"
  shows "int (length (js_slice i j xs)) = j - i"
  using assms by (auto simp: js_slice_nonneg min_def)

lemma set_js_slice: "set (js_slice i j xs) \<subseteq> set xs"
  by (auto simp: js_slice_def Let_def dest: in_set_takeD in_set_dropD)

subsection \<open>Binary search\<close>

text \<open>
  The loop \<open>while (low < high) { mid = (low + high) >>> 1; if (p(xs[mid])) low = mid + 1
  else high = mid }\<close>.  The unsigned shift is a plain halving for arrays shorter than \<open>2^31\<close>.
\<close>

function bound_loop :: "('a \<Rightarrow> bool) \<Rightarrow> 'a list \<Rightarrow> nat \<Rightarrow> nat \<Rightarrow> nat" where
  "bound_loop p xs low high =
     (if low < high
      then let mid = (low + high) div 2
           in if p (xs ! mid) then bound_loop p xs (mid + 1) high else bound_loop p xs low mid
      else low)"
  by pat_completeness auto
termination
  by (relation "measure (\<lambda>(p, xs, low, high). high - low)") auto

declare bound_loop.simps [simp del]

lemma bound_loop_partition:
  assumes "\<And>i j. i \<le> j \<Longrightarrow> j < length xs \<Longrightarrow> p (xs ! j) \<Longrightarrow> p (xs ! i)"
    and "low \<le> high" "high \<le> length xs"
    and "\<And>i. i < low \<Longrightarrow> p (xs ! i)" "\<And>i. high \<le> i \<Longrightarrow> i < length xs \<Longrightarrow> \<not> p (xs ! i)"
  shows "bound_loop p xs low high = length (takeWhile p xs)"
  using assms
proof (induction p xs low high rule: bound_loop.induct)
  case (1 p xs low high)
  show ?case
  proof (cases "low < high")
    case False
    with "1.prems" have "low = high" by simp
    with "1.prems"(4,5) have "takeWhile p xs = take low xs"
      by (intro takeWhile_eq_take_P_nth) auto
    with \<open>low = high\<close> "1.prems"(3) have "length (takeWhile p xs) = low" by simp
    with False show ?thesis by (simp add: bound_loop.simps [of p xs low high])
  next
    case True
    define mid where "mid = (low + high) div 2"
    with True have mid: "low \<le> mid" "mid < high" "mid < length xs" using "1.prems"(3) by auto
    show ?thesis
    proof (cases "p (xs ! mid)")
      case pm: True
      have "bound_loop p xs (mid + 1) high = length (takeWhile p xs)"
        using True pm mid "1.prems" by (intro "1.IH"(1) [OF True mid_def]) (auto simp: less_Suc_eq_le)
      then show ?thesis
        using True pm by (simp add: bound_loop.simps [of p xs low high] mid_def Let_def)
    next
      case pm: False
      have "bound_loop p xs low mid = length (takeWhile p xs)"
        using True pm mid "1.prems" by (intro "1.IH"(2) [OF True mid_def]) auto
      then show ?thesis
        using True pm by (simp add: bound_loop.simps [of p xs low high] mid_def Let_def)
    qed
  qed
qed

lemma bound_loop_takeWhile:
  assumes "\<And>i j. i \<le> j \<Longrightarrow> j < length xs \<Longrightarrow> p (xs ! j) \<Longrightarrow> p (xs ! i)"
  shows "bound_loop p xs 0 (length xs) = length (takeWhile p xs)"
  using assms by (intro bound_loop_partition) auto

lemma take_length_takeWhile [simp]: "take (length (takeWhile p xs)) xs = takeWhile p xs"
  by (induction xs) auto

lemma drop_length_takeWhile [simp]: "drop (length (takeWhile p xs)) xs = dropWhile p xs"
  by (induction xs) auto

lemma takeWhile_eq_filter_prefix:
  assumes "\<And>i j. i \<le> j \<Longrightarrow> j < length xs \<Longrightarrow> p (xs ! j) \<Longrightarrow> p (xs ! i)"
  shows "takeWhile p xs = filter p xs \<and> dropWhile p xs = filter (\<lambda>x. \<not> p x) xs"
  using assms
proof (induction xs)
  case (Cons x xs)
  have IH: "takeWhile p xs = filter p xs \<and> dropWhile p xs = filter (\<lambda>x. \<not> p x) xs"
  proof (rule Cons.IH)
    fix i j assume "i \<le> j" "j < length xs" "p (xs ! j)"
    then show "p (xs ! i)" using Cons.prems [of "Suc i" "Suc j"] by simp
  qed
  have "\<forall>y \<in> set xs. \<not> p y" if "\<not> p x"
    using that Cons.prems [of 0 "Suc _"] by (fastforce simp: in_set_conv_nth)
  with IH show ?case by (auto simp: filter_empty_conv filter_id_conv)
qed simp

subsection \<open>Rolling windows\<close>

text \<open>The number of logged times in the window of length \<open>w\<close> that ends at \<open>u\<close>.\<close>

definition in_window :: "int \<Rightarrow> int \<Rightarrow> int list \<Rightarrow> int" where
  "in_window w u dl = int (length (filter (\<lambda>ts. u - w < ts \<and> ts \<le> u) dl))"

lemma length_filter_mono: "(\<And>x. x \<in> set xs \<Longrightarrow> P x \<Longrightarrow> Q x) \<Longrightarrow> length (filter P xs) \<le> length (filter Q xs)"
  by (induction xs) (auto intro: le_SucI)

lemma in_window_snoc:
  assumes "\<forall>ts \<in> set dl. ts \<le> now" "\<forall>u. in_window w u dl \<le> n" "0 < w"
    and "int (length (filter (\<lambda>ts. now - ts < w) dl)) < n"
  shows "in_window w u (dl @ [now]) \<le> n"
proof (cases "u < now")
  case True
  with assms(2) show ?thesis by (simp add: in_window_def)
next
  case False
  then have "length (filter (\<lambda>ts. u - w < ts \<and> ts \<le> u) dl) \<le> length (filter (\<lambda>ts. now - ts < w) dl)"
    by (intro length_filter_mono) auto
  with assms(4) show ?thesis by (simp add: in_window_def)
qed

subsection \<open>Sorting\<close>

text \<open>\<open>Array.prototype.sort\<close>: the stable sort for a comparison.\<close>

fun stable_insert :: "('a \<Rightarrow> 'a \<Rightarrow> bool) \<Rightarrow> 'a \<Rightarrow> 'a list \<Rightarrow> 'a list" where
  "stable_insert before x [] = [x]"
| "stable_insert before x (y # ys) =
     (if before y x then y # stable_insert before x ys else x # y # ys)"

definition stable_sort :: "('a \<Rightarrow> 'a \<Rightarrow> bool) \<Rightarrow> 'a list \<Rightarrow> 'a list" where
  "stable_sort before xs = foldr (stable_insert before) xs []"

lemma set_stable_insert [simp]: "set (stable_insert before x ys) = insert x (set ys)"
  by (induction ys) auto

lemma set_stable_sort [simp]: "set (stable_sort before xs) = set xs"
  unfolding stable_sort_def by (induction xs) auto

lemma distinct_map_stable_insert:
  "distinct (map f (stable_insert before x ys)) \<longleftrightarrow> f x \<notin> f ` set ys \<and> distinct (map f ys)"
  by (induction ys) auto

lemma distinct_map_stable_sort: "distinct (map f (stable_sort before xs)) \<longleftrightarrow> distinct (map f xs)"
proof (induction xs)
  case (Cons x xs)
  have "set (foldr (stable_insert before) xs []) = set xs" using set_stable_sort [of before xs] by (simp add: stable_sort_def)
  with Cons show ?case by (simp add: stable_sort_def distinct_map_stable_insert)
qed (simp add: stable_sort_def)

lemma length_stable_sort [simp]: "length (stable_sort before xs) = length xs"
proof -
  have "length (stable_insert before x ys) = Suc (length ys)" for x ys by (induction ys) auto
  then show ?thesis unfolding stable_sort_def by (induction xs) auto
qed

lemma stable_sort_ordered:
  assumes asym: "\<And>a b. a \<in> A \<Longrightarrow> b \<in> A \<Longrightarrow> before a b \<Longrightarrow> \<not> before b a"
    and trans: "\<And>a b c. a \<in> A \<Longrightarrow> b \<in> A \<Longrightarrow> c \<in> A \<Longrightarrow> \<not> before b a \<Longrightarrow> \<not> before c b \<Longrightarrow> \<not> before c a"
    and "set xs \<subseteq> A"
  shows "sorted_wrt (\<lambda>a b. \<not> before b a) (stable_sort before xs)"
  using assms(3)
proof (induction xs)
  case (Cons x xs)
  have "sorted_wrt (\<lambda>a b. \<not> before b a) (stable_insert before x ys)"
    if "sorted_wrt (\<lambda>a b. \<not> before b a) ys" "set ys \<subseteq> A" for ys
    using that
  proof (induction ys)
    case (Cons y ys)
    have A: "x \<in> A" "y \<in> A" "set ys \<subseteq> A" using \<open>set (x # xs) \<subseteq> A\<close> Cons.prems(2) by auto
    show ?case
    proof (cases "before y x")
      case True
      then have "\<not> before x y" using asym A by blast
      then show ?thesis using True Cons A by simp
    next
      case False
      have "\<not> before z x" if "z \<in> set ys" for z
        using trans [of x y z] A False Cons.prems(1) that by auto
      then show ?thesis using False Cons.prems(1) by simp
    qed
  qed simp
  moreover have "set (stable_sort before xs) \<subseteq> A" using Cons.prems by simp
  moreover have "stable_sort before (x # xs) = stable_insert before x (stable_sort before xs)" by (simp add: stable_sort_def)
  ultimately show ?case using Cons by simp
qed (simp add: stable_sort_def)

end
