(* ===== verification/JsNumber.thy ===== *)
theory JsNumber
  imports Prelude
begin

text \<open>
  JavaScript numbers.  A number is NaN, an infinity or a finite binary64 value, which is
  carried as the rational it denotes.  Every arithmetic operation computes the exact rational
  result and rounds it to the nearest binary64 value, ties to even, with gradual underflow and
  overflow to an infinity (\<open>fl\<close>).  The two zeros are one value: none of the modelled code
  divides by a zero whose sign it did not check or tells the zeros apart by other means.
\<close>

datatype jsnum = NaN | PInf | NInf | Fin rat

subsection \<open>Rounding to binary64\<close>

text \<open>The exponent of the leading binary digit of a positive rational.\<close>

definition ilog2 :: "rat \<Rightarrow> int" where
  "ilog2 x = (let (p, q) = quotient_of x; k = bitlen p - bitlen q
              in if 2 powi k \<le> x then k else k - 1)"

definition round_half_even :: "rat \<Rightarrow> int" where
  "round_half_even x =
     (let f = \<lfloor>x\<rfloor>; d = x - of_int f
      in if d < 1 / 2 then f else if d > 1 / 2 then f + 1 else if even f then f else f + 1)"

text \<open>The exponent of the unit in the last place: 53 bits of precision, least exponent -1074.\<close>

definition fexp :: "rat \<Rightarrow> int" where
  "fexp x = max (ilog2 \<bar>x\<bar> - 52) (-1074)"

definition fl_rat :: "rat \<Rightarrow> rat" where
  "fl_rat x = (if x = 0 then 0
               else of_int (round_half_even (x / 2 powi (fexp x))) * 2 powi (fexp x))"

definition fl :: "rat \<Rightarrow> jsnum" where
  "fl x = (let y = fl_rat x
           in if 2 ^ 1024 \<le> y then PInf else if y \<le> - (2 ^ 1024) then NInf else Fin y)"

lemma pow2_pos [simp]: "(0::rat) < 2 powi e"
  by simp

lemma pow2_mono: "a \<le> b \<Longrightarrow> (2::rat) powi a \<le> 2 powi b"
  by (rule power_int_increasing) auto

lemma pow2_less: "(2::rat) powi a < 2 powi b \<longleftrightarrow> a < b"
proof
  assume "(2::rat) powi a < 2 powi b"
  then show "a < b" using pow2_mono [of b a] by (meson not_le)
qed (rule power_int_strict_increasing, auto)

lemma pow2_add: "(2::rat) powi (a + b) = 2 powi a * 2 powi b"
  by (rule power_int_add) simp

lemma bitlen_bounds_rat:
  assumes "0 < p"
  shows "(2::rat) powi (bitlen p - 1) \<le> of_int p" "(of_int p :: rat) < 2 powi (bitlen p)"
proof -
  have b1: "1 \<le> bitlen p"
    using assms bitlen_nonneg [of p] bitlen_eq_zero_iff [of p] by linarith
  have "2 ^ nat (bitlen p - 1) \<le> p" "p < 2 ^ nat (bitlen p)"
    using bitlen_bounds [OF assms] by auto
  then have "(of_int (2 ^ nat (bitlen p - 1)) :: rat) \<le> of_int p"
    and "(of_int p :: rat) < of_int (2 ^ nat (bitlen p))"
    by (simp_all only: of_int_le_iff of_int_less_iff)
  then show "(2::rat) powi (bitlen p - 1) \<le> of_int p" "(of_int p :: rat) < 2 powi (bitlen p)"
    using b1 by (simp_all add: power_int_def)
qed

lemma ilog2_bounds:
  assumes "0 < x"
  shows "2 powi (ilog2 x) \<le> x" "x < 2 powi (ilog2 x + 1)"
proof -
  obtain p q where pq: "quotient_of x = (p, q)" by (cases "quotient_of x")
  then have x: "x = of_int p / of_int q" and q0: "0 < q"
    by (auto dest: quotient_of_div quotient_of_denom_pos)
  with assms have p0: "0 < p" by (simp add: zero_less_divide_iff)
  define k where "k = bitlen p - bitlen q"
  note P = bitlen_bounds_rat [OF p0] and Q = bitlen_bounds_rat [OF q0]
  have "(2::rat) powi (k - 1) * of_int q \<le> 2 powi (k - 1) * 2 powi (bitlen q)"
    using Q(2) by (intro mult_left_mono) auto
  also have "\<dots> = 2 powi (bitlen p - 1)" by (simp add: k_def flip: pow2_add)
  finally have lo: "2 powi (k - 1) \<le> x" using P(1) q0 by (simp add: x pos_le_divide_eq)
  have "of_int p < (2::rat) powi (bitlen p)" by (rule P(2))
  also have "\<dots> = 2 powi (k + 1) * 2 powi (bitlen q - 1)" by (simp add: k_def flip: pow2_add)
  also have "\<dots> \<le> 2 powi (k + 1) * of_int q" using Q(1) by (intro mult_left_mono) auto
  finally have hi: "x < 2 powi (k + 1)" using q0 by (simp add: x pos_divide_less_eq)
  have "ilog2 x = (if 2 powi k \<le> x then k else k - 1)"
    by (simp add: ilog2_def pq k_def)
  then show "2 powi (ilog2 x) \<le> x" "x < 2 powi (ilog2 x + 1)"
    using lo hi by (auto split: if_splits)
qed

lemma ilog2_less: "0 < x \<Longrightarrow> x < 2 powi k \<Longrightarrow> ilog2 x < k"
  using ilog2_bounds(1) [of x] pow2_less [of "ilog2 x" k] by (meson le_less_trans)

lemma ilog2_mono:
  assumes "0 < x" "x \<le> y"
  shows "ilog2 x \<le> ilog2 y"
proof -
  have "2 powi (ilog2 x) \<le> x" using assms ilog2_bounds by blast
  also have "\<dots> < 2 powi (ilog2 y + 1)" using assms ilog2_bounds(2) [of y] by linarith
  finally show ?thesis by (simp add: pow2_less)
qed

lemma fexp_mono: "0 < x \<Longrightarrow> x \<le> y \<Longrightarrow> fexp x \<le> fexp y"
  using ilog2_mono [of x y] by (simp add: fexp_def)

subsubsection \<open>Rounding to an integer\<close>

lemma round_half_even_of_int [simp]: "round_half_even (of_int n) = n"
  by (simp add: round_half_even_def)

lemma round_half_even_err: "\<bar>of_int (round_half_even x) - x\<bar> \<le> 1 / 2"
proof -
  have "of_int \<lfloor>x\<rfloor> \<le> x" "x < of_int \<lfloor>x\<rfloor> + 1" by linarith+
  then show ?thesis by (auto simp: round_half_even_def Let_def)
qed

lemma round_half_even_floor:
  "\<lfloor>x\<rfloor> \<le> round_half_even x" "round_half_even x \<le> \<lfloor>x\<rfloor> + 1"
  by (auto simp: round_half_even_def Let_def)

lemma round_half_even_mono:
  assumes "x \<le> y"
  shows "round_half_even x \<le> round_half_even y"
proof (cases "\<lfloor>x\<rfloor> = \<lfloor>y\<rfloor>")
  case True
  with assms show ?thesis by (auto simp: round_half_even_def Let_def)
next
  case False
  with assms have "\<lfloor>x\<rfloor> + 1 \<le> \<lfloor>y\<rfloor>" using floor_mono [OF assms] by linarith
  then show ?thesis using round_half_even_floor [of x] round_half_even_floor [of y] by linarith
qed

lemma round_half_even_minus: "round_half_even (- x) = - round_half_even x"
proof (cases "x = of_int \<lfloor>x\<rfloor>")
  case True
  then obtain n where "x = of_int n" by blast
  then show ?thesis
    using round_half_even_of_int [of "- n"] by (simp del: round_half_even_of_int) simp
next
  case False
  then have "\<lfloor>- x\<rfloor> = - \<lfloor>x\<rfloor> - 1"
    using of_int_floor_le [of x] by (intro floor_unique) (auto, linarith+)
  then show ?thesis
    using False by (auto simp: round_half_even_def Let_def)
qed

lemma round_half_even_le_int: "x \<le> of_int n \<Longrightarrow> round_half_even x \<le> n"
  using round_half_even_mono [of x "of_int n"] by simp

lemma round_half_even_ge_int: "of_int n \<le> x \<Longrightarrow> n \<le> round_half_even x"
  using round_half_even_mono [of "of_int n" x] by simp

subsubsection \<open>Rounding to binary64: exactness, symmetry, monotonicity\<close>

lemma fl_rat_0 [simp]: "fl_rat 0 = 0"
  by (simp add: fl_rat_def)

lemma fexp_minus [simp]: "fexp (- x) = fexp x"
  by (simp add: fexp_def)

lemma fl_rat_minus: "fl_rat (- x) = - fl_rat x"
  by (simp add: fl_rat_def round_half_even_minus)

lemma fl_rat_scaled:
  assumes "fexp x \<le> e" "x = of_int m * 2 powi e"
  shows "fl_rat x = x"
proof (cases "x = 0")
  case False
  define d where "d = nat (e - fexp x)"
  have "x / 2 powi (fexp x) = of_int m * (2 powi e / 2 powi (fexp x))" by (simp add: assms(2))
  also have "(2::rat) powi e / 2 powi (fexp x) = 2 powi (e - fexp x)" by (simp add: power_int_diff)
  also have "(2::rat) powi (e - fexp x) = of_int (2 ^ d)"
    using assms(1) by (simp add: power_int_def d_def)
  finally have eq: "x / 2 powi (fexp x) = of_int (m * 2 ^ d)" by simp
  have "fl_rat x = of_int (round_half_even (x / 2 powi (fexp x))) * 2 powi (fexp x)"
    using False by (simp add: fl_rat_def)
  also have "\<dots> = x / 2 powi (fexp x) * 2 powi (fexp x)"
    unfolding eq round_half_even_of_int ..
  finally show ?thesis by simp
qed simp

lemma fl_rat_exact_strict:
  assumes "\<bar>m\<bar> < 2 ^ 53" "-1074 \<le> e"
  shows "fl_rat (of_int m * 2 powi e) = of_int m * 2 powi e"
proof (cases "m = 0")
  case False
  let ?x = "of_int m * 2 powi e :: rat"
  have "\<bar>?x\<bar> = of_int \<bar>m\<bar> * 2 powi e" by (simp add: abs_mult)
  also have "\<dots> < of_int (2 ^ 53) * 2 powi e"
    using assms(1) by (intro mult_strict_right_mono) (simp_all only: of_int_less_iff pow2_pos)
  also have "of_int (2 ^ 53) * (2::rat) powi e = 2 powi (53 + e)"
    by (simp add: pow2_add)
  finally have "ilog2 \<bar>?x\<bar> < 53 + e"
    using False by (intro ilog2_less) auto
  then have "fexp ?x \<le> e" using assms(2) by (simp add: fexp_def)
  then show ?thesis by (rule fl_rat_scaled) simp
qed simp

lemma fl_rat_exact:
  assumes "\<bar>m\<bar> \<le> 2 ^ 53" "-1074 \<le> e"
  shows "fl_rat (of_int m * 2 powi e) = of_int m * 2 powi e"
proof (cases "\<bar>m\<bar> = 2 ^ 53")
  case True
  then obtain s :: int where s: "m = s * 2 ^ 53" "\<bar>s\<bar> = 1"
    by (cases "m < 0") (auto intro: that [of "-1"] that [of 1])
  have eq: "of_int m * 2 powi e = of_int (s * 2 ^ 52) * (2::rat) powi (e + 1)"
    by (simp add: s pow2_add)
  have "\<bar>s * 2 ^ 52\<bar> < 2 ^ 53" using s(2) by (simp add: abs_mult)
  then show ?thesis unfolding eq using assms(2) by (intro fl_rat_exact_strict) auto
next
  case False
  with assms show ?thesis by (intro fl_rat_exact_strict) auto
qed

lemma fl_rat_of_int: "\<bar>n\<bar> \<le> 2 ^ 53 \<Longrightarrow> fl_rat (of_int n) = of_int n"
  using fl_rat_exact [of n 0] by simp

lemma fl_rat_le_pow2:
  assumes "0 < x" "x \<le> 2 powi k" "fexp x \<le> k"
  shows "fl_rat x \<le> 2 powi k"
proof -
  define e where "e = fexp x"
  have k: "(2::rat) powi k = of_int (2 ^ nat (k - e)) * 2 powi e"
    using assms(3) by (simp add: e_def power_int_def [of _ "k - fexp x"] flip: pow2_add)
       (simp add: pow2_add [symmetric] flip: power_int_of_nat)
  have "x / 2 powi e \<le> of_int (2 ^ nat (k - e))"
    using assms(2) unfolding k by (simp add: pos_divide_le_eq)
  then have "(of_int (round_half_even (x / 2 powi e)) :: rat) \<le> of_int (2 ^ nat (k - e))"
    by (simp only: of_int_le_iff round_half_even_le_int)
  then have "of_int (round_half_even (x / 2 powi e)) * 2 powi e \<le> of_int (2 ^ nat (k - e)) * (2::rat) powi e"
    by (rule mult_right_mono) simp
  then show ?thesis unfolding k using assms(1) by (simp add: fl_rat_def e_def)
qed

lemma fl_rat_ge_pow2:
  assumes "0 < x" "2 powi k \<le> x" "fexp x \<le> k"
  shows "2 powi k \<le> fl_rat x"
proof -
  define e where "e = fexp x"
  have k: "(2::rat) powi k = of_int (2 ^ nat (k - e)) * 2 powi e"
    using assms(3) by (simp add: e_def power_int_def [of _ "k - fexp x"] flip: pow2_add)
       (simp add: pow2_add [symmetric] flip: power_int_of_nat)
  have "of_int (2 ^ nat (k - e)) \<le> x / 2 powi e"
    using assms(2) unfolding k by (simp add: pos_le_divide_eq)
  then have "(of_int (2 ^ nat (k - e)) :: rat) \<le> of_int (round_half_even (x / 2 powi e))"
    by (simp only: of_int_le_iff round_half_even_ge_int)
  then have "of_int (2 ^ nat (k - e)) * (2::rat) powi e \<le> of_int (round_half_even (x / 2 powi e)) * 2 powi e"
    by (rule mult_right_mono) simp
  then show ?thesis unfolding k using assms(1) by (simp add: fl_rat_def e_def)
qed

lemma fl_rat_nonneg: "0 \<le> x \<Longrightarrow> 0 \<le> fl_rat x"
  using round_half_even_ge_int [of 0 "x / 2 powi (fexp x)"] by (auto simp: fl_rat_def)

lemma fl_rat_mono_pos:
  assumes "0 < x" "x \<le> y"
  shows "fl_rat x \<le> fl_rat y"
proof (cases "fexp x = fexp y")
  case True
  have "round_half_even (x / 2 powi (fexp y)) \<le> round_half_even (y / 2 powi (fexp y))"
    using assms(2) by (intro round_half_even_mono divide_right_mono) auto
  then show ?thesis using assms by (simp add: fl_rat_def True)
next
  case False
  define k where "k = ilog2 y"
  have lt: "fexp x < fexp y" using False fexp_mono [OF assms] by simp
  have y0: "0 < y" using assms by simp
  have ab: "fexp x = max (ilog2 x - 52) (-1074)" "fexp y = max (k - 52) (-1074)"
    using assms y0 by (simp_all add: fexp_def k_def)
  have e: "fexp y = k - 52" "ilog2 x + 1 \<le> k" using lt ab by linarith+
  have "x \<le> 2 powi (ilog2 x + 1)" using ilog2_bounds(2) [OF assms(1)] by simp
  also have "(2::rat) powi (ilog2 x + 1) \<le> 2 powi k" using e(2) by (rule pow2_mono)
  finally have "fl_rat x \<le> 2 powi k" using lt e(1) assms(1) by (intro fl_rat_le_pow2) auto
  also have "2 powi k \<le> fl_rat y"
    using e(1) y0 ilog2_bounds(1) [OF y0] by (intro fl_rat_ge_pow2) (auto simp: k_def)
  finally show ?thesis .
qed

lemma fl_rat_mono:
  assumes "x \<le> y" shows "fl_rat x \<le> fl_rat y"
proof (cases "0 < x \<or> y < 0")
  case True
  then show ?thesis
  proof
    assume "0 < x" then show ?thesis using assms by (rule fl_rat_mono_pos)
  next
    assume "y < 0"
    then show ?thesis using fl_rat_mono_pos [of "- y" "- x"] assms by (simp add: fl_rat_minus)
  qed
next
  case False
  then have "fl_rat x \<le> 0" "0 \<le> fl_rat y"
    using fl_rat_nonneg [of "- x"] fl_rat_nonneg [of y] by (simp_all add: fl_rat_minus)
  then show ?thesis by simp
qed

lemma fl_rat_mantissa:
  assumes "x \<noteq> 0"
  obtains m e where "fl_rat x = of_int m * 2 powi e" "\<bar>m\<bar> \<le> 2 ^ 53" "-1074 \<le> e"
proof -
  define e where "e = fexp x"
  have e: "-1074 \<le> e" "ilog2 \<bar>x\<bar> + 1 \<le> 53 + e" unfolding e_def fexp_def by linarith+
  have "\<bar>x\<bar> \<le> 2 powi (ilog2 \<bar>x\<bar> + 1)" using ilog2_bounds(2) [of "\<bar>x\<bar>"] assms by simp
  also have "(2::rat) powi (ilog2 \<bar>x\<bar> + 1) \<le> 2 powi (53 + e)" using e(2) by (rule pow2_mono)
  also have "(2::rat) powi (53 + e) = 2 ^ 53 * 2 powi e" by (simp add: pow2_add)
  finally have "\<bar>x / 2 powi e\<bar> \<le> of_int (2 ^ 53)" by (simp add: pos_divide_le_eq)
  then have "x / 2 powi e \<le> of_int (2 ^ 53)" "of_int (- (2 ^ 53)) \<le> x / 2 powi e"
    unfolding abs_le_iff by auto
  then have "\<bar>round_half_even (x / 2 powi e)\<bar> \<le> 2 ^ 53"
    using round_half_even_le_int [of "x / 2 powi e" "2 ^ 53"]
      round_half_even_ge_int [of "- (2 ^ 53)" "x / 2 powi e"] by (simp add: abs_le_iff)
  then show ?thesis
    using that [of "round_half_even (x / 2 powi e)" e] assms e(1) by (simp add: fl_rat_def e_def)
qed

lemma fl_rat_idem [simp]: "fl_rat (fl_rat x) = fl_rat x"
proof (cases "x = 0")
  case False
  then show ?thesis by (rule fl_rat_mantissa) (simp add: fl_rat_exact)
qed simp

lemma fl_rat_err:
  assumes "x \<noteq> 0"
  shows "\<bar>fl_rat x - x\<bar> \<le> 2 powi (fexp x) / 2"
proof -
  let ?u = "(2::rat) powi (fexp x)"
  have "fl_rat x - x = (of_int (round_half_even (x / ?u)) - x / ?u) * ?u"
    using assms by (simp add: fl_rat_def algebra_simps)
  then have "\<bar>fl_rat x - x\<bar> = \<bar>of_int (round_half_even (x / ?u)) - x / ?u\<bar> * ?u"
    by (simp add: abs_mult)
  also have "\<dots> \<le> 1 / 2 * ?u"
    using round_half_even_err [of "x / ?u"] by (intro mult_right_mono) auto
  finally show ?thesis by simp
qed

lemma fl_rat_err_below:
  assumes "\<bar>x\<bar> < 2 powi k" "-1021 \<le> k"
  shows "\<bar>fl_rat x - x\<bar> \<le> 2 powi (k - 54)"
proof (cases "x = 0")
  case False
  then have "ilog2 \<bar>x\<bar> < k" using assms(1) by (intro ilog2_less) auto
  then have "fexp x \<le> k - 53" using assms(2) by (simp add: fexp_def)
  then have "(2 :: rat) powi (fexp x) \<le> 2 powi (k - 53)" by (rule pow2_mono)
  moreover have "(2 :: rat) powi (k - 53) = 2 * 2 powi (k - 54)" using pow2_add [of 1 "k - 54"] by simp
  ultimately show ?thesis using fl_rat_err [OF False] by simp
qed simp

text \<open>A value of type \<open>jsnum\<close> that is a JavaScript number.\<close>

definition is_dbl :: "jsnum \<Rightarrow> bool" where
  "is_dbl v = (case v of Fin x \<Rightarrow> fl_rat x = x \<and> \<bar>x\<bar> < 2 ^ 1024 | _ \<Rightarrow> True)"

lemma is_dbl_fl [simp]: "is_dbl (fl x)"
  by (auto simp: is_dbl_def fl_def Let_def abs_less_iff)

lemma fl_dbl: "is_dbl (Fin x) \<Longrightarrow> fl x = Fin x"
  by (auto simp: is_dbl_def fl_def Let_def abs_less_iff)

abbreviation num_of_int :: "int \<Rightarrow> jsnum" where
  "num_of_int n \<equiv> Fin (of_int n)"

lemma fl_of_int: "\<bar>n\<bar> \<le> 2 ^ 53 \<Longrightarrow> fl (of_int n) = num_of_int n"
proof -
  assume n: "\<bar>n\<bar> \<le> 2 ^ 53"
  have "(2::int) ^ 53 < 2 ^ 1024" by (rule power_strict_increasing) auto
  with n have "of_int n < (of_int (2 ^ 1024) :: rat)" "(of_int (- (2 ^ 1024)) :: rat) < of_int n"
    by (simp_all only: of_int_less_iff)
  then show ?thesis using n by (simp add: fl_def Let_def fl_rat_of_int not_le)
qed

lemma is_dbl_int: "\<bar>n\<bar> \<le> 2 ^ 53 \<Longrightarrow> is_dbl (num_of_int n)"
  using is_dbl_fl [of "of_int n"] by (simp add: fl_of_int)

subsection \<open>Comparison\<close>

fun js_lt :: "jsnum \<Rightarrow> jsnum \<Rightarrow> bool" where
  "js_lt (Fin x) (Fin y) = (x < y)"
| "js_lt NInf (Fin _) = True"
| "js_lt NInf PInf = True"
| "js_lt (Fin _) PInf = True"
| "js_lt _ _ = False"

definition js_eq :: "jsnum \<Rightarrow> jsnum \<Rightarrow> bool" where
  "js_eq a b = (a \<noteq> NaN \<and> a = b)"

definition js_le :: "jsnum \<Rightarrow> jsnum \<Rightarrow> bool" where
  "js_le a b = (js_lt a b \<or> js_eq a b)"

abbreviation js_gt :: "jsnum \<Rightarrow> jsnum \<Rightarrow> bool" where "js_gt a b \<equiv> js_lt b a"
abbreviation js_ge :: "jsnum \<Rightarrow> jsnum \<Rightarrow> bool" where "js_ge a b \<equiv> js_le b a"

definition truthy :: "jsnum \<Rightarrow> bool" where
  "truthy a = (a \<noteq> NaN \<and> a \<noteq> Fin 0)"

definition js_isFinite :: "jsnum \<Rightarrow> bool" where
  "js_isFinite a = (case a of Fin _ \<Rightarrow> True | _ \<Rightarrow> False)"

definition js_isInteger :: "jsnum \<Rightarrow> bool" where
  "js_isInteger a = (case a of Fin x \<Rightarrow> of_int \<lfloor>x\<rfloor> = x | _ \<Rightarrow> False)"

definition js_isSafeInteger :: "jsnum \<Rightarrow> bool" where
  "js_isSafeInteger a = (case a of Fin x \<Rightarrow> of_int \<lfloor>x\<rfloor> = x \<and> \<bar>x\<bar> \<le> 2 ^ 53 - 1 | _ \<Rightarrow> False)"

lemma js_le_Fin [simp]: "js_le (Fin x) (Fin y) = (x \<le> y)"
  by (auto simp: js_le_def js_eq_def)

lemma js_le_simps [simp]:
  "js_le a NaN = False" "js_le NaN a = False" "js_le NInf (Fin x)" "js_le (Fin x) PInf"
  "js_le NInf PInf" "\<not> js_le (Fin x) NInf" "\<not> js_le PInf (Fin x)" "\<not> js_le PInf NInf"
  "js_le PInf PInf" "js_le NInf NInf"
  by (cases a; simp add: js_le_def js_eq_def)+

lemma js_lt_NaN [simp]: "\<not> js_lt a NaN" "\<not> js_lt NaN a"
  by (cases a; simp)+

lemma js_lt_irrefl [simp]: "\<not> js_lt a a"
  by (cases a) auto

lemma js_lt_trans: "js_lt a b \<Longrightarrow> js_lt b c \<Longrightarrow> js_lt a c"
  by (cases a; cases b; cases c) auto

lemma js_le_trans: "js_le a b \<Longrightarrow> js_le b c \<Longrightarrow> js_le a c"
  by (cases a; cases b; cases c) auto

lemma js_not_lt: "a \<noteq> NaN \<Longrightarrow> b \<noteq> NaN \<Longrightarrow> \<not> js_lt a b \<longleftrightarrow> js_le b a"
  by (cases a; cases b) auto

lemma js_lt_le_trans: "js_lt a b \<Longrightarrow> js_le b c \<Longrightarrow> js_lt a c"
  by (cases a; cases b; cases c) auto

lemma js_le_lt_trans: "js_le a b \<Longrightarrow> js_lt b c \<Longrightarrow> js_lt a c"
  by (cases a; cases b; cases c) auto

lemma js_le_antisym: "js_le a b \<Longrightarrow> js_le b a \<Longrightarrow> a = b"
  by (cases a; cases b) auto

lemma js_le_refl [simp]: "js_le a a \<longleftrightarrow> a \<noteq> NaN"
  by (cases a) auto

lemma js_lt_imp_le: "js_lt a b \<Longrightarrow> js_le a b"
  by (simp add: js_le_def)

subsection \<open>Arithmetic\<close>

fun js_neg :: "jsnum \<Rightarrow> jsnum" where
  "js_neg NaN = NaN"
| "js_neg PInf = NInf"
| "js_neg NInf = PInf"
| "js_neg (Fin x) = Fin (- x)"

fun js_add :: "jsnum \<Rightarrow> jsnum \<Rightarrow> jsnum" where
  "js_add (Fin x) (Fin y) = fl (x + y)"
| "js_add NaN _ = NaN"
| "js_add _ NaN = NaN"
| "js_add PInf NInf = NaN"
| "js_add NInf PInf = NaN"
| "js_add PInf _ = PInf"
| "js_add NInf _ = NInf"
| "js_add (Fin _) b = b"

definition js_sub :: "jsnum \<Rightarrow> jsnum \<Rightarrow> jsnum" where
  "js_sub a b = js_add a (js_neg b)"

definition signed_inf :: "rat \<Rightarrow> jsnum" where
  "signed_inf x = (if x = 0 then NaN else if 0 < x then PInf else NInf)"

fun js_mul :: "jsnum \<Rightarrow> jsnum \<Rightarrow> jsnum" where
  "js_mul (Fin x) (Fin y) = fl (x * y)"
| "js_mul NaN _ = NaN"
| "js_mul _ NaN = NaN"
| "js_mul (Fin x) PInf = signed_inf x"
| "js_mul (Fin x) NInf = signed_inf (- x)"
| "js_mul PInf (Fin x) = signed_inf x"
| "js_mul NInf (Fin x) = signed_inf (- x)"
| "js_mul PInf b = b"
| "js_mul NInf b = js_neg b"

text \<open>Division; a zero divisor is taken as positive zero.\<close>

fun js_div :: "jsnum \<Rightarrow> jsnum \<Rightarrow> jsnum" where
  "js_div (Fin x) (Fin y) = (if y = 0 then signed_inf x else fl (x / y))"
| "js_div NaN _ = NaN"
| "js_div _ NaN = NaN"
| "js_div (Fin x) _ = Fin 0"
| "js_div PInf (Fin y) = (if 0 \<le> y then PInf else NInf)"
| "js_div NInf (Fin y) = (if 0 \<le> y then NInf else PInf)"
| "js_div _ _ = NaN"

fun js_abs :: "jsnum \<Rightarrow> jsnum" where
  "js_abs NaN = NaN"
| "js_abs (Fin x) = Fin \<bar>x\<bar>"
| "js_abs _ = PInf"

fun js_floor :: "jsnum \<Rightarrow> jsnum" where
  "js_floor (Fin x) = num_of_int \<lfloor>x\<rfloor>"
| "js_floor a = a"

fun js_ceil :: "jsnum \<Rightarrow> jsnum" where
  "js_ceil (Fin x) = num_of_int \<lceil>x\<rceil>"
| "js_ceil a = a"

definition js_max :: "jsnum \<Rightarrow> jsnum \<Rightarrow> jsnum" where
  "js_max a b = (if a = NaN \<or> b = NaN then NaN else if js_lt a b then b else a)"

definition js_min :: "jsnum \<Rightarrow> jsnum \<Rightarrow> jsnum" where
  "js_min a b = (if a = NaN \<or> b = NaN then NaN else if js_lt b a then b else a)"

text \<open>\<open>Math.max(...xs)\<close> and \<open>Math.min(...xs)\<close>.\<close>

definition js_max_list :: "jsnum list \<Rightarrow> jsnum" where
  "js_max_list xs = fold (\<lambda>x m. js_max m x) xs NInf"

definition js_min_list :: "jsnum list \<Rightarrow> jsnum" where
  "js_min_list xs = fold (\<lambda>x m. js_min m x) xs PInf"

text \<open>
  \<open>Number(x.toFixed(d))\<close>: the decimal with \<open>d\<close> fraction digits nearest to \<open>x\<close> (the larger
  of two equally near ones, on the absolute value), read back as a number; from \<open>1e21\<close> on
  \<open>toFixed\<close> prints the number itself.
\<close>

fun num_toFixed :: "nat \<Rightarrow> jsnum \<Rightarrow> jsnum" where
  "num_toFixed d (Fin x) =
     (if 10 ^ 21 \<le> \<bar>x\<bar> then Fin x
      else if 0 \<le> x then fl (of_int \<lfloor>x * 10 ^ d + 1 / 2\<rfloor> / 10 ^ d)
      else fl (- (of_int \<lfloor>- x * 10 ^ d + 1 / 2\<rfloor> / 10 ^ d)))"
| "num_toFixed d a = a"

lemma js_add_NaN [simp]: "js_add a NaN = NaN"
  by (cases a) auto

lemma js_mul_NaN [simp]: "js_mul a NaN = NaN"
  by (cases a) auto

lemma js_add_int:
  "\<bar>a + b\<bar> \<le> 2 ^ 53 \<Longrightarrow> js_add (num_of_int a) (num_of_int b) = num_of_int (a + b)"
  using fl_of_int [of "a + b"] by simp

lemma js_sub_int:
  "\<bar>a - b\<bar> \<le> 2 ^ 53 \<Longrightarrow> js_sub (num_of_int a) (num_of_int b) = num_of_int (a - b)"
  using fl_of_int [of "a - b"] by (simp add: js_sub_def)

lemma js_mul_int:
  "\<bar>a * b\<bar> \<le> 2 ^ 53 \<Longrightarrow> js_mul (num_of_int a) (num_of_int b) = num_of_int (a * b)"
  using fl_of_int [of "a * b"] by simp

lemma js_max_Fin [simp]: "js_max (Fin x) (Fin y) = Fin (max x y)"
  by (simp add: js_max_def max_def)

lemma js_min_Fin [simp]: "js_min (Fin x) (Fin y) = Fin (min x y)"
  by (auto simp: js_min_def min_def)

lemma js_max_ge: "a \<noteq> NaN \<Longrightarrow> b \<noteq> NaN \<Longrightarrow> js_le a (js_max a b) \<and> js_le b (js_max a b)"
  by (cases a; cases b) (auto simp: js_max_def)

lemma js_min_le: "a \<noteq> NaN \<Longrightarrow> b \<noteq> NaN \<Longrightarrow> js_le (js_min a b) a \<and> js_le (js_min a b) b"
  by (cases a; cases b) (auto simp: js_min_def)

lemma fl_mono: "x \<le> y \<Longrightarrow> js_le (fl x) (fl y)"
  using fl_rat_mono [of x y] by (auto simp: fl_def Let_def)

lemma fl_not_NaN [simp]: "fl x \<noteq> NaN"
  by (simp add: fl_def Let_def)

lemma fl_0 [simp]: "fl 0 = Fin 0"
  by (simp add: fl_def Let_def)

subsection \<open>Differences and extremes\<close>

lemma dbl_multiple:
  assumes "fl_rat x = x"
  obtains m where "x = of_int m * 2 powi (- 1074)"
proof (cases "x = 0")
  case True
  then show ?thesis using that [of 0] by simp
next
  case False
  then obtain m e where m: "fl_rat x = of_int m * 2 powi e" "-1074 \<le> e" by (rule fl_rat_mantissa)
  have "(2::rat) powi e = of_int (2 ^ nat (e + 1074)) * 2 powi (- 1074)"
    using m(2) pow2_add [of "e + 1074" "- 1074"] by (simp add: power_int_def [of _ "e + 1074"])
  then show ?thesis using that [of "m * 2 ^ nat (e + 1074)"] m(1) assms by simp
qed

text \<open>Gradual underflow: the difference of two distinct doubles does not round to zero.\<close>

lemma fl_rat_diff_pos:
  assumes "fl_rat x = x" "fl_rat y = y" "y < x"
  shows "0 < fl_rat (x - y)"
proof -
  obtain m where m: "x = of_int m * 2 powi (- 1074)" using assms(1) by (rule dbl_multiple)
  obtain n where n: "y = of_int n * 2 powi (- 1074)" using assms(2) by (rule dbl_multiple)
  have d: "x - y = of_int (m - n) * 2 powi (- 1074)" by (simp add: m n algebra_simps)
  from assms(3) have "n < m" by (simp add: m n)
  then have "1 * 2 powi (- 1074) \<le> x - y" unfolding d by (intro mult_right_mono) auto
  then have "fl_rat (of_int 1 * 2 powi (- 1074)) \<le> fl_rat (x - y)" by (intro fl_rat_mono) simp
  moreover have "fl_rat (of_int 1 * 2 powi (- 1074)) = of_int 1 * 2 powi (- 1074)"
    by (rule fl_rat_exact) auto
  ultimately show ?thesis by (simp add: order_less_le_trans [OF pow2_pos])
qed

lemma fl_rat_nonpos: "x \<le> 0 \<Longrightarrow> fl_rat x \<le> 0"
  using fl_rat_mono [of x 0] by simp

lemma js_min_list_Fin:
  assumes "xs \<noteq> []"
  shows "js_min_list (map Fin xs) = Fin (Min (set xs))"
proof -
  have "fold (\<lambda>x m. js_min m x) (map Fin ys) (Fin m) = Fin (Min (insert m (set ys)))" for ys m
  proof (induction ys arbitrary: m)
    case (Cons y ys)
    have "Min (insert (min m y) (set ys)) = Min (insert m (set (y # ys)))"
      by (cases "ys = []") (simp_all add: min.assoc insert_commute)
    then show ?case using Cons by simp
  qed simp
  moreover obtain y ys where "xs = y # ys" using assms by (cases xs) auto
  moreover have "js_min PInf (Fin y) = Fin y" for y by (simp add: js_min_def)
  ultimately show ?thesis by (simp add: js_min_list_def)
qed

lemma js_max_list_Fin:
  assumes "xs \<noteq> []"
  shows "js_max_list (map Fin xs) = Fin (Max (set xs))"
proof -
  have "fold (\<lambda>x m. js_max m x) (map Fin ys) (Fin m) = Fin (Max (insert m (set ys)))" for ys m
  proof (induction ys arbitrary: m)
    case (Cons y ys)
    have "Max (insert (max m y) (set ys)) = Max (insert m (set (y # ys)))"
      by (cases "ys = []") (simp_all add: max.assoc insert_commute)
    then show ?case using Cons by simp
  qed simp
  moreover obtain y ys where "xs = y # ys" using assms by (cases xs) auto
  moreover have "js_max NInf (Fin y) = Fin y" for y by (simp add: js_max_def)
  ultimately show ?thesis by (simp add: js_max_list_def)
qed

end
