(* ===== verification/JsText.thy ===== *)
theory JsText
  imports JsNumber "HOL-Library.Char_ord"
begin

text \<open>
  JavaScript text as the modelled code uses it: ASCII case mapping and trimming, printing of
  integers, \<open>parseInt(s, 10)\<close>, \<open>Number(s)\<close> on decimal literals, and string collation.
  Strings are lists of code units in the ASCII range; \<open>String.prototype.localeCompare\<close> is
  implementation-defined and stays a parameter (locale \<open>collation\<close>).
\<close>

subsection \<open>Case, white space\<close>

definition ascii_lower :: "char \<Rightarrow> char" where
  "ascii_lower c = (if CHR ''A'' \<le> c \<and> c \<le> CHR ''Z'' then char_of (of_char c + 32 :: nat) else c)"

definition ascii_upper :: "char \<Rightarrow> char" where
  "ascii_upper c = (if CHR ''a'' \<le> c \<and> c \<le> CHR ''z'' then char_of (of_char c - 32 :: nat) else c)"

definition toLowerCase :: "string \<Rightarrow> string" where
  "toLowerCase = map ascii_lower"

definition toUpperCase :: "string \<Rightarrow> string" where
  "toUpperCase = map ascii_upper"

definition is_space :: "char \<Rightarrow> bool" where
  "is_space c = (let n = of_char c :: nat in n = 32 \<or> (9 \<le> n \<and> n \<le> 13))"

definition trimStart :: "string \<Rightarrow> string" where
  "trimStart s = dropWhile is_space s"

definition trim :: "string \<Rightarrow> string" where
  "trim s = rev (dropWhile is_space (rev (dropWhile is_space s)))"

text \<open>\<open>s.includes(t)\<close>.\<close>

fun js_includes :: "string \<Rightarrow> string \<Rightarrow> bool" where
  "js_includes [] t = (t = [])"
| "js_includes (c # s) t = (starts_with t (c # s) \<or> js_includes s t)"

text \<open>\<open>s.replace(/[p]+/g, c)\<close>: each maximal run of characters with the property becomes one \<open>c\<close>.\<close>

function replace_runs :: "(char \<Rightarrow> bool) \<Rightarrow> char \<Rightarrow> string \<Rightarrow> string" where
  "replace_runs p c [] = []"
| "replace_runs p c (x # s) = (if p x then c # replace_runs p c (dropWhile p s) else x # replace_runs p c s)"
  by pat_completeness auto
termination by (relation "measure (\<lambda>(_, _, s). length s)") (auto simp: less_Suc_eq_le length_dropWhile_le)

lemma set_replace_runs: "x \<in> set (replace_runs p c s) \<Longrightarrow> x = c \<or> \<not> p x"
  by (induction p c s rule: replace_runs.induct) (auto split: if_splits)

subsection \<open>Decimal integers\<close>

definition digit_char :: "nat \<Rightarrow> char" where
  "digit_char d = char_of (48 + d)"

definition is_digit :: "char \<Rightarrow> bool" where
  "is_digit c = (let n = of_char c :: nat in 48 \<le> n \<and> n \<le> 57)"

definition digit_val :: "char \<Rightarrow> nat" where
  "digit_val c = of_char c - 48"

text \<open>The decimal digits of a non-negative integer.\<close>

function dec_digits :: "int \<Rightarrow> string" where
  "dec_digits n = (if n < 10 then [digit_char (nat n)]
                   else dec_digits (n div 10) @ [digit_char (nat (n mod 10))])"
  by pat_completeness auto
termination
  by (relation "measure nat") auto

declare dec_digits.simps [simp del]

text \<open>\<open>String(n)\<close> for an integer of magnitude at most \<open>2^53\<close>.\<close>

definition string_of_int :: "int \<Rightarrow> string" where
  "string_of_int n = (if n < 0 then CHR ''-'' # dec_digits (- n) else dec_digits n)"

definition int_of_digits :: "string \<Rightarrow> int" where
  "int_of_digits s = foldl (\<lambda>a c. 10 * a + int (digit_val c)) 0 s"

text \<open>\<open>parseInt(s, 10)\<close>: leading white space, an optional sign, the longest run of digits.\<close>

definition js_parseInt :: "string \<Rightarrow> jsnum" where
  "js_parseInt s =
     (let t = trimStart s;
          neg = (t \<noteq> [] \<and> hd t = CHR ''-'');
          body = (if t \<noteq> [] \<and> (hd t = CHR ''-'' \<or> hd t = CHR ''+'') then tl t else t);
          ds = takeWhile is_digit body
      in if ds = [] then NaN
         else fl (of_int (if neg then - int_of_digits ds else int_of_digits ds)))"

lemma is_digit_digit_char [simp]: "d < 10 \<Longrightarrow> is_digit (digit_char d)"
  by (simp add: is_digit_def digit_char_def Let_def)

lemma digit_val_digit_char [simp]: "d < 10 \<Longrightarrow> digit_val (digit_char d) = d"
  by (simp add: digit_val_def digit_char_def)

lemma is_digit_not_space: "is_digit c \<Longrightarrow> \<not> is_space c"
  by (simp add: is_digit_def is_space_def Let_def)

lemma not_is_digit [simp]: "\<not> is_digit CHR ''-''" "\<not> is_digit CHR ''+''" "\<not> is_digit CHR '':''"
  by (simp_all add: is_digit_def)

lemma dec_digits_ne [simp]: "dec_digits n \<noteq> []"
  by (subst dec_digits.simps) simp

lemma dec_digits_digits: "0 \<le> n \<Longrightarrow> \<forall>c \<in> set (dec_digits n). is_digit c"
proof (induction n rule: dec_digits.induct)
  case (1 n)
  show ?case
  proof (cases "n < 10")
    case False
    have "is_digit (digit_char (nat (n mod 10)))" by simp
    then show ?thesis using 1 False by (subst dec_digits.simps) auto
  next
    case True
    then show ?thesis using 1 by (subst dec_digits.simps) auto
  qed
qed

lemma int_of_digits_dec_digits [simp]: "0 \<le> n \<Longrightarrow> int_of_digits (dec_digits n) = n"
proof (induction n rule: dec_digits.induct)
  case (1 n)
  then show ?case
    by (cases "n < 10") (simp_all add: dec_digits.simps [of n] int_of_digits_def)
qed

lemma takeWhile_digits [simp]: "0 \<le> n \<Longrightarrow> takeWhile is_digit (dec_digits n) = dec_digits n"
  using dec_digits_digits [of n] by (subst takeWhile_eq_all_conv) auto

lemma hd_dec_digits: "0 \<le> n \<Longrightarrow> is_digit (hd (dec_digits n))"
  using dec_digits_digits [of n] by (metis hd_in_set dec_digits_ne)

lemma trimStart_dec_digits [simp]: "0 \<le> n \<Longrightarrow> trimStart (dec_digits n) = dec_digits n"
  using is_digit_not_space [OF hd_dec_digits [of n]]
  unfolding trimStart_def by (cases "dec_digits n") auto

lemma parseInt_string_of_int:
  assumes "\<bar>n\<bar> \<le> 2 ^ 53"
  shows "js_parseInt (string_of_int n) = num_of_int n"
proof (cases "n < 0")
  case True
  have "trimStart (CHR ''-'' # dec_digits (- n)) = CHR ''-'' # dec_digits (- n)"
    by (simp add: trimStart_def is_space_def Let_def)
  then show ?thesis using True assms fl_of_int [of n]
    by (simp add: js_parseInt_def string_of_int_def Let_def)
next
  case False
  have "hd (dec_digits n) \<noteq> CHR ''-''" "hd (dec_digits n) \<noteq> CHR ''+''"
    using hd_dec_digits [of n] False by (metis not_less not_is_digit(1), metis not_less not_is_digit(2))
  then show ?thesis using False assms fl_of_int [of n]
    by (simp add: js_parseInt_def string_of_int_def Let_def)
qed

lemma string_of_int_ne [simp]: "string_of_int n \<noteq> []"
  by (simp add: string_of_int_def)

lemma string_of_int_inj_nonneg: "0 \<le> m \<Longrightarrow> 0 \<le> n \<Longrightarrow> string_of_int m = string_of_int n \<longleftrightarrow> m = n"
  by (simp add: string_of_int_def) (metis int_of_digits_dec_digits)

subsection \<open>Printing and reading numbers\<close>

text \<open>
  \<open>String(x)\<close>.  An integer of magnitude at most \<open>2^53\<close> prints as its decimal digits.  Any other
  finite number prints the shortest digit string that reads back as the number (at most 17
  digits), positioned by its decimal exponent.
\<close>

definition dec_exp :: "rat \<Rightarrow> int" where
  "dec_exp x = (let e = ilog2 x * 30103 div 100000 + 1
                in if x < 10 powi (e - 1) then e - 1 else if 10 powi e \<le> x then e + 1 else e)"

fun shortest_digits :: "nat \<Rightarrow> rat \<Rightarrow> int \<Rightarrow> int \<Rightarrow> int \<times> int" where
  "shortest_digits fuel x n k =
     (let s = \<lfloor>x * 10 powi (k - n) + 1 / 2\<rfloor>
      in if fuel = 0 \<or> fl_rat (of_int s * 10 powi (n - k)) = x
         then (if s = 10 ^ nat k then (s div 10, n + 1) else (s, n))
         else shortest_digits (fuel - 1) x n (k + 1))"

declare shortest_digits.simps [simp del]

definition string_of_pos :: "rat \<Rightarrow> string" where
  "string_of_pos x =
     (let (s, n) = shortest_digits 16 x (dec_exp x) 1;
          ds = dec_digits s; k = int (length ds);
          ex = (if 0 \<le> n - 1 then CHR ''+'' # string_of_int (n - 1) else string_of_int (n - 1))
      in if k \<le> n \<and> n \<le> 21 then ds @ replicate (nat (n - k)) CHR ''0''
         else if 0 < n \<and> n \<le> 21 then take (nat n) ds @ CHR ''.'' # drop (nat n) ds
         else if -6 < n \<and> n \<le> 0 then ''0.'' @ replicate (nat (- n)) CHR ''0'' @ ds
         else if k = 1 then ds @ CHR ''e'' # ex
         else hd ds # CHR ''.'' # tl ds @ CHR ''e'' # ex)"

fun string_of_num :: "jsnum \<Rightarrow> string" where
  "string_of_num NaN = ''NaN''"
| "string_of_num PInf = ''Infinity''"
| "string_of_num NInf = ''-Infinity''"
| "string_of_num (Fin x) =
     (if of_int \<lfloor>x\<rfloor> = x \<and> \<bar>x\<bar> \<le> 2 ^ 53 then string_of_int \<lfloor>x\<rfloor>
      else if x < 0 then CHR ''-'' # string_of_pos (- x) else string_of_pos x)"

lemma string_of_num_int [simp]: "\<bar>n\<bar> \<le> 2 ^ 53 \<Longrightarrow> string_of_num (num_of_int n) = string_of_int n"
proof -
  assume "\<bar>n\<bar> \<le> 2 ^ 53"
  then have "(of_int \<bar>n\<bar> :: rat) \<le> of_int (2 ^ 53)" by (simp only: of_int_le_iff)
  then show ?thesis by simp
qed

text \<open>The longest prefix that is a decimal literal, with its value and the rest.\<close>

definition decimal_prefix :: "string \<Rightarrow> (rat \<times> string) option" where
  "decimal_prefix s =
     (let ip = takeWhile is_digit s; r1 = dropWhile is_digit s;
          dot = (r1 \<noteq> [] \<and> hd r1 = CHR ''.'');
          fp = (if dot then takeWhile is_digit (tl r1) else []);
          r2 = (if dot \<and> (ip \<noteq> [] \<or> fp \<noteq> []) then dropWhile is_digit (tl r1) else r1);
          m = of_int (int_of_digits (ip @ fp)) / 10 ^ length fp :: rat
      in if ip = [] \<and> fp = [] then None
         else let e = (r2 \<noteq> [] \<and> (hd r2 = CHR ''e'' \<or> hd r2 = CHR ''E''));
                  r3 = (if e then tl r2 else []);
                  sg = (r3 \<noteq> [] \<and> (hd r3 = CHR ''+'' \<or> hd r3 = CHR ''-''));
                  r4 = (if sg then tl r3 else r3);
                  ep = takeWhile is_digit r4;
                  x = (if sg \<and> hd r3 = CHR ''-'' then - int_of_digits ep else int_of_digits ep)
              in if e \<and> ep \<noteq> [] then Some (m * 10 powi x, dropWhile is_digit r4) else Some (m, r2))"

text \<open>\<open>parseFloat(s)\<close>.\<close>

definition js_parseFloat :: "string \<Rightarrow> jsnum" where
  "js_parseFloat s =
     (let t = trimStart s;
          neg = (t \<noteq> [] \<and> hd t = CHR ''-'');
          body = (if t \<noteq> [] \<and> (hd t = CHR ''-'' \<or> hd t = CHR ''+'') then tl t else t)
      in if prefix ''Infinity'' body then (if neg then NInf else PInf)
         else case decimal_prefix body of None \<Rightarrow> NaN
              | Some (m, _) \<Rightarrow> fl (if neg then - m else m))"

text \<open>The hexadecimal, octal and binary forms of \<open>Number(s)\<close>, which take no sign.\<close>

definition radix_val :: "char \<Rightarrow> nat" where
  "radix_val c =
     (let n = of_char c :: nat
      in if is_digit c then digit_val c
         else if 97 \<le> n \<and> n \<le> 102 then n - 87 else if 65 \<le> n \<and> n \<le> 70 then n - 55 else 36)"

definition radix_literal :: "string \<Rightarrow> jsnum" where
  "radix_literal t =
     (case t of
        z # x # ds \<Rightarrow>
          let base = (if x \<in> set ''xX'' then 16 else if x \<in> set ''oO'' then 8 else if x \<in> set ''bB'' then 2 else 0)
          in if z = CHR ''0'' \<and> ds \<noteq> [] \<and> list_all (\<lambda>c. radix_val c < base) ds
             then fl (of_int (foldl (\<lambda>a c. int base * a + int (radix_val c)) 0 ds)) else NaN
      | _ \<Rightarrow> NaN)"

text \<open>\<open>Number(s)\<close>.\<close>

definition js_Number :: "string \<Rightarrow> jsnum" where
  "js_Number s =
     (let t = trim s;
          neg = (t \<noteq> [] \<and> hd t = CHR ''-'');
          body = (if t \<noteq> [] \<and> (hd t = CHR ''-'' \<or> hd t = CHR ''+'') then tl t else t)
      in if t = [] then Fin 0
         else if body = ''Infinity'' then (if neg then NInf else PInf)
         else case decimal_prefix body of
                Some (m, []) \<Rightarrow> fl (if neg then - m else m)
              | _ \<Rightarrow> radix_literal t)"

lemma trim_dec_digits [simp]: "0 \<le> n \<Longrightarrow> trim (dec_digits n) = dec_digits n"
proof -
  assume n: "0 \<le> n"
  have "\<not> is_space (last (dec_digits n))"
    using dec_digits_digits [OF n] is_digit_not_space by (meson dec_digits_ne last_in_set)
  then have "dropWhile is_space (rev (dec_digits n)) = rev (dec_digits n)"
    by (cases "rev (dec_digits n)") (auto simp: last_conv_nth hd_rev [symmetric])
  then show ?thesis using n using trimStart_dec_digits [OF n] by (simp add: trim_def trimStart_def)
qed

lemma js_Number_dec_digits:
  assumes "0 \<le> n" "n \<le> 2 ^ 53"
  shows "js_Number (string_of_int n) = num_of_int n"
proof -
  let ?d = "dec_digits n"
  have hd: "is_digit (hd ?d)" using assms(1) by (rule hd_dec_digits)
  then have sign: "hd ?d \<noteq> CHR ''-''" "hd ?d \<noteq> CHR ''+''" by (metis not_is_digit(1), metis not_is_digit(2))
  have inf: "?d \<noteq> ''Infinity''"
  proof
    assume "?d = ''Infinity''"
    with hd show False by (simp add: is_digit_def)
  qed
  have "dropWhile is_digit ?d = []" using dec_digits_digits [OF assms(1)] by (simp add: dropWhile_eq_Nil_conv)
  then have "decimal_prefix ?d = Some (of_int n, [])"
    using assms(1) by (simp add: decimal_prefix_def Let_def)
  then show ?thesis using assms sign inf fl_of_int [of n]
    by (simp add: js_Number_def string_of_int_def Let_def)
qed

subsection \<open>Collation\<close>

text \<open>
  \<open>a.localeCompare(b)\<close>: ECMAScript asks for a consistent comparison function, a total order on
  classes of equivalent strings; distinct strings may be equivalent.
\<close>

locale collation =
  fixes lc :: "string \<Rightarrow> string \<Rightarrow> int"
  assumes lc_refl: "lc a a = 0"
    and lc_sym: "lc a b < 0 \<longleftrightarrow> 0 < lc b a"
    and lc_trans: "lc a b \<le> 0 \<Longrightarrow> lc b c \<le> 0 \<Longrightarrow> lc a c \<le> 0"

text \<open>
  A collation that tells the strings of a given set apart: those a sorted set has as members.  No
  collation need tell all strings apart, since canonically equivalent ones compare equal.
\<close>

locale strict_collation = collation +
  fixes M :: "string set"
  assumes lc_eq: "a \<in> M \<Longrightarrow> b \<in> M \<Longrightarrow> lc a b = 0 \<Longrightarrow> a = b"

text \<open>Comparison by code units, the collation of the "C" locale.\<close>

fun code_unit_compare :: "string \<Rightarrow> string \<Rightarrow> int" where
  "code_unit_compare [] [] = 0"
| "code_unit_compare [] (_ # _) = -1"
| "code_unit_compare (_ # _) [] = 1"
| "code_unit_compare (x # xs) (y # ys) =
     (if x < y then -1 else if y < x then 1 else code_unit_compare xs ys)"

lemma code_unit_compare_eq: "code_unit_compare a b = 0 \<longleftrightarrow> a = b"
  by (induction a b rule: code_unit_compare.induct) auto

lemma code_unit_compare_sym: "code_unit_compare a b < 0 \<longleftrightarrow> 0 < code_unit_compare b a"
  by (induction a b rule: code_unit_compare.induct) auto

lemma code_unit_compare_trans:
  "code_unit_compare a b \<le> 0 \<Longrightarrow> code_unit_compare b c \<le> 0 \<Longrightarrow> code_unit_compare a c \<le> 0"
proof (induction a b arbitrary: c rule: code_unit_compare.induct)
  case (4 x xs y ys)
  then show ?case by (cases c) (auto split: if_splits)
next
  case (2 y ys)
  then show ?case by (cases c) auto
qed auto

interpretation code_unit: strict_collation code_unit_compare UNIV
proof
  show "code_unit_compare a a = 0" for a by (simp add: code_unit_compare_eq)
  show "code_unit_compare a b < 0 \<longleftrightarrow> 0 < code_unit_compare b a" for a b
    by (rule code_unit_compare_sym)
  show "code_unit_compare a b \<le> 0 \<Longrightarrow> code_unit_compare b c \<le> 0 \<Longrightarrow> code_unit_compare a c \<le> 0" for a b c
    by (rule code_unit_compare_trans)
  show "code_unit_compare a b = 0 \<Longrightarrow> a = b" for a b by (simp add: code_unit_compare_eq)
qed

end
