(* ===== verification/RedisZset.thy ===== *)
theory RedisZset
  imports JsText
begin

text \<open>
  Sorted sets of the in-process Redis (\<open>lib/redis-db.ts\<close>): entries kept in an array ordered by
  score and member, next to an index from member to entry.  The definitions follow
  \<open>compareSortedSetEntries\<close>, \<open>createSortedSet\<close>, the three binary searches and the bodies of
  the \<open>z*\<close> commands; the commands themselves, with expiry and dirty tracking, are in
  \<open>RedisStore\<close>.  The lemmas show that the array stays strictly ordered and in step with the
  index, and that the commands implement a map from members to scores.
\<close>

record SortedSetEntry =
  score :: jsnum
  member :: string

record SortedSetData =
  entries :: "SortedSetEntry list"
  memberIndex :: "SortedSetEntry jsmap"

type_synonym collate = "string \<Rightarrow> string \<Rightarrow> int"

definition compareSortedSetEntries :: "collate \<Rightarrow> SortedSetEntry \<Rightarrow> SortedSetEntry \<Rightarrow> jsnum" where
  "compareSortedSetEntries lc a b =
     (let d = js_sub (score a) (score b)
      in if truthy d then d else num_of_int (lc (member a) (member b)))"

text \<open>The test \<open>compareSortedSetEntries(a, b) < 0\<close>.\<close>

definition entry_before :: "collate \<Rightarrow> SortedSetEntry \<Rightarrow> SortedSetEntry \<Rightarrow> bool" where
  "entry_before lc a b = js_lt (compareSortedSetEntries lc a b) (Fin 0)"

definition createSortedSet :: "collate \<Rightarrow> SortedSetEntry list \<Rightarrow> SortedSetData" where
  "createSortedSet lc es =
     (let index = fold (\<lambda>e m. if js_isFinite (score e) then AList.update (member e) e m else m) es []
      in \<lparr>entries = stable_sort (entry_before lc) (map snd index), memberIndex = index\<rparr>)"

definition lowerBoundByScore :: "SortedSetEntry list \<Rightarrow> jsnum \<Rightarrow> nat" where
  "lowerBoundByScore es s = bound_loop (\<lambda>e. js_lt (score e) s) es 0 (length es)"

definition upperBoundByScore :: "SortedSetEntry list \<Rightarrow> jsnum \<Rightarrow> nat" where
  "upperBoundByScore es s = bound_loop (\<lambda>e. js_le (score e) s) es 0 (length es)"

definition insertionIndex :: "collate \<Rightarrow> SortedSetEntry list \<Rightarrow> SortedSetEntry \<Rightarrow> nat" where
  "insertionIndex lc es e = bound_loop (\<lambda>x. entry_before lc x e) es 0 (length es)"

definition splice_insert :: "nat \<Rightarrow> 'a \<Rightarrow> 'a list \<Rightarrow> 'a list" where
  "splice_insert i x xs = take i xs @ x # drop i xs"

definition splice_remove :: "nat \<Rightarrow> nat \<Rightarrow> 'a list \<Rightarrow> 'a list" where
  "splice_remove i n xs = take i xs @ drop (i + n) xs"

text \<open>The part of \<open>zadd\<close> that works on the sorted set: the reply and the new set.\<close>

definition zset_add :: "collate \<Rightarrow> SortedSetData \<Rightarrow> jsnum \<Rightarrow> string \<Rightarrow> int \<times> SortedSetData" where
  "zset_add lc z s m =
     (let entry = \<lparr>score = s, member = m\<rparr>
      in case map_of (memberIndex z) m of
           Some existing \<Rightarrow>
             let i = insertionIndex lc (entries z) existing;
                 es = (if i < length (entries z) \<and> member (entries z ! i) = m
                       then splice_remove i 1 (entries z) else entries z)
             in (0, \<lparr>entries = splice_insert (insertionIndex lc es entry) entry es,
                     memberIndex = AList.update m entry (memberIndex z)\<rparr>)
         | None \<Rightarrow>
             (1, \<lparr>entries = splice_insert (insertionIndex lc (entries z) entry) entry (entries z),
                  memberIndex = AList.update m entry (memberIndex z)\<rparr>))"

definition zset_delete_members :: "SortedSetEntry list \<Rightarrow> SortedSetEntry jsmap \<Rightarrow> SortedSetEntry jsmap" where
  "zset_delete_members es idx = fold (\<lambda>e m. AList.delete (member e) m) es idx"

text \<open>Remove the entries at positions \<open>start, ..., start + length removed - 1\<close>, all of which are \<open>removed\<close>.\<close>

definition zset_remove_range :: "SortedSetData \<Rightarrow> nat \<Rightarrow> SortedSetEntry list \<Rightarrow> SortedSetData" where
  "zset_remove_range z start removed =
     \<lparr>entries = splice_remove start (length removed) (entries z),
      memberIndex = zset_delete_members removed (memberIndex z)\<rparr>"

definition zset_slice_by_score :: "SortedSetEntry list \<Rightarrow> jsnum \<Rightarrow> jsnum \<Rightarrow> SortedSetEntry list" where
  "zset_slice_by_score es lo hi =
     js_slice (int (lowerBoundByScore es lo)) (int (upperBoundByScore es hi)) es"

text \<open>The range limits: \<open>"-inf"\<close>, \<open>"+inf"\<close>, or a number; NaN falls back to the default.\<close>

datatype score_limit = MinusInf | PlusInf | Limit jsnum

fun parseSortedSetScore :: "score_limit \<Rightarrow> jsnum \<Rightarrow> jsnum" where
  "parseSortedSetScore MinusInf _ = NInf"
| "parseSortedSetScore PlusInf _ = PInf"
| "parseSortedSetScore (Limit v) fallbackInfinity = (if v = NaN then fallbackInfinity else v)"

subsection \<open>The order on entries\<close>

text \<open>Scores for which subtraction compares: numbers other than NaN.\<close>

definition good_score :: "jsnum \<Rightarrow> bool" where
  "good_score s = (s \<noteq> NaN \<and> is_dbl s)"

lemma fl_diff_sign:
  assumes "fl_rat x = x" "fl_rat y = y"
  shows "js_lt (fl (x - y)) (Fin 0) \<longleftrightarrow> x < y" "fl (x - y) = Fin 0 \<longleftrightarrow> x = y"
proof -
  consider "x < y" | "x = y" | "y < x" by linarith
  then have "(js_lt (fl (x - y)) (Fin 0) \<longleftrightarrow> x < y) \<and> (fl (x - y) = Fin 0 \<longleftrightarrow> x = y)"
  proof cases
    case 1
    then have "fl_rat (x - y) < 0"
      using fl_rat_diff_pos [of y x] assms fl_rat_minus [of "y - x"] by simp
    with 1 show ?thesis by (auto simp: fl_def Let_def)
  next
    case 3
    then have "0 < fl_rat (x - y)" using fl_rat_diff_pos assms by blast
    with 3 show ?thesis by (auto simp: fl_def Let_def)
  qed simp
  then show "js_lt (fl (x - y)) (Fin 0) \<longleftrightarrow> x < y" "fl (x - y) = Fin 0 \<longleftrightarrow> x = y" by blast+
qed

lemma entry_before_iff:
  assumes "good_score (score a)" "good_score (score b)"
  shows "entry_before lc a b \<longleftrightarrow>
    js_lt (score a) (score b) \<or> score a = score b \<and> lc (member a) (member b) < 0"
proof (cases "score a"; cases "score b")
  fix x y assume s: "score a = Fin x" "score b = Fin y"
  then have d: "fl_rat x = x" "fl_rat y = y" using assms by (auto simp: good_score_def is_dbl_def)
  show ?thesis using fl_diff_sign [OF d] s
    by (auto simp: entry_before_def compareSortedSetEntries_def js_sub_def truthy_def Let_def)
qed (use assms in \<open>auto simp: good_score_def entry_before_def compareSortedSetEntries_def js_sub_def truthy_def Let_def\<close>)

subsection \<open>Well-formed sorted sets\<close>

definition zset_wf :: "collate \<Rightarrow> string set \<Rightarrow> SortedSetData \<Rightarrow> bool" where
  "zset_wf lc M z \<longleftrightarrow>
     sorted_wrt (entry_before lc) (entries z) \<and> list_all (good_score \<circ> score) (entries z) \<and>
     distinct (map member (entries z)) \<and> member ` set (entries z) \<subseteq> M \<and> jsmap_wf (memberIndex z) \<and>
     set (memberIndex z) = (\<lambda>e. (member e, e)) ` set (entries z)"

text \<open>What a sorted set means: the map from members to scores that its array holds.\<close>

definition zset_abs :: "SortedSetData \<Rightarrow> string \<Rightarrow> jsnum option" where
  "zset_abs z m = map_option score (find (\<lambda>e. member e = m) (entries z))"

lemma zset_wf_lookup:
  assumes "zset_wf lc M z"
  shows "map_of (memberIndex z) m = Some e \<longleftrightarrow> e \<in> set (entries z) \<and> member e = m"
  using assms by (auto simp: zset_wf_def)

lemma zset_wf_lookup_None:
  assumes "zset_wf lc M z"
  shows "map_of (memberIndex z) m = None \<longleftrightarrow> m \<notin> member ` set (entries z)"
  using zset_wf_lookup [OF assms, of m] by (metis image_iff not_None_eq)

lemma zset_abs_index:
  assumes wf: "zset_wf lc M z"
  shows "zset_abs z m = map_option score (map_of (memberIndex z) m)"
proof (cases "map_of (memberIndex z) m")
  case None
  then have "find (\<lambda>e. member e = m) (entries z) = None"
    using zset_wf_lookup_None [OF wf, of m] by (auto simp: find_None_iff)
  then show ?thesis using None by (simp add: zset_abs_def)
next
  case (Some e)
  then have e: "e \<in> set (entries z)" "member e = m" using zset_wf_lookup [OF wf] by auto
  then obtain e' where f: "find (\<lambda>e. member e = m) (entries z) = Some e'" by (cases "find (\<lambda>e. member e = m) (entries z)") (auto simp: find_None_iff)
  then have "e' \<in> set (entries z)" "member e' = m" by (auto simp: find_Some_iff)
  then have "e' = e" using e wf by (auto simp: zset_wf_def distinct_map inj_on_def)
  then show ?thesis using f Some by (simp add: zset_abs_def)
qed

lemma zset_wf_good: "zset_wf lc M z \<Longrightarrow> e \<in> set (entries z) \<Longrightarrow> good_score (score e)"
  by (auto simp: zset_wf_def list_all_iff)

lemma zset_wf_empty [simp]: "zset_wf lc M \<lparr>entries = [], memberIndex = []\<rparr>"
  by (simp add: zset_wf_def)

lemma createSortedSet_empty [simp]: "createSortedSet lc [] = \<lparr>entries = [], memberIndex = []\<rparr>"
  by (simp add: createSortedSet_def stable_sort_def)

lemma set_splice_insert [simp]: "set (splice_insert i x xs) = insert x (set xs)"
  by (metis (no_types, lifting) Un_insert_right append_take_drop_id list.simps(15) set_append splice_insert_def)

lemma distinct_splice_insert:
  "distinct (map f (splice_insert i x xs)) \<longleftrightarrow> f x \<notin> f ` set xs \<and> distinct (map f xs)"
proof -
  have "distinct (map f xs) = distinct (map f (take i xs @ drop i xs))" by simp
  moreover have "f ` set xs = f ` set (take i xs) \<union> f ` set (drop i xs)"
    by (metis append_take_drop_id image_Un set_append)
  ultimately show ?thesis unfolding splice_insert_def by (auto simp del: append_take_drop_id)
qed

text \<open>Scores never decrease along the array, so a test on the score is true on a prefix.\<close>

lemma sorted_scores:
  assumes "sorted_wrt (entry_before lc) es" "list_all (good_score \<circ> score) es"
    and "i \<le> j" "j < length es"
  shows "js_le (score (es ! i)) (score (es ! j))"
proof (cases "i = j")
  case True
  then show ?thesis using assms by (auto simp: list_all_length good_score_def)
next
  case False
  with assms have "entry_before lc (es ! i) (es ! j)" by (auto simp: sorted_wrt_iff_nth_less)
  then show ?thesis using assms by (auto simp: entry_before_iff list_all_length good_score_def js_le_def js_eq_def)
qed

lemma lowerBoundByScore_takeWhile:
  assumes "sorted_wrt (entry_before lc) es" "list_all (good_score \<circ> score) es"
  shows "lowerBoundByScore es s = length (takeWhile (\<lambda>e. js_lt (score e) s) es)"
  unfolding lowerBoundByScore_def
  using sorted_scores [OF assms] by (intro bound_loop_takeWhile) (blast intro: js_le_lt_trans)

lemma upperBoundByScore_takeWhile:
  assumes "sorted_wrt (entry_before lc) es" "list_all (good_score \<circ> score) es"
  shows "upperBoundByScore es s = length (takeWhile (\<lambda>e. js_le (score e) s) es)"
  unfolding upperBoundByScore_def
  using sorted_scores [OF assms] by (intro bound_loop_takeWhile) (blast intro: js_le_trans)

lemma take_diff_takeWhile:
  assumes "\<And>x. p x \<Longrightarrow> q x"
  shows "take (length (takeWhile q xs) - length (takeWhile p xs)) (dropWhile p xs) = takeWhile q (dropWhile p xs)"
  using assms
proof (induction xs)
  case (Cons x xs)
  show ?case
  proof (cases "p x")
    case True
    with Cons show ?thesis by simp
  next
    case False
    then have d: "dropWhile p (x # xs) = x # xs" "takeWhile p (x # xs) = []" by simp_all
    show ?thesis unfolding d using take_length_takeWhile [of q "x # xs"] by (simp only: list.size diff_zero)
  qed
qed simp

lemma length_takeWhile_mono: "(\<And>x. p x \<Longrightarrow> q x) \<Longrightarrow> length (takeWhile p xs) \<le> length (takeWhile q xs)"
  by (induction xs) auto

lemma zset_slice_by_score_filter:
  assumes so: "sorted_wrt (entry_before lc) es" and good: "list_all (good_score \<circ> score) es"
    and "lo \<noteq> NaN" "hi \<noteq> NaN"
  shows "zset_slice_by_score es lo hi = filter (\<lambda>e. js_le lo (score e) \<and> js_le (score e) hi) es"
proof -
  let ?p = "\<lambda>e. js_lt (score e) lo" and ?q = "\<lambda>e. js_le (score e) hi"
  have slice: "zset_slice_by_score es lo hi =
      take (length (takeWhile ?q es) - length (takeWhile ?p es)) (dropWhile ?p es)"
    by (simp add: zset_slice_by_score_def js_slice_nonneg lowerBoundByScore_takeWhile [OF so good]
        upperBoundByScore_takeWhile [OF so good])
  have pre: "p (es ! j) \<Longrightarrow> p (es ! i)"
    if "p = ?p \<or> p = ?q" "i \<le> j" "j < length es" for p i j
    using that sorted_scores [OF so good that(2,3)] by (auto intro: js_le_lt_trans js_le_trans)
  have dp: "dropWhile ?p es = filter (\<lambda>e. \<not> ?p e) es"
    using takeWhile_eq_filter_prefix [of es ?p] pre [of ?p] by blast
  have notp: "(\<not> ?p e) = js_le lo (score e)" if "e \<in> set es" for e
    using that good assms(3) by (auto simp: list_all_iff good_score_def js_not_lt)
  show ?thesis
  proof (cases "js_le lo hi")
    case True
    then have pq: "?p e \<Longrightarrow> ?q e" for e by (meson js_lt_imp_le js_le_trans js_lt_le_trans)
    have "takeWhile ?q (dropWhile ?p es) = filter ?q (dropWhile ?p es)"
    proof (rule takeWhile_eq_filter_prefix [THEN conjunct1])
      fix i j assume ij: "i \<le> j" "j < length (dropWhile ?p es)" and q: "?q (dropWhile ?p es ! j)"
      let ?n = "length (takeWhile ?p es)"
      have d: "dropWhile ?p es = drop ?n es" by simp
      have jn: "j < length es - ?n" using ij(2) by (metis d length_drop)
      then have nth: "dropWhile ?p es ! k = es ! (?n + k)" if "k \<le> j" for k
        using that by (subst d, subst nth_drop) auto
      show "?q (dropWhile ?p es ! i)"
        using ij jn q pre [of ?q "?n + i" "?n + j"] by (simp add: nth)
    qed
    also have "\<dots> = filter (\<lambda>e. js_le lo (score e) \<and> ?q e) es"
      unfolding dp using notp by (auto intro: filter_cong)
    finally have "takeWhile ?q (dropWhile ?p es) = filter (\<lambda>e. js_le lo (score e) \<and> ?q e) es" .
    moreover have "take (length (takeWhile ?q es) - length (takeWhile ?p es)) (dropWhile ?p es) =
        takeWhile ?q (dropWhile ?p es)"
      by (rule take_diff_takeWhile) (rule pq)
    ultimately show ?thesis unfolding slice by (rule trans [rotated])
  next
    case False
    then have lt: "js_lt hi lo" using assms(3,4) js_not_lt by blast
    then have qp: "?q e \<Longrightarrow> ?p e" for e by (blast intro: js_le_lt_trans)
    have "filter (\<lambda>e. js_le lo (score e) \<and> ?q e) es = []"
      using False by (auto simp: filter_empty_conv intro: js_le_trans)
    then show ?thesis unfolding slice using length_takeWhile_mono [of ?q ?p es, OF qp] by simp
  qed
qed

subsection \<open>Insertion and removal under a strict collation\<close>

context strict_collation
begin

lemma before_irrefl: "good_score (score a) \<Longrightarrow> \<not> entry_before lc a a"
  by (simp add: entry_before_iff lc_refl)

lemma before_trans:
  assumes "good_score (score a)" "good_score (score b)" "good_score (score c)"
    and "entry_before lc a b" "entry_before lc b c"
  shows "entry_before lc a c"
proof -
  have strict: "lc x z < 0" if "lc x y < 0" "lc y z < 0" for x y z
  proof -
    have "lc x z \<le> 0" using lc_trans [of x y z] that by simp
    moreover have "lc x z \<noteq> 0"
    proof
      assume "lc x z = 0"
      then have "lc z x \<le> 0" using lc_sym [of x z] by simp
      then have "lc z y \<le> 0" using lc_trans [of z x y] that(1) by simp
      with that(2) lc_sym [of y z] show False by simp
    qed
    ultimately show ?thesis by simp
  qed
  show ?thesis using assms by (auto simp: entry_before_iff intro: js_lt_trans strict)
qed

lemma before_total:
  assumes "good_score (score a)" "good_score (score b)" "member a \<noteq> member b" "member a \<in> M" "member b \<in> M"
  shows "entry_before lc a b \<or> entry_before lc b a"
proof -
  have "lc (member a) (member b) \<noteq> 0" using assms(3-5) lc_eq by blast
  then have "lc (member a) (member b) < 0 \<or> lc (member b) (member a) < 0"
    using lc_sym [of "member b" "member a"] by auto
  moreover have "js_lt (score a) (score b) \<or> js_lt (score b) (score a) \<or> score a = score b"
    using assms(1,2) js_not_lt [of "score a" "score b"] by (auto simp: good_score_def js_le_def js_eq_def)
  ultimately show ?thesis using assms by (auto simp: entry_before_iff)
qed

lemma before_prefix:
  assumes "sorted_wrt (entry_before lc) es" "list_all (good_score \<circ> score) es" "good_score (score e)"
    and "i \<le> j" "j < length es" "entry_before lc (es ! j) e"
  shows "entry_before lc (es ! i) e"
proof (cases "i = j")
  case False
  with assms have "entry_before lc (es ! i) (es ! j)" by (auto simp: sorted_wrt_iff_nth_less)
  then show ?thesis using assms by (intro before_trans [of "es ! i" "es ! j" e]) (auto simp: list_all_length)
qed (use assms in simp)

lemma insertionIndex_takeWhile:
  assumes "sorted_wrt (entry_before lc) es" "list_all (good_score \<circ> score) es" "good_score (score e)"
  shows "insertionIndex lc es e = length (takeWhile (\<lambda>x. entry_before lc x e) es)"
  unfolding insertionIndex_def using before_prefix [OF assms] by (intro bound_loop_takeWhile) blast

lemma insert_sorted:
  assumes "sorted_wrt (entry_before lc) es" "list_all (good_score \<circ> score) es" "good_score (score e)"
    and new: "member e \<notin> member ` set es" "member ` set es \<subseteq> M" "member e \<in> M"
  shows "sorted_wrt (entry_before lc) (splice_insert (insertionIndex lc es e) e es)"
proof -
  let ?b = "\<lambda>x. entry_before lc x e"
  have split: "splice_insert (insertionIndex lc es e) e es = takeWhile ?b es @ e # dropWhile ?b es"
    by (simp add: splice_insert_def insertionIndex_takeWhile [OF assms(1-3)])
  have parts: "takeWhile ?b es = filter ?b es" "dropWhile ?b es = filter (\<lambda>x. \<not> ?b x) es"
    using takeWhile_eq_filter_prefix [of es ?b] before_prefix [OF assms(1-3)] by blast+
  have after: "entry_before lc e x" if "x \<in> set es" "\<not> ?b x" for x
  proof -
    have "member x \<noteq> member e" "member x \<in> M" using new imageI [OF that(1), of member] by (metis, blast)
    then show ?thesis using that assms before_total [of x e] by (auto simp: list_all_iff)
  qed
  have so: "sorted_wrt (entry_before lc) (takeWhile ?b es @ dropWhile ?b es)" using assms(1) by simp
  show ?thesis unfolding split using so after parts
    by (auto simp: sorted_wrt_append)
qed

lemma remove_existing:
  assumes "sorted_wrt (entry_before lc) es" "list_all (good_score \<circ> score) es" "e \<in> set es"
  shows "insertionIndex lc es e < length es" "es ! insertionIndex lc es e = e"
    "splice_remove (insertionIndex lc es e) 1 es = filter (\<lambda>x. x \<noteq> e) es"
proof -
  obtain A B where es: "es = A @ e # B" using assms(3) by (meson split_list)
  have good: "good_score (score e)" using assms(2,3) by (auto simp: list_all_iff)
  have AB: "\<forall>a \<in> set A. entry_before lc a e" "\<forall>b \<in> set B. entry_before lc e b"
    using assms(1) unfolding es by (auto simp: sorted_wrt_append)
  have notin: "e \<notin> set A" "e \<notin> set B" using AB before_irrefl [OF good] by auto
  have "takeWhile (\<lambda>x. entry_before lc x e) es = A"
    using AB(1) before_irrefl [OF good] unfolding es by (simp add: takeWhile_append)
  then have i: "insertionIndex lc es e = length A"
    using insertionIndex_takeWhile [OF assms(1,2) good] by simp
  show "insertionIndex lc es e < length es" "es ! insertionIndex lc es e = e"
    unfolding i by (simp_all add: es nth_append)
  have "filter (\<lambda>x. x \<noteq> e) A = A" "filter (\<lambda>x. x \<noteq> e) B = B"
    using notin by (auto intro!: filter_True)
  then have "filter (\<lambda>x. x \<noteq> e) es = A @ B" by (simp add: es)
  then show "splice_remove (insertionIndex lc es e) 1 es = filter (\<lambda>x. x \<noteq> e) es"
    unfolding i by (simp add: es splice_remove_def)
qed

lemma zset_add_entries:
  fixes m :: string
  assumes wf: "zset_wf lc M z"
  defines "rest \<equiv> filter (\<lambda>x. member x \<noteq> m) (entries z)"
  shows "entries (snd (zset_add lc z s m)) =
    splice_insert (insertionIndex lc rest \<lparr>score = s, member = m\<rparr>) \<lparr>score = s, member = m\<rparr> rest"
    "memberIndex (snd (zset_add lc z s m)) = AList.update m \<lparr>score = s, member = m\<rparr> (memberIndex z)"
    "fst (zset_add lc z s m) = (if m \<in> member ` set (entries z) then 0 else 1)"
proof -
  have wf': "sorted_wrt (entry_before lc) (entries z)" "list_all (good_score \<circ> score) (entries z)"
    "distinct (map member (entries z))"
    using wf by (auto simp: zset_wf_def)
  have "entries (snd (zset_add lc z s m)) =
      splice_insert (insertionIndex lc rest \<lparr>score = s, member = m\<rparr>) \<lparr>score = s, member = m\<rparr> rest \<and>
    memberIndex (snd (zset_add lc z s m)) = AList.update m \<lparr>score = s, member = m\<rparr> (memberIndex z) \<and>
    fst (zset_add lc z s m) = (if m \<in> member ` set (entries z) then 0 else 1)"
  proof (cases "map_of (memberIndex z) m")
    case None
    then have "m \<notin> member ` set (entries z)" using zset_wf_lookup_None [OF wf] by blast
    then have "rest = entries z" by (auto simp: rest_def intro!: filter_True)
    with None \<open>m \<notin> _\<close> show ?thesis by (simp add: zset_add_def Let_def)
  next
    case (Some e)
    then have e: "e \<in> set (entries z)" "member e = m" using zset_wf_lookup [OF wf] by auto
    then have "filter (\<lambda>x. x \<noteq> e) (entries z) = rest"
      using wf'(3) unfolding rest_def by (auto intro!: filter_cong simp: distinct_map inj_on_def)
    with Some e remove_existing [OF wf'(1,2) e(1)] show ?thesis
      by (auto simp: zset_add_def Let_def)
  qed
  then show "entries (snd (zset_add lc z s m)) =
      splice_insert (insertionIndex lc rest \<lparr>score = s, member = m\<rparr>) \<lparr>score = s, member = m\<rparr> rest"
    "memberIndex (snd (zset_add lc z s m)) = AList.update m \<lparr>score = s, member = m\<rparr> (memberIndex z)"
    "fst (zset_add lc z s m) = (if m \<in> member ` set (entries z) then 0 else 1)"
    by blast+
qed

lemma zset_add_keeps_wf:
  assumes wf: "zset_wf lc M z" and s: "good_score s" "m \<in> M"
  shows "zset_wf lc M (snd (zset_add lc z s m))"
proof -
  let ?rest = "filter (\<lambda>x. member x \<noteq> m) (entries z)" and ?e = "\<lparr>score = s, member = m\<rparr>"
  have so: "sorted_wrt (entry_before lc) ?rest" and good: "list_all (good_score \<circ> score) ?rest"
    using wf by (auto simp: zset_wf_def sorted_wrt_filter list_all_iff)
  have "sorted_wrt (entry_before lc) (splice_insert (insertionIndex lc ?rest ?e) ?e ?rest)"
    using insert_sorted [OF so good, of ?e] s wf by (auto simp: zset_wf_def)
  moreover have "distinct (map member ?rest)" using wf by (simp add: zset_wf_def distinct_map_filter)
  ultimately show ?thesis
    using wf s good by (auto simp: zset_wf_def zset_add_entries [OF wf] distinct_splice_insert
        list_all_iff set_update_wf distinct_update)
qed

lemma zset_add_abs:
  assumes wf: "zset_wf lc M z" "good_score s" "m \<in> M"
  shows "zset_abs (snd (zset_add lc z s m)) = (zset_abs z)(m \<mapsto> s)"
  by (rule ext) (simp add: zset_abs_index [OF zset_add_keeps_wf [OF wf]] zset_abs_index [OF wf(1)] zset_add_entries [OF wf(1)])

end

subsection \<open>Removal of a contiguous range\<close>

lemma map_of_zset_delete_members:
  "map_of (zset_delete_members es idx) m = (if m \<in> member ` set es then None else map_of idx m)"
  unfolding zset_delete_members_def by (induction es arbitrary: idx) auto

lemma set_zset_delete_members:
  "set (zset_delete_members es idx) = {p \<in> set idx. fst p \<notin> member ` set es}"
  unfolding zset_delete_members_def by (induction es arbitrary: idx) (auto simp: set_delete_filter)

lemma jsmap_wf_zset_delete_members: "jsmap_wf idx \<Longrightarrow> jsmap_wf (zset_delete_members es idx)"
  unfolding zset_delete_members_def by (induction es arbitrary: idx) (auto intro: jsmap_wf_delete)

lemma zset_remove_range_keeps_wf:
  assumes wf: "zset_wf lc M z" and removed: "removed = take n (drop start (entries z))"
  shows "zset_wf lc M (zset_remove_range z start removed)"
    "zset_abs (zset_remove_range z start removed) = (zset_abs z) |` (- (member ` set removed))"
proof -
  define A B where "A = take start (entries z)" and "B = drop (start + length removed) (entries z)"
  have "take (length removed) (drop start (entries z)) = removed" by (simp add: removed min_def)
  then have "removed @ B = drop start (entries z)"
    using append_take_drop_id [of "length removed" "drop start (entries z)"]
    by (simp add: B_def add.commute)
  then have es: "entries z = A @ removed @ B" by (simp add: A_def)
  have kept: "entries (zset_remove_range z start removed) = A @ B"
    by (simp add: zset_remove_range_def splice_remove_def A_def B_def)
  have "sorted_wrt (entry_before lc) (A @ B)" "distinct (map member (A @ B))"
    "list_all (good_score \<circ> score) (A @ B)"
    using wf by (auto simp: zset_wf_def es sorted_wrt_append)
  moreover have "set (A @ B) = {e \<in> set (entries z). member e \<notin> member ` set removed}"
    using wf by (auto simp: zset_wf_def es)
  ultimately show kept_wf: "zset_wf lc M (zset_remove_range z start removed)"
    using wf kept by (auto simp: zset_wf_def set_zset_delete_members jsmap_wf_zset_delete_members
        zset_remove_range_def)
  show "zset_abs (zset_remove_range z start removed) = (zset_abs z) |` (- (member ` set removed))"
    by (rule ext) (simp add: zset_abs_index [OF kept_wf] restrict_map_def, simp add: zset_abs_index [OF wf] zset_remove_range_def map_of_zset_delete_members restrict_map_def)
qed

end
