(* ===== verification/RedisStore.thy ===== *)
theory RedisStore
  imports RedisZset
begin

text \<open>
  The in-process Redis of \<open>lib/redis-db.ts\<close> (class \<open>InlineLocalRedis\<close>): five Maps, one per
  data type, a Map of expiry times, the request statistics and the snapshot mutation counter.
  Every method of the class body is synchronous, so a command is one function of the store;
  \<open>now\<close> is the value of \<open>Date.now()\<close> during the call.  The names of JavaScript's built-in
  object members (\<open>constructor\<close>, \<open>__proto__\<close>, ...) are outside the model as hash fields.
\<close>

subsection \<open>Data\<close>

text \<open>
  A stored sorted set: the current shape, or one of the two shapes that older module versions
  left in memory (a bare entry array, an object without its index).
\<close>

datatype zset_slot = Current SortedSetData | LegacyArray "SortedSetEntry list" | NoIndex "SortedSetEntry list"

record request_stats =
  lastSecond :: int
  requestCount :: int
  operationsPerSecond :: int

record redis =
  strings :: "string jsmap"
  hashes :: "string jsmap jsmap"
  sets :: "jsset jsmap"
  lists :: "string list jsmap"
  sorted_sets :: "zset_slot jsmap"
  ttl :: "jsnum jsmap"
  requestStats :: request_stats
  mutation_version :: int

definition redis_empty :: "int \<Rightarrow> redis" where
  "redis_empty now = \<lparr>strings = [], hashes = [], sets = [], lists = [], sorted_sets = [], ttl = [],
     requestStats = \<lparr>lastSecond = now div 1000, requestCount = 0, operationsPerSecond = 0\<rparr>,
     mutation_version = 0\<rparr>"

definition markDirty :: "redis \<Rightarrow> redis" where
  "markDirty r = r\<lparr>mutation_version := mutation_version r + 1\<rparr>"

definition trackOperation :: "int \<Rightarrow> redis \<Rightarrow> redis" where
  "trackOperation now r =
     (let st = requestStats r; nowSec = now div 1000;
          st1 = (if nowSec \<noteq> lastSecond st
                 then st\<lparr>operationsPerSecond := requestCount st, requestCount := 0, lastSecond := nowSec\<rparr>
                 else st)
      in r\<lparr>requestStats := st1\<lparr>requestCount := requestCount st1 + 1\<rparr>\<rparr>)"

definition has_data :: "redis \<Rightarrow> string \<Rightarrow> bool" where
  "has_data r key = (jsmap_has (strings r) key \<or> jsmap_has (hashes r) key \<or> jsmap_has (sets r) key \<or>
     jsmap_has (lists r) key \<or> jsmap_has (sorted_sets r) key)"

subsection \<open>Expiry and deletion\<close>

definition isExpired :: "int \<Rightarrow> redis \<Rightarrow> string \<Rightarrow> bool" where
  "isExpired now r key =
     (case map_of (ttl r) key of
        None \<Rightarrow> False
      | Some expireAt \<Rightarrow> truthy expireAt \<and> js_ge (num_of_int now) expireAt)"

definition removeFromConnectionIndexes :: "string \<Rightarrow> string \<Rightarrow> jsset jsmap \<Rightarrow> jsset jsmap" where
  "removeFromConnectionIndexes p i ss =
     filter (\<lambda>(k, s). \<not> (starts_with p k \<and> s = []))
       (map (\<lambda>(k, s). if starts_with p k then (k, jsset_delete i s) else (k, s)) ss)"

definition delete_member_of :: "string \<Rightarrow> string \<Rightarrow> jsset jsmap \<Rightarrow> jsset jsmap" where
  "delete_member_of key i ss = map (\<lambda>(k, s). if k = key then (k, jsset_delete i s) else (k, s)) ss"

definition cleanupSecondaryIndexesForDeletedKey :: "string \<Rightarrow> redis \<Rightarrow> redis" where
  "cleanupSecondaryIndexesForDeletedKey key r =
     (if starts_with ''position:'' key then
        let i = drop (length ''position:'') key
        in r\<lparr>sets := removeFromConnectionIndexes ''idx:positions:connection:'' i
                       (delete_member_of ''idx:positions'' i (sets r))\<rparr>
      else if starts_with ''trade:'' key then
        let i = drop (length ''trade:'') key
        in r\<lparr>sets := removeFromConnectionIndexes ''idx:trades:connection:'' i
                       (delete_member_of ''idx:trades'' i (sets r))\<rparr>
      else if starts_with ''indication:'' key then
        r\<lparr>sets := delete_member_of ''idx:indications'' (drop (length ''indication:'') key) (sets r)\<rparr>
      else if starts_with ''strategy:'' key then
        r\<lparr>sets := delete_member_of ''idx:strategies'' (drop (length ''strategy:'') key) (sets r)\<rparr>
      else r)"

definition deleteKey :: "string \<Rightarrow> redis \<Rightarrow> redis" where
  "deleteKey key r =
     (let existed = has_data r key \<or> jsmap_has (ttl r) key;
          r1 = cleanupSecondaryIndexesForDeletedKey key r;
          r2 = r1\<lparr>strings := AList.delete key (strings r1), hashes := AList.delete key (hashes r1),
                  sets := AList.delete key (sets r1), lists := AList.delete key (lists r1),
                  sorted_sets := AList.delete key (sorted_sets r1), ttl := AList.delete key (ttl r1)\<rparr>
      in if existed then markDirty r2 else r2)"

definition setKeyTTL :: "int \<Rightarrow> string \<Rightarrow> jsnum \<Rightarrow> redis \<Rightarrow> redis" where
  "setKeyTTL now key seconds r =
     markDirty (r\<lparr>ttl := AList.update key
       (js_add (num_of_int now) (js_mul seconds (num_of_int 1000))) (ttl r)\<rparr>)"

subsection \<open>Keys and strings\<close>

definition redis_type :: "int \<Rightarrow> redis \<Rightarrow> string \<Rightarrow> string" where
  "redis_type now r key =
     (if isExpired now r key then ''none''
      else if jsmap_has (strings r) key then ''string''
      else if jsmap_has (hashes r) key then ''hash''
      else if jsmap_has (sets r) key then ''set''
      else if jsmap_has (lists r) key then ''list''
      else if jsmap_has (sorted_sets r) key then ''zset''
      else ''none'')"

text \<open>The value a read of the string at \<open>key\<close> sees.\<close>

definition visible_string :: "int \<Rightarrow> redis \<Rightarrow> string \<Rightarrow> string option" where
  "visible_string now r key = (if isExpired now r key then None else map_of (strings r) key)"

definition redis_get :: "int \<Rightarrow> string \<Rightarrow> redis \<Rightarrow> string option \<times> redis" where
  "redis_get now key r = (let r1 = trackOperation now r in (visible_string now r1 key, r1))"

definition redis_mget :: "int \<Rightarrow> string list \<Rightarrow> redis \<Rightarrow> string option list \<times> redis" where
  "redis_mget now ks r = (let r1 = trackOperation now r in (map (visible_string now r1) ks, r1))"

record set_options =
  opt_EX :: "jsnum option"
  opt_PX :: "jsnum option"
  opt_NX :: bool
  opt_XX :: bool

definition no_options :: set_options where
  "no_options = \<lparr>opt_EX = None, opt_PX = None, opt_NX = False, opt_XX = False\<rparr>"

definition redis_set ::
  "int \<Rightarrow> string \<Rightarrow> string \<Rightarrow> set_options \<Rightarrow> redis \<Rightarrow> string option \<times> redis" where
  "redis_set now key v opts r0 =
     (let r = trackOperation now r0;
          present = (\<not> isExpired now r key \<and> jsmap_has (strings r) key)
      in if opt_NX opts \<and> present then (None, r)
         else if opt_XX opts \<and> \<not> present then (None, r)
         else
           let r1 = markDirty (r\<lparr>strings := AList.update key v (strings r)\<rparr>);
               r2 = (case opt_EX opts of
                       Some s \<Rightarrow> if truthy s then Some (setKeyTTL now key s r1) else None
                     | None \<Rightarrow> None);
               r3 = (case r2 of
                       Some r' \<Rightarrow> r'
                     | None \<Rightarrow>
                         (case opt_PX opts of
                            Some p \<Rightarrow> if truthy p \<and> js_isFinite p \<and> js_gt p (Fin 0)
                                      then markDirty (r1\<lparr>ttl := AList.update key (js_add (num_of_int now) p) (ttl r1)\<rparr>)
                                      else r1
                          | None \<Rightarrow> r1))
           in (Some ''OK'', r3))"

definition redis_setex :: "int \<Rightarrow> string \<Rightarrow> jsnum \<Rightarrow> string \<Rightarrow> redis \<Rightarrow> redis" where
  "redis_setex now key seconds v r =
     setKeyTTL now key seconds (markDirty (r\<lparr>strings := AList.update key v (strings r)\<rparr>))"

definition redis_incrby :: "int \<Rightarrow> string \<Rightarrow> jsnum \<Rightarrow> redis \<Rightarrow> jsnum \<times> redis" where
  "redis_incrby now key increment r =
     (if isExpired now r key
      then (increment, markDirty (r\<lparr>strings := AList.update key (string_of_num increment) (strings r)\<rparr>))
      else let current = js_parseInt (str_or (map_of (strings r) key) ''0'');
               newValue = js_add current increment
           in (newValue, markDirty (r\<lparr>strings := AList.update key (string_of_num newValue) (strings r)\<rparr>)))"

definition redis_incr :: "int \<Rightarrow> string \<Rightarrow> redis \<Rightarrow> jsnum \<times> redis" where
  "redis_incr now key r = redis_incrby now key (num_of_int 1) r"

fun redis_del :: "string list \<Rightarrow> redis \<Rightarrow> int \<times> redis" where
  "redis_del [] r = (0, r)"
| "redis_del (key # ks) r =
     (if has_data r key
      then let (c, r') = redis_del ks (deleteKey key r) in (c + 1, r')
      else redis_del ks r)"

definition redis_dbSize :: "redis \<Rightarrow> int" where
  "redis_dbSize r = int (length (strings r)) + int (length (hashes r)) + int (length (sets r)) +
     int (length (lists r)) + int (length (sorted_sets r))"

definition redis_flushDb :: "redis \<Rightarrow> redis" where
  "redis_flushDb r =
     (let hadData = (redis_dbSize r > 0 \<or> length (ttl r) > 0);
          r1 = r\<lparr>strings := [], hashes := [], sets := [], lists := [], sorted_sets := [], ttl := []\<rparr>
      in if hadData then markDirty r1 else r1)"

definition redis_exists :: "redis \<Rightarrow> string \<Rightarrow> int" where
  "redis_exists r key = (if has_data r key then 1 else 0)"

definition redis_expire :: "int \<Rightarrow> string \<Rightarrow> jsnum \<Rightarrow> redis \<Rightarrow> int \<times> redis" where
  "redis_expire now key seconds r = (if has_data r key then (1, setKeyTTL now key seconds r) else (0, r))"

definition redis_persist :: "int \<Rightarrow> string \<Rightarrow> redis \<Rightarrow> int \<times> redis" where
  "redis_persist now key r =
     (if isExpired now r key then (0, r)
      else if \<not> has_data r key \<or> \<not> jsmap_has (ttl r) key then (0, r)
      else (1, markDirty (r\<lparr>ttl := AList.delete key (ttl r)\<rparr>)))"

definition redis_ttl :: "int \<Rightarrow> redis \<Rightarrow> string \<Rightarrow> jsnum" where
  "redis_ttl now r key =
     (case map_of (ttl r) key of
        None \<Rightarrow> if redis_exists r key = 0 then num_of_int (-2) else num_of_int (-1)
      | Some expireAt \<Rightarrow>
          if js_ge (num_of_int now) expireAt then num_of_int (-2)
          else js_floor (js_div (js_sub expireAt (num_of_int now)) (num_of_int 1000)))"

subsection \<open>Hashes\<close>

text \<open>
  What a caller may hand to a hash field; \<open>HJson\<close> carries the result of \<open>JSON.stringify\<close>
  on an object or array, which is undefined for a function.
\<close>

datatype hash_value = HUndefined | HNull | HStr string | HNum jsnum | HBool bool | HJson "string option"

fun redisHashScalar :: "hash_value \<Rightarrow> string" where
  "redisHashScalar HUndefined = []"
| "redisHashScalar HNull = []"
| "redisHashScalar (HStr s) = s"
| "redisHashScalar (HNum x) = string_of_num x"
| "redisHashScalar (HBool b) = (if b then ''true'' else ''false'')"
| "redisHashScalar (HJson j) = (case j of None \<Rightarrow> [] | Some s \<Rightarrow> s)"

definition normalizeRedisHash :: "hash_value jsmap \<Rightarrow> string jsmap" where
  "normalizeRedisHash m = js_spread [] (map (\<lambda>(f, v). (f, redisHashScalar v)) m)"

text \<open>The two call forms \<open>hset(key, field, value)\<close> and \<open>hset(key, object)\<close>.\<close>

datatype hset_arg = HsetField string hash_value | HsetObject "hash_value jsmap"

text \<open>\<open>Object.entries\<close> of a string: its characters under their indices.\<close>

definition string_entries :: "string \<Rightarrow> hash_value jsmap" where
  "string_entries s = map (\<lambda>(i, c). (string_of_int (int i), HStr [c])) (enumerate 0 s)"

definition hash_at :: "redis \<Rightarrow> string \<Rightarrow> string jsmap" where
  "hash_at r key = (case map_of (hashes r) key of None \<Rightarrow> [] | Some h \<Rightarrow> h)"

definition redis_hset_object :: "string \<Rightarrow> hash_value jsmap \<Rightarrow> redis \<Rightarrow> int \<times> redis" where
  "redis_hset_object key obj r =
     (let data = normalizeRedisHash obj; updates = length data;
          r1 = r\<lparr>hashes := AList.update key (js_spread (hash_at r key) data) (hashes r)\<rparr>
      in (int updates, if updates > 0 then markDirty r1 else r1))"

definition redis_hset :: "int \<Rightarrow> string \<Rightarrow> hset_arg \<Rightarrow> redis \<Rightarrow> int \<times> redis" where
  "redis_hset now key arg r0 =
     (let r = trackOperation now r0
      in case arg of
           HsetField f v \<Rightarrow>
             (if v \<noteq> HUndefined
              then (1, markDirty (r\<lparr>hashes := AList.update key
                          (AList.update f (redisHashScalar v) (hash_at r key)) (hashes r)\<rparr>))
              else redis_hset_object key (string_entries f) r)
         | HsetObject obj \<Rightarrow> redis_hset_object key obj r)"

text \<open>
  \<open>hmset(key, f1, v1, f2, v2, ...)\<close>: fewer than three arguments do nothing, a trailing field
  without a value gets the empty string.
\<close>

fun hmset_object :: "string list \<Rightarrow> string jsmap \<Rightarrow> string jsmap" where
  "hmset_object [] obj = obj"
| "hmset_object [f] obj = AList.update f [] obj"
| "hmset_object (f # v # rest) obj = hmset_object rest (AList.update f v obj)"

definition redis_hmset :: "int \<Rightarrow> string list \<Rightarrow> redis \<Rightarrow> redis" where
  "redis_hmset now args r0 =
     (let r = trackOperation now r0
      in case args of
           key # f # v # rest \<Rightarrow>
             let obj = hmset_object (f # v # rest) [];
                 r1 = r\<lparr>hashes := AList.update key (js_spread (hash_at r key) obj) (hashes r)\<rparr>
             in if obj \<noteq> [] then markDirty r1 else r1
         | _ \<Rightarrow> r)"

definition redis_hgetall :: "int \<Rightarrow> string \<Rightarrow> redis \<Rightarrow> string jsmap \<times> redis" where
  "redis_hgetall now key r0 =
     (let r = trackOperation now r0 in (if isExpired now r key then [] else hash_at r key, r))"

definition redis_hlen :: "redis \<Rightarrow> string \<Rightarrow> int" where
  "redis_hlen r key = int (length (hash_at r key))"

definition redis_hget :: "int \<Rightarrow> redis \<Rightarrow> string \<Rightarrow> string \<Rightarrow> string option" where
  "redis_hget now r key f = (if isExpired now r key then None else map_of (hash_at r key) f)"

fun hdel_loop :: "string list \<Rightarrow> string jsmap \<Rightarrow> int \<Rightarrow> int \<times> string jsmap" where
  "hdel_loop [] h deleted = (deleted, h)"
| "hdel_loop (f # fs) h deleted =
     (if jsmap_has h f then hdel_loop fs (AList.delete f h) (deleted + 1) else hdel_loop fs h deleted)"

definition redis_hdel :: "string \<Rightarrow> string list \<Rightarrow> redis \<Rightarrow> int \<times> redis" where
  "redis_hdel key fs r =
     (case map_of (hashes r) key of
        None \<Rightarrow> (0, r)
      | Some h \<Rightarrow>
          let (deleted, h') = hdel_loop fs h 0;
              r1 = (if h' = [] then r\<lparr>hashes := AList.delete key (hashes r)\<rparr>
                    else r\<lparr>hashes := AList.update key h' (hashes r)\<rparr>)
          in (deleted, if deleted > 0 then markDirty r1 else r1))"

definition redis_hincrby :: "string \<Rightarrow> string \<Rightarrow> jsnum \<Rightarrow> redis \<Rightarrow> jsnum \<times> redis" where
  "redis_hincrby key f increment r =
     (let h = hash_at r key;
          newValue = js_add (js_parseInt (str_or (map_of h f) ''0'')) increment
      in (newValue, markDirty (r\<lparr>hashes := AList.update key
            (AList.update f (string_of_num newValue) h) (hashes r)\<rparr>)))"

definition redis_hincrbyfloat :: "string \<Rightarrow> string \<Rightarrow> jsnum \<Rightarrow> redis \<Rightarrow> jsnum \<times> redis" where
  "redis_hincrbyfloat key f increment r =
     (let h = hash_at r key;
          newValue = js_add (js_parseFloat (str_or (map_of h f) ''0'')) increment
      in (newValue, markDirty (r\<lparr>hashes := AList.update key
            (AList.update f (string_of_num newValue) h) (hashes r)\<rparr>)))"

subsection \<open>Sets\<close>

definition set_at :: "redis \<Rightarrow> string \<Rightarrow> jsset" where
  "set_at r key = (case map_of (sets r) key of None \<Rightarrow> [] | Some s \<Rightarrow> s)"

definition redis_sadd :: "int \<Rightarrow> string \<Rightarrow> string list \<Rightarrow> redis \<Rightarrow> int \<times> redis" where
  "redis_sadd now key ms r0 =
     (let r = trackOperation now r0;
          s = set_at r key;
          s' = fold (\<lambda>m acc. if m \<noteq> [] then jsset_add m acc else acc) ms s;
          r1 = r\<lparr>sets := AList.update key s' (sets r)\<rparr>;
          added = int (length s') - int (length s)
      in (added, if added > 0 then markDirty r1 else r1))"

definition redis_scard :: "int \<Rightarrow> redis \<Rightarrow> string \<Rightarrow> int" where
  "redis_scard now r key = (if isExpired now r key then 0 else int (length (set_at r key)))"

definition redis_smembers :: "int \<Rightarrow> string \<Rightarrow> redis \<Rightarrow> string list \<times> redis" where
  "redis_smembers now key r0 =
     (let r = trackOperation now r0 in (if isExpired now r key then [] else set_at r key, r))"

definition redis_sismember :: "int \<Rightarrow> redis \<Rightarrow> string \<Rightarrow> string \<Rightarrow> int" where
  "redis_sismember now r key m =
     (if isExpired now r key then 0 else if m \<in> set (set_at r key) then 1 else 0)"

fun srem_loop :: "string list \<Rightarrow> jsset \<Rightarrow> int \<Rightarrow> int \<times> jsset" where
  "srem_loop [] s removed = (removed, s)"
| "srem_loop (m # ms) s removed =
     (if m \<in> set s then srem_loop ms (jsset_delete m s) (removed + 1) else srem_loop ms s removed)"

definition redis_srem :: "string \<Rightarrow> string list \<Rightarrow> redis \<Rightarrow> int \<times> redis" where
  "redis_srem key ms r =
     (case map_of (sets r) key of
        None \<Rightarrow> (0, r)
      | Some s \<Rightarrow>
          let (removed, s') = srem_loop ms s 0;
              r1 = (if s' = [] then r\<lparr>sets := AList.delete key (sets r)\<rparr>
                    else r\<lparr>sets := AList.update key s' (sets r)\<rparr>)
          in (removed, if removed > 0 then markDirty r1 else r1))"

subsection \<open>Lists\<close>

definition list_at :: "redis \<Rightarrow> string \<Rightarrow> string list" where
  "list_at r key = (case map_of (lists r) key of None \<Rightarrow> [] | Some l \<Rightarrow> l)"

definition redis_lpush :: "string \<Rightarrow> string list \<Rightarrow> redis \<Rightarrow> int \<times> redis" where
  "redis_lpush key vs r =
     (let l = list_at r key;
          updated = (if vs \<noteq> [] then rev vs @ l else l);
          r1 = r\<lparr>lists := AList.update key updated (lists r)\<rparr>
      in (int (length updated), if vs \<noteq> [] then markDirty r1 else r1))"

definition redis_rpush :: "string \<Rightarrow> string list \<Rightarrow> redis \<Rightarrow> int \<times> redis" where
  "redis_rpush key vs r =
     (let l = list_at r key @ vs;
          r1 = r\<lparr>lists := AList.update key l (lists r)\<rparr>
      in (int (length l), if vs \<noteq> [] then markDirty r1 else r1))"

text \<open>The index normalisation \<open>lrange\<close> and \<open>ltrim\<close> share.\<close>

definition list_range :: "int \<Rightarrow> int \<Rightarrow> 'a list \<Rightarrow> 'a list" where
  "list_range start stop l =
     (let len = int (length l);
          normalizedStart = (if start < 0 then max 0 (len + start) else start);
          normalizedStop = (if stop < 0 then len + stop else stop)
      in js_slice normalizedStart (normalizedStop + 1) l)"

definition redis_lrange :: "int \<Rightarrow> redis \<Rightarrow> string \<Rightarrow> int \<Rightarrow> int \<Rightarrow> string list" where
  "redis_lrange now r key start stop =
     (if isExpired now r key then [] else list_range start stop (list_at r key))"

definition redis_ltrim :: "string \<Rightarrow> int \<Rightarrow> int \<Rightarrow> redis \<Rightarrow> redis" where
  "redis_ltrim key start stop r =
     (case map_of (lists r) key of
        None \<Rightarrow> r
      | Some l \<Rightarrow>
          let trimmed = list_range start stop l;
              r1 = r\<lparr>lists := AList.update key trimmed (lists r)\<rparr>
          in if length trimmed \<noteq> length l then markDirty r1 else r1)"

definition redis_llen :: "int \<Rightarrow> redis \<Rightarrow> string \<Rightarrow> int" where
  "redis_llen now r key = (if isExpired now r key then 0 else int (length (list_at r key)))"

fun lrem_loop :: "bool \<Rightarrow> int \<Rightarrow> string \<Rightarrow> int \<Rightarrow> string list \<Rightarrow> int \<times> string list" where
  "lrem_loop wantAll target v removed [] = (removed, [])"
| "lrem_loop wantAll target v removed (x # xs) =
     (if x = v \<and> (wantAll \<or> removed < target)
      then lrem_loop wantAll target v (removed + 1) xs
      else let (n, ys) = lrem_loop wantAll target v removed xs in (n, x # ys))"

definition redis_lrem :: "int \<Rightarrow> string \<Rightarrow> int \<Rightarrow> string \<Rightarrow> redis \<Rightarrow> int \<times> redis" where
  "redis_lrem now key count v r =
     (if isExpired now r key then (0, r)
      else case map_of (lists r) key of
        None \<Rightarrow> (0, r)
      | Some [] \<Rightarrow> (0, r)
      | Some l \<Rightarrow>
          let wantAll = (count = 0); target = \<bar>count\<bar>;
              (removed, l') = (if count \<ge> 0 then lrem_loop wantAll target v 0 l
                               else let (n, ys) = lrem_loop wantAll target v 0 (rev l) in (n, rev ys));
              r1 = (if l' = [] then r\<lparr>lists := AList.delete key (lists r)\<rparr>
                    else r\<lparr>lists := AList.update key l' (lists r)\<rparr>)
          in (removed, if removed > 0 then markDirty r1 else r1))"

fun index_of :: "string \<Rightarrow> string list \<Rightarrow> nat option" where
  "index_of v [] = None"
| "index_of v (x # xs) = (if x = v then Some 0 else map_option Suc (index_of v xs))"

definition redis_lpos :: "int \<Rightarrow> redis \<Rightarrow> string \<Rightarrow> string \<Rightarrow> int option" where
  "redis_lpos now r key v =
     (if isExpired now r key then None else map_option int (index_of v (list_at r key)))"

definition redis_lpop :: "int \<Rightarrow> string \<Rightarrow> redis \<Rightarrow> string option \<times> redis" where
  "redis_lpop now key r =
     (if isExpired now r key then (None, r)
      else case map_of (lists r) key of
        Some (x # xs) \<Rightarrow>
          (Some x, markDirty (if xs = [] then r\<lparr>lists := AList.delete key (lists r)\<rparr>
                              else r\<lparr>lists := AList.update key xs (lists r)\<rparr>))
      | _ \<Rightarrow> (None, r))"

definition redis_rpop :: "int \<Rightarrow> string \<Rightarrow> redis \<Rightarrow> string option \<times> redis" where
  "redis_rpop now key r =
     (if isExpired now r key then (None, r)
      else case map_of (lists r) key of
        Some (x # xs) \<Rightarrow>
          (Some (last (x # xs)), markDirty (if butlast (x # xs) = [] then r\<lparr>lists := AList.delete key (lists r)\<rparr>
                              else r\<lparr>lists := AList.update key (butlast (x # xs)) (lists r)\<rparr>))
      | _ \<Rightarrow> (None, r))"

subsection \<open>Sorted sets\<close>

definition getSortedSet :: "collate \<Rightarrow> string \<Rightarrow> redis \<Rightarrow> SortedSetData option \<times> redis" where
  "getSortedSet lc key r =
     (case map_of (sorted_sets r) key of
        None \<Rightarrow> (None, r)
      | Some (Current z) \<Rightarrow> (Some z, r)
      | Some (LegacyArray es) \<Rightarrow>
          let z = createSortedSet lc es
          in (Some z, r\<lparr>sorted_sets := AList.update key (Current z) (sorted_sets r)\<rparr>)
      | Some (NoIndex es) \<Rightarrow>
          let z = createSortedSet lc es
          in (Some z, r\<lparr>sorted_sets := AList.update key (Current z) (sorted_sets r)\<rparr>))"

definition zset_entries :: "SortedSetData option \<Rightarrow> SortedSetEntry list" where
  "zset_entries z = (case z of None \<Rightarrow> [] | Some z \<Rightarrow> entries z)"

definition redis_zadd :: "collate \<Rightarrow> string \<Rightarrow> jsnum \<Rightarrow> string \<Rightarrow> redis \<Rightarrow> int \<times> redis" where
  "redis_zadd lc key s m r =
     (let (z, r1) = getSortedSet lc key r;
          (reply, z') = zset_add lc (case z of Some z \<Rightarrow> z | None \<Rightarrow> createSortedSet lc []) s m
      in (reply, markDirty (r1\<lparr>sorted_sets := AList.update key (Current z') (sorted_sets r1)\<rparr>)))"

definition redis_zrangebyscore ::
  "collate \<Rightarrow> int \<Rightarrow> string \<Rightarrow> score_limit \<Rightarrow> score_limit \<Rightarrow> redis \<Rightarrow> string list \<times> redis" where
  "redis_zrangebyscore lc now key lo hi r =
     (if isExpired now r key then ([], r)
      else let (z, r1) = getSortedSet lc key r
           in (map member (zset_slice_by_score (zset_entries z)
                 (parseSortedSetScore lo NInf) (parseSortedSetScore hi PInf)), r1))"

definition redis_zcount ::
  "collate \<Rightarrow> int \<Rightarrow> string \<Rightarrow> score_limit \<Rightarrow> score_limit \<Rightarrow> redis \<Rightarrow> int \<times> redis" where
  "redis_zcount lc now key lo hi r =
     (if isExpired now r key then (0, r)
      else let (z, r1) = getSortedSet lc key r; es = zset_entries z
           in (int (upperBoundByScore es (parseSortedSetScore hi PInf)) -
               int (lowerBoundByScore es (parseSortedSetScore lo NInf)), r1))"

definition store_zset :: "string \<Rightarrow> SortedSetData \<Rightarrow> redis \<Rightarrow> redis" where
  "store_zset key z r =
     (if entries z = [] then r\<lparr>sorted_sets := AList.delete key (sorted_sets r)\<rparr>
      else r\<lparr>sorted_sets := AList.update key (Current z) (sorted_sets r)\<rparr>)"

definition redis_zremrangebyscore ::
  "collate \<Rightarrow> string \<Rightarrow> score_limit \<Rightarrow> score_limit \<Rightarrow> redis \<Rightarrow> int \<times> redis" where
  "redis_zremrangebyscore lc key lo hi r =
     (let (z, r1) = getSortedSet lc key r
      in case z of
           None \<Rightarrow> (0, r1)
         | Some z \<Rightarrow>
             let minValue = parseSortedSetScore lo NInf; maxValue = parseSortedSetScore hi PInf;
                 start = lowerBoundByScore (entries z) minValue;
                 removed = zset_slice_by_score (entries z) minValue maxValue
             in if removed = [] then (0, r1)
                else (int (length removed), markDirty (store_zset key (zset_remove_range z start removed) r1)))"

definition redis_zremrangebyrank :: "collate \<Rightarrow> string \<Rightarrow> int \<Rightarrow> int \<Rightarrow> redis \<Rightarrow> int \<times> redis" where
  "redis_zremrangebyrank lc key start stop r =
     (let (z, r1) = getSortedSet lc key r
      in case z of
           None \<Rightarrow> (0, r1)
         | Some z \<Rightarrow>
             if entries z = [] then (0, r1)
             else
               let n = int (length (entries z));
                   first = (if start < 0 then max 0 (n + start) else max 0 start);
                   last = (if stop < 0 then n + stop else min (n - 1) stop)
               in if first > last \<or> first \<ge> n then (0, r1)
                  else let removed = js_slice first (last + 1) (entries z)
                       in (int (length removed),
                           markDirty (store_zset key (zset_remove_range z (nat first) removed) r1)))"

text \<open>The index arithmetic of \<open>zrange\<close> and \<open>zrevrange\<close>.\<close>

definition zrange_slice :: "int \<Rightarrow> int \<Rightarrow> SortedSetEntry list \<Rightarrow> SortedSetEntry list" where
  "zrange_slice start stop es =
     (let n = int (length es);
          e = (if stop < 0 then n + stop + 1 else stop + 1)
      in js_slice (if start < 0 then max 0 (n + start) else start) e es)"

definition redis_zrange :: "collate \<Rightarrow> int \<Rightarrow> string \<Rightarrow> int \<Rightarrow> int \<Rightarrow> redis \<Rightarrow> string list \<times> redis" where
  "redis_zrange lc now key start stop r =
     (if isExpired now r key then ([], r)
      else let (z, r1) = getSortedSet lc key r
           in (map member (zrange_slice start stop (zset_entries z)), r1))"

definition redis_zrevrange :: "collate \<Rightarrow> int \<Rightarrow> string \<Rightarrow> int \<Rightarrow> int \<Rightarrow> redis \<Rightarrow> string list \<times> redis" where
  "redis_zrevrange lc now key start stop r =
     (if isExpired now r key then ([], r)
      else let (z, r1) = getSortedSet lc key r
           in (map member (zrange_slice start stop (rev (zset_entries z))), r1))"

definition redis_zscore :: "collate \<Rightarrow> int \<Rightarrow> string \<Rightarrow> string \<Rightarrow> redis \<Rightarrow> string option \<times> redis" where
  "redis_zscore lc now key m r =
     (if isExpired now r key then (None, r)
      else let (z, r1) = getSortedSet lc key r
           in (case z of None \<Rightarrow> None
               | Some z \<Rightarrow> map_option (string_of_num \<circ> score) (map_of (memberIndex z) m), r1))"

definition redis_zcard :: "collate \<Rightarrow> int \<Rightarrow> string \<Rightarrow> redis \<Rightarrow> int \<times> redis" where
  "redis_zcard lc now key r =
     (if isExpired now r key then (0, r)
      else let (z, r1) = getSortedSet lc key r in (int (length (zset_entries z)), r1))"

subsection \<open>Maintenance\<close>

text \<open>\<open>cleanupExpiredKeys()\<close> without a limit: one pass over all expiry times.\<close>

definition cleanupExpiredKeys :: "int \<Rightarrow> redis \<Rightarrow> int \<times> redis" where
  "cleanupExpiredKeys now r =
     fold (\<lambda>(key, expireAt) (cleaned, r').
        if js_ge (num_of_int now) expireAt then (cleaned + 1, deleteKey key r') else (cleaned, r'))
       (ttl r) (0, r)"

definition checkProtected :: "string list \<Rightarrow> string list \<Rightarrow> string \<Rightarrow> bool" where
  "checkProtected protectedPrefixes forceClearPrefixes key =
     (\<not> list_ex (\<lambda>fc. starts_with fc key) forceClearPrefixes \<and>
      list_ex (\<lambda>p. starts_with p key) protectedPrefixes)"

definition bucketOf :: "string \<Rightarrow> string" where
  "bucketOf key =
     (let idx = length (takeWhile (\<lambda>c. c \<noteq> CHR '':'') key)
      in if idx < length key \<and> idx > 0 then take idx key @ '':*'' else key)"

definition all_keys :: "redis \<Rightarrow> string list" where
  "all_keys r = fold jsset_add (jsmap_keys (strings r) @ jsmap_keys (hashes r) @ jsmap_keys (sets r) @
     jsmap_keys (lists r) @ jsmap_keys (sorted_sets r)) []"

record flush_result =
  flush_deleted :: int
  flush_protected :: int
  flush_buckets :: "int jsmap"

definition flush_key :: "(string \<Rightarrow> bool) \<Rightarrow> string \<Rightarrow> flush_result \<times> redis \<Rightarrow> flush_result \<times> redis" where
  "flush_key prot key = (\<lambda>(f, r).
     if prot key then (f\<lparr>flush_protected := flush_protected f + 1\<rparr>, r)
     else let b = bucketOf key; n = (case map_of (flush_buckets f) b of None \<Rightarrow> 0 | Some n \<Rightarrow> n)
          in (f\<lparr>flush_buckets := AList.update b (n + 1) (flush_buckets f), flush_deleted := flush_deleted f + 1\<rparr>, deleteKey key r))"

text \<open>\<open>flushRuntimeKeys\<close> up to the snapshot write that ends it.\<close>

definition flushRuntimeKeys :: "string list \<Rightarrow> string list \<Rightarrow> redis \<Rightarrow> flush_result \<times> redis" where
  "flushRuntimeKeys protectedPrefixes forceClearPrefixes r =
     (let prot = checkProtected protectedPrefixes forceClearPrefixes;
          (f, r1) = fold (flush_key prot) (all_keys r)
                      (\<lparr>flush_deleted = 0, flush_protected = 0, flush_buckets = []\<rparr>, r)
      in (f, r1\<lparr>ttl := filter (\<lambda>(k, _). prot k) (ttl r1)\<rparr>))"

text \<open>The write-budget counter kept on \<open>globalThis\<close>.\<close>

record ops_tracker =
  tracker_timestamp :: int
  tracker_count :: int

record ops_budget =
  budget_current :: int
  budget_limit :: int
  budget_exceeded :: bool

definition trackDatabaseOperation :: "int \<Rightarrow> int \<Rightarrow> ops_tracker option \<Rightarrow> ops_budget \<times> ops_tracker" where
  "trackDatabaseOperation now maxOps tr0 =
     (let tr = (case tr0 of None \<Rightarrow> \<lparr>tracker_timestamp = now, tracker_count = 0\<rparr> | Some t \<Rightarrow> t);
          windowStart = now - 60000;
          tr1 = (if tracker_timestamp tr < windowStart then \<lparr>tracker_timestamp = now, tracker_count = 0\<rparr> else tr);
          tr2 = \<lparr>tracker_timestamp = now, tracker_count = tracker_count tr1 + 1\<rparr>
      in (\<lparr>budget_current = tracker_count tr2, budget_limit = maxOps, budget_exceeded = (maxOps > 0 \<and> tracker_count tr2 > maxOps)\<rparr>, tr2))"

definition getDatabaseOperationCount :: "int \<Rightarrow> ops_tracker option \<Rightarrow> int" where
  "getDatabaseOperationCount now tr0 =
     (case tr0 of None \<Rightarrow> 0 | Some t \<Rightarrow> if tracker_timestamp t < now - 60000 then 0 else tracker_count t)"

subsection \<open>Commands and pipelines\<close>

datatype redis_cmd =
    CType string | CGet string | CMget "string list" | CSet string string set_options
  | CSetex string jsnum string | CIncr string | CIncrby string jsnum | CDel "string list" | CFlushDb
  | CHset string hset_arg | CHmset "string list" | CHgetall string | CHlen string | CHget string string
  | CHdel string "string list" | CHincrby string string jsnum | CHincrbyfloat string string jsnum
  | CSadd string "string list" | CScard string | CSmembers string | CSismember string string
  | CSrem string "string list" | CExpire string jsnum | CPersist string
  | CLpush string "string list" | CRpush string "string list" | CLrange string int int
  | CLtrim string int int | CLlen string | CLrem string int string | CLpos string string
  | CLpop string | CRpop string | CDbSize | CZadd string jsnum string
  | CZrangebyscore string score_limit score_limit | CZcount string score_limit score_limit
  | CZremrangebyscore string score_limit score_limit | CZremrangebyrank string int int
  | CZrange string int int | CZrevrange string int int | CZscore string string | CZcard string
  | CExists string | CTtl string | CUnknown string

datatype reply = RNull | RVoid | RStr string | RInt int | RNum jsnum | RStrs "string option list"
  | RHash "string jsmap"

definition opt_str :: "string option \<Rightarrow> reply" where
  "opt_str v = (case v of None \<Rightarrow> RNull | Some s \<Rightarrow> RStr s)"

fun exec_cmd :: "collate \<Rightarrow> int \<Rightarrow> redis_cmd \<Rightarrow> redis \<Rightarrow> reply \<times> redis" where
  "exec_cmd lc now (CType k) r = (RStr (redis_type now r k), r)"
| "exec_cmd lc now (CGet k) r = map_prod opt_str id (redis_get now k r)"
| "exec_cmd lc now (CMget ks) r = map_prod RStrs id (redis_mget now ks r)"
| "exec_cmd lc now (CSet k v opts) r = map_prod opt_str id (redis_set now k v opts r)"
| "exec_cmd lc now (CSetex k s v) r = (RVoid, redis_setex now k s v r)"
| "exec_cmd lc now (CIncr k) r = map_prod RNum id (redis_incr now k r)"
| "exec_cmd lc now (CIncrby k n) r = map_prod RNum id (redis_incrby now k n r)"
| "exec_cmd lc now (CDel ks) r = map_prod RInt id (redis_del ks r)"
| "exec_cmd lc now CFlushDb r = (RVoid, redis_flushDb r)"
| "exec_cmd lc now (CHset k a) r = map_prod RInt id (redis_hset now k a r)"
| "exec_cmd lc now (CHmset as) r = (RVoid, redis_hmset now as r)"
| "exec_cmd lc now (CHgetall k) r = map_prod RHash id (redis_hgetall now k r)"
| "exec_cmd lc now (CHlen k) r = (RInt (redis_hlen r k), r)"
| "exec_cmd lc now (CHget k f) r = (opt_str (redis_hget now r k f), r)"
| "exec_cmd lc now (CHdel k fs) r = map_prod RInt id (redis_hdel k fs r)"
| "exec_cmd lc now (CHincrby k f n) r = map_prod RNum id (redis_hincrby k f n r)"
| "exec_cmd lc now (CHincrbyfloat k f n) r = map_prod RNum id (redis_hincrbyfloat k f n r)"
| "exec_cmd lc now (CSadd k ms) r = map_prod RInt id (redis_sadd now k ms r)"
| "exec_cmd lc now (CScard k) r = (RInt (redis_scard now r k), r)"
| "exec_cmd lc now (CSmembers k) r = map_prod (RStrs \<circ> map Some) id (redis_smembers now k r)"
| "exec_cmd lc now (CSismember k m) r = (RInt (redis_sismember now r k m), r)"
| "exec_cmd lc now (CSrem k ms) r = map_prod RInt id (redis_srem k ms r)"
| "exec_cmd lc now (CExpire k s) r = map_prod RInt id (redis_expire now k s r)"
| "exec_cmd lc now (CPersist k) r = map_prod RInt id (redis_persist now k r)"
| "exec_cmd lc now (CLpush k vs) r = map_prod RInt id (redis_lpush k vs r)"
| "exec_cmd lc now (CRpush k vs) r = map_prod RInt id (redis_rpush k vs r)"
| "exec_cmd lc now (CLrange k a b) r = (RStrs (map Some (redis_lrange now r k a b)), r)"
| "exec_cmd lc now (CLtrim k a b) r = (RVoid, redis_ltrim k a b r)"
| "exec_cmd lc now (CLlen k) r = (RInt (redis_llen now r k), r)"
| "exec_cmd lc now (CLrem k n v) r = map_prod RInt id (redis_lrem now k n v r)"
| "exec_cmd lc now (CLpos k v) r = (case redis_lpos now r k v of None \<Rightarrow> RNull | Some i \<Rightarrow> RInt i, r)"
| "exec_cmd lc now (CLpop k) r = map_prod opt_str id (redis_lpop now k r)"
| "exec_cmd lc now (CRpop k) r = map_prod opt_str id (redis_rpop now k r)"
| "exec_cmd lc now CDbSize r = (RInt (redis_dbSize r), r)"
| "exec_cmd lc now (CZadd k s m) r = map_prod RInt id (redis_zadd lc k s m r)"
| "exec_cmd lc now (CZrangebyscore k a b) r = map_prod (RStrs \<circ> map Some) id (redis_zrangebyscore lc now k a b r)"
| "exec_cmd lc now (CZcount k a b) r = map_prod RInt id (redis_zcount lc now k a b r)"
| "exec_cmd lc now (CZremrangebyscore k a b) r = map_prod RInt id (redis_zremrangebyscore lc k a b r)"
| "exec_cmd lc now (CZremrangebyrank k a b) r = map_prod RInt id (redis_zremrangebyrank lc k a b r)"
| "exec_cmd lc now (CZrange k a b) r = map_prod (RStrs \<circ> map Some) id (redis_zrange lc now k a b r)"
| "exec_cmd lc now (CZrevrange k a b) r = map_prod (RStrs \<circ> map Some) id (redis_zrevrange lc now k a b r)"
| "exec_cmd lc now (CZscore k m) r = map_prod opt_str id (redis_zscore lc now k m r)"
| "exec_cmd lc now (CZcard k) r = map_prod RInt id (redis_zcard lc now k r)"
| "exec_cmd lc now (CExists k) r = (RInt (redis_exists r k), r)"
| "exec_cmd lc now (CTtl k) r = (RNum (redis_ttl now r k), r)"
| "exec_cmd lc now (CUnknown _) r = (RNull, r)"

text \<open>
  \<open>multi().exec()\<close>: the recorded commands one after another, each at the time it runs, with one
  reply per command.
\<close>

fun multi_exec :: "collate \<Rightarrow> (int \<times> redis_cmd) list \<Rightarrow> redis \<Rightarrow> reply list \<times> redis" where
  "multi_exec lc [] r = ([], r)"
| "multi_exec lc ((now, c) # cs) r =
     (let (x, r1) = exec_cmd lc now c r; (xs, r2) = multi_exec lc cs r1 in (x # xs, r2))"

end
