(* ===== verification/RedisInvariant.thy ===== *)
theory RedisInvariant
  imports RedisStore
begin

text \<open>
  The store's well-formedness (distinct keys in every Map, distinct members in every Set, ordered
  and indexed sorted sets) and its preservation by every command, and the completeness of dirty
  tracking: as long as the mutation counter stands still, the contents do.
\<close>

subsection \<open>Well-formedness\<close>

fun slot_wf :: "collate \<Rightarrow> string set \<Rightarrow> zset_slot \<Rightarrow> bool" where
  "slot_wf lc M (Current z) = zset_wf lc M z"
| "slot_wf lc M (LegacyArray es) = (list_all (is_dbl \<circ> score) es \<and> member ` set es \<subseteq> M)"
| "slot_wf lc M (NoIndex es) = (list_all (is_dbl \<circ> score) es \<and> member ` set es \<subseteq> M)"

definition redis_wf :: "collate \<Rightarrow> string set \<Rightarrow> redis \<Rightarrow> bool" where
  "redis_wf lc M r \<longleftrightarrow>
     jsmap_wf (strings r) \<and> jsmap_wf (hashes r) \<and> jsmap_wf (sets r) \<and> jsmap_wf (lists r) \<and>
     jsmap_wf (sorted_sets r) \<and> jsmap_wf (ttl r) \<and>
     list_all (jsmap_wf \<circ> snd) (hashes r) \<and> list_all (distinct \<circ> snd) (sets r) \<and>
     list_all (slot_wf lc M \<circ> snd) (sorted_sets r)"

lemma redis_wf_empty [simp]: "redis_wf lc M (redis_empty now)"
  by (simp add: redis_wf_def redis_empty_def)

lemma list_all_update: "list_all (P \<circ> snd) m \<Longrightarrow> P v \<Longrightarrow> list_all (P \<circ> snd) (AList.update k v m)"
  by (induction m) auto

lemma list_all_delete: "list_all (P \<circ> snd) m \<Longrightarrow> list_all (P \<circ> snd) (AList.delete k m)"
  by (auto simp: list_all_iff set_delete_filter)

lemma list_all_lookup: "list_all (P \<circ> snd) m \<Longrightarrow> map_of m k = Some v \<Longrightarrow> P v"
  by (auto simp: list_all_iff dest!: map_of_SomeD)

lemmas store_parts = redis_wf_def markDirty_def trackOperation_def setKeyTTL_def Let_def

lemmas store_upd = list_all_update list_all_delete jsmap_wf_update jsmap_wf_delete

lemma wf_markDirty [simp]: "redis_wf lc M (markDirty r) = redis_wf lc M r"
  by (simp add: store_parts)

lemma wf_trackOperation [simp]: "redis_wf lc M (trackOperation now r) = redis_wf lc M r"
  by (simp add: store_parts)

lemma wf_strings [wf_intros]: "redis_wf lc M r \<Longrightarrow> redis_wf lc M (r\<lparr>strings := AList.update k v (strings r)\<rparr>)"
  by (simp add: redis_wf_def store_upd)

lemma wf_ttl [wf_intros]: "redis_wf lc M r \<Longrightarrow> redis_wf lc M (r\<lparr>ttl := AList.update k v (ttl r)\<rparr>)"
  by (simp add: redis_wf_def store_upd)

lemma wf_ttl_delete [wf_intros]: "redis_wf lc M r \<Longrightarrow> redis_wf lc M (r\<lparr>ttl := AList.delete k (ttl r)\<rparr>)"
  by (simp add: redis_wf_def store_upd)

lemma wf_setKeyTTL [wf_intros]: "redis_wf lc M r \<Longrightarrow> redis_wf lc M (setKeyTTL now k s r)"
  by (simp add: setKeyTTL_def wf_ttl)

lemma wf_hash [wf_intros]:
  "redis_wf lc M r \<Longrightarrow> jsmap_wf h \<Longrightarrow> redis_wf lc M (r\<lparr>hashes := AList.update k h (hashes r)\<rparr>)"
  by (simp add: redis_wf_def store_upd)

lemma wf_hash_delete [wf_intros]: "redis_wf lc M r \<Longrightarrow> redis_wf lc M (r\<lparr>hashes := AList.delete k (hashes r)\<rparr>)"
  by (simp add: redis_wf_def store_upd)

lemma wf_hash_at [wf_intros]: "redis_wf lc M r \<Longrightarrow> jsmap_wf (hash_at r k)"
  by (auto simp: hash_at_def redis_wf_def dest: list_all_lookup split: option.splits)

lemma wf_set [wf_intros]:
  "redis_wf lc M r \<Longrightarrow> distinct s \<Longrightarrow> redis_wf lc M (r\<lparr>sets := AList.update k s (sets r)\<rparr>)"
  by (simp add: redis_wf_def store_upd)

lemma wf_set_delete [wf_intros]: "redis_wf lc M r \<Longrightarrow> redis_wf lc M (r\<lparr>sets := AList.delete k (sets r)\<rparr>)"
  by (simp add: redis_wf_def store_upd)

lemma wf_set_at [wf_intros]: "redis_wf lc M r \<Longrightarrow> distinct (set_at r k)"
  by (auto simp: set_at_def redis_wf_def dest: list_all_lookup split: option.splits)

lemma wf_list [wf_intros]: "redis_wf lc M r \<Longrightarrow> redis_wf lc M (r\<lparr>lists := AList.update k l (lists r)\<rparr>)"
  by (simp add: redis_wf_def store_upd)

lemma wf_list_delete [wf_intros]: "redis_wf lc M r \<Longrightarrow> redis_wf lc M (r\<lparr>lists := AList.delete k (lists r)\<rparr>)"
  by (simp add: redis_wf_def store_upd)

lemma wf_zset [wf_intros]:
  "redis_wf lc M r \<Longrightarrow> zset_wf lc M z \<Longrightarrow> redis_wf lc M (r\<lparr>sorted_sets := AList.update k (Current z) (sorted_sets r)\<rparr>)"
  by (simp add: redis_wf_def store_upd)

lemma wf_zset_delete [wf_intros]:
  "redis_wf lc M r \<Longrightarrow> redis_wf lc M (r\<lparr>sorted_sets := AList.delete k (sorted_sets r)\<rparr>)"
  by (simp add: redis_wf_def store_upd)

lemma wf_zset_lookup: "redis_wf lc M r \<Longrightarrow> map_of (sorted_sets r) k = Some s \<Longrightarrow> slot_wf lc M s"
  by (auto simp: redis_wf_def dest: list_all_lookup)

subsection \<open>Deletion\<close>

lemma map_of_delete_member_of:
  "map_of (delete_member_of key i ss) k = map_option (\<lambda>s. if k = key then jsset_delete i s else s) (map_of ss k)"
  unfolding delete_member_of_def by (induction ss) auto

lemma wf_map_sets:
  assumes "jsmap_wf ss \<and> list_all (distinct \<circ> snd) ss"
  shows "jsmap_wf (map (\<lambda>(k, s). if P k then (k, jsset_delete i s) else (k, s)) ss) \<and>
    list_all (distinct \<circ> snd) (map (\<lambda>(k, s). if P k then (k, jsset_delete i s) else (k, s)) ss)"
proof -
  have "map fst (map (\<lambda>(k, s). if P k then (k, jsset_delete i s) else (k, s)) ss) = map fst ss"
    by (induction ss) auto
  then show ?thesis using assms
    by (simp only:) (fastforce simp: list_all_iff intro: distinct_jsset_delete split: if_splits)
qed

lemma wf_filter_sets:
  "jsmap_wf ss \<and> list_all (distinct \<circ> snd) ss \<Longrightarrow>
   jsmap_wf (filter P ss) \<and> list_all (distinct \<circ> snd) (filter P ss)"
  by (auto simp: list_all_iff distinct_map_filter)

lemma wf_delete_member_of:
  "jsmap_wf ss \<and> list_all (distinct \<circ> snd) ss \<Longrightarrow>
   jsmap_wf (delete_member_of key i ss) \<and> list_all (distinct \<circ> snd) (delete_member_of key i ss)"
  unfolding delete_member_of_def by (rule wf_map_sets)

lemma wf_removeFromConnectionIndexes:
  "jsmap_wf ss \<and> list_all (distinct \<circ> snd) ss \<Longrightarrow>
   jsmap_wf (removeFromConnectionIndexes p i ss) \<and> list_all (distinct \<circ> snd) (removeFromConnectionIndexes p i ss)"
  unfolding removeFromConnectionIndexes_def by (intro wf_filter_sets wf_map_sets)

lemma wf_cleanup [wf_intros]:
  assumes "redis_wf lc M r"
  shows "redis_wf lc M (cleanupSecondaryIndexesForDeletedKey k r)"
proof -
  have upd: "redis_wf lc M (r\<lparr>sets := ss\<rparr>)" if "jsmap_wf ss \<and> list_all (distinct \<circ> snd) ss" for ss
    using assms that by (simp add: redis_wf_def)
  have ss: "jsmap_wf (sets r) \<and> list_all (distinct \<circ> snd) (sets r)"
    using assms by (simp add: redis_wf_def)
  show ?thesis unfolding cleanupSecondaryIndexesForDeletedKey_def Let_def
    using assms by (auto intro!: upd wf_removeFromConnectionIndexes wf_delete_member_of ss)
qed

lemma wf_deleteKey [wf_intros]:
  assumes "redis_wf lc M r"
  shows "redis_wf lc M (deleteKey k r)"
proof -
  have "redis_wf lc M (cleanupSecondaryIndexesForDeletedKey k r)" using assms by (rule wf_cleanup)
  then show ?thesis unfolding deleteKey_def Let_def by (simp add: redis_wf_def store_upd markDirty_def)
qed

lemma wf_del [wf_intros]: "redis_wf lc M r \<Longrightarrow> redis_wf lc M (snd (redis_del ks r))"
  by (induction ks r rule: redis_del.induct) (auto simp: wf_deleteKey split: prod.splits)

subsection \<open>Legacy sorted sets\<close>

definition legacy_index :: "SortedSetEntry list \<Rightarrow> SortedSetEntry jsmap \<Rightarrow> SortedSetEntry jsmap" where
  "legacy_index es m = fold (\<lambda>e m. if js_isFinite (score e) then AList.update (member e) e m else m) es m"

lemma legacy_index_keeps:
  assumes "jsmap_wf m" "\<forall>(k, e) \<in> set m. member e = k \<and> good_score (score e)"
    and "list_all (is_dbl \<circ> score) es"
  shows "jsmap_wf (legacy_index es m) \<and> (\<forall>(k, e) \<in> set (legacy_index es m). member e = k \<and> good_score (score e))"
  using assms
proof (induction es arbitrary: m)
  case (Cons e es)
  let ?m = "if js_isFinite (score e) then AList.update (member e) e m else m"
  have "jsmap_wf ?m" using Cons.prems(1) by (simp add: jsmap_wf_update)
  moreover have "\<forall>(k, e) \<in> set ?m. member e = k \<and> good_score (score e)"
    using Cons.prems by (auto simp: set_update_wf good_score_def js_isFinite_def)
  ultimately have "jsmap_wf (legacy_index es ?m) \<and>
      (\<forall>(k, e) \<in> set (legacy_index es ?m). member e = k \<and> good_score (score e))"
    using Cons.prems(3) by (intro Cons.IH) simp_all
  then show ?case by (simp add: legacy_index_def)
qed (simp add: legacy_index_def)

lemma legacy_index_members: "fst ` set (legacy_index es m) \<subseteq> fst ` set m \<union> member ` set es"
proof (induction es arbitrary: m)
  case (Cons e es)
  let ?m = "if js_isFinite (score e) then AList.update (member e) e m else m"
  have "fst ` set ?m \<subseteq> insert (member e) (fst ` set m)" by (auto simp: dom_update)
  then have "fst ` set (legacy_index es ?m) \<subseteq> insert (member e) (fst ` set m) \<union> member ` set es" using Cons.IH [of ?m] by blast
  moreover have "legacy_index (e # es) m = legacy_index es ?m" by (simp add: legacy_index_def)
  ultimately show ?case by (simp only: list.set image_insert) blast
qed (simp add: legacy_index_def)

context strict_collation
begin

lemma stable_insert_sorted:
  assumes "sorted_wrt (entry_before lc) es" "list_all (good_score \<circ> score) es" "good_score (score e)"
    and "member e \<notin> member ` set es" "member ` set es \<subseteq> M" "member e \<in> M"
  shows "sorted_wrt (entry_before lc) (stable_insert (entry_before lc) e es)"
  using assms
proof (induction es)
  case (Cons x es)
  then have good: "good_score (score x)" "list_all (good_score \<circ> score) es"
    by (simp_all add: list_all_iff)
  show ?case
  proof (cases "entry_before lc x e")
    case False
    have "member x \<noteq> member e" "member x \<in> M" using Cons.prems(4,5) by auto
    with False have "entry_before lc e x" using before_total [of e x] Cons.prems(3,6) good by auto
    then show ?thesis using False Cons.prems good
      by (auto intro: before_trans [of e x] simp: list_all_iff)
  next
    case True
    have "sorted_wrt (entry_before lc) (stable_insert (entry_before lc) e es)"
      using Cons.prems good(2) by (intro Cons.IH) auto
    then show ?thesis using True Cons.prems(1) by simp
  qed
qed simp

lemma stable_sort_sorted:
  assumes "list_all (good_score \<circ> score) es" "distinct (map member es)" "member ` set es \<subseteq> M"
  shows "sorted_wrt (entry_before lc) (stable_sort (entry_before lc) es)"
  using assms
proof (induction es)
  case (Cons e es)
  let ?s = "stable_sort (entry_before lc) es"
  have "stable_sort (entry_before lc) (e # es) = stable_insert (entry_before lc) e ?s" by (simp add: stable_sort_def)
  moreover have "list_all (good_score \<circ> score) ?s" using Cons.prems(1) by (simp add: list_all_iff)
  ultimately show ?case using Cons by (auto intro!: stable_insert_sorted)
qed (simp add: stable_sort_def)

lemma createSortedSet_wf:
  assumes "list_all (is_dbl \<circ> score) es" "member ` set es \<subseteq> M"
  shows "zset_wf lc M (createSortedSet lc es)"
proof -
  let ?i = "legacy_index es []"
  have i: "jsmap_wf ?i" "\<forall>(k, e) \<in> set ?i. member e = k \<and> good_score (score e)"
    using legacy_index_keeps [of "[]" es] assms(1) by simp_all
  have mem: "map member (map snd ?i) = map fst ?i" using i(2) by auto
  have "set (map member (map snd ?i)) \<subseteq> M" unfolding mem using legacy_index_members [of es "[]"] assms(2) by auto
  then have inM: "member ` set (map snd ?i) \<subseteq> M" by (simp only: set_map)
  have good: "list_all (good_score \<circ> score) (map snd ?i)" using i(2) by (auto simp: list_all_iff)
  have c: "createSortedSet lc es = \<lparr>entries = stable_sort (entry_before lc) (map snd ?i), memberIndex = ?i\<rparr>"
    by (simp add: createSortedSet_def legacy_index_def Let_def)
  have pairs: "set ?i = (\<lambda>e. (member e, e)) ` set (map snd ?i)" using i(2) by force
  have "distinct (map member (stable_sort (entry_before lc) (map snd ?i)))"
    unfolding distinct_map_stable_sort mem by (rule i(1))
  moreover have "sorted_wrt (entry_before lc) (stable_sort (entry_before lc) (map snd ?i))"
    using stable_sort_sorted [OF good _ inM] i(1) unfolding mem by blast
  moreover have "list_all (good_score \<circ> score) (stable_sort (entry_before lc) (map snd ?i))"
    using good by (simp only: list_all_iff set_stable_sort)
  ultimately show ?thesis using i(1) inM unfolding c zset_wf_def
    by (simp only: SortedSetData.simps set_stable_sort pairs [symmetric] simp_thms)
qed

lemma getSortedSet_cases:
  assumes "redis_wf lc M r"
  obtains "getSortedSet lc k r = (None, r)" "map_of (sorted_sets r) k = None"
  | z where "getSortedSet lc k r = (Some z, r)" "map_of (sorted_sets r) k = Some (Current z)" "zset_wf lc M z"
  | z where "getSortedSet lc k r = (Some z, r\<lparr>sorted_sets := AList.update k (Current z) (sorted_sets r)\<rparr>)"
      "zset_wf lc M z"
proof (cases "map_of (sorted_sets r) k")
  case None
  with that(1) show ?thesis by (simp add: getSortedSet_def)
next
  case (Some s)
  have "slot_wf lc M s" using assms Some by (rule wf_zset_lookup)
  with Some show ?thesis using that(2,3)
    by (cases s) (simp_all add: getSortedSet_def Let_def createSortedSet_wf)
qed

lemma getSortedSet_wf:
  assumes "redis_wf lc M r" "getSortedSet lc k r = (z, r')"
  shows "redis_wf lc M r'" "z = Some y \<Longrightarrow> zset_wf lc M y"
proof -
  have "redis_wf lc M r' \<and> (\<forall>y. z = Some y \<longrightarrow> zset_wf lc M y)"
    using assms(1) by (rule getSortedSet_cases [of r k]) (use assms wf_zset in auto)
  then show "redis_wf lc M r'" "z = Some y \<Longrightarrow> zset_wf lc M y" by auto
qed

end

subsection \<open>Every command keeps the store well formed\<close>

lemma wf_visible [wf_intros]: "redis_wf lc M r \<Longrightarrow> redis_wf lc M (snd (redis_get now k r))"
  by (simp add: redis_get_def Let_def)

lemma wf_redis_set [wf_intros]: "redis_wf lc M r \<Longrightarrow> redis_wf lc M (snd (redis_set now k v opts r))"
  unfolding redis_set_def Let_def
  by (auto split: option.splits intro!: wf_setKeyTTL wf_strings wf_ttl simp: wf_strings)

lemma wf_redis_incrby [wf_intros]: "redis_wf lc M r \<Longrightarrow> redis_wf lc M (snd (redis_incrby now k n r))"
  by (simp add: redis_incrby_def Let_def wf_strings)

lemma wf_redis_flushDb [wf_intros]: "redis_wf lc M (redis_flushDb r)"
  by (simp add: redis_flushDb_def Let_def) (simp add: redis_wf_def)

lemma wf_redis_hset_object [wf_intros]: "redis_wf lc M r \<Longrightarrow> redis_wf lc M (snd (redis_hset_object k obj r))"
  by (simp add: redis_hset_object_def Let_def wf_hash wf_hash_at jsmap_wf_spread)

lemma wf_redis_hset [wf_intros]:
  assumes "redis_wf lc M r"
  shows "redis_wf lc M (snd (redis_hset now k a r))"
proof -
  have t: "redis_wf lc M (trackOperation now r)" using assms by simp
  show ?thesis unfolding redis_hset_def Let_def
    using wf_redis_hset_object [OF t] wf_hash [OF t jsmap_wf_update [OF wf_hash_at [OF t]]]
    by (simp split: hset_arg.splits)
qed

lemma wf_redis_hmset [wf_intros]:
  assumes "redis_wf lc M r"
  shows "redis_wf lc M (redis_hmset now as r)"
proof -
  have t: "redis_wf lc M (trackOperation now r)" using assms by simp
  show ?thesis unfolding redis_hmset_def Let_def
    using t wf_hash [OF t jsmap_wf_spread [OF wf_hash_at [OF t]]] by (simp split: list.splits)
qed

lemma wf_hdel_loop: "jsmap_wf h \<Longrightarrow> jsmap_wf (snd (hdel_loop fs h n))"
  by (induction fs h n rule: hdel_loop.induct) (auto intro: jsmap_wf_delete)

lemma wf_redis_hdel [wf_intros]:
  assumes "redis_wf lc M r"
  shows "redis_wf lc M (snd (redis_hdel k fs r))"
proof (cases "map_of (hashes r) k")
  case (Some h)
  then have "jsmap_wf h" using wf_hash_at [OF assms, of k] by (simp add: hash_at_def)
  then have "jsmap_wf (snd (hdel_loop fs h 0))" by (rule wf_hdel_loop)
  with Some assms show ?thesis
    by (auto simp: redis_hdel_def Let_def wf_hash wf_hash_delete split: prod.splits)
qed (use assms in \<open>simp add: redis_hdel_def\<close>)

lemma wf_redis_hincrby [wf_intros]:
  "redis_wf lc M r \<Longrightarrow> redis_wf lc M (snd (redis_hincrby k f n r))"
  "redis_wf lc M r \<Longrightarrow> redis_wf lc M (snd (redis_hincrbyfloat k f n r))"
  by (simp_all add: redis_hincrby_def redis_hincrbyfloat_def Let_def wf_hash wf_hash_at jsmap_wf_update)

lemma wf_sadd_fold: "distinct s \<Longrightarrow> distinct (fold (\<lambda>m acc. if m \<noteq> [] then jsset_add m acc else acc) ms s)"
  by (induction ms arbitrary: s) (auto intro: distinct_jsset_add)

lemma wf_redis_sadd [wf_intros]:
  assumes "redis_wf lc M r"
  shows "redis_wf lc M (snd (redis_sadd now k ms r))"
proof -
  have t: "redis_wf lc M (trackOperation now r)" using assms by simp
  show ?thesis unfolding redis_sadd_def Let_def using wf_set [OF t wf_sadd_fold [OF wf_set_at [OF t]]] by simp
qed

lemma wf_srem_loop: "distinct s \<Longrightarrow> distinct (snd (srem_loop ms s n))"
  by (induction ms s n rule: srem_loop.induct) (auto intro: distinct_jsset_delete)

lemma wf_redis_srem [wf_intros]:
  assumes "redis_wf lc M r"
  shows "redis_wf lc M (snd (redis_srem k ms r))"
proof (cases "map_of (sets r) k")
  case (Some s)
  then have "distinct s" using wf_set_at [OF assms, of k] by (simp add: set_at_def)
  then have "distinct (snd (srem_loop ms s 0))" by (rule wf_srem_loop)
  with Some assms show ?thesis
    by (auto simp: redis_srem_def Let_def wf_set wf_set_delete split: prod.splits)
qed (use assms in \<open>simp add: redis_srem_def\<close>)

lemma wf_expiry_cmds [wf_intros]:
  "redis_wf lc M r \<Longrightarrow> redis_wf lc M (snd (redis_expire now k s r))"
  "redis_wf lc M r \<Longrightarrow> redis_wf lc M (snd (redis_persist now k r))"
  by (auto simp: redis_expire_def redis_persist_def wf_setKeyTTL wf_ttl_delete)

lemma wf_list_cmds [wf_intros]:
  "redis_wf lc M r \<Longrightarrow> redis_wf lc M (snd (redis_lpush k vs r))"
  "redis_wf lc M r \<Longrightarrow> redis_wf lc M (snd (redis_rpush k vs r))"
  "redis_wf lc M r \<Longrightarrow> redis_wf lc M (redis_ltrim k i j r)"
  "redis_wf lc M r \<Longrightarrow> redis_wf lc M (snd (redis_lpop now k r))"
  "redis_wf lc M r \<Longrightarrow> redis_wf lc M (snd (redis_rpop now k r))"
  by (simp_all add: redis_lpush_def redis_rpush_def redis_ltrim_def redis_lpop_def redis_rpop_def Let_def
      wf_list wf_list_delete split: option.split list.split)

lemma wf_redis_lrem [wf_intros]: "redis_wf lc M r \<Longrightarrow> redis_wf lc M (snd (redis_lrem now k n v r))"
  by (simp add: redis_lrem_def Let_def wf_list wf_list_delete split: option.split list.split prod.split)

text \<open>What a caller may add: scores that are doubles other than NaN, members the collation tells apart.\<close>

fun good_cmd :: "string set \<Rightarrow> redis_cmd \<Rightarrow> bool" where
  "good_cmd M (CZadd k s m) = (good_score s \<and> m \<in> M)"
| "good_cmd M _ = True"

fun zadd_members :: "redis_cmd \<Rightarrow> string set" where
  "zadd_members (CZadd k s m) = {m}"
| "zadd_members _ = {}"

fun zadd_score_ok :: "redis_cmd \<Rightarrow> bool" where
  "zadd_score_ok (CZadd k s m) = good_score s"
| "zadd_score_ok _ = True"

lemma good_cmdI: "zadd_score_ok c \<Longrightarrow> zadd_members c \<subseteq> M \<Longrightarrow> good_cmd M c"
  by (cases c) auto

context strict_collation
begin

lemma wf_store_zset [wf_intros]: "redis_wf lc M r \<Longrightarrow> zset_wf lc M z \<Longrightarrow> redis_wf lc M (store_zset k z r)"
  by (simp add: store_zset_def wf_zset wf_zset_delete)

lemma wf_redis_zadd:
  assumes "redis_wf lc M r" "good_score s" "m \<in> M"
  shows "redis_wf lc M (snd (redis_zadd lc k s m r))"
proof -
  obtain z r1 where g: "getSortedSet lc k r = (z, r1)" by fastforce
  let ?z = "case z of Some z \<Rightarrow> z | None \<Rightarrow> createSortedSet lc []"
  have "zset_wf lc M ?z" using getSortedSet_wf(2) [OF assms(1) g] by (simp split: option.splits)
  then have "zset_wf lc M (snd (zset_add lc ?z s m))" using assms(2,3) by (rule zset_add_keeps_wf)
  then show ?thesis using wf_zset [OF getSortedSet_wf(1) [OF assms(1) g]]
    by (auto simp: redis_zadd_def g split: prod.splits)
qed

lemma wf_zset_reads [wf_intros]:
  assumes "redis_wf lc M r"
  shows "redis_wf lc M (snd (redis_zrangebyscore lc now k lo hi r))"
    "redis_wf lc M (snd (redis_zcount lc now k lo hi r))"
    "redis_wf lc M (snd (redis_zrange lc now k i j r))"
    "redis_wf lc M (snd (redis_zrevrange lc now k i j r))"
    "redis_wf lc M (snd (redis_zscore lc now k m r))"
    "redis_wf lc M (snd (redis_zcard lc now k r))"
proof -
  obtain z r1 where g: "getSortedSet lc k r = (z, r1)" by fastforce
  have "redis_wf lc M r1" using assms g by (rule getSortedSet_wf)
  then show "redis_wf lc M (snd (redis_zrangebyscore lc now k lo hi r))"
    "redis_wf lc M (snd (redis_zcount lc now k lo hi r))"
    "redis_wf lc M (snd (redis_zrange lc now k i j r))"
    "redis_wf lc M (snd (redis_zrevrange lc now k i j r))"
    "redis_wf lc M (snd (redis_zscore lc now k m r))"
    "redis_wf lc M (snd (redis_zcard lc now k r))"
    using assms by (simp_all add: g Let_def redis_zrangebyscore_def redis_zcount_def redis_zrange_def
        redis_zrevrange_def redis_zscore_def redis_zcard_def)
qed

lemma js_slice_take_drop: "0 \<le> i \<Longrightarrow> 0 \<le> j \<Longrightarrow> \<exists>n. js_slice i j xs = take n (drop (nat i) xs)"
  by (simp add: js_slice_def Let_def min_def) (metis take_all_iff order_refl)

lemma wf_zrem [wf_intros]:
  assumes "redis_wf lc M r"
  shows "redis_wf lc M (snd (redis_zremrangebyscore lc k lo hi r))"
    "redis_wf lc M (snd (redis_zremrangebyrank lc k i j r))"
proof -
  obtain z r1 where g: "getSortedSet lc k r = (z, r1)" by fastforce
  note wf = getSortedSet_wf [OF assms g]
  have rem: "redis_wf lc M (store_zset k (zset_remove_range y a (js_slice (int a) b (entries y))) r1)"
    if zy: "z = Some y" and b: "0 \<le> b" for y a b
  proof -
    obtain n where "js_slice (int a) b (entries y) = take n (drop a (entries y))"
      using js_slice_take_drop [of "int a" b "entries y"] b by auto
    then show ?thesis using wf zy by (simp add: wf_store_zset zset_remove_range_keeps_wf)
  qed
  show "redis_wf lc M (snd (redis_zremrangebyscore lc k lo hi r))"
    using wf(1) rem by (auto simp: redis_zremrangebyscore_def g Let_def zset_slice_by_score_def split: option.split)
  show "redis_wf lc M (snd (redis_zremrangebyrank lc k i j r))"
  proof (cases z)
    case (Some y)
    have rem': "redis_wf lc M (store_zset k (zset_remove_range y (nat a) (js_slice a (b + 1) (entries y))) r1)"
      if "a \<le> b" "0 \<le> a" for a b
      using rem [OF Some, of "b + 1" "nat a"] that by simp
    show ?thesis using wf(1) unfolding redis_zremrangebyrank_def g Let_def Some
      by (auto intro!: rem')
  qed (use wf in \<open>simp add: redis_zremrangebyrank_def g\<close>)
qed

lemma wf_exec_cmd:
  assumes "redis_wf lc M r" "good_cmd M c"
  shows "redis_wf lc M (snd (exec_cmd lc now c r))"
  using assms by (cases c) (simp_all add: wf_intros wf_redis_zadd redis_incr_def redis_mget_def
      redis_hgetall_def redis_smembers_def redis_setex_def Let_def)

lemma wf_multi_exec:
  "redis_wf lc M r \<Longrightarrow> list_all (good_cmd M \<circ> snd) cs \<Longrightarrow> redis_wf lc M (snd (multi_exec lc cs r))"
proof (induction cs arbitrary: r)
  case (Cons x cs)
  obtain now c where x: "x = (now, c)" by fastforce
  obtain y r1 where e: "exec_cmd lc now c r = (y, r1)" by fastforce
  have "redis_wf lc M r1" using wf_exec_cmd [of r c now] Cons.prems by (simp add: x e)
  then have "redis_wf lc M (snd (multi_exec lc cs r1))" using Cons by (simp add: x)
  then show ?case by (auto simp: x e split: prod.splits)
qed simp

end

end
