(* ===== verification/RedisDirty.thy ===== *)
theory RedisDirty
  imports RedisInvariant
begin

text \<open>
  Dirty tracking.  The snapshot writer compares the mutation counter with the value it saved
  last and skips the write when they agree; that is sound only if a command that leaves the
  counter alone leaves the contents alone.  The lemmas show this for every command, with the
  contents of a key taken as what a client can read: an absent container and an empty one are
  the same, and so are a legacy sorted set and its migrated form.
\<close>

record key_contents =
  c_string :: "string option"
  c_hash :: "string jsmap"
  c_set :: jsset
  c_list :: "string list"
  c_zset :: "SortedSetEntry list"
  c_ttl :: "jsnum option"

definition contents :: "collate \<Rightarrow> redis \<Rightarrow> string \<Rightarrow> key_contents" where
  "contents lc r k = \<lparr>c_string = map_of (strings r) k, c_hash = hash_at r k, c_set = set_at r k,
     c_list = list_at r k, c_zset = zset_entries (fst (getSortedSet lc k r)), c_ttl = map_of (ttl r) k\<rparr>"

text \<open>The sorted set a slot stands for.\<close>

fun slot_data :: "collate \<Rightarrow> zset_slot \<Rightarrow> SortedSetData" where
  "slot_data lc (Current z) = z"
| "slot_data lc (LegacyArray es) = createSortedSet lc es"
| "slot_data lc (NoIndex es) = createSortedSet lc es"

lemma fst_getSortedSet: "fst (getSortedSet lc k r) = map_option (slot_data lc) (map_of (sorted_sets r) k)"
  by (simp add: getSortedSet_def Let_def split: option.split zset_slot.split)

definition tracked :: "collate \<Rightarrow> redis \<Rightarrow> redis \<Rightarrow> bool" where
  "tracked lc r r' \<longleftrightarrow> mutation_version r \<le> mutation_version r' \<and>
     (mutation_version r = mutation_version r' \<longrightarrow> contents lc r = contents lc r')"

lemma tracked_refl [simp]: "tracked lc r r"
  by (simp add: tracked_def)

lemma tracked_trans: "tracked lc a b \<Longrightarrow> tracked lc b c \<Longrightarrow> tracked lc a c"
  by (auto simp: tracked_def)

lemma tracked_dirty: "mutation_version r' = mutation_version r \<Longrightarrow> tracked lc r (markDirty r')"
  by (simp add: tracked_def markDirty_def)

lemma tracked_same: "mutation_version r' = mutation_version r \<Longrightarrow> contents lc r = contents lc r' \<Longrightarrow> tracked lc r r'"
  by (simp add: tracked_def)

lemmas content_defs = contents_def hash_at_def set_at_def list_at_def fst_getSortedSet

lemma contents_trackOperation [simp]: "contents lc (trackOperation now r) = contents lc r"
  by (rule ext) (simp add: content_defs trackOperation_def Let_def)

lemma version_simps [simp]:
  "mutation_version (trackOperation now r) = mutation_version r"
  "mutation_version (markDirty r) = mutation_version r + 1"
  "mutation_version (setKeyTTL now k s r) = mutation_version r + 1"
  by (simp_all add: trackOperation_def markDirty_def setKeyTTL_def Let_def)

lemma tracked_track [simp]: "tracked lc r (trackOperation now r)"
  by (simp add: tracked_def)

lemma tracked_from_track: "tracked lc (trackOperation now r) r' \<Longrightarrow> tracked lc r r'"
  by (simp add: tracked_def)

subsection \<open>Writes that may change nothing\<close>

lemma contents_hash_same:
  "h = hash_at r k \<Longrightarrow> contents lc (r\<lparr>hashes := AList.update k h (hashes r)\<rparr>) = contents lc r"
  by (rule ext) (simp add: content_defs)

lemma contents_hash_empty:
  "hash_at r k = [] \<Longrightarrow> contents lc (r\<lparr>hashes := AList.delete k (hashes r)\<rparr>) = contents lc r"
  by (rule ext) (auto simp: content_defs)

lemma contents_set_same:
  "s = set_at r k \<Longrightarrow> contents lc (r\<lparr>sets := AList.update k s (sets r)\<rparr>) = contents lc r"
  by (rule ext) (simp add: content_defs)

lemma contents_set_empty:
  "set_at r k = [] \<Longrightarrow> contents lc (r\<lparr>sets := AList.delete k (sets r)\<rparr>) = contents lc r"
  by (rule ext) (auto simp: content_defs)

lemma contents_list_same:
  "l = list_at r k \<Longrightarrow> contents lc (r\<lparr>lists := AList.update k l (lists r)\<rparr>) = contents lc r"
  by (rule ext) (simp add: content_defs)

lemma contents_list_empty:
  "list_at r k = [] \<Longrightarrow> contents lc (r\<lparr>lists := AList.delete k (lists r)\<rparr>) = contents lc r"
  by (rule ext) (auto simp: content_defs)

lemma contents_getSortedSet: "contents lc (snd (getSortedSet lc k r)) = contents lc r"
  by (rule ext) (auto simp: content_defs, auto simp: getSortedSet_def Let_def split: option.split zset_slot.split)

lemma version_getSortedSet [simp]: "mutation_version (snd (getSortedSet lc k r)) = mutation_version r"
  by (auto simp: getSortedSet_def Let_def split: option.split zset_slot.split)

lemma tracked_getSortedSet: "getSortedSet lc k r = (z, r') \<Longrightarrow> tracked lc r r'"
  using contents_getSortedSet [of lc k r] version_getSortedSet [of lc k r] by (simp add: tracked_def)

lemma hdel_loop_count:
  "n \<le> fst (hdel_loop fs h n) \<and> (fst (hdel_loop fs h n) = n \<longrightarrow> snd (hdel_loop fs h n) = h)"
  by (induction fs h n rule: hdel_loop.induct) auto

lemma srem_loop_count:
  "n \<le> fst (srem_loop ms s n) \<and> (fst (srem_loop ms s n) = n \<longrightarrow> snd (srem_loop ms s n) = s)"
  by (induction ms s n rule: srem_loop.induct) auto

lemma lrem_loop_count:
  "n \<le> fst (lrem_loop w t v n xs) \<and> (fst (lrem_loop w t v n xs) = n \<longrightarrow> snd (lrem_loop w t v n xs) = xs)"
  by (induction w t v n xs rule: lrem_loop.induct) (auto split: prod.splits)

lemma sadd_fold_grows:
  "\<exists>ys. fold (\<lambda>m acc. if m \<noteq> [] then jsset_add m acc else acc) ms s = s @ ys"
proof (induction ms arbitrary: s)
  case (Cons m ms)
  have "\<exists>ys. (if m \<noteq> [] then jsset_add m s else s) = s @ ys" by (auto simp: jsset_add_def)
  then obtain ys where "(if m \<noteq> [] then jsset_add m s else s) = s @ ys" ..
  with Cons [of "s @ ys"] show ?case by auto
qed simp

lemma length_take_drop_full: "length (take n (drop i xs)) = length xs \<Longrightarrow> take n (drop i xs) = xs"
  by (cases "i = 0"; cases xs) (auto simp: min_def split: if_splits)

lemma list_range_full: "length (list_range i j xs) = length xs \<Longrightarrow> list_range i j xs = xs"
  unfolding list_range_def js_slice_def Let_def by (rule length_take_drop_full)

lemma js_spread_nil [simp]: "js_spread a [] = a"
  by (simp add: js_spread_def)

subsection \<open>The commands\<close>

lemma tracked_setKeyTTL: "tracked lc r (setKeyTTL now k s r)"
  by (simp add: setKeyTTL_def tracked_dirty)

lemma tracked_set: "tracked lc r (snd (redis_set now k v opts r))"
  unfolding redis_set_def Let_def
  by (auto simp: tracked_def split: option.splits)

lemma tracked_deleteKey: "has_data r k \<Longrightarrow> tracked lc r (deleteKey k r)"
  unfolding deleteKey_def Let_def
  by (simp add: tracked_def cleanupSecondaryIndexesForDeletedKey_def Let_def)

lemma tracked_del: "tracked lc r (snd (redis_del ks r))"
  by (induction ks r rule: redis_del.induct)
    (auto intro: tracked_trans tracked_deleteKey split: prod.splits)

lemma tracked_flushDb: "tracked lc r (redis_flushDb r)"
proof (cases "redis_dbSize r > 0 \<or> length (ttl r) > 0")
  case False
  then have "length (strings r) = 0" "length (hashes r) = 0" "length (sets r) = 0" "length (lists r) = 0"
    "length (sorted_sets r) = 0" "length (ttl r) = 0"
    unfolding redis_dbSize_def by linarith+
  then have "redis_flushDb r = r" by (simp add: redis_flushDb_def redis_dbSize_def)
  then show ?thesis by simp
qed (simp add: redis_flushDb_def tracked_def)

lemma tracked_hset_object: "tracked lc r (snd (redis_hset_object k obj r))"
proof (cases "normalizeRedisHash obj = []")
  case True
  then show ?thesis by (simp add: redis_hset_object_def tracked_def contents_hash_same)
qed (simp add: redis_hset_object_def Let_def tracked_def)

lemma tracked_hset: "tracked lc r (snd (redis_hset now k a r))"
  unfolding redis_hset_def Let_def
  by (auto intro!: tracked_from_track [of lc now] tracked_hset_object tracked_dirty split: hset_arg.split)

lemma tracked_hmset: "tracked lc r (redis_hmset now as r)"
proof -
  have "hmset_object (f # v # rest) [] \<noteq> []" for f v rest
  proof -
    have "obj \<noteq> [] \<Longrightarrow> hmset_object xs obj \<noteq> []" for xs obj
      by (induction xs obj rule: hmset_object.induct) (auto simp: update_conv)
    then show ?thesis by simp
  qed
  then show ?thesis unfolding redis_hmset_def Let_def
    by (auto intro!: tracked_from_track [of lc now] tracked_dirty split: list.split)
qed

lemma tracked_hdel: "tracked lc r (snd (redis_hdel k fs r))"
proof (cases "map_of (hashes r) k")
  case (Some h)
  then have h: "hash_at r k = h" by (simp add: hash_at_def)
  obtain n h' where l: "hdel_loop fs h 0 = (n, h')" by fastforce
  then have "0 \<le> n" "n = 0 \<Longrightarrow> h' = h" using hdel_loop_count [of 0 fs h] by auto
  then show ?thesis using Some h
    by (auto simp: redis_hdel_def l Let_def tracked_def contents_hash_same contents_hash_empty)
qed (simp add: redis_hdel_def)

lemma tracked_sadd: "tracked lc r (snd (redis_sadd now k ms r))"
proof -
  let ?r = "trackOperation now r"
  obtain ys where "fold (\<lambda>m acc. if m \<noteq> [] then jsset_add m acc else acc) ms (set_at ?r k) = set_at ?r k @ ys"
    using sadd_fold_grows by blast
  then have "tracked lc ?r (snd (redis_sadd now k ms r))" unfolding redis_sadd_def Let_def
    by (auto simp: tracked_def contents_set_same)
  then show ?thesis by (rule tracked_from_track)
qed

lemma tracked_srem: "tracked lc r (snd (redis_srem k ms r))"
proof (cases "map_of (sets r) k")
  case (Some s)
  then have s: "set_at r k = s" by (simp add: set_at_def)
  obtain n s' where l: "srem_loop ms s 0 = (n, s')" by fastforce
  then have "0 \<le> n" "n = 0 \<Longrightarrow> s' = s" using srem_loop_count [of 0 ms s] by auto
  then show ?thesis using Some s
    by (auto simp: redis_srem_def l Let_def tracked_def contents_set_same contents_set_empty)
qed (simp add: redis_srem_def)

lemma tracked_push:
  "tracked lc r (snd (redis_lpush k vs r))" "tracked lc r (snd (redis_rpush k vs r))"
  by (auto simp: redis_lpush_def redis_rpush_def Let_def tracked_def contents_list_same)

lemma tracked_ltrim: "tracked lc r (redis_ltrim k i j r)"
proof (cases "map_of (lists r) k")
  case (Some l)
  then have "list_at r k = l" by (simp add: list_at_def)
  with Some show ?thesis
    by (auto simp: redis_ltrim_def Let_def tracked_def contents_list_same dest: list_range_full)
qed (simp add: redis_ltrim_def)

lemma tracked_pop:
  "tracked lc r (snd (redis_lpop now k r))" "tracked lc r (snd (redis_rpop now k r))"
  by (auto simp: redis_lpop_def redis_rpop_def tracked_def split: option.split list.split)

lemma tracked_lrem: "tracked lc r (snd (redis_lrem now k c v r))"
proof -
  have "tracked lc r (snd (redis_lrem now k c v r))" if "map_of (lists r) k = Some (x # xs)" for x xs
  proof -
    have l: "list_at r k = x # xs" using that by (simp add: list_at_def)
    obtain n l' where lr: "(if c \<ge> 0 then lrem_loop (c = 0) \<bar>c\<bar> v 0 (x # xs)
        else let (n, ys) = lrem_loop (c = 0) \<bar>c\<bar> v 0 (rev (x # xs)) in (n, rev ys)) = (n, l')" by fastforce
    have "0 \<le> n \<and> (n = 0 \<longrightarrow> l' = x # xs)"
      using lrem_loop_count [of 0 "c = 0" "\<bar>c\<bar>" v "x # xs"] lrem_loop_count [of 0 "c = 0" "\<bar>c\<bar>" v "rev (x # xs)"] lr
      by (auto simp del: lrem_loop.simps split: if_splits prod.splits)
    then show ?thesis using that l unfolding redis_lrem_def Let_def
      by (auto simp: lr [unfolded Let_def] tracked_def contents_list_same simp del: lrem_loop.simps rev.simps)
  qed
  then show ?thesis by (cases "map_of (lists r) k") (auto simp: redis_lrem_def split: list.split)
qed

lemma tracked_zadd: "tracked lc r (snd (redis_zadd lc k s m r))"
proof -
  obtain z r1 where g: "getSortedSet lc k r = (z, r1)" by fastforce
  then have "mutation_version r1 = mutation_version r" using version_getSortedSet [of lc k r] by simp
  then show ?thesis by (simp add: redis_zadd_def g tracked_def split: prod.split)
qed

lemma tracked_zset_reads:
  "tracked lc r (snd (redis_zrangebyscore lc now k lo hi r))" "tracked lc r (snd (redis_zcount lc now k lo hi r))"
  "tracked lc r (snd (redis_zrange lc now k i j r))" "tracked lc r (snd (redis_zrevrange lc now k i j r))"
  "tracked lc r (snd (redis_zscore lc now k m r))" "tracked lc r (snd (redis_zcard lc now k r))"
  by (auto simp: redis_zrangebyscore_def redis_zcount_def redis_zrange_def redis_zrevrange_def redis_zscore_def
      redis_zcard_def Let_def split: prod.split intro: tracked_getSortedSet)

lemma tracked_zrem:
  "tracked lc r (snd (redis_zremrangebyscore lc k lo hi r))" "tracked lc r (snd (redis_zremrangebyrank lc k i j r))"
proof -
  obtain z r1 where g: "getSortedSet lc k r = (z, r1)" by fastforce
  then have t: "tracked lc r r1" by (rule tracked_getSortedSet)
  have d: "tracked lc r (markDirty (store_zset k y r1))" for y
    using t by (auto simp: tracked_def store_zset_def)
  show "tracked lc r (snd (redis_zremrangebyscore lc k lo hi r))"
    unfolding redis_zremrangebyscore_def g Let_def using t d by (simp split: option.split)
  show "tracked lc r (snd (redis_zremrangebyrank lc k i j r))"
    unfolding redis_zremrangebyrank_def g Let_def using t d by (simp split: option.split)
qed

lemma tracked_misc:
  "tracked lc r (redis_setex now k s v r)" "tracked lc r (snd (redis_incrby now k n r))"
  "tracked lc r (snd (redis_hincrby k f n r))" "tracked lc r (snd (redis_hincrbyfloat k f n r))"
  "tracked lc r (snd (redis_expire now k s r))" "tracked lc r (snd (redis_persist now k r))"
  by (auto simp: redis_setex_def redis_incrby_def redis_hincrby_def redis_hincrbyfloat_def redis_expire_def
      redis_persist_def Let_def tracked_def)

lemma tracked_exec_cmd: "tracked lc r (snd (exec_cmd lc now c r))"
  by (cases c) (simp_all add: tracked_set tracked_del tracked_flushDb tracked_hset tracked_hmset tracked_hdel
      tracked_sadd tracked_srem tracked_push tracked_ltrim tracked_pop tracked_lrem tracked_zadd
      tracked_zset_reads tracked_zrem tracked_misc redis_get_def redis_mget_def redis_hgetall_def
      redis_smembers_def redis_incr_def Let_def)

lemma tracked_multi_exec: "tracked lc r (snd (multi_exec lc cs r))"
proof (induction cs arbitrary: r)
  case (Cons x cs)
  obtain y r1 where e: "exec_cmd lc (fst x) (snd x) r = (y, r1)" by fastforce
  then have "tracked lc r r1" using tracked_exec_cmd [of lc r "fst x" "snd x"] by simp
  then have "tracked lc r (snd (multi_exec lc cs r1))" using Cons by (rule tracked_trans)
  with e show ?case by (cases x) (auto split: prod.splits)
qed simp

end
