(* ===== verification/RedisProps.thy ===== *)
theory RedisProps
  imports RedisDirty
begin

text \<open>
  What the commands of the in-process Redis promise their callers: well-formedness after any
  pipeline, sound dirty tracking, \<open>SET NX\<close>, expiry windows, counters, queues, capped lists,
  sorted-set ranges, deletion and the two maintenance sweeps.
\<close>

subsection \<open>Pipelines\<close>

text \<open>C19. A store that starts empty is well formed after any pipeline of commands whose scores are
  numbers and whose sorted-set members \<open>localeCompare\<close> tells apart (it answers 0 for no two distinct
  ones): keys are unique in every Map, members are unique in every Set, and every sorted set is
  strictly ordered by score and member and agrees with its index.\<close>

theorem redis_pipeline_wf:
  fixes cs :: "(int \<times> redis_cmd) list"
  defines "members \<equiv> \<Union> (zadd_members ` snd ` set cs)"
  assumes "collation lc" "\<forall>a \<in> members. \<forall>b \<in> members. lc a b = 0 \<longrightarrow> a = b" "list_all (zadd_score_ok \<circ> snd) cs"
  shows "redis_wf lc members (snd (multi_exec lc cs (redis_empty now)))"
proof -
  have strict: "strict_collation lc members" using assms(2,3) by (auto simp: strict_collation_def strict_collation_axioms_def)
  have "list_all (good_cmd members \<circ> snd) cs" using assms(4) by (auto simp: list_all_iff members_def intro!: good_cmdI)
  then show ?thesis by (rule strict_collation.wf_multi_exec [OF strict redis_wf_empty])
qed

theorem redis_pipeline_wf_witness:
  "redis_wf code_unit_compare {''a'', ''b''} (snd (multi_exec code_unit_compare
     [(5, CZadd ''z'' (num_of_int 2) ''a''), (6, CZadd ''z'' (num_of_int 1) ''b''), (7, CSadd ''s'' [''x'', ''x''])]
     (redis_empty 5)))"
proof -
  have "good_score (num_of_int 2)" "good_score (num_of_int 1)"
    by (simp_all add: good_score_def is_dbl_int del: of_int_numeral of_int_1)
  then show ?thesis
    using redis_pipeline_wf [OF code_unit.collation_axioms, of "[(5, CZadd ''z'' (num_of_int 2) ''a''), (6, CZadd ''z'' (num_of_int 1) ''b''), (7, CSadd ''s'' [''x'', ''x''])]"]
    by (simp add: code_unit_compare_eq insert_commute)
qed

text \<open>C37. Dirty tracking is complete: a pipeline never lowers the mutation counter, and if the
  counter is unchanged then no key's string, hash, set, list, sorted set or expiry changed, so a
  snapshot writer that skips unchanged versions loses nothing.\<close>

theorem redis_dirty_tracking:
  "mutation_version r \<le> mutation_version (snd (multi_exec lc cs r)) \<and>
   (mutation_version (snd (multi_exec lc cs r)) = mutation_version r \<longrightarrow>
    contents lc (snd (multi_exec lc cs r)) k = contents lc r k)"
  using tracked_multi_exec [of lc r cs] by (simp add: tracked_def)

theorem redis_dirty_tracking_witness:
  "contents code_unit_compare (snd (multi_exec code_unit_compare
      [(5, CSrem ''s'' [''x'']), (5, CLtrim ''l'' 0 9), (6, CGet ''k'')] (redis_empty 5))) ''k'' =
   contents code_unit_compare (redis_empty 5) ''k''"
  by (rule redis_dirty_tracking [THEN conjunct2, THEN mp])
    (simp add: redis_empty_def redis_srem_def redis_ltrim_def redis_get_def Let_def trackOperation_def)

subsection \<open>Strings\<close>

lemma isExpired_simps [simp]:
  "isExpired t (trackOperation now r) k = isExpired t r k"
  "isExpired t (markDirty r) k = isExpired t r k"
  "isExpired t (r\<lparr>strings := x\<rparr>) k = isExpired t r k"
  "isExpired t (r\<lparr>lists := y\<rparr>) k = isExpired t r k"
  by (simp_all add: isExpired_def trackOperation_def markDirty_def Let_def)

lemma field_simps [simp]:
  "strings (trackOperation now r) = strings r" "strings (markDirty r) = strings r"
  "strings (setKeyTTL now k s r) = strings r" "ttl (trackOperation now r) = ttl r" "ttl (markDirty r) = ttl r"
  "lists (markDirty r) = lists r" "hashes (markDirty r) = hashes r" "sets (markDirty r) = sets r"
  "sorted_sets (markDirty r) = sorted_sets r"
  by (simp_all add: trackOperation_def markDirty_def setKeyTTL_def Let_def)

text \<open>\<open>SET key value NX\<close> is a test-and-set: it answers OK exactly when no live string is
  stored under the key; then the value is stored, and otherwise nothing but the request
  statistics changes.\<close>

theorem redis_set_nx:
  assumes "opt_NX opts" "\<not> opt_XX opts"
  shows "case redis_set now k v opts r of (ans, r') \<Rightarrow>
    if visible_string now r k = None
    then ans = Some ''OK'' \<and> strings r' = AList.update k v (strings r)
    else ans = None \<and> r' = trackOperation now r"
  using assms unfolding redis_set_def visible_string_def Let_def
  by (auto split: option.splits)

theorem redis_set_nx_witness:
  "redis_set 7 ''lock'' ''b'' (no_options\<lparr>opt_NX := True\<rparr>) ((redis_empty 7)\<lparr>strings := [(''lock'', ''a'')]\<rparr>) =
   (None, trackOperation 7 ((redis_empty 7)\<lparr>strings := [(''lock'', ''a'')]\<rparr>))"
  using redis_set_nx [of "no_options\<lparr>opt_NX := True\<rparr>", where now = 7 and k = "''lock''" and v = "''b''"
      and r = "(redis_empty 7)\<lparr>strings := [(''lock'', ''a'')]\<rparr>"]
  by (auto simp: no_options_def visible_string_def isExpired_def redis_empty_def split: prod.splits)

text \<open>\<open>SETEX\<close> opens an exact window: with whole seconds and clock values below two to the
  53rd, the value is readable at every time before \<open>now + 1000 * seconds\<close> and hidden from then on.\<close>

theorem redis_setex_window:
  assumes "0 \<le> now" "0 < s" "now + 1000 * s \<le> 2 ^ 53"
  shows "visible_string t (redis_setex now k (num_of_int s) v r) k =
    (if t < now + 1000 * s then Some v else None)"
proof -
  have m: "js_mul (num_of_int s) (num_of_int 1000) = num_of_int (s * 1000)"
    using assms by (intro js_mul_int) auto
  have a: "js_add (num_of_int now) (num_of_int (s * 1000)) = num_of_int (now + s * 1000)"
    using assms by (intro js_add_int) auto
  have e: "map_of (ttl (redis_setex now k (num_of_int s) v r)) k = Some (num_of_int (now + s * 1000))"
    unfolding redis_setex_def setKeyTTL_def m a by simp
  have "(of_int (now + s * 1000) \<le> (of_int t :: rat)) = (now + s * 1000 \<le> t)" by (rule of_int_le_iff)
  moreover have "truthy (num_of_int (now + s * 1000))"
  proof -
    have "(of_int (now + s * 1000) :: rat) \<noteq> 0" using assms by (simp only: of_int_eq_0_iff)
    then show ?thesis by (simp add: truthy_def)
  qed
  ultimately have "isExpired t (redis_setex now k (num_of_int s) v r) k = (now + s * 1000 \<le> t)"
    unfolding isExpired_def e by simp
  then show ?thesis by (auto simp: visible_string_def redis_setex_def)
qed

theorem redis_setex_window_witness:
  "visible_string 5999 (redis_setex 1000 ''k'' (num_of_int 5) ''v'' (redis_empty 1000)) ''k'' = Some ''v'' \<and>
   visible_string 6000 (redis_setex 1000 ''k'' (num_of_int 5) ''v'' (redis_empty 1000)) ''k'' = None"
  using redis_setex_window [of 1000 5 5999 "''k''" "''v''" "redis_empty 1000"]
    redis_setex_window [of 1000 5 6000 "''k''" "''v''" "redis_empty 1000"] by simp

text \<open>Consecutive \<open>INCR\<close>s of one key, each at its own time: the replies and the last store.\<close>

fun incr_seq :: "string \<Rightarrow> int list \<Rightarrow> redis \<Rightarrow> jsnum list \<times> redis" where
  "incr_seq k [] r = ([], r)"
| "incr_seq k (t # ts) r = (let (v, r1) = redis_incr t k r; (vs, r2) = incr_seq k ts r1 in (v # vs, r2))"

lemma incr_step:
  assumes "map_of (ttl r) k = None" "str_or (map_of (strings r) k) ''0'' = string_of_int n" "0 \<le> n" "n < 2 ^ 53"
  shows "fst (redis_incr t k r) = num_of_int (n + 1)"
    "map_of (ttl (snd (redis_incr t k r))) k = None"
    "str_or (map_of (strings (snd (redis_incr t k r))) k) ''0'' = string_of_int (n + 1)"
proof -
  have p: "js_parseInt (string_of_int n) = num_of_int n" using assms(3,4) by (intro parseInt_string_of_int) auto
  have a: "js_add (num_of_int n) (num_of_int 1) = num_of_int (n + 1)" using assms(3,4) by (intro js_add_int) auto
  have x: "\<not> isExpired t r k" using assms(1) by (simp add: isExpired_def)
  have i: "redis_incr t k r = (num_of_int (n + 1),
      markDirty (r\<lparr>strings := AList.update k (string_of_num (num_of_int (n + 1))) (strings r)\<rparr>))"
    unfolding redis_incr_def redis_incrby_def Let_def assms(2) p a using x by simp
  show "fst (redis_incr t k r) = num_of_int (n + 1)" by (simp add: i)
  show "map_of (ttl (snd (redis_incr t k r))) k = None" using assms(1) by (simp add: i)
  have "string_of_num (num_of_int (n + 1)) = string_of_int (n + 1)" using assms(3,4) by (intro string_of_num_int) auto
  then show "str_or (map_of (strings (snd (redis_incr t k r))) k) ''0'' = string_of_int (n + 1)"
    by (simp add: i str_or_def)
qed

lemma incr_seq_from:
  assumes "map_of (ttl r) k = None" "str_or (map_of (strings r) k) ''0'' = string_of_int n" "0 \<le> n"
    and "n + int (length ts) \<le> 2 ^ 53"
  shows "fst (incr_seq k ts r) = map num_of_int [n + 1..n + int (length ts)]"
  using assms
proof (induction ts arbitrary: r n)
  case (Cons t ts)
  then have "n < 2 ^ 53" by simp
  note step = incr_step [OF Cons.prems(1-3) this]
  obtain r1 where i: "redis_incr t k r = (num_of_int (n + 1), r1)" using step(1) [of t] by (cases "redis_incr t k r") auto
  have "fst (incr_seq k ts r1) = map num_of_int [n + 1 + 1..n + 1 + int (length ts)]"
    using step(2,3) [of t] Cons.prems by (intro Cons.IH) (simp_all add: i)
  moreover have "[n + 1..n + int (length (t # ts))] = (n + 1) # [n + 1 + 1..n + 1 + int (length ts)]"
    by (subst upto_rec1) (simp_all add: algebra_simps)
  ultimately show ?case by (simp add: i case_prod_unfold Let_def)
qed simp

text \<open>Counters: \<open>n\<close> calls of \<open>INCR\<close> on a key that holds no value and no expiry answer
  1, 2, ..., n, whatever the times of the calls, so no two calls get the same number.\<close>

theorem redis_incr_sequence:
  assumes "map_of (ttl r) k = None" "map_of (strings r) k = None" "int (length ts) \<le> 2 ^ 53"
  shows "fst (incr_seq k ts r) = map num_of_int [1..int (length ts)]"
proof -
  have "''0'' = string_of_int 0" by code_simp
  then show ?thesis using incr_seq_from [of r k 0 ts] assms by (simp add: str_or_def)
qed

theorem redis_incr_sequence_witness:
  "fst (incr_seq ''n'' [10, 20, 20] (redis_empty 0)) = map num_of_int [1..3]"
  using redis_incr_sequence [of "redis_empty 0" "''n''" "[10, 20, 20]"] by (simp add: redis_empty_def)

subsection \<open>Lists\<close>

text \<open>What a producer and a consumer of a queue rely on.\<close>

locale fifo =
  fixes ready :: "'s \<Rightarrow> bool"
    and items :: "'s \<Rightarrow> 'v list"
    and enq :: "'v \<Rightarrow> 's \<Rightarrow> 's"
    and deq :: "'s \<Rightarrow> 'v option \<times> 's"
  assumes ready_enq: "ready s \<Longrightarrow> ready (enq v s)"
    and items_enq: "ready s \<Longrightarrow> items (enq v s) = items s @ [v]"
    and ready_deq: "ready s \<Longrightarrow> ready (snd (deq s))"
    and deq_empty: "ready s \<Longrightarrow> items s = [] \<Longrightarrow> fst (deq s) = None"
    and deq_cons: "ready s \<Longrightarrow> items s = v # vs \<Longrightarrow> fst (deq s) = Some v \<and> items (snd (deq s)) = vs"
begin

fun deq_n :: "nat \<Rightarrow> 's \<Rightarrow> 'v option list" where
  "deq_n 0 s = []"
| "deq_n (Suc n) s = fst (deq s) # deq_n n (snd (deq s))"

lemma enq_all: "ready s \<Longrightarrow> ready (fold enq vs s) \<and> items (fold enq vs s) = items s @ vs"
  by (induction vs arbitrary: s) (auto simp: ready_enq items_enq)

lemma drain: "ready s \<Longrightarrow> n \<le> length (items s) \<Longrightarrow> deq_n n s = map Some (take n (items s))"
proof (induction n arbitrary: s)
  case (Suc n)
  then obtain v vs where "items s = v # vs" by (cases "items s") auto
  with Suc deq_cons [of s v vs] ready_deq [of s] show ?case by simp
qed simp

lemma produce_consume:
  assumes "ready s"
  shows "deq_n (length (items s) + length vs) (fold enq vs s) = map Some (items s @ vs)"
  using drain [of "fold enq vs s"] enq_all [OF assms, of vs] by simp

end

lemma list_at_rpush [simp]: "list_at (snd (redis_rpush k vs r)) k = list_at r k @ vs"
  by (simp add: redis_rpush_def list_at_def Let_def)

lemma list_at_lpush [simp]: "list_at (snd (redis_lpush k vs r)) k = rev vs @ list_at r k"
  by (simp add: redis_lpush_def list_at_def Let_def)

lemma lpop_cases:
  assumes "\<not> isExpired now r k"
  shows "\<not> isExpired now (snd (redis_lpop now k r)) k"
    "list_at r k = [] \<Longrightarrow> redis_lpop now k r = (None, r)"
    "list_at r k = x # xs \<Longrightarrow> fst (redis_lpop now k r) = Some x \<and> list_at (snd (redis_lpop now k r)) k = xs"
  using assms by (auto simp: redis_lpop_def list_at_def split: option.splits list.splits)

interpretation redis_list: fifo "\<lambda>r. \<not> isExpired now r k" "\<lambda>r. list_at r k"
    "\<lambda>v r. snd (redis_rpush k [v] r)" "\<lambda>r. redis_lpop now k r" for now k
proof
  fix s v
  assume "\<not> isExpired now s k"
  then show "\<not> isExpired now (snd (redis_rpush k [v] s)) k" by (simp add: redis_rpush_def Let_def)
qed (auto simp: lpop_cases)

text \<open>\<open>n\<close> calls of \<open>LPOP\<close> in a row.\<close>

fun lpop_n :: "int \<Rightarrow> string \<Rightarrow> nat \<Rightarrow> redis \<Rightarrow> string option list" where
  "lpop_n now k 0 r = []"
| "lpop_n now k (Suc n) r = (let (v, r') = redis_lpop now k r in v # lpop_n now k n r')"

lemma lpop_n_deq_n: "lpop_n now k n r = redis_list.deq_n now k n r"
  by (induction n arbitrary: r) (auto simp: case_prod_unfold Let_def)

text \<open>\<open>RPUSH\<close> and \<open>LPOP\<close> are a first-in first-out queue: after pushing \<open>vs\<close> one by one
  onto a live list, popping as often as there are elements returns the old elements and then
  \<open>vs\<close>, each once and in order.\<close>

theorem redis_queue_fifo:
  assumes "\<not> isExpired now r k"
  shows "lpop_n now k (length (list_at r k) + length vs) (fold (\<lambda>v r. snd (redis_rpush k [v] r)) vs r) =
    map Some (list_at r k @ vs)"
  unfolding lpop_n_deq_n using assms by (rule redis_list.produce_consume)

theorem redis_queue_fifo_witness:
  "lpop_n 9 ''q'' 3 (fold (\<lambda>v r. snd (redis_rpush ''q'' [v] r)) [''b'', ''c'']
     ((redis_empty 9)\<lparr>lists := [(''q'', [''a''])]\<rparr>)) = [Some ''a'', Some ''b'', Some ''c'']"
  using redis_queue_fifo [of 9 "(redis_empty 9)\<lparr>lists := [(''q'', [''a''])]\<rparr>" "''q''" "[''b'', ''c'']"]
  by (simp add: isExpired_def redis_empty_def list_at_def numeral_3_eq_3)

lemma list_range_prefix: "0 < n \<Longrightarrow> list_range 0 (n - 1) xs = take (nat n) xs"
  by (simp add: list_range_def js_slice_def Let_def min_def)

text \<open>The capped-log idiom \<open>LPUSH\<close> then \<open>LTRIM 0 (n - 1)\<close> keeps exactly the newest
  \<open>n\<close> entries, newest first, however many were stored before.\<close>

theorem redis_capped_list:
  assumes "0 < n"
  shows "list_at (redis_ltrim k 0 (n - 1) (snd (redis_lpush k vs r))) k = take (nat n) (rev vs @ list_at r k)"
proof -
  let ?r = "snd (redis_lpush k vs r)"
  have "map_of (lists ?r) k = Some (rev vs @ list_at r k)" by (simp add: redis_lpush_def list_at_def Let_def)
  then show ?thesis using assms by (simp add: redis_ltrim_def Let_def list_range_prefix list_at_def)
qed

theorem redis_capped_list_witness:
  "list_at (redis_ltrim ''log'' 0 (2 - 1) (snd (redis_lpush ''log'' [''c''] ((redis_empty 0)\<lparr>lists := [(''log'', [''b'', ''a''])]\<rparr>)))) ''log'' =
   [''c'', ''b'']"
  using redis_capped_list [of 2 "''log''" "[''c'']" "(redis_empty 0)\<lparr>lists := [(''log'', [''b'', ''a''])]\<rparr>"]
  by (simp add: list_at_def redis_empty_def eval_nat_numeral)

lemma lrem_loop_spec:
  assumes "0 \<le> removed"
  shows "filter (\<lambda>x. x \<noteq> v) (snd (lrem_loop w t v removed xs)) = filter (\<lambda>x. x \<noteq> v) xs"
    "int (count_list (snd (lrem_loop w t v removed xs)) v) =
       int (count_list xs v) - (if w then int (count_list xs v) else max 0 (min (t - removed) (int (count_list xs v))))"
    "fst (lrem_loop w t v removed xs) =
       removed + (if w then int (count_list xs v) else max 0 (min (t - removed) (int (count_list xs v))))"
  using assms by (induction w t v removed xs rule: lrem_loop.induct) (auto split: prod.splits)

text \<open>\<open>LREM\<close> with a count of either sign removes that many occurrences of the value (all
  of them for zero, as many as there are when there are fewer), reports how many it removed and
  keeps every other element in its place relative to the others.\<close>

theorem redis_lrem_spec:
  assumes "\<not> isExpired now r k"
  shows "case redis_lrem now k c v r of (n, r') \<Rightarrow>
    n = (if c = 0 then int (count_list (list_at r k) v) else min \<bar>c\<bar> (int (count_list (list_at r k) v))) \<and>
    int (count_list (list_at r' k) v) = int (count_list (list_at r k) v) - n \<and>
    filter (\<lambda>x. x \<noteq> v) (list_at r' k) = filter (\<lambda>x. x \<noteq> v) (list_at r k)"
proof (cases "list_at r k")
  case Nil
  then have "redis_lrem now k c v r = (0, r)"
    by (auto simp: redis_lrem_def list_at_def split: option.splits list.splits)
  with Nil show ?thesis by simp
next
  case (Cons x xs)
  then have m: "map_of (lists r) k = Some (x # xs)" by (simp add: list_at_def split: option.splits)
  define l where "l = x # xs"
  obtain n l' where lr: "(if c \<ge> 0 then lrem_loop (c = 0) \<bar>c\<bar> v 0 l
      else let (n, ys) = lrem_loop (c = 0) \<bar>c\<bar> v 0 (rev l) in (n, rev ys)) = (n, l')" by fastforce
  note sp = lrem_loop_spec [where removed = 0 and v = v and w = "c = 0" and t = "\<bar>c\<bar>" and xs = l]
    lrem_loop_spec [where removed = 0 and v = v and w = "c = 0" and t = "\<bar>c\<bar>" and xs = "rev l"]
  have cnt: "count_list (rev ys) v = count_list ys v" for ys :: "string list" by (simp add: count_list_rev)
  have spec: "n = (if c = 0 then int (count_list l v) else min \<bar>c\<bar> (int (count_list l v))) \<and>
      int (count_list l' v) = int (count_list l v) - n \<and> filter (\<lambda>x. x \<noteq> v) l' = filter (\<lambda>x. x \<noteq> v) l"
    using lr sp by (auto simp: cnt rev_filter [symmetric] split: if_splits prod.splits)
  have out: "fst (redis_lrem now k c v r) = n \<and> list_at (snd (redis_lrem now k c v r)) k = l'"
    using assms lr unfolding redis_lrem_def m l_def Let_def by (simp add: list_at_def)
  have "list_at r k = l" using Cons by (simp add: l_def)
  then show ?thesis using spec out by (cases "redis_lrem now k c v r") simp
qed

theorem redis_lrem_spec_witness:
  "case redis_lrem 0 ''q'' (-1) ''a'' ((redis_empty 0)\<lparr>lists := [(''q'', [''a'', ''b'', ''a''])]\<rparr>) of (n, r') \<Rightarrow>
    n = 1 \<and> int (count_list (list_at r' ''q'') ''a'') = 1 \<and> filter (\<lambda>x. x \<noteq> ''a'') (list_at r' ''q'') = [''b'']"
  using redis_lrem_spec [of 0 "(redis_empty 0)\<lparr>lists := [(''q'', [''a'', ''b'', ''a''])]\<rparr>" "''q''" "-1" "''a''"]
  by (simp add: isExpired_def redis_empty_def list_at_def split: prod.splits)

subsection \<open>Sorted sets\<close>

text \<open>The scores stored under a key, as a map.\<close>

definition zset_at :: "collate \<Rightarrow> redis \<Rightarrow> string \<Rightarrow> string \<Rightarrow> jsnum option" where
  "zset_at lc r k m = (case fst (getSortedSet lc k r) of None \<Rightarrow> None | Some z \<Rightarrow> zset_abs z m)"

lemma zset_at_store:
  "zset_at lc (markDirty (r\<lparr>sorted_sets := AList.update k (Current z) ss\<rparr>)) k = zset_abs z"
  by (rule ext) (simp add: zset_at_def fst_getSortedSet)

context strict_collation
begin

lemma zadd_refines:
  assumes "redis_wf lc M r" "good_score s" "m \<in> M"
  shows "zset_at lc (snd (redis_zadd lc k s m r)) k = (zset_at lc r k)(m \<mapsto> s)"
    "fst (redis_zadd lc k s m r) = (if zset_at lc r k m = None then 1 else 0)"
proof -
  obtain z r1 where g: "getSortedSet lc k r = (z, r1)" by fastforce
  define z0 where "z0 = (case z of Some z \<Rightarrow> z | None \<Rightarrow> createSortedSet lc [])"
  have wf: "zset_wf lc M z0" using getSortedSet_wf(2) [OF assms(1) g] by (simp add: z0_def split: option.splits)
  have abs0: "zset_abs z0 = zset_at lc r k"
    by (rule ext) (simp add: z0_def zset_at_def g zset_abs_def split: option.split)
  have z: "redis_zadd lc k s m r = (fst (zset_add lc z0 s m),
      markDirty (r1\<lparr>sorted_sets := AList.update k (Current (snd (zset_add lc z0 s m))) (sorted_sets r1)\<rparr>))"
    by (simp add: redis_zadd_def g z0_def case_prod_unfold Let_def)
  show "zset_at lc (snd (redis_zadd lc k s m r)) k = (zset_at lc r k)(m \<mapsto> s)"
    unfolding z snd_conv zset_at_store zset_add_abs [OF wf assms(2,3)] abs0 ..
  show "fst (redis_zadd lc k s m r) = (if zset_at lc r k m = None then 1 else 0)"
    unfolding z fst_conv zset_add_entries(3) [OF wf] abs0 [symmetric]
    using zset_wf_lookup_None [OF wf, of m] by (auto simp: zset_abs_index [OF wf])
qed

lemma zrangebyscore_entries:
  assumes "redis_wf lc M r" "\<not> isExpired now r k"
  obtains es where "sorted_wrt (entry_before lc) es" "list_all (good_score \<circ> score) es"
    "fst (redis_zrangebyscore lc now k lo hi r) =
       map member (filter (\<lambda>e. js_le (parseSortedSetScore lo NInf) (score e) \<and> js_le (score e) (parseSortedSetScore hi PInf)) es)"
    "\<And>m s. zset_at lc r k m = Some s \<longleftrightarrow> (\<exists>e \<in> set es. member e = m \<and> score e = s)"
    "distinct (map member es)"
proof -
  obtain z r1 where g: "getSortedSet lc k r = (z, r1)" by fastforce
  have lim: "parseSortedSetScore l d \<noteq> NaN" if "d \<noteq> NaN" for l d using that by (cases l) auto
  have so: "sorted_wrt (entry_before lc) (zset_entries z)" "list_all (good_score \<circ> score) (zset_entries z)"
    "distinct (map member (zset_entries z))"
    using getSortedSet_wf(2) [OF assms(1) g] by (auto simp: zset_entries_def zset_wf_def split: option.splits)
  have abs: "zset_at lc r k m = Some s \<longleftrightarrow> (\<exists>e \<in> set (zset_entries z). member e = m \<and> score e = s)" for m s
  proof (cases z)
    case (Some y)
    then have wf: "zset_wf lc M y" using getSortedSet_wf(2) [OF assms(1) g] by simp
    from zset_wf_lookup [OF wf] Some show ?thesis
      by (auto simp: zset_at_def g zset_abs_index [OF wf] zset_entries_def)
  qed (simp add: zset_at_def g zset_entries_def)
  have "fst (redis_zrangebyscore lc now k lo hi r) =
      map member (filter (\<lambda>e. js_le (parseSortedSetScore lo NInf) (score e) \<and> js_le (score e) (parseSortedSetScore hi PInf)) (zset_entries z))"
    using assms(2) by (simp add: redis_zrangebyscore_def g zset_slice_by_score_filter [OF so(1,2)] lim)
  then show ?thesis using that so abs by blast
qed

lemma zrangebyscore_lists:
  assumes "redis_wf lc M r" "\<not> isExpired now r k"
  shows "distinct (fst (redis_zrangebyscore lc now k lo hi r)) \<and>
    set (fst (redis_zrangebyscore lc now k lo hi r)) =
      {m. \<exists>s. zset_at lc r k m = Some s \<and> js_le (parseSortedSetScore lo NInf) s \<and> js_le s (parseSortedSetScore hi PInf)} \<and>
    sorted_wrt (\<lambda>m n. js_le (the (zset_at lc r k m)) (the (zset_at lc r k n))) (fst (redis_zrangebyscore lc now k lo hi r))"
proof -
  obtain es where so: "sorted_wrt (entry_before lc) es" and good: "list_all (good_score \<circ> score) es"
    and eq: "fst (redis_zrangebyscore lc now k lo hi r) =
       map member (filter (\<lambda>e. js_le (parseSortedSetScore lo NInf) (score e) \<and> js_le (score e) (parseSortedSetScore hi PInf)) es)"
    and at: "\<And>m s. zset_at lc r k m = Some s \<longleftrightarrow> (\<exists>e \<in> set es. member e = m \<and> score e = s)"
    and dis: "distinct (map member es)"
    by (rule zrangebyscore_entries [OF assms, of lo hi]) blast
  have sc: "zset_at lc r k (member e) = Some (score e)" if "e \<in> set es" for e using at that by blast
  have le: "js_le (score a) (score b)" if ab: "a \<in> set es" "b \<in> set es" "entry_before lc a b" for a b
  proof -
    have g: "good_score (score a)" "good_score (score b)" using good ab by (simp_all add: list_all_iff)
    from ab(3) show ?thesis unfolding entry_before_iff [OF g]
      using g js_lt_imp_le by (auto simp: good_score_def)
  qed
  have "sorted_wrt (\<lambda>a b. js_le (the (zset_at lc r k (member a))) (the (zset_at lc r k (member b)))) es"
    using so by (rule sorted_wrt_mono_rel [rotated]) (simp add: sc le)
  then have "sorted_wrt (\<lambda>m n. js_le (the (zset_at lc r k m)) (the (zset_at lc r k n))) (fst (redis_zrangebyscore lc now k lo hi r))"
    unfolding eq sorted_wrt_map by (rule sorted_wrt_filter)
  moreover have "distinct (fst (redis_zrangebyscore lc now k lo hi r))"
    unfolding eq by (rule distinct_map_filter [OF dis])
  moreover have "set (fst (redis_zrangebyscore lc now k lo hi r)) =
      {m. \<exists>s. zset_at lc r k m = Some s \<and> js_le (parseSortedSetScore lo NInf) s \<and> js_le s (parseSortedSetScore hi PInf)}"
    unfolding eq at by auto
  ultimately show ?thesis by (intro conjI)
qed

end

text \<open>C34. \<open>ZADD\<close> refines a finite map from members to scores, read off the ordered array itself: on a
  well-formed store whose members \<open>localeCompare\<close> tells apart, adding a number binds the member to the
  new score, leaves every other member's score alone, keeps the array strictly ordered by score and
  member with each member once, and answers 1 for a new member and 0 for a re-scored one.\<close>

theorem redis_zadd_refines_map:
  assumes "strict_collation lc M" "redis_wf lc M r" "good_score s" "m \<in> M"
  shows "zset_at lc (snd (redis_zadd lc k s m r)) k = (zset_at lc r k)(m \<mapsto> s) \<and>
    fst (redis_zadd lc k s m r) = (if zset_at lc r k m = None then 1 else 0) \<and>
    sorted_wrt (entry_before lc) (zset_entries (fst (getSortedSet lc k (snd (redis_zadd lc k s m r))))) \<and>
    distinct (map member (zset_entries (fst (getSortedSet lc k (snd (redis_zadd lc k s m r))))))"
proof -
  obtain z r1 where g: "getSortedSet lc k (snd (redis_zadd lc k s m r)) = (z, r1)" by fastforce
  have "zset_wf lc M y" if "z = Some y" for y
    using strict_collation.getSortedSet_wf(2) [OF assms(1) strict_collation.wf_redis_zadd [OF assms] g that] .
  then have "sorted_wrt (entry_before lc) (zset_entries z) \<and> distinct (map member (zset_entries z))"
    by (auto simp: zset_entries_def zset_wf_def split: option.split)
  then show ?thesis using strict_collation.zadd_refines [OF assms] g by simp
qed

theorem redis_zadd_refines_map_witness:
  "zset_at code_unit_compare (snd (redis_zadd code_unit_compare ''z'' (num_of_int 3) ''m'' (redis_empty 0))) ''z'' =
   (zset_at code_unit_compare (redis_empty 0) ''z'')(''m'' \<mapsto> num_of_int 3)"
proof -
  have "good_score (num_of_int 3)" by (simp add: good_score_def is_dbl_int del: of_int_numeral)
  then show ?thesis
    using redis_zadd_refines_map [OF code_unit.strict_collation_axioms redis_wf_empty, where k = "''z''" and s = "num_of_int 3" and m = "''m''"] by simp
qed

text \<open>\<open>ZRANGEBYSCORE\<close> on a well-formed store answers with exactly the members whose
  score lies between the two limits, each once, in increasing order of score.\<close>

theorem redis_zrangebyscore_spec:
  assumes "strict_collation lc M" "redis_wf lc M r" "\<not> isExpired now r k"
  shows "let ms = fst (redis_zrangebyscore lc now k lo hi r); sc = zset_at lc r k in
    distinct ms \<and>
    set ms = {m. \<exists>s. sc m = Some s \<and> js_le (parseSortedSetScore lo NInf) s \<and> js_le s (parseSortedSetScore hi PInf)} \<and>
    sorted_wrt (\<lambda>m n. js_le (the (sc m)) (the (sc n))) ms"
  unfolding Let_def using strict_collation.zrangebyscore_lists [OF assms] by blast

theorem redis_zrangebyscore_spec_witness:
  "''m'' \<in> set (fst (redis_zrangebyscore code_unit_compare 4 ''z'' (Limit (num_of_int 1)) PlusInf
     (snd (redis_zadd code_unit_compare ''z'' (num_of_int 3) ''m'' (redis_empty 4)))))"
proof -
  let ?r = "snd (redis_zadd code_unit_compare ''z'' (num_of_int 3) ''m'' (redis_empty 4))"
  have sc: "good_score (num_of_int 3)" by (simp add: good_score_def is_dbl_int del: of_int_numeral)
  then have wf: "redis_wf code_unit_compare UNIV ?r" by (rule code_unit.wf_redis_zadd [OF redis_wf_empty]) simp
  have live: "\<not> isExpired 4 ?r ''z''" by (simp add: isExpired_def redis_zadd_def redis_empty_def getSortedSet_def case_prod_unfold Let_def)
  have at: "zset_at code_unit_compare ?r ''z'' ''m'' = Some (num_of_int 3)"
    using code_unit.zadd_refines(1) [OF redis_wf_empty [where now = 4] sc, where m = "''m''" and k = "''z''"] by simp
  have "set (fst (redis_zrangebyscore code_unit_compare 4 ''z'' (Limit (num_of_int 1)) PlusInf ?r)) =
      {m. \<exists>s. zset_at code_unit_compare ?r ''z'' m = Some s \<and> js_le (parseSortedSetScore (Limit (num_of_int 1)) NInf) s \<and>
        js_le s (parseSortedSetScore PlusInf PInf)}"
    using redis_zrangebyscore_spec [OF code_unit.strict_collation_axioms wf live, of "Limit (num_of_int 1)" PlusInf]
    unfolding Let_def by blast
  with at show ?thesis by simp
qed

end
