(* ===== verification/RedisSweep.thy ===== *)
theory RedisSweep
  imports RedisProps
begin

text \<open>
  Deletion with its secondary-index cleanup, the expiry sweep \<open>cleanupExpiredKeys\<close>, the
  selective wipe \<open>flushRuntimeKeys\<close> and the write-budget counter.
\<close>

lemma cleanup_fields [simp]:
  "strings (cleanupSecondaryIndexesForDeletedKey k r) = strings r"
  "hashes (cleanupSecondaryIndexesForDeletedKey k r) = hashes r"
  "lists (cleanupSecondaryIndexesForDeletedKey k r) = lists r"
  "sorted_sets (cleanupSecondaryIndexesForDeletedKey k r) = sorted_sets r"
  "ttl (cleanupSecondaryIndexesForDeletedKey k r) = ttl r"
  by (simp_all add: cleanupSecondaryIndexesForDeletedKey_def Let_def)

lemma deleteKey_fields [view_simps]:
  "strings (deleteKey k r) = AList.delete k (strings r)"
  "hashes (deleteKey k r) = AList.delete k (hashes r)"
  "lists (deleteKey k r) = AList.delete k (lists r)"
  "sorted_sets (deleteKey k r) = AList.delete k (sorted_sets r)"
  "ttl (deleteKey k r) = AList.delete k (ttl r)"
  "sets (deleteKey k r) = AList.delete k (sets (cleanupSecondaryIndexesForDeletedKey k r))"
  by (simp_all add: deleteKey_def Let_def)

text \<open>Everything stored under one key outside the sets, which hold the secondary indexes.\<close>

definition key_data :: "redis \<Rightarrow> string \<Rightarrow>
  string option \<times> string jsmap option \<times> string list option \<times> zset_slot option \<times> jsnum option" where
  "key_data r k = (map_of (strings r) k, map_of (hashes r) k, map_of (lists r) k, map_of (sorted_sets r) k, map_of (ttl r) k)"

lemma key_data_deleteKey [view_simps]:
  "key_data (deleteKey k r) k' = (if k' = k then (None, None, None, None, None) else key_data r k')"
  by (simp add: key_data_def view_simps)

lemma sets_shrink_map_filter:
  assumes "map_of (filter P (map (\<lambda>(k, s). if Q k then (k, jsset_delete i s) else (k, s)) ss)) k' = Some s'" "jsmap_wf ss"
  shows "\<exists>s. map_of ss k' = Some s \<and> set s' \<subseteq> set s \<and> (Q k' \<longrightarrow> i \<notin> set s')"
proof -
  have "(k', s') \<in> set (map (\<lambda>(k, s). if Q k then (k, jsset_delete i s) else (k, s)) ss)"
    using map_of_SomeD [OF assms(1)] by auto
  then obtain s where s: "(k', s) \<in> set ss" "s' = (if Q k' then jsset_delete i s else s)" by (auto split: if_splits)
  then have "map_of ss k' = Some s" using assms(2) by simp
  with s(2) show ?thesis by auto
qed

lemma delete_member_of_shrink:
  assumes "map_of (delete_member_of q i ss) k' = Some s'"
  shows "\<exists>s. map_of ss k' = Some s \<and> set s' \<subseteq> set s \<and> (k' = q \<longrightarrow> i \<notin> set s')"
proof -
  obtain s where s: "map_of ss k' = Some s" "s' = (if k' = q then jsset_delete i s else s)"
    using assms by (auto simp: map_of_delete_member_of)
  then have "set s' = (if k' = q then set s - {i} else set s)" by simp
  with s(1) show ?thesis by auto
qed

lemma removeFromConnectionIndexes_shrink:
  assumes "map_of (removeFromConnectionIndexes p i ss) k' = Some s'" "jsmap_wf ss"
  shows "\<exists>s. map_of ss k' = Some s \<and> set s' \<subseteq> set s \<and> (starts_with p k' \<longrightarrow> i \<notin> set s')"
  using assms unfolding removeFromConnectionIndexes_def by (rule sets_shrink_map_filter)

lemma wf_delete_member_of_keys: "jsmap_wf ss \<Longrightarrow> jsmap_wf (delete_member_of q i ss)"
proof -
  have "map fst (delete_member_of q i ss) = map fst ss" unfolding delete_member_of_def by (induction ss) auto
  then show "jsmap_wf ss \<Longrightarrow> jsmap_wf (delete_member_of q i ss)" by (simp only:)
qed

lemma cleanup_shrink:
  assumes "map_of (sets (cleanupSecondaryIndexesForDeletedKey k r)) k' = Some s'" "jsmap_wf (sets r)"
  shows "\<exists>s. map_of (sets r) k' = Some s \<and> set s' \<subseteq> set s"
proof -
  have both: "\<exists>s. map_of (sets r) k' = Some s \<and> set s' \<subseteq> set s"
    if h: "map_of (removeFromConnectionIndexes p i (delete_member_of q i (sets r))) k' = Some s'" for p i q
    using removeFromConnectionIndexes_shrink [OF h wf_delete_member_of_keys [OF assms(2)]] delete_member_of_shrink
    by (meson subset_trans)
  have one: "\<exists>s. map_of (sets r) k' = Some s \<and> set s' \<subseteq> set s"
    if "map_of (delete_member_of q i (sets r)) k' = Some s'" for q i
    using delete_member_of_shrink [OF that] by blast
  show ?thesis using assms(1) both one unfolding cleanupSecondaryIndexesForDeletedKey_def Let_def
    by (fastforce split: if_splits)
qed

text \<open>The secondary indexes that list a record of one kind.\<close>

definition index_of_kind :: "string \<Rightarrow> string \<Rightarrow> string \<Rightarrow> bool" where
  "index_of_kind kind idx k \<longleftrightarrow> k = ''idx:'' @ idx \<or> starts_with (''idx:'' @ idx @ '':connection:'') k \<and> kind \<in> {''position:'', ''trade:''}"

lemma deleteKey_indexes:
  assumes "jsmap_wf (sets r)" "(kind, idx) \<in> {(''position:'', ''positions''), (''trade:'', ''trades''),
      (''indication:'', ''indications''), (''strategy:'', ''strategies'')}"
    and "index_of_kind kind idx k"
  shows "i \<notin> set (set_at (deleteKey (kind @ i) r) k)"
proof (cases "map_of (sets (deleteKey (kind @ i) r)) k")
  case (Some s')
  then have c: "map_of (sets (cleanupSecondaryIndexesForDeletedKey (kind @ i) r)) k = Some s'"
    by (simp add: view_simps split: if_splits)
  have two: "i \<notin> set s'"
    if h: "map_of (removeFromConnectionIndexes p i (delete_member_of q i (sets r))) k = Some s'"
      and k: "k = q \<or> starts_with p k" for p q
  proof -
    obtain s where s: "map_of (delete_member_of q i (sets r)) k = Some s" "set s' \<subseteq> set s" "starts_with p k \<longrightarrow> i \<notin> set s'"
      using removeFromConnectionIndexes_shrink [OF h wf_delete_member_of_keys [OF assms(1)]] by blast
    then show ?thesis using delete_member_of_shrink [OF s(1)] k by blast
  qed
  have one: "i \<notin> set s'" if "map_of (delete_member_of k i (sets r)) k = Some s'"
    using delete_member_of_shrink [OF that] by blast
  from assms(2) have "i \<notin> set s'"
  proof (elim insertE emptyE)
    assume "(kind, idx) = (''position:'', ''positions'')"
    with c assms(3) show ?thesis
      by (intro two [of "''idx:positions:connection:''" "''idx:positions''"])
        (auto simp: cleanupSecondaryIndexesForDeletedKey_def index_of_kind_def)
  next
    assume "(kind, idx) = (''trade:'', ''trades'')"
    with c assms(3) show ?thesis
      by (intro two [of "''idx:trades:connection:''" "''idx:trades''"])
        (auto simp: cleanupSecondaryIndexesForDeletedKey_def index_of_kind_def)
  next
    assume "(kind, idx) = (''indication:'', ''indications'')"
    with c assms(3) show ?thesis
      by (intro one) (auto simp: cleanupSecondaryIndexesForDeletedKey_def index_of_kind_def)
  next
    assume "(kind, idx) = (''strategy:'', ''strategies'')"
    with c assms(3) show ?thesis
      by (intro one) (auto simp: cleanupSecondaryIndexesForDeletedKey_def index_of_kind_def)
  qed
  with Some show ?thesis by (simp add: set_at_def)
qed (simp add: set_at_def)

text \<open>\<open>DEL\<close> of a stored record removes its data and its expiry, removes its id from the
  index of its kind and from every per-connection index of that kind, and leaves the string,
  hash, list, sorted set and expiry of every other key alone.\<close>

theorem redis_del_spec:
  assumes "redis_wf lc M r" "has_data r (kind @ i)"
    and "(kind, idx) \<in> {(''position:'', ''positions''), (''trade:'', ''trades''),
      (''indication:'', ''indications''), (''strategy:'', ''strategies'')}"
  shows "case redis_del [kind @ i] r of (n, r') \<Rightarrow>
    n = 1 \<and> \<not> has_data r' (kind @ i) \<and> map_of (ttl r') (kind @ i) = None \<and>
    (\<forall>k. index_of_kind kind idx k \<longrightarrow> i \<notin> set (set_at r' k)) \<and>
    (\<forall>k. k \<noteq> kind @ i \<longrightarrow> key_data r' k = key_data r k)"
proof -
  have d: "redis_del [kind @ i] r = (1, deleteKey (kind @ i) r)" using assms(2) by simp
  have wf: "jsmap_wf (sets r)" using assms(1) by (simp add: redis_wf_def)
  have "\<forall>k. index_of_kind kind idx k \<longrightarrow> i \<notin> set (set_at (deleteKey (kind @ i) r) k)"
    using deleteKey_indexes [OF wf assms(3)] by blast
  moreover have "\<forall>k. k \<noteq> kind @ i \<longrightarrow> key_data (deleteKey (kind @ i) r) k = key_data r k" by (simp add: view_simps)
  moreover have "\<not> has_data (deleteKey (kind @ i) r) (kind @ i) \<and> map_of (ttl (deleteKey (kind @ i) r)) (kind @ i) = None"
    by (simp add: has_data_def view_simps)
  ultimately show ?thesis unfolding d by simp
qed

theorem redis_del_spec_witness:
  "case redis_del [''position:7''] ((redis_empty 0)\<lparr>hashes := [(''position:7'', [(''a'', ''b'')])],
       sets := [(''idx:positions'', [''7'', ''8'']), (''idx:positions:connection:x'', [''7''])]\<rparr>) of (n, r') \<Rightarrow>
     n = 1 \<and> \<not> has_data r' ''position:7'' \<and> ''7'' \<notin> set (set_at r' ''idx:positions'')"
proof -
  let ?r = "(redis_empty 0)\<lparr>hashes := [(''position:7'', [(''a'', ''b'')])],
       sets := [(''idx:positions'', [''7'', ''8'']), (''idx:positions:connection:x'', [''7''])]\<rparr>"
  have "redis_wf code_unit_compare UNIV ?r" by (simp add: redis_wf_def redis_empty_def)
  moreover have "has_data ?r (''position:'' @ ''7'')" by (simp add: has_data_def redis_empty_def)
  ultimately have "case redis_del [''position:'' @ ''7''] ?r of (n, r') \<Rightarrow> n = 1 \<and> \<not> has_data r' (''position:'' @ ''7'') \<and>
      map_of (ttl r') (''position:'' @ ''7'') = None \<and>
      (\<forall>k. index_of_kind ''position:'' ''positions'' k \<longrightarrow> ''7'' \<notin> set (set_at r' k)) \<and>
      (\<forall>k. k \<noteq> ''position:'' @ ''7'' \<longrightarrow> key_data r' k = key_data ?r k)"
    by (rule redis_del_spec) simp
  then show ?thesis by (simp only: append.simps) (auto simp: index_of_kind_def simp del: redis_del.simps split: prod.splits)
qed

subsection \<open>The expiry sweep\<close>

lemma cleanup_fold:
  "let (n, r') = fold (\<lambda>(key, expireAt) (cleaned, r').
        if js_ge (num_of_int now) expireAt then (cleaned + 1, deleteKey key r') else (cleaned, r')) ts (c, r)
   in n = c + int (length (filter (\<lambda>p. js_ge (num_of_int now) (snd p)) ts)) \<and>
      (\<forall>k. key_data r' k = (if \<exists>e. (k, e) \<in> set ts \<and> js_ge (num_of_int now) e
                             then (None, None, None, None, None) else key_data r k))"
proof (induction ts arbitrary: c r)
  case (Cons p ts)
  obtain k e where p: "p = (k, e)" by fastforce
  show ?case
  proof (cases "js_ge (num_of_int now) e")
    case True
    show ?thesis using Cons [of "c + 1" "deleteKey k r"] True by (auto simp: p view_simps split: prod.splits)
  next
    case False
    have "(\<exists>e'. (k', e') \<in> set (p # ts) \<and> js_ge (num_of_int now) e') = (\<exists>e'. (k', e') \<in> set ts \<and> js_ge (num_of_int now) e')" for k'
      using False by (auto simp: p)
    then show ?thesis using Cons [of c r] False by (simp add: p)
  qed
qed simp

text \<open>The expiry sweep removes exactly the keys whose time has come: it returns their
  number, nothing with a passed expiry keeps a string, hash, list, sorted set or expiry, and
  every other key keeps all of them.\<close>

theorem cleanupExpiredKeys_spec:
  assumes "redis_wf lc M r"
  shows "case cleanupExpiredKeys now r of (n, r') \<Rightarrow>
    n = int (length (filter (\<lambda>p. js_ge (num_of_int now) (snd p)) (ttl r))) \<and>
    (\<forall>k. key_data r' k = (case map_of (ttl r) k of
        Some e \<Rightarrow> if js_ge (num_of_int now) e then (None, None, None, None, None) else key_data r k
      | None \<Rightarrow> key_data r k))"
proof -
  have wf: "jsmap_wf (ttl r)" using assms by (simp add: redis_wf_def)
  have "(\<exists>e. (k, e) \<in> set (ttl r) \<and> js_ge (num_of_int now) e) =
      (case map_of (ttl r) k of Some e \<Rightarrow> js_ge (num_of_int now) e | None \<Rightarrow> False)" for k
    using map_of_eq_Some_iff [OF wf, of k, symmetric] by (simp split: option.split)
  then show ?thesis using cleanup_fold [of now "ttl r" 0 r] unfolding cleanupExpiredKeys_def Let_def
    by (simp split: prod.splits option.split)
qed

theorem cleanupExpiredKeys_spec_witness:
  "fst (cleanupExpiredKeys 5 ((redis_empty 0)\<lparr>strings := [(''a'', ''x''), (''b'', ''y'')],
      ttl := [(''a'', num_of_int 4), (''b'', num_of_int 9)]\<rparr>)) = 1"
  using cleanupExpiredKeys_spec [of code_unit_compare UNIV "(redis_empty 0)\<lparr>strings := [(''a'', ''x''), (''b'', ''y'')],
      ttl := [(''a'', num_of_int 4), (''b'', num_of_int 9)]\<rparr>" 5]
  by (simp add: redis_wf_def redis_empty_def split: prod.splits)

subsection \<open>The selective wipe\<close>

lemma flush_fold:
  assumes "distinct ks"
  shows "let (f', r') = fold (flush_key prot) ks (f, r)
   in flush_deleted f' = flush_deleted f + int (length (filter (\<lambda>k. \<not> prot k) ks)) \<and>
      flush_protected f' = flush_protected f + int (length (filter prot ks)) \<and>
      (\<forall>k. key_data r' k = (if k \<in> set ks \<and> \<not> prot k then (None, None, None, None, None) else key_data r k))"
  using assms
proof (induction ks arbitrary: f r)
  case (Cons k ks)
  obtain f1 r1 where fk: "flush_key prot k (f, r) = (f1, r1)" by fastforce
  have one: "flush_deleted f1 = flush_deleted f + (if prot k then 0 else 1)"
    "flush_protected f1 = flush_protected f + (if prot k then 1 else 0)"
    "r1 = (if prot k then r else deleteKey k r)"
    using fk by (auto simp: flush_key_def Let_def split: if_splits)
  have ks: "distinct ks" "k \<notin> set ks" using Cons.prems by simp_all
  show ?case using Cons.IH [OF ks(1), of f1 r1] ks(2)
    by (auto simp: fk one view_simps split: prod.splits)
qed simp

lemma set_fold_jsset_add: "set (fold jsset_add xs s) = set s \<union> set xs"
  by (induction xs arbitrary: s) auto

lemma distinct_fold_jsset_add: "distinct s \<Longrightarrow> distinct (fold jsset_add xs s)"
  by (induction xs arbitrary: s) (auto intro: distinct_jsset_add)

lemma all_keys_set: "k \<in> set (all_keys r) \<longleftrightarrow> has_data r k"
  by (auto simp: all_keys_def set_fold_jsset_add has_data_def map_of_eq_None_iff
      image_iff intro: rev_image_eqI dest: map_of_SomeD weak_map_of_SomeI)

lemma map_of_filter_key: "map_of (filter (\<lambda>(k, _). P k) m) k = (if P k then map_of m k else None)"
  by (induction m) auto

text \<open>The selective wipe is exact: a key is protected when a protected prefix and no
  force-clear prefix matches it; every unprotected key loses its string, hash, list, sorted set
  and expiry, every protected key keeps them, and the two counts add up to the number of keys.\<close>

theorem flushRuntimeKeys_spec:
  "case flushRuntimeKeys pp fc r of (f, r') \<Rightarrow>
    (\<forall>k. key_data r' k = (if checkProtected pp fc k then key_data r k else (None, None, None, None, None))) \<and>
    flush_deleted f + flush_protected f = int (card {k. has_data r k}) \<and>
    flush_protected f = int (card {k. has_data r k \<and> checkProtected pp fc k})"
proof -
  let ?p = "checkProtected pp fc" and ?f0 = "\<lparr>flush_deleted = 0, flush_protected = 0, flush_buckets = []\<rparr>"
  have dist: "distinct (all_keys r)" unfolding all_keys_def by (rule distinct_fold_jsset_add) simp
  obtain f r1 where fr: "fold (flush_key ?p) (all_keys r) (?f0, r) = (f, r1)" by fastforce
  note ff = flush_fold [OF dist, of ?p ?f0 r, unfolded fr, simplified]
  have out: "flushRuntimeKeys pp fc r = (f, r1\<lparr>ttl := filter (\<lambda>(k, _). ?p k) (ttl r1)\<rparr>)"
    by (simp add: flushRuntimeKeys_def fr)
  have nodata: "\<not> has_data r k \<Longrightarrow> key_data r k = (None, None, None, None, map_of (ttl r) k)" for k
    by (simp add: has_data_def key_data_def)
  have data: "key_data (r1\<lparr>ttl := filter (\<lambda>(k, _). ?p k) (ttl r1)\<rparr>) k =
      (if ?p k then key_data r k else (None, None, None, None, None))" for k
  proof -
    have "key_data r1 k = (if has_data r k \<and> \<not> ?p k then (None, None, None, None, None) else key_data r k)"
      using ff by (simp add: all_keys_set)
    then show ?thesis using nodata [of k] by (auto simp: key_data_def map_of_filter_key split: if_splits)
  qed
  have cd: "int (length (filter Q (all_keys r))) = int (card {k. has_data r k \<and> Q k})" for Q
  proof -
    have "length (filter Q (all_keys r)) = card (set (filter Q (all_keys r)))"
      by (rule distinct_card [symmetric]) (simp add: dist)
    then show ?thesis by (simp add: all_keys_set)
  qed
  have sum: "length (filter (\<lambda>k. \<not> ?p k) (all_keys r)) + length (filter ?p (all_keys r)) = length (all_keys r)"
    using sum_length_filter_compl [of ?p "all_keys r"] by simp
  show ?thesis unfolding out using ff data cd [of ?p] cd [of "\<lambda>_. True"] sum by simp
qed

subsection \<open>The write budget\<close>

text \<open>The counter after a sequence of operations at the given times, starting from none.\<close>

fun track_all :: "int \<Rightarrow> int list \<Rightarrow> ops_tracker option \<Rightarrow> ops_tracker option" where
  "track_all maxOps [] tr = tr"
| "track_all maxOps (t # ts) tr = track_all maxOps ts (Some (snd (trackDatabaseOperation t maxOps tr)))"

text \<open>The per-minute write counter is a burst counter: as long as no two consecutive
  operations are more than a minute apart it never resets, so it reports the number of all
  operations of the burst, however long the burst lasts.\<close>

theorem trackDatabaseOperation_counts_burst:
  assumes "successively (\<lambda>a b. b \<le> a + 60000) ts" "ts \<noteq> []" "last ts \<le> now" "now \<le> last ts + 60000"
  shows "getDatabaseOperationCount now (track_all maxOps ts None) = int (length ts)"
proof -
  have go: "track_all maxOps us (Some \<lparr>tracker_timestamp = t, tracker_count = c\<rparr>) =
      Some \<lparr>tracker_timestamp = last (t # us), tracker_count = c + int (length us)\<rparr>"
    if "successively (\<lambda>a b. b \<le> a + 60000) (t # us)" for us t c
    using that
  proof (induction us arbitrary: t c)
    case (Cons u us)
    then show ?case by (simp add: trackDatabaseOperation_def Let_def)
  qed simp
  obtain t us where ts: "ts = t # us" using assms(2) by (cases ts) auto
  have "track_all maxOps ts None = Some \<lparr>tracker_timestamp = last ts, tracker_count = int (length ts)\<rparr>"
    using go [of t us 1] assms(1) by (simp add: ts trackDatabaseOperation_def Let_def)
  then show ?thesis using assms(3,4) by (simp add: getDatabaseOperationCount_def)
qed

theorem trackDatabaseOperation_counts_burst_witness:
  "getDatabaseOperationCount 150000 (track_all 1 [0, 50000, 100000, 150000] None) = 4"
  using trackDatabaseOperation_counts_burst [of "[0, 50000, 100000, 150000]" 150000 1] by simp

end
