(* ===== verification/RedisLocks.thy ===== *)
theory RedisLocks
  imports RedisSweep
begin

text \<open>
  Leases and locks kept in Redis: the owner-checked helpers of \<open>lib/redis-lock-utils.ts\<close>, the
  processor lease of \<open>lib/direct-trade-processor-lease.ts\<close> and the one-runner-per-connection
  lock of \<open>lib/trade-engine/progression-lock.ts\<close>.  A client either has \<open>eval\<close>, which runs a
  Lua script on the server in one step, or is the in-process store, which has not.  A script run
  is a parameter of the model; the locale \<open>lua_server\<close> states what the Redis documentation
  says of the three scripts.  A call of a helper is one step of the model: between its awaits no
  other task touches the key, which the server guarantees for a script and which the lease module
  enforces by its per-key promise chain.  The acquisition of the progression lock is a sequence of
  commands, each of which may fail, with other tasks between them.
\<close>

subsection \<open>Owner-checked helpers\<close>

datatype lua_script = ReleaseIfOwner | RenewIfOwner | ReplaceIfValue | PexpireIfOwner

text \<open>\<open>eval(script, keys, arguments)\<close>: None when the call throws.\<close>

type_synonym lua_eval = "lua_script \<Rightarrow> string \<Rightarrow> string list \<Rightarrow> redis \<Rightarrow> (jsnum \<times> redis) option"

definition lua_is_one :: "(jsnum \<times> redis) option \<Rightarrow> redis \<Rightarrow> bool \<times> redis" where
  "lua_is_one res r = (case res of None \<Rightarrow> (False, r) | Some (n, r') \<Rightarrow> (n = num_of_int 1, r'))"

definition releaseOwnedRedisLock ::
  "lua_eval option \<Rightarrow> int \<Rightarrow> string \<Rightarrow> string \<Rightarrow> redis \<Rightarrow> bool \<times> redis" where
  "releaseOwnedRedisLock ev now key token r =
     (case ev of
        Some f \<Rightarrow> lua_is_one (f ReleaseIfOwner key [token] r) r
      | None \<Rightarrow>
          let (current, r1) = redis_get now key r
          in if current \<noteq> Some token then (False, r1)
             else let (n, r2) = redis_del [key] r1 in (n = 1, r2))"

definition renewOwnedRedisLock ::
  "lua_eval option \<Rightarrow> int \<Rightarrow> string \<Rightarrow> string \<Rightarrow> jsnum \<Rightarrow> redis \<Rightarrow> bool \<times> redis" where
  "renewOwnedRedisLock ev now key token ttlSeconds r =
     (case ev of
        Some f \<Rightarrow> lua_is_one (f RenewIfOwner key [token, string_of_num ttlSeconds] r) r
      | None \<Rightarrow>
          let (current, r1) = redis_get now key r
          in if current \<noteq> Some token then (False, r1)
             else let (ans, r2) = redis_set now key token (no_options\<lparr>opt_XX := True, opt_EX := Some ttlSeconds\<rparr>) r1
                  in (ans = Some ''OK'', r2))"

definition replaceRedisLockIfValue ::
  "lua_eval option \<Rightarrow> int \<Rightarrow> string \<Rightarrow> string \<Rightarrow> string \<Rightarrow> jsnum \<Rightarrow> redis \<Rightarrow> bool \<times> redis" where
  "replaceRedisLockIfValue ev now key expected replacement ttlSeconds r =
     (case ev of
        Some f \<Rightarrow> lua_is_one (f ReplaceIfValue key [expected, replacement, string_of_num ttlSeconds] r) r
      | None \<Rightarrow>
          let (current, r1) = redis_get now key r
          in if current \<noteq> Some expected then (False, r1)
             else let (ans, r2) = redis_set now key replacement (no_options\<lparr>opt_EX := Some ttlSeconds\<rparr>) r1
                  in (ans = Some ''OK'', r2))"

subsection \<open>The processor lease\<close>

datatype lease_backend = InlineLocal | RedisNetwork | KiloSqliteSnapshot

definition validLeaseInput :: "string \<Rightarrow> string \<Rightarrow> jsnum \<Rightarrow> bool" where
  "validLeaseInput key owner ttlMs =
     (key \<noteq> [] \<and> owner \<noteq> [] \<and> length owner \<le> 160 \<and> js_isFinite ttlMs \<and> js_gt ttlMs (Fin 0))"

definition renewInlineOwnedLease :: "int \<Rightarrow> string \<Rightarrow> string \<Rightarrow> jsnum \<Rightarrow> redis \<Rightarrow> bool \<times> redis" where
  "renewInlineOwnedLease now key owner ttlMs r =
     (let (current, r1) = redis_get now key r
      in if current \<noteq> Some owner then (False, r1)
         else let (ans, r2) = redis_set now key owner (no_options\<lparr>opt_XX := True, opt_PX := Some ttlMs\<rparr>) r1
              in (ans = Some ''OK'', r2))"

definition renewSharedOwnedLease :: "lua_eval option \<Rightarrow> string \<Rightarrow> string \<Rightarrow> jsnum \<Rightarrow> redis \<Rightarrow> bool \<times> redis" where
  "renewSharedOwnedLease ev key owner ttlMs r =
     (case ev of None \<Rightarrow> (False, r) | Some f \<Rightarrow> lua_is_one (f PexpireIfOwner key [owner, string_of_num ttlMs] r) r)"

definition acquireOrRenewDirectTradeProcessorLease ::
  "lua_eval option \<Rightarrow> lease_backend \<Rightarrow> int \<Rightarrow> string \<Rightarrow> string \<Rightarrow> jsnum \<Rightarrow> redis \<Rightarrow> bool \<times> redis" where
  "acquireOrRenewDirectTradeProcessorLease ev backend now key owner ttlMs r =
     (if \<not> validLeaseInput key owner ttlMs then (False, r)
      else
        let (created, r1) = redis_set now key owner (no_options\<lparr>opt_NX := True, opt_PX := Some ttlMs\<rparr>) r
        in if created = Some ''OK'' then (True, r1)
           else if backend = InlineLocal then renewInlineOwnedLease now key owner ttlMs r1
           else renewSharedOwnedLease ev key owner ttlMs r1)"

definition renewDirectTradeProcessorLease ::
  "lua_eval option \<Rightarrow> lease_backend \<Rightarrow> int \<Rightarrow> string \<Rightarrow> string \<Rightarrow> jsnum \<Rightarrow> redis \<Rightarrow> bool \<times> redis" where
  "renewDirectTradeProcessorLease ev backend now key owner ttlMs r =
     (if \<not> validLeaseInput key owner ttlMs then (False, r)
      else if backend = InlineLocal then renewInlineOwnedLease now key owner ttlMs r
      else renewSharedOwnedLease ev key owner ttlMs r)"

subsection \<open>The progression lock\<close>

record LockHandle =
  ownerToken :: string
  epoch :: jsnum

record AcquireResult =
  acquired :: bool
  handle :: "LockHandle option"
  existingOwner :: "string option"
  healedStaleLock :: bool

record AcquireOptions =
  selfOwnedIfAlive :: bool
  staleAfterMs :: "jsnum option"

definition LOCK_TTL_SEC :: int where
  "LOCK_TTL_SEC = 300"

definition progression_key :: "string \<Rightarrow> string" where
  "progression_key connectionId = ''engine_lock:'' @ connectionId"

definition encodeValue :: "LockHandle \<Rightarrow> string" where
  "encodeValue h = ownerToken h @ '':'' @ string_of_num (epoch h)"

text \<open>\<open>raw.lastIndexOf(":")\<close> splits the value before the last colon and after it.\<close>

definition decodeValue :: "string option \<Rightarrow> LockHandle option" where
  "decodeValue raw =
     (case raw of
        None \<Rightarrow> None
      | Some s \<Rightarrow>
          let back = takeWhile (\<lambda>c. c \<noteq> CHR '':'') (rev s);
              idx = int (length s) - int (length back) - 1
          in if s = [] \<or> idx \<le> 0 then None
             else let e = js_Number (rev back)
                  in if \<not> js_isFinite e then None
                     else Some \<lparr>ownerToken = take (nat idx) s, epoch = e\<rparr>)"

definition not_acquired :: "string \<Rightarrow> AcquireResult" where
  "not_acquired owner = \<lparr>acquired = False, handle = None, existingOwner = Some owner, healedStaleLock = False\<rparr>"

text \<open>
  One run of \<open>acquireProgressionLock\<close>.  Its commands are numbered in their order: 1 \<open>SET NX\<close>, 2 \<open>GET\<close>,
  3 the self-ownership write or the clock reading for the age, 4 \<open>TTL\<close>, 5 the replacement, 6 the second
  \<open>GET\<close>; 0 is the minting of the handle.  A run fixes the clock at each of them, which of them fail (a
  throw, or for 4 a client without \<open>ttl\<close>), and what other tasks do to the store while the call waits
  for each.
\<close>

record acquire_run =
  has_client :: bool
  clock :: "nat \<Rightarrow> int"
  fails :: "nat \<Rightarrow> bool"
  others :: "nat \<Rightarrow> redis \<Rightarrow> redis"

definition acquireProgressionLock ::
  "lua_eval option \<Rightarrow> acquire_run \<Rightarrow> string \<Rightarrow> string \<Rightarrow> jsnum \<Rightarrow> AcquireOptions \<Rightarrow> redis \<Rightarrow> AcquireResult \<times> redis" where
  "acquireProgressionLock ev run token connectionId ttlSec opts r =
     (let k = progression_key connectionId;
          h = \<lparr>ownerToken = token, epoch = num_of_int (clock run 0)\<rparr>;
          r0 = others run 1 r
      in if \<not> has_client run then (not_acquired ''no-redis-client'', r)
         else if fails run 1 then (not_acquired ''acquire-error'', r0)
         else
      let (ans, r1) = redis_set (clock run 1) k (encodeValue h) (no_options\<lparr>opt_NX := True, opt_EX := Some ttlSec\<rparr>) r0
      in if ans = Some ''OK''
         then (\<lparr>acquired = True, handle = Some h, existingOwner = None, healedStaleLock = False\<rparr>, r1)
         else
           let (existingRaw, r2) = (let r = others run 2 r1 in if fails run 2 then (None, r) else redis_get (clock run 2) k r);
               existingDecoded = decodeValue existingRaw;
               existing = (case existingRaw of Some s \<Rightarrow> s | None \<Rightarrow> ''unknown'')
           in if selfOwnedIfAlive opts
              then let r3 = others run 3 r2
                   in if fails run 3 then (not_acquired existing, r3)
                      else (\<lparr>acquired = True, handle = Some h, existingOwner = None, healedStaleLock = True\<rparr>,
                            snd (redis_set (clock run 3) k (encodeValue h) (no_options\<lparr>opt_EX := Some ttlSec\<rparr>) r3))
              else
                let stale = (case staleAfterMs opts of Some s \<Rightarrow> s | None \<Rightarrow> num_of_int (LOCK_TTL_SEC * 2 * 1000))
                in case existingDecoded of
                     None \<Rightarrow> (not_acquired existing, r2)
                   | Some d \<Rightarrow>
                       let age = js_sub (num_of_int (clock run 3)) (epoch d);
                           r3 = others run 4 r2;
                           ttl = (if fails run 4 then num_of_int (-1) else redis_ttl (clock run 4) r3 k)
                       in if js_gt age stale \<and> js_le ttl (Fin 0)
                          then
                            let (healed, r5) = replaceRedisLockIfValue ev (clock run 5) k (the existingRaw) (encodeValue h) ttlSec (others run 5 r3)
                            in if \<not> healed
                               then let r6 = others run 6 r5;
                                        (currentOwner, r7) = (if fails run 6 then (None, r6) else redis_get (clock run 6) k r6)
                                    in (not_acquired (case currentOwner of Some s \<Rightarrow> s | None \<Rightarrow> existing), r7)
                               else (\<lparr>acquired = True, handle = Some h, existingOwner = None, healedStaleLock = True\<rparr>, r5)
                          else (not_acquired existing, r3))"

text \<open>A run in one instant, without failures and without other tasks.\<close>

definition undisturbed :: "int \<Rightarrow> acquire_run" where
  "undisturbed now = \<lparr>has_client = True, clock = (\<lambda>_. now), fails = (\<lambda>_. False), others = (\<lambda>_ r. r)\<rparr>"

lemma undisturbed_simps [simp]: "has_client (undisturbed now) = True" "clock (undisturbed now) n = now" "fails (undisturbed now) n = False" "others (undisturbed now) n r = r"
  by (simp_all add: undisturbed_def)

definition extendProgressionLock ::
  "lua_eval option \<Rightarrow> int \<Rightarrow> string \<Rightarrow> LockHandle \<Rightarrow> jsnum \<Rightarrow> redis \<Rightarrow> bool \<times> redis" where
  "extendProgressionLock ev now connectionId h ttlSec r =
     renewOwnedRedisLock ev now (progression_key connectionId) (encodeValue h) ttlSec r"

definition releaseProgressionLock ::
  "lua_eval option \<Rightarrow> int \<Rightarrow> string \<Rightarrow> LockHandle \<Rightarrow> redis \<Rightarrow> bool \<times> redis" where
  "releaseProgressionLock ev now connectionId h r =
     releaseOwnedRedisLock ev now (progression_key connectionId) (encodeValue h) r"

definition getCurrentEpoch :: "int \<Rightarrow> string \<Rightarrow> redis \<Rightarrow> jsnum option \<times> redis" where
  "getCurrentEpoch now connectionId r =
     (let (raw, r1) = redis_get now (progression_key connectionId) r
      in (map_option epoch (decodeValue raw), r1))"

definition forceBreakProgressionLock :: "lua_eval option \<Rightarrow> int \<Rightarrow> string \<Rightarrow> redis \<Rightarrow> bool \<times> redis" where
  "forceBreakProgressionLock ev now connectionId r =
     (let (existed, r1) = redis_get now (progression_key connectionId) r
      in case existed of
           None \<Rightarrow> (False, r1)
         | Some s \<Rightarrow> if s = [] then (False, r1)
                     else releaseOwnedRedisLock ev now (progression_key connectionId) s r1)"

subsection \<open>What a holder sees\<close>

lemma visible_until:
  assumes "map_of (strings r) k = Some v" "map_of (ttl r) k = Some (num_of_int e)" "0 < e"
  shows "visible_string t r k = (if t < e then Some v else None)"
proof -
  have "truthy (num_of_int e)"
  proof -
    have "(of_int e :: rat) \<noteq> 0" using assms(3) by (simp only: of_int_eq_0_iff)
    then show ?thesis by (simp add: truthy_def)
  qed
  then have "isExpired t r k = (e \<le> t)" by (simp add: isExpired_def assms(2))
  then show ?thesis by (auto simp: visible_string_def assms(1))
qed

lemma visible_track [simp]: "visible_string t (trackOperation now r) k = visible_string t r k"
  by (simp add: visible_string_def)

lemma get_simps [simp]: "fst (redis_get now k r) = visible_string now r k" "snd (redis_get now k r) = trackOperation now r"
  by (simp_all add: redis_get_def Let_def)

lemma ttl_setKeyTTL:
  assumes "0 \<le> now" "0 < s" "now + 1000 * s \<le> 2 ^ 53"
  shows "map_of (ttl (setKeyTTL now k (num_of_int s) r)) k = Some (num_of_int (now + 1000 * s))"
proof -
  have "js_mul (num_of_int s) (num_of_int 1000) = num_of_int (s * 1000)" using assms by (intro js_mul_int) auto
  moreover have "js_add (num_of_int now) (num_of_int (s * 1000)) = num_of_int (now + s * 1000)"
    using assms by (intro js_add_int) auto
  ultimately show ?thesis by (simp add: setKeyTTL_def mult.commute)
qed

text \<open>A successful \<open>SET ... EX\<close> or \<open>SET ... PX\<close> makes the value the live one until its expiry.\<close>

lemma set_ex_window:
  assumes "fst (redis_set now k v opts r) = Some ''OK''" "opt_EX opts = Some (num_of_int s)"
    and "0 \<le> now" "0 < s" "now + 1000 * s \<le> 2 ^ 53"
  shows "visible_string t (snd (redis_set now k v opts r)) k = (if t < now + 1000 * s then Some v else None)"
proof (rule visible_until)
  have tr: "truthy (num_of_int s)"
  proof -
    have "(of_int s :: rat) \<noteq> 0" using assms(4) by (simp only: of_int_eq_0_iff)
    then show ?thesis by (simp add: truthy_def)
  qed
  have "snd (redis_set now k v opts r) =
      setKeyTTL now k (num_of_int s) (markDirty ((trackOperation now r)\<lparr>strings := AList.update k v (strings r)\<rparr>))"
    using assms(1,2) tr unfolding redis_set_def Let_def by (auto split: if_splits)
  then show "map_of (strings (snd (redis_set now k v opts r))) k = Some v"
    "map_of (ttl (snd (redis_set now k v opts r))) k = Some (num_of_int (now + 1000 * s))"
    using ttl_setKeyTTL [OF assms(3-5)] by simp_all
  show "0 < now + 1000 * s" using assms(3,4) by simp
qed

lemma set_px_window:
  assumes "fst (redis_set now k v opts r) = Some ''OK''" "opt_EX opts = None" "opt_PX opts = Some (num_of_int p)"
    and "0 \<le> now" "0 < p" "now + p \<le> 2 ^ 53"
  shows "visible_string t (snd (redis_set now k v opts r)) k = (if t < now + p then Some v else None)"
proof (rule visible_until)
  have pos: "(0 :: rat) < of_int p" using assms(5) by (simp only: of_int_0_less_iff)
  then have g: "truthy (num_of_int p)" "js_isFinite (num_of_int p)" "js_gt (num_of_int p) (Fin 0)"
    by (auto simp: truthy_def js_isFinite_def)
  have a: "js_add (num_of_int now) (num_of_int p) = num_of_int (now + p)" using assms by (intro js_add_int) auto
  have s: "snd (redis_set now k v opts r) =
      markDirty ((markDirty ((trackOperation now r)\<lparr>strings := AList.update k v (strings r)\<rparr>))
        \<lparr>ttl := AList.update k (num_of_int (now + p)) (ttl r)\<rparr>)"
    using assms(1-3) g unfolding redis_set_def Let_def
    by (auto simp: a simp del: of_int_add js_add.simps split: if_splits)
  show "map_of (strings (snd (redis_set now k v opts r))) k = Some v"
    "map_of (ttl (snd (redis_set now k v opts r))) k = Some (num_of_int (now + p))"
    unfolding s by simp_all
  show "0 < now + p" using assms(4,5) by simp
qed

lemma set_nx_answer:
  assumes "opt_NX opts" "\<not> opt_XX opts"
  shows "fst (redis_set now k v opts r) = (if visible_string now r k = None then Some ''OK'' else None)"
    "visible_string now r k \<noteq> None \<Longrightarrow> snd (redis_set now k v opts r) = trackOperation now r"
  using assms unfolding redis_set_def visible_string_def Let_def by (auto split: option.splits if_splits)

lemma set_xx_answer:
  assumes "opt_XX opts" "\<not> opt_NX opts"
  shows "fst (redis_set now k v opts r) = (if visible_string now r k = None then None else Some ''OK'')"
  using assms unfolding redis_set_def visible_string_def Let_def by (auto split: option.splits)

lemma set_plain_answer:
  "\<not> opt_XX opts \<Longrightarrow> \<not> opt_NX opts \<Longrightarrow> fst (redis_set now k v opts r) = Some ''OK''"
  unfolding redis_set_def Let_def by simp

subsection \<open>The owner-checked contract\<close>

text \<open>
  The contract both clients offer: \<open>holder t s\<close> is the token a reader sees at time \<open>t\<close>;
  release and renew act for the holder only, and a renewal by the holder opens a full window.
\<close>

locale owned_lock =
  fixes holder :: "int \<Rightarrow> 's \<Rightarrow> string option"
    and release :: "int \<Rightarrow> string \<Rightarrow> 's \<Rightarrow> bool \<times> 's"
    and renew :: "int \<Rightarrow> int \<Rightarrow> string \<Rightarrow> 's \<Rightarrow> bool \<times> 's"
  assumes release_owner: "holder t s = Some tok \<Longrightarrow> fst (release t tok s) \<and> holder t' (snd (release t tok s)) = None"
    and release_other: "holder t s \<noteq> Some tok \<Longrightarrow> \<not> fst (release t tok s) \<and> holder t' (snd (release t tok s)) = holder t' s"
    and renew_owner: "holder t s = Some tok \<Longrightarrow> 0 \<le> t \<Longrightarrow> 0 < n \<Longrightarrow> t + 1000 * n \<le> 2 ^ 53 \<Longrightarrow>
      fst (renew t n tok s) \<and> holder t' (snd (renew t n tok s)) = (if t' < t + 1000 * n then Some tok else None)"
    and renew_other: "holder t s \<noteq> Some tok \<Longrightarrow> \<not> fst (renew t n tok s) \<and> holder t' (snd (renew t n tok s)) = holder t' s"
begin

text \<open>Heartbeats at the given times, stopping at the first refusal.\<close>

fun heartbeats :: "int \<Rightarrow> string \<Rightarrow> int list \<Rightarrow> 's \<Rightarrow> bool \<times> 's" where
  "heartbeats n tok [] s = (True, s)"
| "heartbeats n tok (t # ts) s =
     (let (ok, s') = renew t n tok s in if ok then heartbeats n tok ts s' else (False, s'))"

lemma heartbeats_keep:
  assumes "\<And>u. t0 \<le> u \<Longrightarrow> u < t0 + 1000 * n \<Longrightarrow> holder u s = Some tok"
    and "successively (\<lambda>a b. a \<le> b \<and> b < a + 1000 * n) (t0 # ts)" "0 \<le> t0" "0 < n"
    and "\<forall>t \<in> set ts. t + 1000 * n \<le> 2 ^ 53"
  shows "fst (heartbeats n tok ts s) \<and>
    (\<forall>u. last (t0 # ts) \<le> u \<and> u < last (t0 # ts) + 1000 * n \<longrightarrow> holder u (snd (heartbeats n tok ts s)) = Some tok)"
  using assms
proof (induction ts arbitrary: t0 s)
  case (Cons t ts)
  then have t: "t0 \<le> t" "t < t0 + 1000 * n" "0 \<le> t" by simp_all
  have h: "holder t s = Some tok" using Cons.prems(1) t by blast
  obtain ok s' where r: "renew t n tok s = (ok, s')" by fastforce
  have "ok \<and> (\<forall>u. holder u s' = (if u < t + 1000 * n then Some tok else None))"
    using renew_owner [OF h t(3) Cons.prems(4)] Cons.prems(5) by (simp add: r)
  then have ok: "ok" and h': "\<And>u. t \<le> u \<Longrightarrow> u < t + 1000 * n \<Longrightarrow> holder u s' = Some tok" by auto
  have "fst (heartbeats n tok ts s') \<and> (\<forall>u. last (t # ts) \<le> u \<and> u < last (t # ts) + 1000 * n \<longrightarrow>
      holder u (snd (heartbeats n tok ts s')) = Some tok)"
    using h' Cons.prems t(3) by (intro Cons.IH) auto
  with ok show ?case by (simp add: r)
qed simp

end

definition inline_renew :: "string \<Rightarrow> int \<Rightarrow> int \<Rightarrow> string \<Rightarrow> redis \<Rightarrow> bool \<times> redis" where
  "inline_renew key t n tok r = renewOwnedRedisLock None t key tok (num_of_int n) r"

lemma deleteKey_visible [simp]: "visible_string t (deleteKey k r) k = None"
  by (simp add: visible_string_def view_simps)

lemma visible_has_data: "visible_string t r k = Some v \<Longrightarrow> has_data r k"
  by (auto simp: visible_string_def has_data_def split: if_splits)

lemma has_data_track [simp]: "has_data (trackOperation now r) k = has_data r k"
  by (simp add: has_data_def trackOperation_def Let_def)

lemma inline_release:
  "visible_string t r k = Some tok \<Longrightarrow>
     releaseOwnedRedisLock None t k tok r = (True, deleteKey k (trackOperation t r))"
  "visible_string t r k \<noteq> Some tok \<Longrightarrow> releaseOwnedRedisLock None t k tok r = (False, trackOperation t r)"
  using visible_has_data [of t r k tok]
  by (simp_all add: releaseOwnedRedisLock_def redis_get_def Let_def)

lemma inline_renew_other:
  "visible_string t r k \<noteq> Some tok \<Longrightarrow> renewOwnedRedisLock None t k tok s r = (False, trackOperation t r)"
  by (simp add: renewOwnedRedisLock_def redis_get_def Let_def)

lemma inline_renew_owner:
  assumes "visible_string t r k = Some tok" "0 \<le> t" "0 < n" "t + 1000 * n \<le> 2 ^ 53"
  shows "fst (inline_renew k t n tok r)"
    "visible_string u (snd (inline_renew k t n tok r)) k = (if u < t + 1000 * n then Some tok else None)"
proof -
  let ?o = "no_options\<lparr>opt_XX := True, opt_EX := Some (num_of_int n)\<rparr>"
  have e: "inline_renew k t n tok r = (fst (redis_set t k tok ?o (trackOperation t r)) = Some ''OK'',
      snd (redis_set t k tok ?o (trackOperation t r)))"
    using assms(1) by (simp add: inline_renew_def renewOwnedRedisLock_def redis_get_def case_prod_unfold Let_def)
  have ok: "fst (redis_set t k tok ?o (trackOperation t r)) = Some ''OK''"
    using assms(1) by (simp add: set_xx_answer no_options_def)
  show "fst (inline_renew k t n tok r)" using e ok by simp
  show "visible_string u (snd (inline_renew k t n tok r)) k = (if u < t + 1000 * n then Some tok else None)"
    unfolding e snd_conv by (rule set_ex_window [OF ok _ assms(2-4)]) (simp add: no_options_def)
qed

interpretation inline_lock: owned_lock "\<lambda>t r. visible_string t r key" "\<lambda>t. releaseOwnedRedisLock None t key"
    "inline_renew key" for key
  by unfold_locales (auto simp: inline_release inline_renew_owner, auto simp: inline_renew_def inline_renew_other)

text \<open>What the Redis documentation says of the scripts, at the server's time \<open>now\<close>.\<close>

locale lua_server =
  fixes ev :: "int \<Rightarrow> lua_eval"
  assumes lua_release: "ev now ReleaseIfOwner k [tok] r =
      Some (if visible_string now r k = Some tok then map_prod num_of_int id (redis_del [k] r) else (num_of_int 0, r))"
    and lua_renew: "ev now RenewIfOwner k [tok, s] r =
      Some (if visible_string now r k = Some tok then map_prod num_of_int id (redis_expire now k (js_Number s) r) else (num_of_int 0, r))"
    and lua_pexpire: "ev now PexpireIfOwner k [tok, ms] r =
      Some (if visible_string now r k = Some tok
            then (num_of_int 1, markDirty (r\<lparr>ttl := AList.update k (js_add (num_of_int now) (js_Number ms)) (ttl r)\<rparr>))
            else (num_of_int 0, r))"
begin

definition lua_renew_op :: "string \<Rightarrow> int \<Rightarrow> int \<Rightarrow> string \<Rightarrow> redis \<Rightarrow> bool \<times> redis" where
  "lua_renew_op key t n tok r = renewOwnedRedisLock (Some (ev t)) t key tok (num_of_int n) r"

lemma lua_renew_other:
  "visible_string t r k \<noteq> Some tok \<Longrightarrow> lua_renew_op k t n tok r = (False, r)"
  by (simp add: lua_renew_op_def renewOwnedRedisLock_def lua_renew lua_is_one_def)

lemma lua_renew_owner:
  assumes "visible_string t r k = Some tok" "0 \<le> t" "0 < n" "t + 1000 * n \<le> 2 ^ 53"
  shows "lua_renew_op k t n tok r = (True, setKeyTTL t k (num_of_int n) r)"
    "visible_string u (setKeyTTL t k (num_of_int n) r) k = (if u < t + 1000 * n then Some tok else None)"
proof -
  have n: "js_Number (string_of_num (num_of_int n)) = num_of_int n"
    using assms string_of_num_int [of n] js_Number_dec_digits [of n] by simp
  show "lua_renew_op k t n tok r = (True, setKeyTTL t k (num_of_int n) r)"
    using assms(1) visible_has_data [OF assms(1)]
    by (simp add: lua_renew_op_def renewOwnedRedisLock_def lua_renew lua_is_one_def n redis_expire_def del: string_of_num.simps)
  show "visible_string u (setKeyTTL t k (num_of_int n) r) k = (if u < t + 1000 * n then Some tok else None)"
  proof (rule visible_until)
    show "map_of (strings (setKeyTTL t k (num_of_int n) r)) k = Some tok"
      using assms(1) by (auto simp: visible_string_def split: if_splits)
    show "map_of (ttl (setKeyTTL t k (num_of_int n) r)) k = Some (num_of_int (t + 1000 * n))"
      using assms(2-4) by (rule ttl_setKeyTTL)
  qed (use assms in simp)
qed

end

sublocale lua_server \<subseteq> lua: owned_lock "\<lambda>t r. visible_string t r key" "\<lambda>t. releaseOwnedRedisLock (Some (ev t)) t key"
    "lua_renew_op key" for key
  by unfold_locales
    (use visible_has_data in \<open>fastforce simp: releaseOwnedRedisLock_def lua_release lua_is_one_def lua_renew_owner lua_renew_other\<close>)+

text \<open>A server that runs the scripts on the store's own commands.\<close>

fun script_server :: "int \<Rightarrow> lua_eval" where
  "script_server now ReleaseIfOwner k [tok] r =
     Some (if visible_string now r k = Some tok then map_prod num_of_int id (redis_del [k] r) else (num_of_int 0, r))"
| "script_server now RenewIfOwner k [tok, s] r =
     Some (if visible_string now r k = Some tok then map_prod num_of_int id (redis_expire now k (js_Number s) r) else (num_of_int 0, r))"
| "script_server now ReplaceIfValue k [tok, v, s] r =
     Some (if visible_string now r k = Some tok
           then (num_of_int 1, snd (redis_set now k v (no_options\<lparr>opt_EX := Some (js_Number s)\<rparr>) r)) else (num_of_int 0, r))"
| "script_server now PexpireIfOwner k [tok, ms] r =
     Some (if visible_string now r k = Some tok
           then (num_of_int 1, markDirty (r\<lparr>ttl := AList.update k (js_add (num_of_int now) (js_Number ms)) (ttl r)\<rparr>))
           else (num_of_int 0, r))"
| "script_server now _ k _ r = None"

interpretation script: lua_server script_server
  by unfold_locales simp_all

context lua_server
begin

lemma release_spec:
  assumes "c = None \<or> c = Some (ev t)"
  shows "fst (releaseOwnedRedisLock c t k tok r) = (visible_string t r k = Some tok)"
    "visible_string u (snd (releaseOwnedRedisLock c t k tok r)) k =
       (if visible_string t r k = Some tok then None else visible_string u r k)"
proof -
  have "fst (releaseOwnedRedisLock c t k tok r) = (visible_string t r k = Some tok) \<and>
    visible_string u (snd (releaseOwnedRedisLock c t k tok r)) k =
       (if visible_string t r k = Some tok then None else visible_string u r k)"
  proof (cases "visible_string t r k = Some tok")
    case True
    with assms show ?thesis using inline_lock.release_owner [OF True] lua.release_owner [OF True] by auto
  next
    case False
    with assms show ?thesis using inline_lock.release_other [OF False] lua.release_other [OF False] by auto
  qed
  then show "fst (releaseOwnedRedisLock c t k tok r) = (visible_string t r k = Some tok)"
    "visible_string u (snd (releaseOwnedRedisLock c t k tok r)) k =
       (if visible_string t r k = Some tok then None else visible_string u r k)" by blast+
qed

lemma lease_refused:
  assumes "visible_string t r k = Some a" "a \<noteq> b"
  shows "fst (acquireOrRenewDirectTradeProcessorLease (Some (ev t)) backend t k b ttlMs r) = False"
    "visible_string u (snd (acquireOrRenewDirectTradeProcessorLease (Some (ev t)) backend t k b ttlMs r)) k = visible_string u r k"
    "fst (renewDirectTradeProcessorLease (Some (ev t)) backend t k b ttlMs r) = False"
    "visible_string u (snd (renewDirectTradeProcessorLease (Some (ev t)) backend t k b ttlMs r)) k = visible_string u r k"
proof -
  let ?o = "no_options\<lparr>opt_NX := True, opt_PX := Some ttlMs\<rparr>"
  have set: "redis_set t k b ?o r = (None, trackOperation t r)"
    using set_nx_answer [where opts = ?o and now = t and k = k and v = b and r = r] assms(1) by (cases "redis_set t k b ?o r") (simp add: no_options_def)
  have inl: "visible_string t q k = Some a \<Longrightarrow> renewInlineOwnedLease t k b ttlMs q = (False, trackOperation t q)" for q
    using assms(2) by (simp add: renewInlineOwnedLease_def redis_get_def Let_def)
  have sh: "visible_string t q k = Some a \<Longrightarrow> renewSharedOwnedLease (Some (ev t)) k b ttlMs q = (False, q)" for q
    using assms(2) by (simp add: renewSharedOwnedLease_def lua_pexpire lua_is_one_def)
  show "fst (acquireOrRenewDirectTradeProcessorLease (Some (ev t)) backend t k b ttlMs r) = False"
    "visible_string u (snd (acquireOrRenewDirectTradeProcessorLease (Some (ev t)) backend t k b ttlMs r)) k = visible_string u r k"
    "fst (renewDirectTradeProcessorLease (Some (ev t)) backend t k b ttlMs r) = False"
    "visible_string u (snd (renewDirectTradeProcessorLease (Some (ev t)) backend t k b ttlMs r)) k = visible_string u r k"
    using assms(1) inl sh set
    by (simp_all add: acquireOrRenewDirectTradeProcessorLease_def renewDirectTradeProcessorLease_def)
qed

end

subsection \<open>Properties of the helpers\<close>

text \<open>Release is owner-checked on both kinds of client, the in-process one and a server that
  runs the documented script: it succeeds exactly when the caller's token is the live value, then
  nobody holds the lock afterwards, and a refused release leaves the holder in place.\<close>

theorem releaseOwnedRedisLock_owner_only:
  assumes "lua_server ev" "c = None \<or> c = Some (ev t)"
  shows "case releaseOwnedRedisLock c t k tok r of (ok, r') \<Rightarrow>
    ok = (visible_string t r k = Some tok) \<and>
    (\<forall>u. visible_string u r' k = (if ok then None else visible_string u r k))"
  using lua_server.release_spec [OF assms, where k = k and tok = tok and r = r] by (simp add: case_prod_unfold)

theorem releaseOwnedRedisLock_owner_only_witness:
  "let r = (redis_empty 0)\<lparr>strings := [(''lock'', ''a'')]\<rparr>
   in \<not> fst (releaseOwnedRedisLock (Some (script_server 3)) 3 ''lock'' ''b'' r) \<and>
      visible_string 4 (snd (releaseOwnedRedisLock (Some (script_server 3)) 3 ''lock'' ''b'' r)) ''lock'' = Some ''a''"
  using releaseOwnedRedisLock_owner_only [OF script.lua_server_axioms, where c = "Some (script_server 3)" and t = 3
      and k = "''lock''" and tok = "''b''" and r = "(redis_empty 0)\<lparr>strings := [(''lock'', ''a'')]\<rparr>"]
  by (simp add: visible_string_def isExpired_def redis_empty_def Let_def case_prod_unfold)

text \<open>Calls of the lease module, each with its time, owner, duration and whether it may acquire.\<close>

record lease_call =
  call_time :: int
  call_owner :: string
  call_ttl :: jsnum
  call_acquires :: bool

definition lease_call_step :: "(int \<Rightarrow> lua_eval) \<Rightarrow> lease_backend \<Rightarrow> string \<Rightarrow> lease_call \<Rightarrow> redis \<Rightarrow> bool \<times> redis" where
  "lease_call_step ev backend key c r =
     (if call_acquires c
      then acquireOrRenewDirectTradeProcessorLease (Some (ev (call_time c))) backend (call_time c) key (call_owner c) (call_ttl c) r
      else renewDirectTradeProcessorLease (Some (ev (call_time c))) backend (call_time c) key (call_owner c) (call_ttl c) r)"

fun lease_calls :: "(int \<Rightarrow> lua_eval) \<Rightarrow> lease_backend \<Rightarrow> string \<Rightarrow> lease_call list \<Rightarrow> redis \<Rightarrow> bool list \<times> redis" where
  "lease_calls ev backend key [] r = ([], r)"
| "lease_calls ev backend key (c # cs) r =
     (let (ok, r1) = lease_call_step ev backend key c r; (oks, r2) = lease_calls ev backend key cs r1 in (ok # oks, r2))"

lemma lease_calls_refused:
  assumes "lua_server ev" "\<forall>c \<in> set cs. call_owner c \<noteq> a \<and> visible_string (call_time c) r key = Some a"
  shows "set (fst (lease_calls ev backend key cs r)) \<subseteq> {False} \<and>
    (\<forall>u. visible_string u (snd (lease_calls ev backend key cs r)) key = visible_string u r key)"
  using assms(2)
proof (induction cs arbitrary: r)
  case (Cons c cs)
  obtain ok r1 where s: "lease_call_step ev backend key c r = (ok, r1)" by fastforce
  have c: "visible_string (call_time c) r key = Some a" "a \<noteq> call_owner c" using Cons.prems by auto
  have "\<not> ok" "\<And>u. visible_string u r1 key = visible_string u r key"
    using lua_server.lease_refused [OF assms(1) c, where backend = backend and ttlMs = "call_ttl c"] s
    by (auto simp: lease_call_step_def split: if_splits dest: arg_cong [of _ _ fst] arg_cong [of _ _ snd])
  moreover have "set (fst (lease_calls ev backend key cs r1)) \<subseteq> {False} \<and>
      (\<forall>u. visible_string u (snd (lease_calls ev backend key cs r1)) key = visible_string u r1 key)"
    using Cons.prems calculation(2) by (intro Cons.IH) simp
  ultimately show ?case by (simp add: s case_prod_unfold Let_def)
qed simp

text \<open>C1. The processor lease is exclusive for its whole duration: once an acquire by one owner
  succeeds on a free lease, every acquire or renewal by other owners before
  \<open>now + ttl\<close> is refused, in any number and order and on either backend, and the first owner is
  still the holder.\<close>

theorem lease_exclusive:
  assumes "lua_server ev" "0 \<le> t0" "0 < p" "t0 + p \<le> 2 ^ 53"
    and "visible_string t0 r key = None"
    and "fst (acquireOrRenewDirectTradeProcessorLease (Some (ev t0)) backend t0 key a (num_of_int p) r)"
    and "\<forall>c \<in> set cs. call_owner c \<noteq> a \<and> t0 \<le> call_time c \<and> call_time c < t0 + p"
  shows "case lease_calls ev backend key cs
      (snd (acquireOrRenewDirectTradeProcessorLease (Some (ev t0)) backend t0 key a (num_of_int p) r)) of (oks, r') \<Rightarrow>
    True \<notin> set oks \<and> (\<forall>u. visible_string u r' key = (if u < t0 + p then Some a else None))"
proof -
  let ?o = "no_options\<lparr>opt_NX := True, opt_PX := Some (num_of_int p)\<rparr>"
  let ?r1 = "snd (acquireOrRenewDirectTradeProcessorLease (Some (ev t0)) backend t0 key a (num_of_int p) r)"
  have ok: "fst (redis_set t0 key a ?o r) = Some ''OK''" using assms(5) by (simp add: set_nx_answer no_options_def)
  have "?r1 = snd (redis_set t0 key a ?o r)" using assms(6) ok
    by (auto simp: acquireOrRenewDirectTradeProcessorLease_def case_prod_unfold split: if_splits)
  then have w: "visible_string u ?r1 key = (if u < t0 + p then Some a else None)" for u
    using set_px_window [OF ok _ _ assms(2-4), of u] by (simp add: no_options_def)
  have "\<forall>c \<in> set cs. call_owner c \<noteq> a \<and> visible_string (call_time c) ?r1 key = Some a" using assms(7) w by simp
  from lease_calls_refused [OF assms(1) this, of backend] w show ?thesis by (auto simp: case_prod_unfold)
qed

theorem lease_exclusive_witness:
  "True \<notin> set (fst (lease_calls script_server InlineLocal ''lease''
     [\<lparr>call_time = 1500, call_owner = ''b'', call_ttl = num_of_int 9, call_acquires = True\<rparr>]
     (snd (acquireOrRenewDirectTradeProcessorLease (Some (script_server 1000)) InlineLocal 1000 ''lease'' ''a''
        (num_of_int 5000) (redis_empty 0)))))"
proof -
  have "visible_string 1000 (redis_empty 0) ''lease'' = None" by (simp add: visible_string_def redis_empty_def)
  moreover from this have "fst (acquireOrRenewDirectTradeProcessorLease (Some (script_server 1000)) InlineLocal 1000 ''lease'' ''a''
      (num_of_int 5000) (redis_empty 0))"
    by (simp add: acquireOrRenewDirectTradeProcessorLease_def validLeaseInput_def js_isFinite_def set_nx_answer no_options_def
        case_prod_unfold Let_def)
  ultimately show ?thesis
    using lease_exclusive [OF script.lua_server_axioms, where ?t0.0 = 1000 and p = 5000 and r = "redis_empty 0"
        and key = "''lease''" and backend = InlineLocal and a = "''a''" and cs = "[\<lparr>call_time = 1500, call_owner = ''b'', call_ttl = num_of_int 9, call_acquires = True\<rparr>]"]
    by (simp add: case_prod_unfold)
qed

subsection \<open>Properties of the progression lock\<close>

text \<open>The lock value round-trips: decoding an encoded handle gives the handle back, for any
  nonempty owner token (colons included) and any epoch that is a whole number of milliseconds.\<close>

theorem decode_encode_handle:
  assumes "token \<noteq> []" "0 \<le> e" "e \<le> 2 ^ 53"
  shows "decodeValue (Some (encodeValue \<lparr>ownerToken = token, epoch = num_of_int e\<rparr>)) =
    Some \<lparr>ownerToken = token, epoch = num_of_int e\<rparr>"
proof -
  let ?d = "dec_digits e"
  have s: "string_of_num (num_of_int e) = ?d"
    using assms string_of_num_int [of e] by (simp add: string_of_int_def)
  have nocolon: "c \<noteq> CHR '':''" if "c \<in> set ?d" for c
    using dec_digits_digits [OF assms(2)] that not_is_digit(3) by blast
  have v: "encodeValue \<lparr>ownerToken = token, epoch = num_of_int e\<rparr> = token @ CHR '':'' # ?d"
    unfolding encodeValue_def LockHandle.simps s by simp
  have tail: "takeWhile (\<lambda>c. c \<noteq> CHR '':'') (rev (token @ CHR '':'' # ?d)) = rev ?d"
    using nocolon by (simp add: takeWhile_append)
  have n: "js_Number ?d = num_of_int e"
    using js_Number_dec_digits [OF assms(2,3)] assms(2) by (simp add: string_of_int_def)
  show ?thesis unfolding v decodeValue_def using assms(1)
    by (simp add: tail n Let_def js_isFinite_def del: rev_append)
qed

theorem decode_encode_handle_witness:
  "decodeValue (Some (encodeValue \<lparr>ownerToken = ''a:b'', epoch = num_of_int 1700000000000\<rparr>)) =
   Some \<lparr>ownerToken = ''a:b'', epoch = num_of_int 1700000000000\<rparr>"
  by (rule decode_encode_handle) simp_all

lemma ttl_remaining:
  assumes "map_of (ttl r) k = Some (num_of_int e)" "now < e" "e - now \<le> 2 ^ 53"
  shows "redis_ttl now r k = js_floor (fl (of_int (e - now) / 1000))"
proof -
  have "\<not> (of_int e :: rat) \<le> of_int now" using assms(2) by (simp only: of_int_le_iff)
  moreover have "js_sub (num_of_int e) (num_of_int now) = num_of_int (e - now)" using assms by (intro js_sub_int) simp
  ultimately show ?thesis by (simp add: redis_ttl_def assms(1))
qed

lemma ttl_positive:
  assumes "map_of (ttl r) k = Some (num_of_int e)" "now + 1000 \<le> e" "e - now \<le> 2 ^ 53"
  shows "js_gt (redis_ttl now r k) (Fin 0)"
proof -
  have "(1000 :: rat) \<le> of_int (e - now)"
    using assms(2) by (metis of_int_le_iff of_int_numeral add.commute le_diff_eq)
  then have "js_le (fl 1) (fl (of_int (e - now) / 1000))" by (intro fl_mono) simp
  moreover have "fl 1 = Fin 1" using fl_of_int [of 1] by simp
  ultimately have "js_le (Fin 1) (fl (of_int (e - now) / 1000))" by simp
  then have "js_lt (Fin 0) (js_floor (fl (of_int (e - now) / 1000)))"
    by (cases "fl (of_int (e - now) / 1000)") (auto simp: le_floor_iff)
  then show ?thesis using ttl_remaining [of r k e now] assms by simp
qed

lemma ttl_last_second:
  assumes "map_of (ttl r) k = Some (num_of_int e)" "now < e" "e < now + 1000"
  shows "redis_ttl now r k = Fin 0"
proof -
  define x where "x = (of_int (e - now) / 1000 :: rat)"
  have d: "e - now \<le> 999" "0 < e - now" using assms by auto
  have "(of_int (e - now) :: rat) \<le> of_int 999" using d(1) by (simp only: of_int_le_iff)
  then have x: "x \<le> of_int 1023 * 2 powi (- 10)" by (simp add: x_def power_int_minus field_simps)
  have x0: "0 \<le> x" using d(2) by (simp add: x_def)
  have "fl_rat (of_int 1023 * 2 powi (- 10)) = of_int 1023 * 2 powi (- 10)" by (rule fl_rat_exact) auto
  then have le: "fl_rat x \<le> of_int 1023 * 2 powi (- 10)" using fl_rat_mono [OF x] by (simp only:)
  then have lt: "fl_rat x < 1" by (simp add: power_int_minus field_simps)
  have ge: "0 \<le> fl_rat x" using x0 by (rule fl_rat_nonneg)
  have "fl x = Fin (fl_rat x)"
  proof -
    have "(1 :: rat) \<le> 2 ^ 1024" by simp
    with lt ge show ?thesis by (simp add: fl_def Let_def)
  qed
  moreover have "\<lfloor>fl_rat x\<rfloor> = 0" using lt ge by (simp add: floor_eq_iff)
  ultimately have "js_floor (fl x) = Fin 0" by simp
  moreover have "redis_ttl now r k = js_floor (fl (of_int (e - now) / 1000))"
    by (rule ttl_remaining [OF assms(1,2)]) (use d in simp)
  ultimately show ?thesis by (simp add: x_def)
qed

lemma track_ttl_simps [simp]: "redis_ttl now (trackOperation t r) k = redis_ttl now r k"
  by (simp add: redis_ttl_def redis_exists_def)

lemma acquire_contended:
  assumes "visible_string now r (progression_key c) = Some v" "\<not> selfOwnedIfAlive opts"
  shows "acquireProgressionLock ev (undisturbed now) token c ttlSec opts r =
    (let k = progression_key c; r2 = trackOperation now (trackOperation now r);
         h = \<lparr>ownerToken = token, epoch = num_of_int now\<rparr>;
         stale = (case staleAfterMs opts of Some s \<Rightarrow> s | None \<Rightarrow> num_of_int (LOCK_TTL_SEC * 2 * 1000))
     in case decodeValue (Some v) of
          None \<Rightarrow> (not_acquired v, r2)
        | Some d \<Rightarrow>
            if js_gt (js_sub (num_of_int now) (epoch d)) stale \<and> js_le (redis_ttl now r k) (Fin 0)
            then let (healed, r3) = replaceRedisLockIfValue ev now k v (encodeValue h) ttlSec r2
                 in if \<not> healed
                    then let (currentOwner, r4) = redis_get now k r3
                         in (not_acquired (case currentOwner of Some s \<Rightarrow> s | None \<Rightarrow> v), r4)
                    else (\<lparr>acquired = True, handle = Some h, existingOwner = None, healedStaleLock = True\<rparr>, r3)
            else (not_acquired v, r2))"
proof -
  let ?o = "no_options\<lparr>opt_NX := True, opt_EX := Some ttlSec\<rparr>"
  have "redis_set now (progression_key c) x ?o r = (None, trackOperation now r)" for x
    using set_nx_answer [where opts = ?o and now = now and k = "progression_key c" and v = x and r = r] assms(1)
    by (cases "redis_set now (progression_key c) x ?o r") (simp add: no_options_def)
  then show ?thesis using assms unfolding acquireProgressionLock_def Let_def undisturbed_simps if_False
    by (simp add: redis_get_def Let_def split: option.split)
qed

text \<open>C39. A live lock is never taken over while its \<open>TTL\<close> reads a second or more: without the
  self-ownership hint, if \<open>SET NX\<close> finds the lock taken, the \<open>TTL\<close> read does not fail and finds at least
  one full second left, an acquire is refused and writes nothing, however old the holder's epoch is,
  whatever staleness bound the caller passes, whichever other commands fail and whatever other tasks do
  between the commands: the lock's value is one that the others left there.\<close>

theorem acquireProgressionLock_never_steals:
  fixes r c run
  defines "k \<equiv> progression_key c"
    and "s1 \<equiv> others run 1 r"
    and "s2 \<equiv> others run 2 (trackOperation (clock run 1) (others run 1 r))"
  defines "s3 \<equiv> others run 4 (if fails run 2 then s2 else trackOperation (clock run 2) s2)"
  assumes "visible_string (clock run 1) s1 k \<noteq> None"
    and "map_of (ttl s3) k = Some (num_of_int e)" "clock run 4 + 1000 \<le> e" "e - clock run 4 \<le> 2 ^ 53"
    and "\<not> fails run 4" "\<not> selfOwnedIfAlive opts"
  shows "case acquireProgressionLock ev run token c ttlSec opts r of (res, r') \<Rightarrow>
    \<not> acquired res \<and> (\<forall>u. visible_string u r' k \<in> {visible_string u r k, visible_string u s1 k, visible_string u s2 k, visible_string u s3 k})"
proof -
  let ?o = "no_options\<lparr>opt_NX := True, opt_EX := Some ttlSec\<rparr>"
  obtain v where v: "visible_string (clock run 1) s1 k = Some v" using assms(5) by blast
  then have nx: "redis_set (clock run 1) k x ?o s1 = (None, trackOperation (clock run 1) s1)" for x
    using set_nx_answer [where opts = ?o and now = "clock run 1" and k = k and v = x and r = s1]
    by (cases "redis_set (clock run 1) k x ?o s1") (simp add: no_options_def)
  have "js_gt (redis_ttl (clock run 4) s3 k) (Fin 0)" by (rule ttl_positive [OF assms(6-8)])
  then have ttl: "\<not> js_le (redis_ttl (clock run 4) s3 k) (Fin 0)" using js_lt_le_trans js_lt_irrefl by blast
  have "acquireProgressionLock ev run token c ttlSec opts r \<in>
      {res. \<not> acquired (fst res) \<and> snd res \<in> {r, s1, s2, trackOperation (clock run 2) s2, s3}}"
    using nx ttl assms(9,10) unfolding acquireProgressionLock_def Let_def k_def [symmetric] s1_def [symmetric]
    by (auto simp: s3_def s2_def [folded s1_def] not_acquired_def redis_get_def Let_def split: option.split)
  then show ?thesis by auto
qed

theorem acquireProgressionLock_never_steals_witness:
  "\<not> acquired (fst (acquireProgressionLock None
     \<lparr>has_client = True, clock = (\<lambda>n. 900000 + int n), fails = (\<lambda>n. False),
      others = (\<lambda>n r. if n = 4 then r\<lparr>ttl := [(''engine_lock:c'', num_of_int 990000)]\<rparr> else r)\<rparr>
     ''t'' ''c'' (num_of_int 300) \<lparr>selfOwnedIfAlive = False, staleAfterMs = Some (num_of_int 0)\<rparr>
     ((redis_empty 0)\<lparr>strings := [(''engine_lock:c'', ''old:1'')], ttl := [(''engine_lock:c'', num_of_int 900100)]\<rparr>)))"
proof -
  let ?r = "(redis_empty 0)\<lparr>strings := [(''engine_lock:c'', ''old:1'')], ttl := [(''engine_lock:c'', num_of_int 900100)]\<rparr>"
  let ?run = "\<lparr>has_client = True, clock = (\<lambda>n. 900000 + int n), fails = (\<lambda>n. False),
      others = (\<lambda>n r. if n = 4 then r\<lparr>ttl := [(''engine_lock:c'', num_of_int 990000)]\<rparr> else r)\<rparr>"
  have "visible_string 900001 ?r (progression_key ''c'') = Some ''old:1''"
    by (subst visible_until [where e = 900100 and v = "''old:1''"]) (simp_all add: progression_key_def)
  then show ?thesis
    using acquireProgressionLock_never_steals [where run = ?run and r = ?r and c = "''c''" and e = 990000 and ev = None and token = "''t''"
      and ttlSec = "num_of_int 300" and opts = "\<lparr>selfOwnedIfAlive = False, staleAfterMs = Some (num_of_int 0)\<rparr>"]
    by (simp add: progression_key_def case_prod_unfold)
qed

text \<open>In its last second a live lock is not protected: the remaining time is rounded down to
  whole seconds, so with less than a second left it counts as expired, and if the holder's epoch is
  older than the staleness bound an acquire replaces the holder although its value is still live.\<close>

theorem acquireProgressionLock_last_second:
  assumes "visible_string now r (progression_key c) = Some v" "decodeValue (Some v) = Some d"
    and "map_of (ttl r) (progression_key c) = Some (num_of_int e)" "now < e" "e < now + 1000"
    and "js_gt (js_sub (num_of_int now) (epoch d)) (num_of_int 600000)"
    and "0 \<le> now" "0 < n" "now + 1000 * n \<le> 2 ^ 53"
  shows "case acquireProgressionLock None (undisturbed now) token c (num_of_int n) \<lparr>selfOwnedIfAlive = False, staleAfterMs = None\<rparr> r of (res, r') \<Rightarrow>
    acquired res \<and> healedStaleLock res \<and>
    visible_string now r' (progression_key c) = Some (encodeValue \<lparr>ownerToken = token, epoch = num_of_int now\<rparr>)"
proof -
  let ?k = "progression_key c" and ?h = "\<lparr>ownerToken = token, epoch = num_of_int now\<rparr>"
  let ?o = "no_options\<lparr>opt_EX := Some (num_of_int n)\<rparr>" and ?r2 = "trackOperation now (trackOperation now r)"
  let ?s = "redis_set now ?k (encodeValue ?h) ?o (trackOperation now ?r2)"
  have ok: "fst ?s = Some ''OK''" by (simp add: set_plain_answer no_options_def)
  have rep: "replaceRedisLockIfValue None now ?k v (encodeValue ?h) (num_of_int n) ?r2 = (True, snd ?s)"
    using assms(1) ok by (simp add: replaceRedisLockIfValue_def redis_get_def Let_def case_prod_unfold)
  have "redis_ttl now r ?k = Fin 0" by (rule ttl_last_second [OF assms(3-5)])
  then have "acquireProgressionLock None (undisturbed now) token c (num_of_int n) \<lparr>selfOwnedIfAlive = False, staleAfterMs = None\<rparr> r =
      (\<lparr>acquired = True, handle = Some ?h, existingOwner = None, healedStaleLock = True\<rparr>, snd ?s)"
    using assms(6) by (subst acquire_contended [OF assms(1)]) (simp_all add: assms(2) rep LOCK_TTL_SEC_def Let_def)
  moreover have "visible_string now (snd ?s) ?k = Some (encodeValue ?h)"
    using set_ex_window [OF ok _ assms(7-9), of now] assms(8) by (simp add: no_options_def)
  ultimately show ?thesis by simp
qed

theorem acquireProgressionLock_last_second_witness:
  "acquired (fst (acquireProgressionLock None (undisturbed 900000) ''t'' ''c'' (num_of_int 300) \<lparr>selfOwnedIfAlive = False, staleAfterMs = None\<rparr>
     ((redis_empty 0)\<lparr>strings := [(''engine_lock:c'', encodeValue \<lparr>ownerToken = ''o'', epoch = num_of_int 1\<rparr>)],
        ttl := [(''engine_lock:c'', num_of_int 900500)]\<rparr>)))"
proof -
  let ?v = "encodeValue \<lparr>ownerToken = ''o'', epoch = num_of_int 1\<rparr>"
  let ?r = "(redis_empty 0)\<lparr>strings := [(''engine_lock:c'', ?v)], ttl := [(''engine_lock:c'', num_of_int 900500)]\<rparr>"
  have v: "visible_string 900000 ?r (progression_key ''c'') = Some ?v"
    by (subst visible_until [where e = 900500 and v = ?v]) (simp_all add: progression_key_def)
  have d: "decodeValue (Some ?v) = Some \<lparr>ownerToken = ''o'', epoch = num_of_int 1\<rparr>" by code_simp
  have g: "js_gt (js_sub (num_of_int 900000) (epoch \<lparr>ownerToken = ''o'', epoch = num_of_int 1\<rparr>)) (num_of_int 600000)"
    using js_sub_int [of 900000 1] by simp
  from acquireProgressionLock_last_second [OF v d _ _ _ g, where e = 900500 and n = 300 and token = "''t''"]
  show ?thesis by (simp add: progression_key_def case_prod_unfold)
qed

text \<open>The engine's heartbeat: extend at the given times, stopping at the first refusal.\<close>

fun extend_all :: "string \<Rightarrow> LockHandle \<Rightarrow> int \<Rightarrow> int list \<Rightarrow> redis \<Rightarrow> bool \<times> redis" where
  "extend_all c h n [] r = (True, r)"
| "extend_all c h n (t # ts) r =
     (let (ok, r') = extendProgressionLock None t c h (num_of_int n) r in if ok then extend_all c h n ts r' else (False, r'))"

lemma extend_all_heartbeats:
  "extend_all c h n ts r = inline_lock.heartbeats (progression_key c) n (encodeValue h) ts r"
  by (induction ts arbitrary: r) (simp_all add: extendProgressionLock_def inline_renew_def case_prod_unfold Let_def)

text \<open>A running engine keeps its lock: after a successful acquire, heartbeats that come less
  than the lock's lifetime apart are all granted, and from the last one the lock is live for a
  full lifetime.\<close>

theorem progression_lock_heartbeat:
  assumes "visible_string t0 r (progression_key c) = None" "0 \<le> t0" "0 < n"
    and "successively (\<lambda>a b. a \<le> b \<and> b < a + 1000 * n) (t0 # ts)"
    and "\<forall>t \<in> set (t0 # ts). t + 1000 * n \<le> 2 ^ 53"
  shows "case acquireProgressionLock None (undisturbed t0) token c (num_of_int n) opts r of (res, r1) \<Rightarrow>
    acquired res \<and>
    (case extend_all c (the (handle res)) n ts r1 of (ok, r2) \<Rightarrow>
       ok \<and> (\<forall>u. last (t0 # ts) \<le> u \<and> u < last (t0 # ts) + 1000 * n \<longrightarrow>
               visible_string u r2 (progression_key c) = Some (encodeValue (the (handle res)))))"
proof -
  let ?h = "\<lparr>ownerToken = token, epoch = num_of_int t0\<rparr>" and ?k = "progression_key c"
  let ?o = "no_options\<lparr>opt_NX := True, opt_EX := Some (num_of_int n)\<rparr>"
  let ?s = "redis_set t0 ?k (encodeValue ?h) ?o r"
  have ok: "fst ?s = Some ''OK''" using assms(1) by (simp add: set_nx_answer no_options_def)
  have acq: "acquireProgressionLock None (undisturbed t0) token c (num_of_int n) opts r =
      (\<lparr>acquired = True, handle = Some ?h, existingOwner = None, healedStaleLock = False\<rparr>, snd ?s)"
    using ok by (simp add: acquireProgressionLock_def Let_def case_prod_unfold)
  have w: "t0 + 1000 * n \<le> 2 ^ 53" using assms(5) by simp
  have live: "visible_string u (snd ?s) ?k = Some (encodeValue ?h)" if "u < t0 + 1000 * n" for u
    using set_ex_window [OF ok _ assms(2,3) w, of u] that by (simp add: no_options_def)
  have rest: "\<forall>t \<in> set ts. t + 1000 * n \<le> 2 ^ 53" using assms(5) by simp
  have "fst (inline_lock.heartbeats ?k n (encodeValue ?h) ts (snd ?s)) \<and>
      (\<forall>u. last (t0 # ts) \<le> u \<and> u < last (t0 # ts) + 1000 * n \<longrightarrow>
         visible_string u (snd (inline_lock.heartbeats ?k n (encodeValue ?h) ts (snd ?s))) ?k = Some (encodeValue ?h))"
    by (rule inline_lock.heartbeats_keep [OF live assms(4,2,3) rest])
  then show ?thesis unfolding acq by (simp add: extend_all_heartbeats case_prod_unfold)
qed

theorem progression_lock_heartbeat_witness:
  "acquired (fst (acquireProgressionLock None (undisturbed 1000) ''t'' ''c'' (num_of_int 300) \<lparr>selfOwnedIfAlive = False, staleAfterMs = None\<rparr> (redis_empty 0)))"
  using progression_lock_heartbeat [where ?t0.0 = 1000 and r = "redis_empty 0" and c = "''c''" and n = 300 and ts = "[31000, 61000]"
      and token = "''t''" and opts = "\<lparr>selfOwnedIfAlive = False, staleAfterMs = None\<rparr>"]
  by (simp add: visible_string_def redis_empty_def case_prod_unfold)

end
