(* ===== verification/CircuitBreaker.thy ===== *)
theory CircuitBreaker
  imports JsText
begin

text \<open>
  The circuit breaker of \<open>lib/circuit-breaker.ts\<close>: the class with its counters and three states,
  the sequential calls \<open>execute\<close>, \<open>executeWithFallback\<close> and \<open>executeBatch\<close>, and the registry.
  Calls of \<open>execute\<close> overlap in the program, because the guarded operation is awaited; the step
  relation \<open>cb_step\<close> therefore splits a call into its start and its end and lets any number be in
  flight.  Times are the values of \<open>Date.now()\<close>; the callbacks of the configuration only observe
  and are left out.
\<close>

subsection \<open>The class\<close>

datatype CircuitState = CLOSED | OPEN | HALF_OPEN

record CircuitBreakerConfig =
  cfg_name :: string
  cfg_failureThreshold :: "int option"
  cfg_successThreshold :: "int option"
  cfg_resetTimeoutMs :: "int option"

record breaker =
  cb_state :: CircuitState
  failureCount :: int
  successCount :: int
  totalRequests :: int
  totalFailures :: int
  totalSuccesses :: int
  lastFailureTime :: "int option"
  openedAt :: "int option"
  lastStateChange :: int
  failureThreshold :: int
  successThreshold :: int
  resetTimeoutMs :: int

definition new_breaker :: "int \<Rightarrow> CircuitBreakerConfig \<Rightarrow> breaker" where
  "new_breaker now c = \<lparr>cb_state = CLOSED, failureCount = 0, successCount = 0, totalRequests = 0, totalFailures = 0,
     totalSuccesses = 0, lastFailureTime = None, openedAt = None, lastStateChange = now,
     failureThreshold = (case cfg_failureThreshold c of Some n \<Rightarrow> n | None \<Rightarrow> 5),
     successThreshold = (case cfg_successThreshold c of Some n \<Rightarrow> n | None \<Rightarrow> 3),
     resetTimeoutMs = (case cfg_resetTimeoutMs c of Some n \<Rightarrow> n | None \<Rightarrow> 60000)\<rparr>"

definition transitionTo :: "int \<Rightarrow> CircuitState \<Rightarrow> breaker \<Rightarrow> breaker" where
  "transitionTo now newState b =
     (if newState = cb_state b then b else b\<lparr>cb_state := newState, lastStateChange := now\<rparr>)"

definition onSuccess :: "int \<Rightarrow> breaker \<Rightarrow> breaker" where
  "onSuccess now b0 =
     (let b = b0\<lparr>successCount := successCount b0 + 1, totalSuccesses := totalSuccesses b0 + 1,
                totalRequests := totalRequests b0 + 1\<rparr>
      in case cb_state b of
           HALF_OPEN \<Rightarrow>
             if successCount b \<ge> successThreshold b
             then (transitionTo now CLOSED b)\<lparr>failureCount := 0, successCount := 0\<rparr>
             else b
         | CLOSED \<Rightarrow> b\<lparr>failureCount := 0\<rparr>
         | OPEN \<Rightarrow> b)"

definition onFailure :: "int \<Rightarrow> breaker \<Rightarrow> breaker" where
  "onFailure now b0 =
     (let b = b0\<lparr>failureCount := failureCount b0 + 1, totalFailures := totalFailures b0 + 1,
                totalRequests := totalRequests b0 + 1, lastFailureTime := Some now\<rparr>
      in case cb_state b of
           HALF_OPEN \<Rightarrow> (transitionTo now OPEN b)\<lparr>openedAt := Some now, successCount := 0, failureCount := 0\<rparr>
         | CLOSED \<Rightarrow>
             if failureCount b \<ge> failureThreshold b
             then (transitionTo now OPEN b)\<lparr>openedAt := Some now\<rparr>
             else b
         | OPEN \<Rightarrow> b)"

definition maybeTransitionToHalfOpen :: "int \<Rightarrow> breaker \<Rightarrow> breaker" where
  "maybeTransitionToHalfOpen now b =
     (if cb_state b \<noteq> OPEN then b
      else case openedAt b of
             None \<Rightarrow> b
           | Some t \<Rightarrow>
               if now - t \<ge> resetTimeoutMs b
               then (transitionTo now HALF_OPEN b)\<lparr>successCount := 0, failureCount := 0\<rparr>
               else b)"

definition cb_getState :: "int \<Rightarrow> breaker \<Rightarrow> CircuitState \<times> breaker" where
  "cb_getState now b = (let b' = maybeTransitionToHalfOpen now b in (cb_state b', b'))"

definition getRetryAfterMs :: "int \<Rightarrow> breaker \<Rightarrow> jsnum" where
  "getRetryAfterMs now b =
     (case openedAt b of
        None \<Rightarrow> Fin 0
      | Some t \<Rightarrow>
          if cb_state b \<noteq> OPEN then Fin 0
          else let remaining = max 0 (resetTimeoutMs b - (now - t))
               in js_mul (js_ceil (js_div (num_of_int remaining) (num_of_int 1000))) (num_of_int 1000))"

definition getSuccessRate :: "breaker \<Rightarrow> jsnum" where
  "getSuccessRate b =
     (if totalRequests b = 0 then num_of_int 100
      else js_mul (js_div (num_of_int (totalSuccesses b)) (num_of_int (totalRequests b))) (num_of_int 100))"

definition cb_reset :: "int \<Rightarrow> breaker \<Rightarrow> breaker" where
  "cb_reset now b = b\<lparr>cb_state := CLOSED, failureCount := 0, successCount := 0, lastFailureTime := None,
     openedAt := None, lastStateChange := now\<rparr>"

definition forceOpen :: "int \<Rightarrow> breaker \<Rightarrow> breaker" where
  "forceOpen now b = (transitionTo now OPEN b)\<lparr>openedAt := Some now\<rparr>"

definition forceClose :: "int \<Rightarrow> breaker \<Rightarrow> breaker" where
  "forceClose now b = (transitionTo now CLOSED b)\<lparr>failureCount := 0, successCount := 0\<rparr>"

definition shouldAttemptRecovery :: "int \<Rightarrow> breaker \<Rightarrow> bool" where
  "shouldAttemptRecovery now b =
     (case openedAt b of None \<Rightarrow> False | Some t \<Rightarrow> cb_state b = OPEN \<and> now - t \<ge> resetTimeoutMs b)"

definition isAvailable :: "int \<Rightarrow> breaker \<Rightarrow> bool" where
  "isAvailable now b = (cb_state b \<noteq> OPEN \<or> shouldAttemptRecovery now b)"

subsection \<open>Sequential calls\<close>

text \<open>
  The errors a call can throw: the breaker's own, with the retry hint of its message, or the one
  of the guarded operation.
\<close>

datatype 'e cb_error = CircuitOpen int jsnum | Operation 'e

text \<open>
  \<open>execute(fn)\<close> with no other call in flight: it starts at \<open>t1\<close>; if admitted, \<open>fn\<close> runs and
  ends at \<open>t2\<close> with a value or an error.
\<close>

definition execute :: "int \<Rightarrow> int \<Rightarrow> 'e + 'a \<Rightarrow> breaker \<Rightarrow> ('e cb_error + 'a) \<times> breaker" where
  "execute t1 t2 fn b0 =
     (let b = maybeTransitionToHalfOpen t1 b0
      in if cb_state b = OPEN then (Inl (CircuitOpen (failureCount b) (getRetryAfterMs t1 b)), b)
         else case fn of
                Inr v \<Rightarrow> (Inr v, onSuccess t2 b)
              | Inl e \<Rightarrow> (Inl (Operation e), onFailure t2 b))"

definition executeWithFallback ::
  "int \<Rightarrow> int \<Rightarrow> 'e + 'a \<Rightarrow> 'a \<Rightarrow> breaker \<Rightarrow> ('e cb_error + 'a) \<times> breaker" where
  "executeWithFallback t1 t2 fn fallback b =
     (case execute t1 t2 fn b of
        (Inr v, b') \<Rightarrow> (Inr v, b')
      | (Inl e, b') \<Rightarrow> (if cb_state b' = OPEN then Inr fallback else Inl e, b'))"

text \<open>The loop of \<open>executeBatch\<close>: each item with its start, its end and what \<open>fn\<close> does with it.\<close>

fun batch_loop :: "bool \<Rightarrow> (int \<times> int \<times> ('e + 'a)) list \<Rightarrow> 'a list \<Rightarrow> breaker \<Rightarrow> ('e cb_error + 'a list) \<times> breaker" where
  "batch_loop continueOnCircuitOpen [] results b = (Inr results, b)"
| "batch_loop continueOnCircuitOpen ((t1, t2, fn) # items) results b =
     (case execute t1 t2 fn b of
        (Inr v, b') \<Rightarrow> batch_loop continueOnCircuitOpen items (results @ [v]) b'
      | (Inl e, b') \<Rightarrow>
          if cb_state b' = OPEN \<and> continueOnCircuitOpen then batch_loop continueOnCircuitOpen items results b'
          else if \<not> continueOnCircuitOpen then (Inl e, b')
          else batch_loop continueOnCircuitOpen items results b')"

definition executeBatch ::
  "(int \<times> int \<times> ('e + 'a)) list \<Rightarrow> bool \<Rightarrow> breaker \<Rightarrow> ('e cb_error + 'a list) \<times> breaker" where
  "executeBatch items continueOnCircuitOpen b = batch_loop continueOnCircuitOpen items [] b"

subsection \<open>The registry\<close>

definition cb_register :: "int \<Rightarrow> CircuitBreakerConfig \<Rightarrow> breaker jsmap \<Rightarrow> breaker \<times> breaker jsmap" where
  "cb_register now c m =
     (case map_of m (cfg_name c) of
        Some b \<Rightarrow> (b, m)
      | None \<Rightarrow> let b = new_breaker now c in (b, AList.update (cfg_name c) b m))"

definition cb_resetAll :: "int \<Rightarrow> breaker jsmap \<Rightarrow> breaker jsmap" where
  "cb_resetAll now m = map (map_prod id (cb_reset now)) m"

datatype health = Healthy | Degraded | Critical

definition getHealthStatus :: "breaker jsmap \<Rightarrow> health" where
  "getHealthStatus m =
     (let openCount = length (filter (\<lambda>(n, b). cb_state b = OPEN) m);
          halfOpenCount = length (filter (\<lambda>(n, b). cb_state b = HALF_OPEN) m)
      in if openCount = 0 \<and> halfOpenCount = 0 then Healthy else if openCount = 0 then Degraded else Critical)"

subsection \<open>Overlapping calls\<close>

text \<open>
  A step at time \<open>t\<close> of a breaker with \<open>n\<close> admitted calls in flight: a call is admitted or
  rejected, an admitted call ends well or badly, or an operator acts.
\<close>

inductive cb_step :: "int \<Rightarrow> breaker \<times> nat \<Rightarrow> breaker \<times> nat \<Rightarrow> bool" where
  admit: "cb_state (maybeTransitionToHalfOpen t b) \<noteq> OPEN \<Longrightarrow> cb_step t (b, n) (maybeTransitionToHalfOpen t b, Suc n)"
| reject: "cb_state (maybeTransitionToHalfOpen t b) = OPEN \<Longrightarrow> cb_step t (b, n) (maybeTransitionToHalfOpen t b, n)"
| done_ok: "cb_step t (b, Suc n) (onSuccess t b, n)"
| done_fail: "cb_step t (b, Suc n) (onFailure t b, n)"
| observe: "cb_step t (b, n) (maybeTransitionToHalfOpen t b, n)"
| op_reset: "cb_step t (b, n) (cb_reset t b, n)"
| op_open: "cb_step t (b, n) (forceOpen t b, n)"
| op_close: "cb_step t (b, n) (forceClose t b, n)"

inductive cb_run :: "breaker \<times> nat \<Rightarrow> int \<Rightarrow> breaker \<times> nat \<Rightarrow> bool" where
  start: "cb_run s t s"
| step: "cb_run s t s' \<Longrightarrow> t \<le> u \<Longrightarrow> cb_step u s' s'' \<Longrightarrow> cb_run s u s''"

inductive_cases cb_stepE [elim!]: "cb_step t (b, n) s'"

definition cb_inv :: "breaker \<Rightarrow> bool" where
  "cb_inv b \<longleftrightarrow>
     totalRequests b = totalFailures b + totalSuccesses b \<and> 0 \<le> totalFailures b \<and> 0 \<le> totalSuccesses b \<and>
     0 \<le> failureCount b \<and> 0 \<le> successCount b \<and>
     (cb_state b = CLOSED \<longrightarrow> failureCount b < failureThreshold b) \<and>
     (cb_state b = OPEN \<longrightarrow> openedAt b \<noteq> None) \<and>
     (cb_state b = HALF_OPEN \<longrightarrow> failureCount b = 0 \<and> successCount b < successThreshold b)"

lemmas cb_ops = transitionTo_def onSuccess_def onFailure_def maybeTransitionToHalfOpen_def cb_reset_def forceOpen_def
  forceClose_def Let_def

definition cb_ok :: "breaker \<Rightarrow> bool" where
  "cb_ok b \<longleftrightarrow> 0 < failureThreshold b \<and> 0 < successThreshold b \<and> cb_inv b"

lemma cb_ok_ops:
  assumes "cb_ok b"
  shows "cb_ok (onSuccess t b)" "cb_ok (onFailure t b)" "cb_ok (maybeTransitionToHalfOpen t b)"
    "cb_ok (cb_reset t b)" "cb_ok (forceOpen t b)" "cb_ok (forceClose t b)"
  using assms by (auto simp: cb_ok_def cb_inv_def cb_ops split: CircuitState.splits option.splits)

lemma cb_ok_step: "cb_step t s s' \<Longrightarrow> cb_ok (fst s) \<Longrightarrow> cb_ok (fst s')"
  by (induction rule: cb_step.induct) (auto intro: cb_ok_ops)

text \<open>C16. Whatever the interleaving of overlapping calls, completions and operator actions, a
  breaker with positive thresholds keeps its accounts: the request total is the sum of failures
  and successes, a closed breaker is below its failure threshold, an open one knows when it
  opened, and a half-open one has no failure and fewer successes than it needs.\<close>

theorem cb_run_inv:
  assumes "cb_run (new_breaker t0 c, 0) t (b, n)"
    and "0 < failureThreshold (new_breaker t0 c)" "0 < successThreshold (new_breaker t0 c)"
  shows "cb_inv b"
proof -
  have "cb_ok (fst s')" if "cb_run s t s'" "cb_ok (fst s)" for s s' t
    using that by (induction rule: cb_run.induct) (auto simp: cb_ok_ops)
  moreover have "cb_ok (new_breaker t0 c)" using assms(2,3) by (auto simp: cb_ok_def cb_inv_def new_breaker_def)
  ultimately show ?thesis using assms(1) by (fastforce simp: cb_ok_def)
qed

definition default_config :: CircuitBreakerConfig where
  "default_config = \<lparr>cfg_name = ''api'', cfg_failureThreshold = None, cfg_successThreshold = None, cfg_resetTimeoutMs = None\<rparr>"

theorem cb_run_inv_witness: "cb_inv (onFailure 7 (new_breaker 0 default_config))"
proof -
  let ?b = "new_breaker 0 default_config"
  have "cb_step 5 (?b, 0) (maybeTransitionToHalfOpen 5 ?b, Suc 0)"
    by (rule admit) (simp add: new_breaker_def maybeTransitionToHalfOpen_def)
  moreover have "maybeTransitionToHalfOpen 5 ?b = ?b" by (simp add: new_breaker_def maybeTransitionToHalfOpen_def)
  ultimately have "cb_run (?b, 0) 5 (?b, Suc 0)" using cb_run.step [OF start, of 0 5] by simp
  then have "cb_run (?b, 0) 7 (onFailure 7 ?b, 0)" by (rule cb_run.step) (auto intro: done_fail)
  from cb_run_inv [OF this] show ?thesis by (simp add: new_breaker_def default_config_def)
qed

subsection \<open>Tripping and recovery\<close>

text \<open>Sequential calls whose operation always fails, always succeeds.\<close>

definition failures :: "(int \<times> int) list \<Rightarrow> breaker \<Rightarrow> breaker" where
  "failures ts b = fold (\<lambda>(t1, t2) b. snd (execute t1 t2 (Inl () :: unit + unit) b)) ts b"

definition successes :: "(int \<times> int) list \<Rightarrow> breaker \<Rightarrow> breaker" where
  "successes ts b = fold (\<lambda>(t1, t2) b. snd (execute t1 t2 (Inr () :: unit + unit) b)) ts b"

lemma execute_fail_closed:
  "cb_state b = CLOSED \<Longrightarrow> snd (execute t1 t2 (Inl e) b) = onFailure t2 b"
  by (simp add: execute_def maybeTransitionToHalfOpen_def Let_def)

lemma failures_below:
  assumes "cb_state b = CLOSED" "failureCount b + int (length ts) < failureThreshold b"
  shows "cb_state (failures ts b) = CLOSED" "failureCount (failures ts b) = failureCount b + int (length ts)"
    "failureThreshold (failures ts b) = failureThreshold b" "resetTimeoutMs (failures ts b) = resetTimeoutMs b"
proof -
  have "cb_state (failures ts b) = CLOSED \<and> failureCount (failures ts b) = failureCount b + int (length ts) \<and>
    failureThreshold (failures ts b) = failureThreshold b \<and> resetTimeoutMs (failures ts b) = resetTimeoutMs b"
    using assms
  proof (induction ts arbitrary: b)
    case (Cons t ts)
    let ?b = "onFailure (snd t) b"
    have b: "cb_state ?b = CLOSED" "failureCount ?b = failureCount b + 1" "failureThreshold ?b = failureThreshold b"
      "resetTimeoutMs ?b = resetTimeoutMs b"
      using Cons.prems by (auto simp: onFailure_def Let_def)
    have "failures (t # ts) b = failures ts ?b"
      using Cons.prems by (simp add: failures_def case_prod_unfold execute_fail_closed)
    then show ?case using Cons.IH [of ?b] Cons.prems b by simp
  qed (simp add: failures_def)
  then show "cb_state (failures ts b) = CLOSED" "failureCount (failures ts b) = failureCount b + int (length ts)"
    "failureThreshold (failures ts b) = failureThreshold b" "resetTimeoutMs (failures ts b) = resetTimeoutMs b" by simp_all
qed

lemma failures_snoc: "failures (ts @ [(t1, t2)]) b = snd (execute t1 t2 (Inl () :: unit + unit) (failures ts b))"
  by (simp add: failures_def)

text \<open>The breaker trips exactly at its threshold: after fewer consecutive failures a closed
  breaker stays closed; the failure that reaches the threshold opens it, and until the reset
  timeout has passed since then every call is rejected with the breaker's own error, whatever its
  operation would have done, and changes nothing.\<close>

theorem cb_trips_at_threshold:
  assumes "cb_state b = CLOSED" "failureCount b = 0" "int (length ts) + 1 = failureThreshold b"
  shows "cb_state (failures ts b) = CLOSED \<and>
    cb_state (failures (ts @ [(t1, t2)]) b) = OPEN \<and>
    (\<forall>u w fn. u < t2 + resetTimeoutMs b \<longrightarrow>
       (\<exists>ms. execute u w (fn :: 'e + 'a) (failures (ts @ [(t1, t2)]) b) =
          (Inl (CircuitOpen (failureThreshold b) ms), failures (ts @ [(t1, t2)]) b)))"
proof -
  have f: "cb_state (failures ts b) = CLOSED" "failureCount (failures ts b) = int (length ts)"
    "failureThreshold (failures ts b) = failureThreshold b" "resetTimeoutMs (failures ts b) = resetTimeoutMs b"
    using failures_below [of b ts] assms by simp_all
  let ?b = "failures (ts @ [(t1, t2)]) b"
  have "?b = onFailure t2 (failures ts b)" using f(1) by (simp add: failures_snoc execute_fail_closed)
  then have o: "cb_state ?b = OPEN" "openedAt ?b = Some t2" "resetTimeoutMs ?b = resetTimeoutMs b"
    "failureCount ?b = failureThreshold b"
    using f assms(3) by (auto simp: onFailure_def transitionTo_def Let_def)
  have "execute u w fn ?b = (Inl (CircuitOpen (failureThreshold b) (getRetryAfterMs u ?b)), ?b)"
    if "u < t2 + resetTimeoutMs b" for u w and fn :: "'e + 'a"
    using o that by (simp add: execute_def maybeTransitionToHalfOpen_def Let_def)
  then show ?thesis using f(1) o(1) by blast
qed

theorem cb_trips_at_threshold_witness:
  "cb_state (failures ([(1, 2), (3, 4), (5, 6), (7, 8)] @ [(9, 10)]) (new_breaker 0 default_config)) = OPEN"
  by (rule cb_trips_at_threshold [THEN conjunct2, THEN conjunct1]) (simp_all add: new_breaker_def default_config_def)

lemma execute_half_open:
  assumes "cb_state b = HALF_OPEN"
  shows "snd (execute t1 t2 (Inr v) b) = onSuccess t2 b"
  using assms by (simp add: execute_def maybeTransitionToHalfOpen_def Let_def)

lemma successes_half_open:
  assumes "cb_state b = HALF_OPEN" "successCount b + int (length ts) < successThreshold b"
  shows "cb_state (successes ts b) = HALF_OPEN \<and> successCount (successes ts b) = successCount b + int (length ts) \<and>
    successThreshold (successes ts b) = successThreshold b"
  using assms
proof (induction ts arbitrary: b)
  case (Cons t ts)
  let ?b = "onSuccess (snd t) b"
  have b: "cb_state ?b = HALF_OPEN" "successCount ?b = successCount b + 1" "successThreshold ?b = successThreshold b"
    using Cons.prems by (auto simp: onSuccess_def Let_def)
  have "successes (t # ts) b = successes ts ?b"
    using Cons.prems by (simp add: successes_def case_prod_unfold execute_half_open)
  then show ?case using Cons.IH [of ?b] Cons.prems b by simp
qed (simp add: successes_def)

text \<open>Recovery needs exactly the configured number of successes: once the reset timeout has
  passed, an open breaker admits calls and stays half-open for as long as it has seen fewer
  successes than its threshold; the success that reaches the threshold closes it with both
  counters at zero, and a failure before that opens it again at once.\<close>

theorem cb_recovers:
  assumes "cb_state b = OPEN" "openedAt b = Some t0" "t0 + resetTimeoutMs b \<le> fst t"
    and "int (length ts) + 2 = successThreshold b"
  shows "cb_state (successes (t # ts) b) = HALF_OPEN \<and>
    cb_state (successes ((t # ts) @ [(t1, t2)]) b) = CLOSED \<and>
    failureCount (successes ((t # ts) @ [(t1, t2)]) b) = 0 \<and>
    successCount (successes ((t # ts) @ [(t1, t2)]) b) = 0 \<and>
    cb_state (snd (execute t1 t2 (Inl e) (successes (t # ts) b))) = OPEN"
proof -
  let ?h = "onSuccess (snd t) (maybeTransitionToHalfOpen (fst t) b)"
  have h: "cb_state ?h = HALF_OPEN" "successCount ?h = 1" "successThreshold ?h = successThreshold b"
    using assms by (auto simp: onSuccess_def maybeTransitionToHalfOpen_def transitionTo_def Let_def)
  have "cb_state (maybeTransitionToHalfOpen (fst t) b) \<noteq> OPEN"
    using assms(1-3) by (simp add: maybeTransitionToHalfOpen_def transitionTo_def)
  then have s: "successes (t # us) b = successes us ?h" for us
    by (simp add: successes_def case_prod_unfold execute_def Let_def)
  let ?g = "successes (t # ts) b"
  have g: "cb_state ?g = HALF_OPEN" "successCount ?g = 1 + int (length ts)" "successThreshold ?g = successThreshold b"
    using successes_half_open [of ?h ts] h assms(4) by (simp_all add: s)
  have "successes ((t # ts) @ [(t1, t2)]) b = onSuccess t2 ?g"
    using execute_half_open [OF g(1)] by (simp add: successes_def)
  moreover have "cb_state (onSuccess t2 ?g) = CLOSED \<and> failureCount (onSuccess t2 ?g) = 0 \<and> successCount (onSuccess t2 ?g) = 0"
    using g assms(4) by (auto simp: onSuccess_def transitionTo_def Let_def)
  moreover have "cb_state (snd (execute t1 t2 (Inl e) ?g)) = OPEN"
    using g(1) by (simp add: execute_def maybeTransitionToHalfOpen_def onFailure_def transitionTo_def Let_def)
  ultimately show ?thesis using g(1) by simp
qed

theorem cb_recovers_witness:
  "cb_state (successes ([(70000, 70001), (70002, 70003)] @ [(70004, 70005)]) (forceOpen 0 (new_breaker 0 default_config))) = CLOSED"
  using cb_recovers [where b = "forceOpen 0 (new_breaker 0 default_config)" and ?t0.0 = 0
      and t = "(70000, 70001)" and ts = "[(70002, 70003)]" and ?t1.0 = 70004 and ?t2.0 = 70005, THEN conjunct2, THEN conjunct1]
  by (simp add: forceOpen_def transitionTo_def new_breaker_def default_config_def)

subsection \<open>The retry hint\<close>

lemma ceil_thousand:
  assumes "0 \<le> n" "n \<le> 2 ^ 52"
  shows "\<exists>m. js_mul (js_ceil (js_div (num_of_int n) (num_of_int 1000))) (num_of_int 1000) = num_of_int m \<and>
    n \<le> m \<and> m < n + 1000 \<and> m mod 1000 = 0"
proof -
  define x where "x = (of_int n / 1000 :: rat)"
  define k where "k = n div 1000"
  define c where "c = (if n mod 1000 = 0 then k else k + 1)"
  have nk: "n = 1000 * k + n mod 1000" by (simp add: k_def)
  have kb: "0 \<le> k" "k \<le> 2 ^ 43 - 1" using assms by (auto simp: k_def)
  have pk: "(2 ^ 43 :: int) = 8796093022208" "(2 ^ 52 :: int) = 4503599627370496" "(2 ^ 53 :: int) = 9007199254740992" by simp_all
  have xk: "x = of_int k + of_int (n mod 1000) / 1000"
  proof -
    have "x = of_int (1000 * k + n mod 1000) / 1000" unfolding x_def using nk by simp
    then show ?thesis by (simp add: add_divide_distrib)
  qed
  have ex: "fl (of_int j) = num_of_int j" if "0 \<le> j" "j \<le> 2 ^ 43" for j
    using that by (intro fl_of_int) auto
  have up: "js_le (fl x) (num_of_int c)"
  proof -
    have "x \<le> of_int c"
    proof (cases "n mod 1000 = 0")
      case False
      have "n mod 1000 \<le> 999" using pos_mod_bound [of 1000 n] by linarith
      then have "(of_int (n mod 1000) :: rat) \<le> of_int 999" by (simp only: of_int_le_iff)
      with False show ?thesis by (simp add: c_def xk field_simps)
    qed (simp add: c_def xk)
    then have "js_le (fl x) (fl (of_int c))" by (rule fl_mono)
    moreover have "fl (of_int c) = num_of_int c" using kb pk by (intro ex) (auto simp: c_def)
    ultimately show ?thesis by simp
  qed
  have lo: "\<exists>y. fl x = Fin y \<and> \<lceil>y\<rceil> = c"
  proof (cases "n mod 1000 = 0")
    case True
    have "fl x = num_of_int k" using True kb pk ex [of k] by (simp add: xk)
    then show ?thesis using True by (simp add: c_def)
  next
    case False
    have "1 \<le> n mod 1000" using False pos_mod_sign [of 1000 n] by linarith
    then have "(of_int 1 :: rat) \<le> of_int (n mod 1000)" by (simp only: of_int_le_iff)
    then have "of_int (k * 1024 + 1) * 2 powi (- 10) \<le> x" by (simp add: xk power_int_minus field_simps)
    then have "fl_rat (of_int (k * 1024 + 1) * 2 powi (- 10)) \<le> fl_rat x" by (rule fl_rat_mono)
    moreover have "fl_rat (of_int (k * 1024 + 1) * 2 powi (- 10)) = of_int (k * 1024 + 1) * 2 powi (- 10)"
      using kb pk by (intro fl_rat_exact) auto
    ultimately have gt: "of_int k < fl_rat x" by (simp add: power_int_minus field_simps)
    have "fl x = Fin (fl_rat x)" using up gt kb by (cases "fl x") (auto simp: fl_def Let_def split: if_splits)
    moreover from this up have "fl_rat x \<le> of_int c" by simp
    ultimately show ?thesis using gt False by (auto simp: c_def ceiling_eq_iff)
  qed
  have "js_div (num_of_int n) (num_of_int 1000) = fl x" by (simp add: x_def)
  then have "js_ceil (js_div (num_of_int n) (num_of_int 1000)) = num_of_int c" using lo by auto
  moreover have "js_mul (num_of_int c) (num_of_int 1000) = num_of_int (c * 1000)"
    using kb pk by (intro js_mul_int) (auto simp: c_def)
  moreover have "n \<le> c * 1000 \<and> c * 1000 < n + 1000"
    using nk pos_mod_bound [of 1000 n] pos_mod_sign [of 1000 n] by (auto simp: c_def)
  ultimately show ?thesis by (metis mod_mult_self2_is_0)
qed

text \<open>The retry hint is honest and tight: an open breaker that is asked again after exactly
  the hinted delay is available, the hint is a whole number of seconds, and it overshoots the
  remaining time by less than one second.\<close>

theorem getRetryAfterMs_sound:
  assumes "cb_state b = OPEN" "openedAt b = Some t0" "t0 \<le> now" "0 \<le> resetTimeoutMs b" "resetTimeoutMs b \<le> 2 ^ 52"
  shows "\<exists>m. getRetryAfterMs now b = num_of_int m \<and> isAvailable (now + m) b \<and> m mod 1000 = 0 \<and>
    m < max 0 (t0 + resetTimeoutMs b - now) + 1000"
proof -
  let ?r = "max 0 (resetTimeoutMs b - (now - t0))"
  obtain m where m: "js_mul (js_ceil (js_div (num_of_int ?r) (num_of_int 1000))) (num_of_int 1000) = num_of_int m"
    "?r \<le> m" "m < ?r + 1000" "m mod 1000 = 0"
    using ceil_thousand [of ?r] assms by auto
  have "getRetryAfterMs now b = num_of_int m" unfolding getRetryAfterMs_def Let_def assms(2)
    using m(1) assms(1) by (simp only: option.simps simp_thms if_False)
  moreover have "isAvailable (now + m) b" using m(2) assms by (simp add: isAvailable_def shouldAttemptRecovery_def)
  ultimately show ?thesis using m by (intro exI [of _ m]) (auto simp: algebra_simps)
qed

theorem getRetryAfterMs_sound_witness:
  "\<exists>m. getRetryAfterMs 1500 (forceOpen 0 (new_breaker 0 default_config)) = num_of_int m \<and> m mod 1000 = 0"
  using getRetryAfterMs_sound [where b = "forceOpen 0 (new_breaker 0 default_config)" and ?t0.0 = 0 and now = 1500]
  by (auto simp: forceOpen_def transitionTo_def new_breaker_def default_config_def)

subsection \<open>Batches\<close>

text \<open>\<open>executeBatch\<close> that continues on an open circuit never throws and returns the values of
  some of the items whose operation succeeds, in order; a batch that does not continue and does
  not throw has run every item with success.\<close>

theorem executeBatch_results:
  "(\<exists>vs. fst (executeBatch items True b) = Inr vs \<and> subseq vs [v. (_, _, Inr v) \<leftarrow> items]) \<and>
   (\<forall>vs. fst (executeBatch items False b) = Inr vs \<longrightarrow> map (\<lambda>(_, _, res). res) items = map Inr vs)"
proof -
  have t: "\<exists>vs. fst (batch_loop True items acc b) = Inr (acc @ vs) \<and> subseq vs [v. (_, _, Inr v) \<leftarrow> items]" for acc
  proof (induction items arbitrary: acc b)
    case (Cons i items)
    obtain t1 t2 fn where i: "i = (t1, t2, fn)" by (cases i) auto
    obtain res b' where e: "execute t1 t2 fn b = (res, b')" by fastforce
    show ?case
    proof (cases res)
      case (Inl x)
      obtain vs where "fst (batch_loop True items acc b') = Inr (acc @ vs)" "subseq vs [v. (_, _, Inr v) \<leftarrow> items]"
        using Cons.IH by blast
      then show ?thesis using Inl by (auto simp: i e split: sum.split)
    next
      case (Inr v)
      then have "fn = Inr v" using e by (auto simp: execute_def Let_def split: if_splits sum.splits)
      moreover obtain vs where "fst (batch_loop True items (acc @ [v]) b') = Inr ((acc @ [v]) @ vs)"
        "subseq vs [v. (_, _, Inr v) \<leftarrow> items]" using Cons.IH by blast
      ultimately show ?thesis using Inr e by (intro exI [of _ "v # vs"]) (simp add: i)
    qed
  qed simp
  have f: "fst (batch_loop False items acc b) = Inr vs \<Longrightarrow> \<exists>ws. vs = acc @ ws \<and> map (\<lambda>(_, _, res). res) items = map Inr ws" for acc vs
  proof (induction items arbitrary: acc b)
    case (Cons i items)
    obtain t1 t2 fn where i: "i = (t1, t2, fn)" by (cases i) auto
    obtain res b' where e: "execute t1 t2 fn b = (res, b')" by fastforce
    show ?case
    proof (cases res)
      case (Inr v)
      then have "fn = Inr v" using e by (auto simp: execute_def Let_def split: if_splits sum.splits)
      moreover obtain ws where "vs = (acc @ [v]) @ ws" "map (\<lambda>(_, _, res). res) items = map Inr ws"
        using Cons.IH [of "acc @ [v]" b'] Cons.prems Inr by (auto simp: i e)
      ultimately show ?thesis by (intro exI [of _ "v # ws"]) (simp add: i)
    qed (use Cons.prems in \<open>auto simp: i e\<close>)
  qed simp
  show ?thesis using t [of "[]"] f [of "[]"] by (auto simp: executeBatch_def)
qed

theorem executeBatch_results_witness:
  "\<exists>vs. fst (executeBatch [(1, 2, Inr (10 :: int)), (3, 4, Inl ''e'')] True (new_breaker 0 default_config)) = Inr vs"
  using executeBatch_results [of "[(1, 2, Inr (10 :: int)), (3, 4, Inl ''e'')]" "new_breaker 0 default_config"] by blast

end
