(* ===== verification/RateLimiter.thy ===== *)
theory RateLimiter
  imports JsText
begin

text \<open>
  The exchange rate limiter of \<open>lib/rate-limiter.ts\<close>: how a process's share of an exchange budget
  is resolved from the environment, and the queue that dispatches requests within a per-second
  window, a per-minute window and a concurrency bound.  The events of a limiter are a new request,
  an abort of a queued one, the end of a dispatched one and the wake-up timer; a request is named
  by its id.  The bodies of requests and the promise plumbing are outside the model.
\<close>

subsection \<open>Budgets\<close>

record RateLimitConfig =
  requestsPerSecond :: jsnum
  requestsPerMinute :: jsnum
  maxConcurrent :: jsnum

definition limits :: "int \<Rightarrow> int \<Rightarrow> int \<Rightarrow> RateLimitConfig" where
  "limits perSecond perMinute concurrent = \<lparr>requestsPerSecond = num_of_int perSecond,
     requestsPerMinute = num_of_int perMinute, maxConcurrent = num_of_int concurrent\<rparr>"

definition FALLBACK_RATE_LIMIT :: RateLimitConfig where
  "FALLBACK_RATE_LIMIT = limits 5 100 3"

definition EXCHANGE_LIMITS :: "RateLimitConfig jsmap" where
  "EXCHANGE_LIMITS =
     [(''bybit'', limits 10 120 5),
      (''bingx'', limits 10 600 5),
      (''binance'', limits 10 1200 10),
      (''okx'', limits 20 600 10),
      (''pionex'', limits 5 100 3),
      (''orangex'', limits 5 100 3),
      (''instaforex'', limits 2 60 2)]"

text \<open>An environment variable that is not set reads as \<open>Number(undefined)\<close>, which is NaN.\<close>

definition positiveNumber :: "string option \<Rightarrow> jsnum option" where
  "positiveNumber raw =
     (let v = (case raw of None \<Rightarrow> NaN | Some s \<Rightarrow> js_Number s)
      in if js_isFinite v \<and> js_gt v (Fin 0) then Some v else None)"

definition boundedInteger :: "string option \<Rightarrow> jsnum \<Rightarrow> jsnum \<Rightarrow> jsnum" where
  "boundedInteger raw fallback maximum =
     js_max (num_of_int 1) (js_min maximum (js_floor (case positiveNumber raw of Some v \<Rightarrow> v | None \<Rightarrow> fallback)))"

definition env_prefix :: "string \<Rightarrow> string" where
  "env_prefix normalizedExchange =
     map (\<lambda>c. if CHR ''A'' \<le> c \<and> c \<le> CHR ''Z'' \<or> is_digit c then c else CHR ''_'') (toUpperCase normalizedExchange)"

definition shared_cap :: "jsnum \<Rightarrow> jsnum \<Rightarrow> jsnum" where
  "shared_cap base share = js_max (num_of_int 1) (js_floor (js_mul base share))"

definition resolveRateLimitConfig :: "string \<Rightarrow> (string \<Rightarrow> string option) \<Rightarrow> RateLimitConfig" where
  "resolveRateLimitConfig exchange env =
     (let normalizedExchange = toLowerCase exchange;
          base = (case map_of EXCHANGE_LIMITS normalizedExchange of Some c \<Rightarrow> c | None \<Rightarrow> FALLBACK_RATE_LIMIT);
          p = env_prefix normalizedExchange;
          rawShare = (case env (''CTS_'' @ p @ ''_RATE_LIMIT_SHARE'') of
                        Some s \<Rightarrow> Some s | None \<Rightarrow> env ''CTS_EXCHANGE_RATE_LIMIT_SHARE'');
          requestedShare = (case positiveNumber rawShare of Some v \<Rightarrow> v | None \<Rightarrow> num_of_int 1);
          share = js_max (fl (1 / 20)) (js_min (num_of_int 1) requestedShare);
          rps = shared_cap (requestsPerSecond base) share;
          rpm = shared_cap (requestsPerMinute base) share;
          conc = shared_cap (maxConcurrent base) share
      in \<lparr>requestsPerSecond = boundedInteger (env (''CTS_'' @ p @ ''_RATE_LIMIT_RPS'')) rps rps,
          requestsPerMinute = boundedInteger (env (''CTS_'' @ p @ ''_RATE_LIMIT_RPM'')) rpm rpm,
          maxConcurrent = boundedInteger (env (''CTS_'' @ p @ ''_RATE_LIMIT_CONCURRENCY'')) conc conc\<rparr>)"

subsection \<open>The queue\<close>

record queued_request =
  req_id :: nat
  req_aborted :: bool

record limiter =
  config :: RateLimitConfig
  queue :: "queued_request list"
  requestTimestamps :: "int list"
  activeRequests :: int
  windowWakeTimer :: "int option"

definition canMakeRequest :: "int \<Rightarrow> limiter \<Rightarrow> bool" where
  "canMakeRequest now l =
     (\<not> js_ge (num_of_int (activeRequests l)) (maxConcurrent (config l)) \<and>
      \<not> js_ge (num_of_int (int (length (filter (\<lambda>ts. now - ts < 1000) (requestTimestamps l))))) (requestsPerSecond (config l)) \<and>
      \<not> js_ge (num_of_int (int (length (filter (\<lambda>ts. now - ts < 60000) (requestTimestamps l))))) (requestsPerMinute (config l)))"

text \<open>The delay of the wake-up: the first timestamp of a saturated window to expire.\<close>

definition wakeup_delay :: "int \<Rightarrow> limiter \<Rightarrow> int" where
  "wakeup_delay now l =
     (let recentSecond = sort (filter (\<lambda>ts. now - ts < 1000) (requestTimestamps l));
          recentMinute = sort (filter (\<lambda>ts. now - ts < 60000) (requestTimestamps l));
          d1 = (if js_ge (num_of_int (int (length recentSecond))) (requestsPerSecond (config l))
                then [1001 - (now - hd recentSecond)] else []);
          d2 = (if js_ge (num_of_int (int (length recentMinute))) (requestsPerMinute (config l))
                then [60001 - (now - hd recentMinute)] else []);
          delays = d1 @ d2
      in max 1 (case delays of [] \<Rightarrow> 25 | d # ds \<Rightarrow> fold min ds d))"

definition scheduleWindowWakeup :: "int \<Rightarrow> limiter \<Rightarrow> limiter" where
  "scheduleWindowWakeup now l =
     (if windowWakeTimer l \<noteq> None \<or> queue l = [] then l
      else l\<lparr>windowWakeTimer := Some (now + wakeup_delay now l)\<rparr>)"

text \<open>
  The clock is read anew by every test of the limits, every dispatch and the scheduling of the wake-up:
  \<open>ck n\<close> is its \<open>n\<close>-th reading during one drain.  The dispatch loop gives the ids it starts with their
  timestamps, in order, the number of the next reading and the limiter after it.
\<close>

function drain_loop :: "(nat \<Rightarrow> int) \<Rightarrow> nat \<Rightarrow> limiter \<Rightarrow> (nat \<times> int) list \<times> nat \<times> limiter" where
  "drain_loop ck n l =
     (case queue l of
        [] \<Rightarrow> ([], n, l)
      | q # qs \<Rightarrow>
          if \<not> canMakeRequest (ck n) l then ([], n + 1, l)
          else if req_aborted q then drain_loop ck (n + 1) (l\<lparr>queue := qs\<rparr>)
          else
            let now = ck (n + 1);
                l1 = l\<lparr>queue := qs, activeRequests := activeRequests l + 1,
                       requestTimestamps := filter (\<lambda>ts. now - ts < 60000) (requestTimestamps l @ [now])\<rparr>;
                (started, n', l2) = drain_loop ck (n + 2) l1
            in ((req_id q, now) # started, n', l2))"
  by pat_completeness auto
termination by (relation "measure (\<lambda>(_, _, l). length (queue l))") auto

declare drain_loop.simps [simp del]

definition drainQueue :: "(nat \<Rightarrow> int) \<Rightarrow> limiter \<Rightarrow> (nat \<times> int) list \<times> limiter" where
  "drainQueue ck l =
     (let (started, n, l1) = drain_loop ck 0 (l\<lparr>windowWakeTimer := None\<rparr>)
      in (started,
          if queue l1 \<noteq> [] \<and> js_lt (num_of_int (activeRequests l1)) (maxConcurrent (config l1)) \<and> \<not> canMakeRequest (ck n) l1
          then scheduleWindowWakeup (ck (n + 1)) l1 else l1))"

definition new_limiter :: "string \<Rightarrow> (string \<Rightarrow> string option) \<Rightarrow> limiter" where
  "new_limiter exchange env = \<lparr>config = resolveRateLimitConfig (toLowerCase exchange) env, queue = [],
     requestTimestamps = [], activeRequests = 0, windowWakeTimer = None\<rparr>"

text \<open>\<open>execute\<close> with a signal that may already be aborted, and the abort listener.\<close>

definition rl_execute :: "(nat \<Rightarrow> int) \<Rightarrow> nat \<Rightarrow> bool \<Rightarrow> limiter \<Rightarrow> (nat \<times> int) list \<times> limiter" where
  "rl_execute ck i aborted l =
     (if aborted then ([], l) else drainQueue ck (l\<lparr>queue := queue l @ [\<lparr>req_id = i, req_aborted = False\<rparr>]\<rparr>))"

definition rl_abort :: "nat \<Rightarrow> limiter \<Rightarrow> limiter" where
  "rl_abort i l = l\<lparr>queue := filter (\<lambda>q. req_id q \<noteq> i) (queue l)\<rparr>"

definition rl_finish :: "(nat \<Rightarrow> int) \<Rightarrow> limiter \<Rightarrow> (nat \<times> int) list \<times> limiter" where
  "rl_finish ck l = drainQueue ck (l\<lparr>activeRequests := activeRequests l - 1\<rparr>)"

definition rl_wake :: "(nat \<Rightarrow> int) \<Rightarrow> limiter \<Rightarrow> (nat \<times> int) list \<times> limiter" where
  "rl_wake ck l = drainQueue ck (l\<lparr>windowWakeTimer := None\<rparr>)"

text \<open>
  The limiter with the log of all dispatch times.  A finish needs a request in flight and a
  wake-up needs a timer that is due.  Time does not go back: the readings of an event increase, from
  the end of the event before it to its own end \<open>t\<close>.
\<close>

record rl_world =
  lim_state :: limiter
  dispatched :: "int list"
  clock :: int

definition after :: "int \<Rightarrow> rl_world \<Rightarrow> (nat \<times> int) list \<times> limiter \<Rightarrow> rl_world" where
  "after t w res = \<lparr>lim_state = snd res, dispatched = dispatched w @ map snd (fst res), clock = t\<rparr>"

definition readings :: "int \<Rightarrow> (nat \<Rightarrow> int) \<Rightarrow> int \<Rightarrow> bool" where
  "readings t0 ck t \<longleftrightarrow> t0 \<le> ck 0 \<and> mono ck \<and> (\<forall>n. ck n \<le> t)"

inductive rl_step :: "rl_world \<Rightarrow> rl_world \<Rightarrow> bool" where
  request: "readings (clock w) ck t \<Longrightarrow> rl_step w (after t w (rl_execute ck i aborted (lim_state w)))"
| abort: "rl_step w (w\<lparr>lim_state := rl_abort i (lim_state w)\<rparr>)"
| finish: "readings (clock w) ck t \<Longrightarrow> 0 < activeRequests (lim_state w) \<Longrightarrow> rl_step w (after t w (rl_finish ck (lim_state w)))"
| wake: "readings (clock w) ck t \<Longrightarrow> windowWakeTimer (lim_state w) = Some due \<Longrightarrow> due \<le> ck 0 \<Longrightarrow>
    rl_step w (after t w (rl_wake ck (lim_state w)))"

definition rl_start :: "string \<Rightarrow> (string \<Rightarrow> string option) \<Rightarrow> int \<Rightarrow> rl_world" where
  "rl_start exchange env now = \<lparr>lim_state = new_limiter exchange env, dispatched = [], clock = now\<rparr>"

abbreviation rl_reachable :: "rl_world \<Rightarrow> rl_world \<Rightarrow> bool" where
  "rl_reachable \<equiv> rl_step\<^sup>*\<^sup>*"

subsection \<open>The resolved budget\<close>

definition num_in :: "jsnum \<Rightarrow> int \<Rightarrow> int \<Rightarrow> bool" where
  "num_in x lo hi \<longleftrightarrow> (\<exists>n. x = num_of_int n \<and> lo \<le> n \<and> n \<le> hi)"

lemma bounded_floor:
  assumes "1 \<le> b" "js_isFinite v" "num_in m 1 b"
  shows "num_in (js_max (num_of_int 1) (js_min m (js_floor v))) 1 b"
proof -
  obtain n where n: "m = num_of_int n" "1 \<le> n" "n \<le> b" using assms(3) by (auto simp: num_in_def)
  obtain x where v: "v = Fin x" using assms(2) by (cases v) (auto simp: js_isFinite_def)
  have "js_max (num_of_int 1) (js_min m (js_floor v)) = num_of_int (max 1 (min n \<lfloor>x\<rfloor>))"
    unfolding n(1) v by (simp add: of_int_max of_int_min del: of_int_1 of_int_1_le_iff of_int_le_1_iff)
  then show ?thesis using n assms(1) by (auto simp: num_in_def)
qed

lemma shared_cap_range:
  assumes "1 \<le> b" "b \<le> 2 ^ 53" "share = Fin s" "0 \<le> s" "s \<le> 1"
  shows "num_in (shared_cap (num_of_int b) share) 1 b"
proof -
  have le: "js_le (fl (of_int b * s)) (num_of_int b)"
  proof -
    have "of_int b * s \<le> of_int b" using assms(1,5) by (simp add: mult_left_le)
    then have "js_le (fl (of_int b * s)) (fl (of_int b))" by (rule fl_mono)
    then show ?thesis using assms(1,2) fl_of_int [of b] by simp
  qed
  have "js_le (fl 0) (fl (of_int b * s))" using assms(1,4) by (intro fl_mono) simp
  then obtain y where y: "fl (of_int b * s) = Fin y" "0 \<le> y" "y \<le> of_int b"
    using le by (cases "fl (of_int b * s)") auto
  have "shared_cap (num_of_int b) share = num_of_int (max 1 \<lfloor>y\<rfloor>)"
    by (simp add: shared_cap_def assms(3) y(1) of_int_max del: of_int_1 of_int_1_le_iff of_int_le_1_iff)
  moreover have "\<lfloor>y\<rfloor> \<le> b" using y(3) by (simp add: floor_le_iff)
  ultimately show ?thesis using assms(1) by (auto simp: num_in_def)
qed

lemma positiveNumber_Some:
  assumes "positiveNumber raw = Some v"
  obtains y where "v = Fin y" "0 < y"
  using assms by (cases v) (auto simp: positiveNumber_def Let_def js_isFinite_def split: if_splits)

lemma share_range: "\<exists>s. js_max (fl (1 / 20)) (js_min (num_of_int 1) (case positiveNumber raw of Some v \<Rightarrow> v | None \<Rightarrow> num_of_int 1)) = Fin s \<and> 0 \<le> s \<and> s \<le> 1"
proof -
  have "js_le (fl (1 / 20)) (fl 1)" "js_le (fl 0) (fl (1 / 20))" by (intro fl_mono; simp)+
  moreover have "fl 1 = Fin 1" using fl_of_int [of 1] by simp
  ultimately obtain a where a: "fl (1 / 20) = Fin a" "0 \<le> a" "a \<le> 1" by (cases "fl (1 / 20)") auto
  obtain x where x: "(case positiveNumber raw of Some v \<Rightarrow> v | None \<Rightarrow> num_of_int 1) = Fin x" "0 < x"
  proof (cases "positiveNumber raw")
    case (Some v)
    then obtain y where "v = Fin y" "0 < y" by (rule positiveNumber_Some)
    with Some show ?thesis using that by simp
  qed (use that [of 1] in simp)
  show ?thesis unfolding a(1) x(1) using a x(2) by auto
qed

lemma exchange_base:
  obtains a b c where "(case map_of EXCHANGE_LIMITS e of Some c \<Rightarrow> c | None \<Rightarrow> FALLBACK_RATE_LIMIT) = limits a b c"
    "1 \<le> a \<and> a \<le> 2 ^ 53" "1 \<le> b \<and> b \<le> 2 ^ 53" "1 \<le> c \<and> c \<le> 2 ^ 53"
proof (cases "map_of EXCHANGE_LIMITS e")
  case None
  then show ?thesis using that [of 5 100 3] by (simp add: FALLBACK_RATE_LIMIT_def)
next
  case (Some l)
  then have "(e, l) \<in> set EXCHANGE_LIMITS" by (rule map_of_SomeD)
  then have "(\<exists>(a, b, c) \<in> {(10, 120, 5), (10, 600, 5), (10, 1200, 10), (20, 600, 10), (5, 100, 3), (2, 60, 2)}. l = limits a b c)"
    unfolding EXCHANGE_LIMITS_def by auto
  then obtain a b c where "l = limits a b c" "(a, b, c) \<in> {(10, 120, 5), (10, 600, 5), (10, 1200, 10), (20, 600, 10), (5, 100, 3), (2, 60, 2)}"
    by blast
  then show ?thesis using that [of a b c] Some by auto
qed

lemma boundedInteger_range:
  assumes "1 \<le> b" "num_in m 1 b"
  shows "num_in (boundedInteger raw m m) 1 b"
proof -
  have "js_isFinite (case positiveNumber raw of Some v \<Rightarrow> v | None \<Rightarrow> m)"
    using assms(2) by (cases "positiveNumber raw") (auto simp: num_in_def js_isFinite_def elim: positiveNumber_Some)
  then show ?thesis unfolding boundedInteger_def by (rule bounded_floor [OF assms(1) _ assms(2)])
qed

lemma resolve_bounds:
  obtains a b c where "(case map_of EXCHANGE_LIMITS (toLowerCase exchange) of Some l \<Rightarrow> l | None \<Rightarrow> FALLBACK_RATE_LIMIT) = limits a b c"
    "num_in (requestsPerSecond (resolveRateLimitConfig exchange env)) 1 a"
    "num_in (requestsPerMinute (resolveRateLimitConfig exchange env)) 1 b"
    "num_in (maxConcurrent (resolveRateLimitConfig exchange env)) 1 c"
proof -
  obtain a b c where base: "(case map_of EXCHANGE_LIMITS (toLowerCase exchange) of Some c \<Rightarrow> c | None \<Rightarrow> FALLBACK_RATE_LIMIT) = limits a b c"
    and r: "1 \<le> a \<and> a \<le> 2 ^ 53" "1 \<le> b \<and> b \<le> 2 ^ 53" "1 \<le> c \<and> c \<le> 2 ^ 53"
    by (rule exchange_base)
  define raw where "raw = (case env (''CTS_'' @ env_prefix (toLowerCase exchange) @ ''_RATE_LIMIT_SHARE'') of
      Some s \<Rightarrow> Some s | None \<Rightarrow> env ''CTS_EXCHANGE_RATE_LIMIT_SHARE'')"
  obtain s where s: "js_max (fl (1 / 20)) (js_min (num_of_int 1) (case positiveNumber raw of Some v \<Rightarrow> v | None \<Rightarrow> num_of_int 1)) = Fin s"
    "0 \<le> s" "s \<le> 1" using share_range by blast
  have cap: "num_in (boundedInteger x (shared_cap (num_of_int n) (Fin s)) (shared_cap (num_of_int n) (Fin s))) 1 n"
    if "1 \<le> n \<and> n \<le> 2 ^ 53" for n x
    using that s by (intro boundedInteger_range shared_cap_range) auto
  show ?thesis
    by (rule that [OF base]; unfold resolveRateLimitConfig_def Let_def base raw_def [symmetric] s(1))
      (simp_all add: limits_def cap [OF r(1)] cap [OF r(2)] cap [OF r(3)])
qed

text \<open>No environment setting raises a limiter above the built-in ceiling of its exchange or
  blocks it: whatever the share and the per-exchange overrides say, each of the three resolved
  limits is a whole number between 1 and the base limit.\<close>

theorem resolveRateLimitConfig_bounds:
  "\<exists>a b c. (case map_of EXCHANGE_LIMITS (toLowerCase exchange) of Some l \<Rightarrow> l | None \<Rightarrow> FALLBACK_RATE_LIMIT) = limits a b c \<and>
    num_in (requestsPerSecond (resolveRateLimitConfig exchange env)) 1 a \<and>
    num_in (requestsPerMinute (resolveRateLimitConfig exchange env)) 1 b \<and>
    num_in (maxConcurrent (resolveRateLimitConfig exchange env)) 1 c"
  using resolve_bounds by metis

subsection \<open>Dispatching\<close>

lemma js_ge_int [simp]: "js_ge (num_of_int a) (num_of_int b) = (b \<le> a)" "js_lt (num_of_int a) (num_of_int b) = (a < b)"
  by simp_all

text \<open>
  What holds of a limiter with limits \<open>a\<close>, \<open>b\<close>, \<open>c\<close> and its dispatch log at time \<open>now\<close>: the kept
  timestamps are those of the log that can still fall into a window.
\<close>

definition rl_inv :: "int \<Rightarrow> int \<Rightarrow> int \<Rightarrow> int list \<Rightarrow> int \<Rightarrow> limiter \<Rightarrow> bool" where
  "rl_inv a b c dl now l \<longleftrightarrow>
     config l = limits a b c \<and> (\<forall>ts \<in> set dl. ts \<le> now) \<and>
     (\<forall>t w. now \<le> t \<longrightarrow> w \<le> 60000 \<longrightarrow>
        filter (\<lambda>ts. t - ts < w) (requestTimestamps l) = filter (\<lambda>ts. t - ts < w) dl) \<and>
     0 \<le> activeRequests l \<and> activeRequests l \<le> c \<and>
     (\<forall>u. in_window 1000 u dl \<le> a) \<and> (\<forall>u. in_window 60000 u dl \<le> b)"

lemma rl_inv_later: "rl_inv a b c dl t l \<Longrightarrow> t \<le> u \<Longrightarrow> rl_inv a b c dl u l"
  by (force simp: rl_inv_def)

lemma rl_inv_dispatch:
  assumes inv: "rl_inv a b c dl now l" and can: "canMakeRequest now l"
  shows "rl_inv a b c (dl @ [now]) now (l\<lparr>queue := qs, activeRequests := activeRequests l + 1,
    requestTimestamps := filter (\<lambda>ts. now - ts < 60000) (requestTimestamps l @ [now])\<rparr>)"
proof -
  have cfg: "config l = limits a b c" and le: "\<forall>ts \<in> set dl. ts \<le> now"
    and kept: "\<And>t w. now \<le> t \<Longrightarrow> w \<le> 60000 \<Longrightarrow> filter (\<lambda>ts. t - ts < w) (requestTimestamps l) = filter (\<lambda>ts. t - ts < w) dl"
    and win: "\<forall>u. in_window 1000 u dl \<le> a" "\<forall>u. in_window 60000 u dl \<le> b" and act: "0 \<le> activeRequests l"
    using inv unfolding rl_inv_def by blast+
  have room: "activeRequests l < c" "int (length (filter (\<lambda>ts. now - ts < 1000) dl)) < a"
    "int (length (filter (\<lambda>ts. now - ts < 60000) dl)) < b"
    using can kept [of now 1000] kept [of now 60000] by (auto simp: canMakeRequest_def cfg limits_def)
  have "filter (\<lambda>ts. t - ts < w) (filter (\<lambda>ts. now - ts < 60000) (requestTimestamps l @ [now])) =
      filter (\<lambda>ts. t - ts < w) (dl @ [now])" if "now \<le> t" "w \<le> 60000" for t w
  proof -
    have "filter (\<lambda>ts. t - ts < w) (filter (\<lambda>ts. now - ts < 60000) (requestTimestamps l)) = filter (\<lambda>ts. t - ts < w) (requestTimestamps l)"
      using that by (auto simp: filter_filter intro!: filter_cong)
    then show ?thesis using kept [OF that] by simp
  qed
  moreover have "\<forall>u. in_window 1000 u (dl @ [now]) \<le> a" using in_window_snoc [OF le win(1) _ room(2)] by simp
  moreover have "\<forall>u. in_window 60000 u (dl @ [now]) \<le> b" using in_window_snoc [OF le win(2) _ room(3)] by simp
  ultimately show ?thesis using cfg le act room(1) unfolding rl_inv_def by simp
qed

lemma rl_inv_queue [simp]: "rl_inv a b c dl now (l\<lparr>queue := qs\<rparr>) = rl_inv a b c dl now l"
  "rl_inv a b c dl now (l\<lparr>windowWakeTimer := x\<rparr>) = rl_inv a b c dl now l"
  by (simp_all add: rl_inv_def)

lemma canMakeRequest_later:
  assumes "canMakeRequest t l" "t \<le> u"
  shows "canMakeRequest u l"
proof -
  have less: "length (filter (\<lambda>ts. u - ts < w) xs) \<le> length (filter (\<lambda>ts. t - ts < w) xs)" for w and xs :: "int list"
    using assms(2) by (induction xs) auto
  have mono: "js_ge (num_of_int (int n)) x" if "js_ge (num_of_int (int m)) x" "m \<le> n" for m n x
    using that by (cases x) auto
  show ?thesis using assms(1) less mono unfolding canMakeRequest_def by meson
qed

lemma drain_loop_dispatch:
  assumes "queue l = q # qs" "canMakeRequest (ck n) l" "\<not> req_aborted q"
  defines "l1 \<equiv> l\<lparr>queue := qs, activeRequests := activeRequests l + 1,
    requestTimestamps := filter (\<lambda>ts. ck (n + 1) - ts < 60000) (requestTimestamps l @ [ck (n + 1)])\<rparr>"
  shows "drain_loop ck n l = (case drain_loop ck (n + 2) l1 of (started, n', l2) \<Rightarrow> ((req_id q, ck (n + 1)) # started, n', l2))"
  using assms(1-3) unfolding l1_def by (subst drain_loop.simps) (simp add: Let_def)

lemma rl_inv_drain_loop:
  assumes "rl_inv a b c dl (ck n) l" "mono ck"
  shows "case drain_loop ck n l of (st, n', l') \<Rightarrow> rl_inv a b c (dl @ map snd st) (ck n') l'"
  using assms
proof (induction ck n l arbitrary: dl rule: drain_loop.induct)
  case (1 ck n l)
  have le: "ck n \<le> ck (n + 1)" "ck (n + 1) \<le> ck (n + 2)" using "1.prems"(2) by (auto intro: monoD)
  note later = rl_inv_later [OF "1.prems"(1) le(1)]
  show ?case
  proof (cases "queue l")
    case Nil
    then show ?thesis using "1.prems" by (simp add: drain_loop.simps)
  next
    case (Cons q qs)
    consider "\<not> canMakeRequest (ck n) l" | "canMakeRequest (ck n) l" "req_aborted q" | "canMakeRequest (ck n) l" "\<not> req_aborted q" by blast
    then show ?thesis
    proof cases
      case 1
      then show ?thesis using later Cons by (simp add: drain_loop.simps)
    next
      case 2
      then have "drain_loop ck n l = drain_loop ck (n + 1) (l\<lparr>queue := qs\<rparr>)" using Cons by (subst drain_loop.simps) simp
      then show ?thesis using "1.IH"(1) [OF Cons] 2 later "1.prems"(2) by simp
    next
      case 3
      let ?l = "l\<lparr>queue := qs, activeRequests := activeRequests l + 1,
        requestTimestamps := filter (\<lambda>ts. ck (n + 1) - ts < 60000) (requestTimestamps l @ [ck (n + 1)])\<rparr>"
      have inv: "rl_inv a b c (dl @ [ck (n + 1)]) (ck (n + 2)) ?l"
        using rl_inv_later [OF rl_inv_dispatch [OF later canMakeRequest_later [OF 3(1) le(1)]] le(2)] .
      have can: "\<not> \<not> canMakeRequest (ck n) l" using 3(1) by simp
      have "case drain_loop ck (n + 2) ?l of (st, n', l') \<Rightarrow> rl_inv a b c ((dl @ [ck (n + 1)]) @ map snd st) (ck n') l'"
        by (rule "1.IH"(2) [OF Cons can 3(2) refl refl inv "1.prems"(2)])
      then show ?thesis unfolding drain_loop_dispatch [of l q qs ck n, OF Cons 3] by (simp add: case_prod_unfold)
    qed
  qed
qed

lemma rl_inv_schedule [simp]: "rl_inv a b c dl t (scheduleWindowWakeup u l) = rl_inv a b c dl t l"
  by (simp add: scheduleWindowWakeup_def)

text \<open>
  A limiter that has work and is refused by its limits never goes quiet: a request is in flight or a
  wake-up is set.
\<close>

definition rl_awake :: "int \<Rightarrow> limiter \<Rightarrow> bool" where
  "rl_awake now l \<longleftrightarrow> queue l \<noteq> [] \<and> \<not> canMakeRequest now l \<longrightarrow> 0 < activeRequests l \<or> windowWakeTimer l \<noteq> None"

lemma rl_awake_later: "rl_awake t l \<Longrightarrow> t \<le> u \<Longrightarrow> rl_awake u l"
  using canMakeRequest_later by (auto simp: rl_awake_def)

lemma canMake_schedule [simp]: "canMakeRequest t (scheduleWindowWakeup u l) = canMakeRequest t l"
  by (simp add: scheduleWindowWakeup_def canMakeRequest_def)

lemma drainQueue_inv:
  assumes "rl_inv a b c dl t0 l" "0 < c" "readings t0 ck t"
  shows "rl_inv a b c (dl @ map snd (fst (drainQueue ck l))) t (snd (drainQueue ck l)) \<and> rl_awake t (snd (drainQueue ck l))"
proof -
  have ck: "t0 \<le> ck 0" "mono ck" "ck n \<le> t" for n using assms(3) by (simp_all add: readings_def)
  obtain st n l1 where d: "drain_loop ck 0 (l\<lparr>windowWakeTimer := None\<rparr>) = (st, n, l1)" by (metis prod.collapse)
  have "rl_inv a b c dl (ck 0) (l\<lparr>windowWakeTimer := None\<rparr>)" using rl_inv_later [OF assms(1) ck(1)] by simp
  from rl_inv_drain_loop [OF this ck(2)] have inv: "rl_inv a b c (dl @ map snd st) (ck n) l1" by (simp add: d)
  then have cfg: "maxConcurrent (config l1) = num_of_int c" by (simp add: rl_inv_def limits_def)
  have dq: "drainQueue ck l = (st, if queue l1 \<noteq> [] \<and> js_lt (num_of_int (activeRequests l1)) (maxConcurrent (config l1)) \<and> \<not> canMakeRequest (ck n) l1
      then scheduleWindowWakeup (ck (n + 1)) l1 else l1)" by (simp add: drainQueue_def d)
  have "rl_awake (ck n) (snd (drainQueue ck l))"
    using assms(2) by (auto simp: dq rl_awake_def cfg scheduleWindowWakeup_def not_less)
  then show ?thesis using rl_awake_later ck(3) rl_inv_later [OF inv ck(3)] by (auto simp: dq)
qed

lemma rl_step_inv:
  assumes "rl_step w w'" "rl_inv a b c (dispatched w) (clock w) (lim_state w)" "rl_awake (clock w) (lim_state w)" "0 < c"
  shows "rl_inv a b c (dispatched w') (clock w') (lim_state w') \<and> rl_awake (clock w') (lim_state w')"
  using assms
proof (induction rule: rl_step.induct)
  case (request w ck t i aborted)
  have "clock w \<le> ck 0" "ck 0 \<le> t" using request.hyps by (simp_all add: readings_def)
  then have t: "clock w \<le> t" by simp
  show ?case
  proof (cases aborted)
    case True
    with request t show ?thesis by (auto simp: after_def rl_execute_def intro: rl_inv_later rl_awake_later)
  next
    case False
    then show ?thesis using drainQueue_inv [OF _ request.prems(3) request.hyps] request.prems(1) by (simp add: after_def rl_execute_def)
  qed
next
  case (abort w i)
  then show ?case by (auto simp: rl_abort_def rl_awake_def canMakeRequest_def)
next
  case (finish w ck t)
  have "rl_inv a b c (dispatched w) (clock w) (lim_state w\<lparr>activeRequests := activeRequests (lim_state w) - 1\<rparr>)"
    using finish by (auto simp: rl_inv_def)
  from drainQueue_inv [OF this finish.prems(3) finish.hyps(1)] show ?case by (simp add: after_def rl_finish_def)
next
  case (wake w ck t due)
  then have "rl_inv a b c (dispatched w) (clock w) ((lim_state w)\<lparr>windowWakeTimer := None\<rparr>)" by simp
  from drainQueue_inv [OF this wake.prems(3) wake.hyps(1)] show ?case by (simp add: after_def rl_wake_def)
qed

lemma rl_reachable_inv:
  assumes "rl_reachable (rl_start exchange env t0) w"
  obtains a b c where "rl_inv a b c (dispatched w) (clock w) (lim_state w)" "rl_awake (clock w) (lim_state w)"
    "resolveRateLimitConfig (toLowerCase exchange) env = limits a b c"
proof -
  obtain a b c where cfg: "resolveRateLimitConfig (toLowerCase exchange) env = limits a b c" "1 \<le> a" "1 \<le> b" "1 \<le> c"
  proof (rule resolve_bounds [of "toLowerCase exchange" env])
    fix x y z
    assume "num_in (requestsPerSecond (resolveRateLimitConfig (toLowerCase exchange) env)) 1 x"
      "num_in (requestsPerMinute (resolveRateLimitConfig (toLowerCase exchange) env)) 1 y"
      "num_in (maxConcurrent (resolveRateLimitConfig (toLowerCase exchange) env)) 1 z"
    then show thesis using that
      by (cases "resolveRateLimitConfig (toLowerCase exchange) env") (auto simp: num_in_def limits_def)
  qed
  have "rl_inv a b c (dispatched w) (clock w) (lim_state w) \<and> rl_awake (clock w) (lim_state w)"
    using assms
  proof (induction rule: rtranclp_induct)
    case base
    show ?case using cfg by (simp add: rl_start_def new_limiter_def rl_inv_def rl_awake_def in_window_def)
  next
    case (step y z)
    then show ?case using rl_step_inv cfg(4) by (meson zero_less_one order_less_le_trans)
  qed
  then show ?thesis using that cfg(1) by blast
qed

text \<open>C5. The limiter honours its budget under every sequence of requests, aborts, completions and
  wake-ups: no window of one second and no window of one minute, wherever it ends, contains more
  dispatches than the resolved limit, and no more requests are in flight than allowed.\<close>

theorem rate_limiter_budget:
  assumes "rl_reachable (rl_start exchange env t0) w"
  shows "js_le (num_of_int (in_window 1000 u (dispatched w))) (requestsPerSecond (config (lim_state w))) \<and>
    js_le (num_of_int (in_window 60000 u (dispatched w))) (requestsPerMinute (config (lim_state w))) \<and>
    js_le (num_of_int (activeRequests (lim_state w))) (maxConcurrent (config (lim_state w)))"
  using assms by (rule rl_reachable_inv) (simp add: rl_inv_def limits_def)

theorem rate_limiter_budget_witness:
  "let w = after 5 (rl_start ''bybit'' (\<lambda>_. None) 0) (rl_execute (\<lambda>_. 5) 1 False (lim_state (rl_start ''bybit'' (\<lambda>_. None) 0)))
   in js_le (num_of_int (in_window 1000 5 (dispatched w))) (requestsPerSecond (config (lim_state w)))"
proof -
  have "rl_step (rl_start ''bybit'' (\<lambda>_. None) 0)
      (after 5 (rl_start ''bybit'' (\<lambda>_. None) 0) (rl_execute (\<lambda>_. 5) 1 False (lim_state (rl_start ''bybit'' (\<lambda>_. None) 0))))"
    by (rule request) (simp add: rl_start_def readings_def mono_def)
  then show ?thesis unfolding Let_def using rate_limiter_budget by blast
qed

text \<open>C38. The queue does not stall while its limits are exhausted: in every reachable state in which
  requests wait and the limits, at the time of the last event's end, do not let one through, a request is
  in flight, whose completion drains the queue again, or a wake-up timer is set.\<close>

theorem rate_limiter_awake:
  assumes "rl_reachable (rl_start exchange env t0) w" "queue (lim_state w) \<noteq> []" "\<not> canMakeRequest (clock w) (lim_state w)"
  shows "0 < activeRequests (lim_state w) \<or> windowWakeTimer (lim_state w) \<noteq> None"
  using assms(1) by (rule rl_reachable_inv) (use assms(2,3) in \<open>auto simp: rl_awake_def\<close>)

lemma resolve_unset:
  assumes "map_of EXCHANGE_LIMITS (toLowerCase e) = Some (limits a b c)" "0 < a" "0 < b" "0 < c" "max a (max b c) \<le> 2 ^ 53"
  shows "resolveRateLimitConfig e (\<lambda>_. None) = limits a b c"
proof -
  have none: "positiveNumber None = None" by (simp add: positiveNumber_def js_isFinite_def)
  obtain x where "fl (1 / 20) = Fin x" "x \<le> 1"
  proof -
    have "js_le (fl (1 / 20)) (fl 1)" "js_le (fl 0) (fl (1 / 20))" by (intro fl_mono; simp)+
    moreover have "fl 1 = Fin 1" using fl_of_int [of 1] by simp
    ultimately show thesis using that by (cases "fl (1 / 20)") auto
  qed
  then have share: "js_max (fl (1 / 20)) (js_min (num_of_int 1) (num_of_int 1)) = num_of_int 1" by simp
  have cap: "shared_cap (num_of_int n) (num_of_int 1) = num_of_int n" if "0 < n" "n \<le> 2 ^ 53" for n
  proof -
    have "js_mul (num_of_int n) (num_of_int 1) = num_of_int n" using that js_mul_int [of n 1] by simp
    then have "shared_cap (num_of_int n) (num_of_int 1) = js_max (num_of_int 1) (num_of_int n)"
      unfolding shared_cap_def by (simp only: js_floor.simps floor_of_int)
    also have "\<dots> = num_of_int n" using that by (simp add: max_def)
    finally show ?thesis .
  qed
  have bnd: "boundedInteger None (num_of_int n) (num_of_int n) = num_of_int n" if "0 < n" for n
    using that by (simp add: boundedInteger_def none max_def)
  show ?thesis using assms share
    by (simp add: resolveRateLimitConfig_def none limits_def cap [unfolded of_int_1] bnd Let_def)
qed

text \<open>Three requests at one instant on an exchange that allows two.\<close>

lemma third_request_waits:
  "let w0 = rl_start ''instaforex'' (\<lambda>_. None) 0;
       w1 = after 5 w0 (rl_execute (\<lambda>_. 5) 1 False (lim_state w0));
       w2 = after 5 w1 (rl_execute (\<lambda>_. 5) 2 False (lim_state w1));
       w3 = after 5 w2 (rl_execute (\<lambda>_. 5) 3 False (lim_state w2))
   in rl_reachable w0 w3 \<and> queue (lim_state w3) \<noteq> [] \<and> \<not> canMakeRequest (clock w3) (lim_state w3)"
proof -
  have low: "toLowerCase ''instaforex'' = ''instaforex''" by code_simp
  have "map_of EXCHANGE_LIMITS ''instaforex'' = Some (limits 2 60 2)" by (simp add: EXCHANGE_LIMITS_def)
  then have cfg: "resolveRateLimitConfig ''instaforex'' (\<lambda>_. None) = limits 2 60 2"
    by (intro resolve_unset) (simp_all only: low, simp_all)
  let ?w0 = "rl_start ''instaforex'' (\<lambda>_. None) 0"
  let ?w1 = "after 5 ?w0 (rl_execute (\<lambda>_. 5) 1 False (lim_state ?w0))"
  let ?w2 = "after 5 ?w1 (rl_execute (\<lambda>_. 5) 2 False (lim_state ?w1))"
  let ?w3 = "after 5 ?w2 (rl_execute (\<lambda>_. 5) 3 False (lim_state ?w2))"
  have "rl_step ?w0 ?w1" by (rule request) (simp add: rl_start_def readings_def mono_def)
  moreover have "rl_step ?w1 ?w2" by (rule request) (simp add: after_def readings_def mono_def)
  moreover have "rl_step ?w2 ?w3" by (rule request) (simp add: after_def readings_def mono_def)
  ultimately have "rl_reachable ?w0 ?w3" by simp
  moreover have "queue (lim_state ?w3) \<noteq> [] \<and> \<not> canMakeRequest (clock ?w3) (lim_state ?w3)"
    by (simp add: rl_start_def new_limiter_def low cfg rl_execute_def after_def drainQueue_def drain_loop.simps
        canMakeRequest_def limits_def scheduleWindowWakeup_def Let_def)
  ultimately show ?thesis unfolding Let_def by (rule conjI)
qed

theorem rate_limiter_awake_witness:
  "\<exists>w. rl_reachable (rl_start ''instaforex'' (\<lambda>_. None) 0) w \<and>
     (0 < activeRequests (lim_state w) \<or> windowWakeTimer (lim_state w) \<noteq> None)"
  using third_request_waits rate_limiter_awake unfolding Let_def by blast

text \<open>
  The exception is real: when a window expires between the loop's last test and the final test, the queue
  is left with a waiting request, nothing in flight and no timer, until the next event.
\<close>

lemma lim_after: "lim_state (after t w res) = snd res"
  by (simp add: after_def)

lemma rate_limiter_can_stall:
  "\<exists>w. rl_reachable (rl_start ''instaforex'' (\<lambda>_. None) 0) w \<and>
     queue (lim_state w) \<noteq> [] \<and> activeRequests (lim_state w) = 0 \<and> windowWakeTimer (lim_state w) = None"
proof -
  have low: "toLowerCase ''instaforex'' = ''instaforex''" by code_simp
  have "map_of EXCHANGE_LIMITS ''instaforex'' = Some (limits 2 60 2)" by (simp add: EXCHANGE_LIMITS_def)
  then have cfg: "resolveRateLimitConfig ''instaforex'' (\<lambda>_. None) = limits 2 60 2"
    by (intro resolve_unset) (simp_all only: low, simp_all)
  let ?ck = "\<lambda>n :: nat. if n = 0 then 999 else 1000 :: int"
  let ?w0 = "rl_start ''instaforex'' (\<lambda>_. None) 0"
  let ?w1 = "after 0 ?w0 (rl_execute (\<lambda>_. 0) 1 False (lim_state ?w0))"
  let ?w2 = "after 0 ?w1 (rl_execute (\<lambda>_. 0) 2 False (lim_state ?w1))"
  let ?w3 = "after 0 ?w2 (rl_finish (\<lambda>_. 0) (lim_state ?w2))"
  let ?w4 = "after 0 ?w3 (rl_finish (\<lambda>_. 0) (lim_state ?w3))"
  let ?w5 = "after 1000 ?w4 (rl_execute ?ck 3 False (lim_state ?w4))"
  note run = rl_start_def new_limiter_def low cfg rl_execute_def rl_finish_def after_def drainQueue_def drain_loop.simps
    canMakeRequest_def limits_def scheduleWindowWakeup_def Let_def
  have w2: "lim_state ?w2 = \<lparr>config = limits 2 60 2, queue = [], requestTimestamps = [0, 0], activeRequests = 2, windowWakeTimer = None\<rparr>"
    by (simp add: run)
  then have w3: "lim_state ?w3 = \<lparr>config = limits 2 60 2, queue = [], requestTimestamps = [0, 0], activeRequests = 1, windowWakeTimer = None\<rparr>"
    by (simp add: after_def rl_finish_def drainQueue_def drain_loop.simps)
  then have w4: "lim_state ?w4 = \<lparr>config = limits 2 60 2, queue = [], requestTimestamps = [0, 0], activeRequests = 0, windowWakeTimer = None\<rparr>"
    by (simp add: after_def rl_finish_def drainQueue_def drain_loop.simps)
  have "rl_step ?w0 ?w1" by (rule request) (simp add: rl_start_def readings_def mono_def)
  moreover have "rl_step ?w1 ?w2" by (rule request) (simp add: after_def readings_def mono_def)
  moreover have "rl_step ?w2 ?w3" by (rule finish, simp add: after_def readings_def mono_def) (unfold w2, simp)
  moreover have "rl_step ?w3 ?w4" by (rule finish, simp add: after_def readings_def mono_def) (unfold w3, simp)
  moreover have "rl_step ?w4 ?w5" by (rule request) (simp add: after_def readings_def mono_def)
  ultimately have reach: "rl_reachable ?w0 ?w5" by (meson converse_rtranclp_into_rtranclp rtranclp.rtrancl_refl)
  have "lim_state ?w5 = \<lparr>config = limits 2 60 2, queue = [\<lparr>req_id = 3, req_aborted = False\<rparr>], requestTimestamps = [0, 0], activeRequests = 0, windowWakeTimer = None\<rparr>"
    unfolding lim_after [of 1000 ?w4] w4
    by (simp add: rl_execute_def drainQueue_def drain_loop.simps canMakeRequest_def limits_def)
  then have "queue (lim_state ?w5) \<noteq> [] \<and> activeRequests (lim_state ?w5) = 0 \<and> windowWakeTimer (lim_state ?w5) = None" by (simp only: limiter.simps) simp
  with reach show ?thesis by blast
qed

end
