(* ===== verification/GlobalRateLimiter.thy ===== *)
theory GlobalRateLimiter
  imports JsText
begin

text \<open>
  The request limiter of the API routes, \<open>lib/global-rate-limiter.ts\<close>: a token bucket per second,
  sliding windows per minute and hour, their composition, the global limiter built from the three
  and the route wrapper.  Numbers of the token bucket are doubles; window sizes, counts and clock
  values are whole.  The clean-up timer of idle buckets is the operation \<open>tb_cleanup\<close>.
\<close>

record RateLimitResult =
  allowed :: bool
  current :: jsnum
  limit :: jsnum
  retryAfterMs :: "jsnum option"
  remaining :: jsnum

subsection \<open>Token bucket\<close>

record RateLimitBucket =
  tokens :: jsnum
  lastRefillTime :: int
  requestCount :: int

record token_bucket =
  maxTokens :: jsnum
  refillRatePerSec :: jsnum
  burst :: jsnum
  buckets :: "RateLimitBucket jsmap"

definition new_token_bucket :: "jsnum \<Rightarrow> jsnum \<Rightarrow> token_bucket" where
  "new_token_bucket maxRequestsPerSecond b =
     \<lparr>maxTokens = maxRequestsPerSecond, refillRatePerSec = maxRequestsPerSecond, burst = b, buckets = []\<rparr>"

definition tb_refill :: "token_bucket \<Rightarrow> int \<Rightarrow> RateLimitBucket \<Rightarrow> RateLimitBucket" where
  "tb_refill l now b =
     (let elapsedSeconds = js_div (num_of_int (now - lastRefillTime b)) (num_of_int 1000);
          tokensToAdd = js_mul elapsedSeconds (refillRatePerSec l)
      in b\<lparr>tokens := js_min (burst l) (js_add (tokens b) tokensToAdd), lastRefillTime := now\<rparr>)"

definition tb_checkLimit :: "int \<Rightarrow> string \<Rightarrow> token_bucket \<Rightarrow> RateLimitResult \<times> token_bucket" where
  "tb_checkLimit now key l =
     (let b0 = (case map_of (buckets l) key of
                  Some b \<Rightarrow> b | None \<Rightarrow> \<lparr>tokens = maxTokens l, lastRefillTime = now, requestCount = 0\<rparr>);
          b = tb_refill l now b0
      in if js_ge (tokens b) (num_of_int 1)
         then let b' = b\<lparr>tokens := js_sub (tokens b) (num_of_int 1), requestCount := requestCount b + 1\<rparr>
              in (\<lparr>allowed = True, current = js_floor (tokens b'), limit = maxTokens l, retryAfterMs = None,
                   remaining = js_floor (tokens b')\<rparr>,
                  l\<lparr>buckets := AList.update key b' (buckets l)\<rparr>)
         else let tokensNeeded = js_sub (num_of_int 1) (tokens b)
              in (\<lparr>allowed = False, current = js_floor (tokens b), limit = maxTokens l,
                   retryAfterMs = Some (js_ceil (js_mul (js_div tokensNeeded (refillRatePerSec l)) (num_of_int 1000))),
                   remaining = num_of_int 0\<rparr>,
                  l\<lparr>buckets := AList.update key b (buckets l)\<rparr>))"

definition tb_resetBucket :: "string \<Rightarrow> token_bucket \<Rightarrow> token_bucket" where
  "tb_resetBucket key l = l\<lparr>buckets := AList.delete key (buckets l)\<rparr>"

definition tb_cleanup :: "int \<Rightarrow> token_bucket \<Rightarrow> token_bucket" where
  "tb_cleanup now l = l\<lparr>buckets := filter (\<lambda>(k, b). \<not> now - lastRefillTime b > 5 * 60 * 1000) (buckets l)\<rparr>"

definition tb_destroy :: "token_bucket \<Rightarrow> token_bucket" where
  "tb_destroy l = l\<lparr>buckets := []\<rparr>"

subsection \<open>Sliding window\<close>

record sliding_window =
  windowSize :: int
  maxRequests :: int
  windows :: "int list jsmap"

definition new_sliding_window :: "int \<Rightarrow> int \<Rightarrow> sliding_window" where
  "new_sliding_window windowSizeMs maxReqs = \<lparr>windowSize = windowSizeMs, maxRequests = maxReqs, windows = []\<rparr>"

definition window_at :: "sliding_window \<Rightarrow> string \<Rightarrow> int list" where
  "window_at l key = (case map_of (windows l) key of Some w \<Rightarrow> w | None \<Rightarrow> [])"

definition sw_checkLimit :: "int \<Rightarrow> string \<Rightarrow> sliding_window \<Rightarrow> RateLimitResult \<times> sliding_window" where
  "sw_checkLimit now key l =
     (let windowStart = now - windowSize l;
          w = filter (\<lambda>time. time > windowStart) (window_at l key);
          cur = int (length w);
          ok = (cur < maxRequests l);
          w' = (if ok then w @ [now] else w)
      in (\<lparr>allowed = ok, current = num_of_int cur, limit = num_of_int (maxRequests l),
           retryAfterMs = (if \<not> ok \<and> w \<noteq> [] then Some (num_of_int (hd w + windowSize l - now + 1000)) else None),
           remaining = num_of_int (max 0 (maxRequests l - cur))\<rparr>,
          l\<lparr>windows := AList.update key w' (windows l)\<rparr>))"

definition sw_resetWindow :: "string \<Rightarrow> sliding_window \<Rightarrow> sliding_window" where
  "sw_resetWindow key l = l\<lparr>windows := AList.delete key (windows l)\<rparr>"

subsection \<open>Composition\<close>

datatype any_limiter = Bucket token_bucket | Window sliding_window

fun any_checkLimit :: "int \<Rightarrow> string \<Rightarrow> any_limiter \<Rightarrow> RateLimitResult \<times> any_limiter" where
  "any_checkLimit now key (Bucket l) = map_prod id Bucket (tb_checkLimit now key l)"
| "any_checkLimit now key (Window l) = map_prod id Window (sw_checkLimit now key l)"

type_synonym composite = "any_limiter jsmap"

definition addLimiter :: "string \<Rightarrow> any_limiter \<Rightarrow> composite \<Rightarrow> composite" where
  "addLimiter name l c = AList.update name l c"

fun check_each :: "int \<Rightarrow> string \<Rightarrow> composite \<Rightarrow> RateLimitResult jsmap \<times> composite" where
  "check_each now key [] = ([], [])"
| "check_each now key ((name, l) # c) =
     (let (r, l') = any_checkLimit now key l; (rs, c') = check_each now key c in ((name, r) # rs, (name, l') # c'))"

definition checkAllLimits :: "int \<Rightarrow> string \<Rightarrow> composite \<Rightarrow> (bool \<times> RateLimitResult jsmap) \<times> composite" where
  "checkAllLimits now key c =
     (let (rs, c') = check_each now key c in ((list_all (allowed \<circ> snd) rs, rs), c'))"

definition max_retry :: "RateLimitResult list \<Rightarrow> jsnum option" where
  "max_retry rs = fold (\<lambda>r acc.
     case retryAfterMs r of
       Some ms \<Rightarrow> if \<not> allowed r \<and> truthy ms then
                    (case acc of None \<Rightarrow> Some ms
                     | Some m \<Rightarrow> if \<not> truthy m \<or> js_gt ms m then Some ms else Some m)
                  else acc
     | None \<Rightarrow> acc) rs None"

definition getMaxRetryAfter :: "int \<Rightarrow> string \<Rightarrow> composite \<Rightarrow> jsnum option \<times> composite" where
  "getMaxRetryAfter now key c = (let (rs, c') = check_each now key c in (max_retry (map snd rs), c'))"

subsection \<open>The global limiter\<close>

text \<open>The three limiters live in the composite, under their names.\<close>

definition new_global_limiter :: "int \<Rightarrow> int \<Rightarrow> int \<Rightarrow> composite" where
  "new_global_limiter perSecond perMinute perHour =
     addLimiter ''hour'' (Window (new_sliding_window 3600000 perHour))
      (addLimiter ''minute'' (Window (new_sliding_window 60000 perMinute))
        (addLimiter ''second'' (Bucket (new_token_bucket (num_of_int perSecond) (js_mul (num_of_int perSecond) (num_of_int 2)))) []))"

definition gl_checkLimit :: "int \<Rightarrow> string \<Rightarrow> composite \<Rightarrow> RateLimitResult option \<times> composite" where
  "gl_checkLimit now key c =
     (let ((ok, results), c1) = checkAllLimits now key c;
          (retryAfter, c2) = getMaxRetryAfter now key c1;
          res = (case filter (\<lambda>r. \<not> allowed r) (map snd results) of r # _ \<Rightarrow> Some r | [] \<Rightarrow> map_of results ''second'')
      in (map_option (\<lambda>r. r\<lparr>allowed := ok, retryAfterMs := retryAfter\<rparr>) res, c2))"

definition any_reset :: "string \<Rightarrow> any_limiter \<Rightarrow> any_limiter" where
  "any_reset key l = (case l of Bucket b \<Rightarrow> Bucket (tb_resetBucket key b) | Window w \<Rightarrow> Window (sw_resetWindow key w))"

definition gl_resetKey :: "string \<Rightarrow> composite \<Rightarrow> composite" where
  "gl_resetKey key c = map (map_prod id (any_reset key)) c"

text \<open>\<open>withRateLimit\<close>: the handler runs, or the route answers 429 with the retry delay.\<close>

datatype route_outcome = Handled | TooManyRequests "jsnum option"

definition withRateLimit :: "int \<Rightarrow> string \<Rightarrow> composite \<Rightarrow> route_outcome option \<times> composite" where
  "withRateLimit now key c =
     (let (r, c') = gl_checkLimit now key c
      in (map_option (\<lambda>r. if allowed r then Handled else TooManyRequests (retryAfterMs r)) r, c'))"

subsection \<open>The sliding window keeps its bound\<close>

text \<open>Checks of one key at the given times: the times that were allowed, and the limiter.\<close>

fun sw_checks :: "string \<Rightarrow> int list \<Rightarrow> sliding_window \<Rightarrow> int list \<times> sliding_window" where
  "sw_checks key [] l = ([], l)"
| "sw_checks key (t # ts) l =
     (let (r, l1) = sw_checkLimit t key l; (as, l2) = sw_checks key ts l1 in (if allowed r then t # as else as, l2))"

lemma window_after_check:
  "window_at (snd (sw_checkLimit now key l)) key =
    (let w = filter (\<lambda>time. time > now - windowSize l) (window_at l key)
     in if int (length w) < maxRequests l then w @ [now] else w)"
  by (simp add: sw_checkLimit_def window_at_def Let_def)

lemma check_keeps_limits [simp]:
  "windowSize (snd (sw_checkLimit now key l)) = windowSize l" "maxRequests (snd (sw_checkLimit now key l)) = maxRequests l"
  by (simp_all add: sw_checkLimit_def Let_def)

definition sw_inv :: "string \<Rightarrow> int list \<Rightarrow> int \<Rightarrow> sliding_window \<Rightarrow> bool" where
  "sw_inv key dl now l \<longleftrightarrow> 0 < windowSize l \<and> (\<forall>t \<in> set dl. t \<le> now) \<and>
     (\<forall>t \<ge> now. filter (\<lambda>s. t - s < windowSize l) (window_at l key) = filter (\<lambda>s. t - s < windowSize l) dl) \<and>
     (\<forall>u. in_window (windowSize l) u dl \<le> maxRequests l)"

lemma sw_inv_check:
  assumes inv: "sw_inv key dl t0 l" and "t0 \<le> now"
  shows "sw_inv key (if allowed (fst (sw_checkLimit now key l)) then dl @ [now] else dl) now (snd (sw_checkLimit now key l))"
proof -
  let ?n = "windowSize l" and ?l = "snd (sw_checkLimit now key l)"
  have w: "0 < ?n" and le: "\<forall>t \<in> set dl. t \<le> now" and win: "\<forall>u. in_window ?n u dl \<le> maxRequests l"
    and kept: "\<And>t. now \<le> t \<Longrightarrow> filter (\<lambda>s. t - s < ?n) (window_at l key) = filter (\<lambda>s. t - s < ?n) dl"
    using inv assms(2) unfolding sw_inv_def by force+
  have start: "filter (\<lambda>time. time > now - ?n) (window_at l key) = filter (\<lambda>s. now - s < ?n) dl"
    using kept [of now] by (simp add: algebra_simps)
  have again: "filter (\<lambda>s. t - s < ?n) (filter (\<lambda>s. now - s < ?n) dl) = filter (\<lambda>s. t - s < ?n) dl" if "now \<le> t" for t
    using that by (auto simp: filter_filter intro!: filter_cong)
  have ok: "allowed (fst (sw_checkLimit now key l)) = (int (length (filter (\<lambda>s. now - s < ?n) dl)) < maxRequests l)"
    by (simp add: sw_checkLimit_def Let_def start)
  show ?thesis
  proof (cases "int (length (filter (\<lambda>s. now - s < ?n) dl)) < maxRequests l")
    case True
    have "\<forall>u. in_window ?n u (dl @ [now]) \<le> maxRequests l" using in_window_snoc [OF le win w True] by blast
    then show ?thesis unfolding ok using True w le
      by (auto simp: sw_inv_def window_after_check start again Let_def simp del: filter_filter)
  next
    case False
    then show ?thesis unfolding ok using w le win by (auto simp: sw_inv_def window_after_check start again Let_def simp del: filter_filter)
  qed
qed

lemma sw_checks_inv:
  assumes "sw_inv key dl t0 l" "sorted (t0 # ts)"
  shows "\<exists>t. sw_inv key (dl @ fst (sw_checks key ts l)) t (snd (sw_checks key ts l)) \<and>
    windowSize (snd (sw_checks key ts l)) = windowSize l \<and> maxRequests (snd (sw_checks key ts l)) = maxRequests l"
  using assms
proof (induction ts arbitrary: t0 dl l)
  case (Cons t ts)
  let ?l = "snd (sw_checkLimit t key l)" and ?dl = "if allowed (fst (sw_checkLimit t key l)) then dl @ [t] else dl"
  have "sw_inv key ?dl t ?l" using Cons.prems by (intro sw_inv_check) auto
  moreover have "sorted (t # ts)" using Cons.prems(2) by simp
  ultimately obtain u where "sw_inv key (?dl @ fst (sw_checks key ts ?l)) u (snd (sw_checks key ts ?l))"
    "windowSize (snd (sw_checks key ts ?l)) = windowSize ?l" "maxRequests (snd (sw_checks key ts ?l)) = maxRequests ?l"
    using Cons.IH by blast
  then show ?case by (intro exI [of _ u]) (auto simp: case_prod_unfold Let_def)
qed auto

text \<open>The sliding window keeps its promise exactly: of the checks of one key at any
  non-decreasing times, no window of the configured length, wherever it ends, contains more than
  the allowed number of granted ones.\<close>

theorem sliding_window_bound:
  assumes "0 < sz" "0 \<le> n" "sorted ts"
  shows "in_window sz u (fst (sw_checks key ts (new_sliding_window sz n))) \<le> n"
proof (cases ts)
  case Nil
  then show ?thesis using assms(2) by (simp add: in_window_def)
next
  case (Cons t us)
  have "sw_inv key [] t (new_sliding_window sz n)"
    using assms(1,2) by (simp add: sw_inv_def new_sliding_window_def window_at_def in_window_def)
  then obtain v where "sw_inv key (fst (sw_checks key ts (new_sliding_window sz n))) v (snd (sw_checks key ts (new_sliding_window sz n)))"
    "windowSize (snd (sw_checks key ts (new_sliding_window sz n))) = sz"
    "maxRequests (snd (sw_checks key ts (new_sliding_window sz n))) = n"
    using sw_checks_inv [of key "[]" t "new_sliding_window sz n" ts] assms(3) Cons by (auto simp: new_sliding_window_def)
  then show ?thesis by (auto simp: sw_inv_def)
qed

theorem sliding_window_bound_witness:
  "in_window 60000 5 (fst (sw_checks ''k'' [1, 2, 3] (new_sliding_window 60000 2))) \<le> 2"
  by (rule sliding_window_bound) simp_all

subsection \<open>The token bucket stays within its bounds\<close>

abbreviation nonneg :: "jsnum \<Rightarrow> bool" where
  "nonneg a \<equiv> js_le (Fin 0) a"

lemma nonneg_fl: "0 \<le> x \<Longrightarrow> nonneg (fl x)"
  using fl_mono [of 0 x] by simp

lemma nonneg_mul_pos: "nonneg a \<Longrightarrow> 0 < r \<Longrightarrow> nonneg (js_mul a (Fin r))"
  by (cases a) (auto intro: nonneg_fl simp: signed_inf_def)

lemma nonneg_add: "nonneg a \<Longrightarrow> nonneg b \<Longrightarrow> nonneg (js_add a b)"
  by (cases a; cases b) (auto intro: nonneg_fl)

lemma js_min_range: "nonneg a \<Longrightarrow> 0 \<le> b \<Longrightarrow> \<exists>x. js_min (Fin b) a = Fin x \<and> 0 \<le> x \<and> x \<le> b"
  by (cases a) (auto simp: js_min_def)

definition bucket_ok :: "rat \<Rightarrow> RateLimitBucket \<Rightarrow> bool" where
  "bucket_ok b bk \<longleftrightarrow> (\<exists>x. tokens bk = Fin x \<and> 0 \<le> x \<and> x \<le> b)"

lemma refill_ok:
  assumes "bucket_ok b bk" "burst l = Fin b" "refillRatePerSec l = Fin r" "0 < r" "0 \<le> b" "lastRefillTime bk \<le> now"
  shows "bucket_ok b (tb_refill l now bk)"
proof -
  obtain x where x: "tokens bk = Fin x" "0 \<le> x" using assms(1) by (auto simp: bucket_ok_def)
  have "(0 :: rat) \<le> of_int (now - lastRefillTime bk) / 1000" using assms(6) by simp
  then have "nonneg (js_div (num_of_int (now - lastRefillTime bk)) (num_of_int 1000))" by (simp add: nonneg_fl)
  then have "nonneg (js_add (tokens bk) (js_mul (js_div (num_of_int (now - lastRefillTime bk)) (num_of_int 1000)) (Fin r)))"
    using x assms(4) by (intro nonneg_add nonneg_mul_pos) auto
  then show ?thesis using js_min_range assms(2,3,5) by (simp add: bucket_ok_def tb_refill_def Let_def del: js_div.simps)
qed

lemma take_token_ok:
  assumes "bucket_ok b bk" "js_ge (tokens bk) (num_of_int 1)" "is_dbl (Fin b)"
  shows "bucket_ok b (bk\<lparr>tokens := js_sub (tokens bk) (num_of_int 1), requestCount := n\<rparr>)"
proof -
  obtain x where x: "tokens bk = Fin x" "x \<le> b" "1 \<le> x" using assms(1,2) by (auto simp: bucket_ok_def)
  have "js_le (fl (x - 1)) (fl b)" "nonneg (fl (x - 1))" using x by (auto intro: fl_mono nonneg_fl)
  moreover have "fl b = Fin b" using assms(3) by (rule fl_dbl)
  ultimately obtain y where "fl (x - 1) = Fin y" "0 \<le> y" "y \<le> b" by (cases "fl (x - 1)") auto
  then show ?thesis by (simp add: bucket_ok_def x(1) js_sub_def)
qed

fun tb_checks :: "string \<Rightarrow> int list \<Rightarrow> token_bucket \<Rightarrow> token_bucket" where
  "tb_checks key [] l = l"
| "tb_checks key (t # ts) l = tb_checks key ts (snd (tb_checkLimit t key l))"

definition tb_inv :: "string \<Rightarrow> rat \<Rightarrow> rat \<Rightarrow> rat \<Rightarrow> int \<Rightarrow> token_bucket \<Rightarrow> bool" where
  "tb_inv key m r b now l \<longleftrightarrow> maxTokens l = Fin m \<and> refillRatePerSec l = Fin r \<and> burst l = Fin b \<and>
     (\<forall>bk. map_of (buckets l) key = Some bk \<longrightarrow> bucket_ok b bk \<and> lastRefillTime bk \<le> now)"

lemma tb_inv_check:
  assumes "tb_inv key m r b t0 l" "t0 \<le> now" "0 \<le> m" "m \<le> b" "0 < r" "is_dbl (Fin b)"
  shows "tb_inv key m r b now (snd (tb_checkLimit now key l))"
proof -
  define b0 where "b0 = (case map_of (buckets l) key of
      Some b \<Rightarrow> b | None \<Rightarrow> \<lparr>tokens = maxTokens l, lastRefillTime = now, requestCount = 0\<rparr>)"
  have l: "maxTokens l = Fin m" "refillRatePerSec l = Fin r" "burst l = Fin b" using assms(1) by (auto simp: tb_inv_def)
  have "bucket_ok b b0 \<and> lastRefillTime b0 \<le> now"
    using assms by (force simp: tb_inv_def b0_def bucket_ok_def split: option.split)
  then have ok: "bucket_ok b (tb_refill l now b0)" using refill_ok [of b b0 l r now] l assms(3-5) by simp
  have t: "lastRefillTime (tb_refill l now b0) = now" by (simp add: tb_refill_def Let_def)
  show ?thesis
    using ok t l take_token_ok [OF ok _ assms(6)]
    by (simp add: tb_checkLimit_def b0_def [symmetric] Let_def tb_inv_def)
qed

text \<open>The token bucket never over- or underflows: with a positive rate and an initial fill
  within the burst, the token count after checks at any non-decreasing times is a finite number
  between zero and the burst, rounding included.\<close>

theorem token_bucket_bounds:
  assumes "0 \<le> m" "m \<le> b" "0 < m" "is_dbl (Fin b)" "sorted ts"
    and "map_of (buckets (tb_checks key ts (new_token_bucket (Fin m) (Fin b)))) key = Some bk"
  shows "\<exists>x. tokens bk = Fin x \<and> 0 \<le> x \<and> x \<le> b"
proof -
  have run: "\<exists>t. tb_inv key m m b t (tb_checks key ts l)" if "tb_inv key m m b t0 l" "sorted (t0 # ts)" for t0 l
    using that(1,2)
  proof (induction ts arbitrary: t0 l)
    case (Cons t ts)
    then have "tb_inv key m m b t (snd (tb_checkLimit t key l))" using assms(1-4) by (intro tb_inv_check) auto
    then show ?case using Cons.IH [of t] Cons.prems(2) by simp
  qed auto
  have "tb_inv key m m b t (new_token_bucket (Fin m) (Fin b))" for t by (simp add: tb_inv_def new_token_bucket_def)
  moreover have "sorted ((case ts of [] \<Rightarrow> 0 | t # _ \<Rightarrow> t) # ts)" using assms(5) by (cases ts) auto
  ultimately have "\<exists>t. tb_inv key m m b t (tb_checks key ts (new_token_bucket (Fin m) (Fin b)))" by (rule run)
  then show ?thesis using assms(6) by (auto simp: tb_inv_def bucket_ok_def)
qed

theorem token_bucket_bounds_witness:
  "\<exists>bk x. map_of (buckets (tb_checks ''k'' [10] (new_token_bucket (Fin 2) (Fin 4)))) ''k'' = Some bk \<and>
     tokens bk = Fin x \<and> 0 \<le> x \<and> x \<le> 4"
proof -
  have d: "is_dbl (Fin 4)" using is_dbl_int [of 4] by simp
  have "map_of (buckets (tb_checks ''k'' [10] (new_token_bucket (Fin 2) (Fin 4)))) ''k'' \<noteq> None"
    by (simp add: tb_checkLimit_def new_token_bucket_def Let_def)
  then obtain bk where bk: "map_of (buckets (tb_checks ''k'' [10] (new_token_bucket (Fin 2) (Fin 4)))) ''k'' = Some bk" by blast
  then show ?thesis using token_bucket_bounds [OF _ _ _ d _ bk] by auto
qed

subsection \<open>The global limiter counts twice\<close>

lemma check_each_lookup:
  "map_of (snd (check_each now key c)) name = map_option (\<lambda>l. snd (any_checkLimit now key l)) (map_of c name)"
  by (induction c) (auto simp: case_prod_unfold Let_def)

lemma gl_checkLimit_state:
  "map_of (snd (gl_checkLimit now key c)) name =
    map_option (\<lambda>l. snd (any_checkLimit now key (snd (any_checkLimit now key l)))) (map_of c name)"
  by (simp add: gl_checkLimit_def checkAllLimits_def getMaxRetryAfter_def case_prod_unfold Let_def
      check_each_lookup option.map_comp comp_def)

text \<open>One check of the global limiter takes two slots: the retry computation checks every
  limiter a second time, so a sliding window with room for two more requests records two of them
  for a single call.\<close>

theorem global_limiter_counts_twice:
  assumes "map_of c name = Some (Window l)" "0 < windowSize l"
    and "int (length (filter (\<lambda>t. t > now - windowSize l) (window_at l key))) + 2 \<le> maxRequests l"
  shows "\<exists>l'. map_of (snd (gl_checkLimit now key c)) name = Some (Window l') \<and>
    window_at l' key = filter (\<lambda>t. t > now - windowSize l) (window_at l key) @ [now, now]"
proof -
  let ?l1 = "snd (sw_checkLimit now key l)" and ?w = "filter (\<lambda>t. t > now - windowSize l) (window_at l key)"
  have w1: "window_at ?l1 key = ?w @ [now]" using assms(3) by (simp add: window_after_check Let_def)
  have "filter (\<lambda>t. t > now - windowSize l) (?w @ [now]) = ?w @ [now]" using assms(2) by simp
  then have "window_at (snd (sw_checkLimit now key ?l1)) key = ?w @ [now, now]"
    using assms(3) by (simp add: window_after_check [of now key ?l1] w1 Let_def)
  moreover have "map_of (snd (gl_checkLimit now key c)) name = Some (Window (snd (sw_checkLimit now key ?l1)))"
    by (simp add: gl_checkLimit_state assms(1))
  ultimately show ?thesis by blast
qed

theorem global_limiter_counts_twice_witness:
  "\<exists>l'. map_of (snd (gl_checkLimit 7 ''k'' (new_global_limiter 1000 50000 500000))) ''minute'' = Some (Window l') \<and>
     window_at l' ''k'' = [7, 7]"
  using global_limiter_counts_twice [of "new_global_limiter 1000 50000 500000" "''minute''" "new_sliding_window 60000 50000" 7 "''k''"]
  by (simp add: new_global_limiter_def addLimiter_def new_sliding_window_def window_at_def)

end
