(* ===== verification/BoundedConcurrency.thy ===== *)
theory BoundedConcurrency
  imports JsText
begin

text \<open>
  Bounded concurrency, \<open>lib/bounded-concurrency.ts\<close>: the clamp of a requested lane count, the
  worker pool behind \<open>mapWithConcurrency\<close> and its siblings, and the shared adaptive limiter.  The
  pool runs asynchronously, so it is a step relation over the items started, running and settled;
  what the mapper makes of item \<open>i\<close> is the parameter \<open>out i\<close>, and completions come in any order.
\<close>

subsection \<open>Clamping\<close>

datatype raw_count = RawUndefined | RawNumber jsnum | RawText string

definition clampConcurrency :: "raw_count \<Rightarrow> jsnum \<Rightarrow> jsnum \<Rightarrow> jsnum \<Rightarrow> jsnum" where
  "clampConcurrency raw fallback maximum itemCount =
     (let parsed = (case raw of RawNumber x \<Rightarrow> x | RawText s \<Rightarrow> js_parseInt s | RawUndefined \<Rightarrow> js_parseInt []);
          resolved = (if js_isFinite parsed \<and> js_gt parsed (Fin 0) then js_floor parsed else js_floor fallback);
          finiteItemCount = (if js_isFinite itemCount then js_max (num_of_int 1) (js_floor itemCount) else maximum)
      in js_max (num_of_int 1)
           (js_min (js_min resolved (js_max (num_of_int 1) (js_floor maximum))) finiteItemCount))"

fun concurrencyFromEnv :: "(string \<Rightarrow> string option) \<Rightarrow> string list \<Rightarrow> jsnum \<Rightarrow> jsnum \<Rightarrow> jsnum \<Rightarrow> jsnum" where
  "concurrencyFromEnv env [] fallback maximum itemCount = clampConcurrency RawUndefined fallback maximum itemCount"
| "concurrencyFromEnv env (name # names) fallback maximum itemCount =
     (case env name of
        Some raw \<Rightarrow> if raw \<noteq> [] then clampConcurrency (RawText raw) fallback maximum itemCount
                    else concurrencyFromEnv env names fallback maximum itemCount
      | None \<Rightarrow> concurrencyFromEnv env names fallback maximum itemCount)"

subsection \<open>The worker pool\<close>

text \<open>
  \<open>Fixed\<close> is the pool of \<open>limit\<close> workers, in which a worker ends with the item that fails and
  the others go on; \<open>Adaptive\<close> samples its lanes and starts nothing once its race has thrown.  The race
  only sees the first settlement of a turn: when a sibling succeeded in the same turn, a failed task has left the
  set of active ones before the next race and its failure is not seen.  The failure the caller gets is \<open>surfaced\<close>.
\<close>

datatype pool_mode = Fixed | Adaptive

record ('e, 'r) pool =
  nextIndex :: nat
  running :: "nat list"
  results :: "nat \<rightharpoonup> 'r"
  errors :: "(nat \<times> 'e) list"
  surfaced :: "'e option"

definition pool_start :: "('e, 'r) pool" where
  "pool_start = \<lparr>nextIndex = 0, running = [], results = Map.empty, errors = [], surfaced = None\<rparr>"

definition lane_free :: "pool_mode \<Rightarrow> nat \<Rightarrow> ('e, 'r) pool \<Rightarrow> bool" where
  "lane_free mode lanes p =
     (case mode of
        Fixed \<Rightarrow> length (running p) + length (errors p) < lanes
      | Adaptive \<Rightarrow> surfaced p = None \<and> length (running p) < lanes)"

text \<open>Take the next item on a free lane; settle a running item, whose failure is seen or lost.\<close>

definition pool_launch :: "('e, 'r) pool \<Rightarrow> ('e, 'r) pool" where
  "pool_launch p = p\<lparr>nextIndex := Suc (nextIndex p), running := running p @ [nextIndex p]\<rparr>"

definition pool_settle :: "bool \<Rightarrow> nat \<Rightarrow> 'e + 'r \<Rightarrow> ('e, 'r) pool \<Rightarrow> ('e, 'r) pool" where
  "pool_settle lost i res p =
     (let p' = p\<lparr>running := remove1 i (running p)\<rparr>
      in case res of
           Inr v \<Rightarrow> p'\<lparr>results := (results p')(i \<mapsto> v)\<rparr>
         | Inl e \<Rightarrow> p'\<lparr>errors := errors p' @ [(i, e)], surfaced := (if lost \<or> surfaced p' \<noteq> None then surfaced p' else Some e)\<rparr>)"

text \<open>
  The lanes of a step are sampled, and never exceed the pool's limit.  A failure can only be lost in
  the adaptive mode, after a sibling has succeeded.
\<close>

definition can_lose :: "pool_mode \<Rightarrow> ('e, 'r) pool \<Rightarrow> bool" where
  "can_lose mode p = (mode = Adaptive \<and> results p \<noteq> Map.empty)"

inductive pool_step :: "pool_mode \<Rightarrow> nat \<Rightarrow> nat \<Rightarrow> (nat \<Rightarrow> 'e + 'r) \<Rightarrow> ('e, 'r) pool \<Rightarrow> ('e, 'r) pool \<Rightarrow> bool"
  for mode n limit out where
  launch: "nextIndex p < n \<Longrightarrow> lanes \<le> limit \<Longrightarrow> lane_free mode lanes p \<Longrightarrow> pool_step mode n limit out p (pool_launch p)"
| settle: "i \<in> set (running p) \<Longrightarrow> lost \<longrightarrow> can_lose mode p \<Longrightarrow> pool_step mode n limit out p (pool_settle lost i (out i) p)"

definition pool_inv :: "nat \<Rightarrow> nat \<Rightarrow> (nat \<Rightarrow> 'e + 'r) \<Rightarrow> ('e, 'r) pool \<Rightarrow> bool" where
  "pool_inv n limit out p \<longleftrightarrow>
     nextIndex p \<le> n \<and> distinct (running p) \<and> length (running p) \<le> limit \<and>
     set (running p) \<union> dom (results p) \<union> fst ` set (errors p) = {..<nextIndex p} \<and>
     set (running p) \<inter> dom (results p) = {} \<and> set (running p) \<inter> fst ` set (errors p) = {} \<and>
     (\<forall>i v. results p i = Some v \<longrightarrow> out i = Inr v) \<and> (\<forall>(i, e) \<in> set (errors p). out i = Inl e) \<and>
     (\<forall>e. surfaced p = Some e \<longrightarrow> e \<in> snd ` set (errors p))"

lemma pool_inv_step:
  assumes "pool_step mode n limit out p p'" "pool_inv n limit out p"
  shows "pool_inv n limit out p'"
  using assms
proof (induction rule: pool_step.induct)
  case (launch p lanes)
  then have "length (running p) < limit" by (auto simp: lane_free_def split: pool_mode.splits)
  moreover have "nextIndex p \<notin> set (running p)" "nextIndex p \<notin> dom (results p)" "nextIndex p \<notin> fst ` set (errors p)"
    using launch.prems unfolding pool_inv_def by blast+
  ultimately show ?case using launch(1) launch.prems
    by (auto simp: pool_inv_def pool_launch_def lessThan_Suc)
next
  case (settle i p lost)
  have u: "set (running p) \<union> dom (results p) \<union> fst ` set (errors p) = {..<nextIndex p}" and d: "distinct (running p)"
    using settle.prems by (auto simp: pool_inv_def)
  have l: "length (remove1 i (running p)) \<le> length (running p)" by (simp add: length_remove1)
  have s: "set (remove1 i (running p)) = set (running p) - {i}" using d by simp
  show ?case
  proof (cases "out i")
    case (Inl e)
    then have "pool_settle lost i (out i) p = p\<lparr>running := remove1 i (running p), errors := errors p @ [(i, e)],
        surfaced := (if lost \<or> surfaced p \<noteq> None then surfaced p else Some e)\<rparr>" by (simp add: pool_settle_def Let_def)
    moreover have "\<forall>e'. (if lost \<or> surfaced p \<noteq> None then surfaced p else Some e) = Some e' \<longrightarrow> e' \<in> snd ` set (errors p @ [(i, e)])"
      using settle.prems by (auto simp: pool_inv_def split: if_splits)
    ultimately show ?thesis using settle l s d u Inl unfolding pool_inv_def by simp blast
  next
    case (Inr v)
    then show ?thesis using settle l s d u unfolding pool_inv_def pool_settle_def by (simp add: Let_def) blast
  qed
qed

lemma pool_inv_reach:
  "(pool_step mode n limit out)\<^sup>*\<^sup>* pool_start p \<Longrightarrow> pool_inv n limit out p"
proof (induction rule: rtranclp_induct)
  case base
  show ?case by (simp add: pool_inv_def pool_start_def)
next
  case (step p p')
  then show ?case by (blast intro: pool_inv_step)
qed

text \<open>C33. The pool runs every item exactly once within its limit: in every reachable state, in
  either mode, at most \<open>limit\<close> items are running, no item is running twice or again after it
  settled, the items started are a prefix of the input, and each recorded result or error is the
  mapper's own for that item.\<close>

theorem pool_exactly_once:
  assumes "(pool_step mode n limit out)\<^sup>*\<^sup>* pool_start p"
  shows "length (running p) \<le> limit \<and> distinct (running p) \<and>
    set (running p) \<union> dom (results p) \<union> fst ` set (errors p) = {..<nextIndex p} \<and>
    set (running p) \<inter> (dom (results p) \<union> fst ` set (errors p)) = {} \<and>
    (\<forall>i v. results p i = Some v \<longrightarrow> out i = Inr v)"
  using pool_inv_reach [OF assms] unfolding pool_inv_def by blast

theorem pool_exactly_once_witness:
  "length (running (pool_launch pool_start :: (unit, nat) pool)) \<le> 2"
proof -
  have "pool_step Fixed 3 2 (\<lambda>i. Inr i :: unit + nat) pool_start (pool_launch pool_start)"
    by (rule launch [of _ _ 2]) (simp_all add: pool_start_def lane_free_def)
  then show ?thesis using pool_exactly_once by blast
qed

text \<open>The array \<open>mapWithConcurrency\<close> returns once the pool has drained.\<close>

definition pool_result :: "nat \<Rightarrow> ('e, 'r) pool \<Rightarrow> 'r option list" where
  "pool_result n p = map (results p) [0..<n]"

text \<open>A drained pool without failures has mapped the whole input in order: when nothing is
  running, nothing failed and no step is possible, the result array is the mapper's results in
  input order.\<close>

theorem pool_complete:
  assumes "(pool_step mode n limit out)\<^sup>*\<^sup>* pool_start p" "0 < limit"
    and "errors p = []" "\<And>p'. \<not> pool_step mode n limit out p p'"
  shows "map Inr (map the (pool_result n p)) = map out [0..<n]"
proof -
  have inv: "pool_inv n limit out p" by (rule pool_inv_reach [OF assms(1)])
  have run: "running p = []"
  proof (rule ccontr)
    assume "running p \<noteq> []"
    then have "hd (running p) \<in> set (running p)" by simp
    then show False using assms(4) settle [of _ p False] by blast
  qed
  have none: "surfaced p = None" using inv assms(3) by (cases "surfaced p") (auto simp: pool_inv_def)
  have "nextIndex p = n"
  proof (rule ccontr)
    assume "nextIndex p \<noteq> n"
    then have "nextIndex p < n" using inv by (simp add: pool_inv_def)
    moreover have "lane_free mode limit p" using assms(2,3) run none by (cases mode) (simp_all add: lane_free_def)
    ultimately show False using assms(4) launch by blast
  qed
  then have "dom (results p) = {..<n}" "\<And>i v. results p i = Some v \<Longrightarrow> out i = Inr v"
    using inv run assms(3) by (simp_all add: pool_inv_def)
  then have "\<exists>v. results p i = Some v \<and> out i = Inr v" if "i < n" for i using that by (metis domD lessThan_iff)
  then show ?thesis by (force simp: pool_result_def)
qed

theorem pool_complete_witness:
  "map Inr (map the (pool_result 1 (pool_settle False 0 (Inr 7) (pool_launch pool_start) :: (unit, nat) pool))) =
   map (\<lambda>i. Inr 7 :: unit + nat) [0..<1]"
proof (rule pool_complete [where mode = Fixed and limit = 1])
  let ?step = "pool_step Fixed 1 1 (\<lambda>i. Inr 7 :: unit + nat)"
  have "?step pool_start (pool_launch pool_start)"
    by (rule launch [of _ _ 1]) (simp_all add: pool_start_def lane_free_def)
  moreover have "?step (pool_launch pool_start) (pool_settle False 0 (Inr 7) (pool_launch pool_start))"
    by (rule settle) (simp_all add: pool_start_def pool_launch_def)
  ultimately show "?step\<^sup>*\<^sup>* pool_start (pool_settle False 0 (Inr 7) (pool_launch pool_start))" by simp
  show "\<not> ?step (pool_settle False 0 (Inr 7) (pool_launch pool_start)) p'" for p'
    by (auto simp: pool_start_def pool_launch_def pool_settle_def elim: pool_step.cases)
qed (simp_all add: pool_start_def pool_launch_def pool_settle_def)

subsection \<open>The pool comes to an end\<close>

definition pool_work :: "nat \<Rightarrow> ('e, 'r) pool \<Rightarrow> nat" where
  "pool_work n p = 2 * (n - nextIndex p) + length (running p)"

lemma pool_step_work: "pool_step mode n limit out p q \<Longrightarrow> pool_work n p = Suc (pool_work n q)"
proof (induction rule: pool_step.induct)
  case (launch p lanes)
  then show ?case by (simp add: pool_work_def pool_launch_def)
next
  case (settle i p lost)
  then have "length (running p) = Suc (length (remove1 i (running p)))" by (metis One_nat_def Suc_pred length_pos_if_in_set length_remove1)
  then show ?case by (simp add: pool_work_def pool_settle_def Let_def split: sum.split)
qed

lemma pool_run_work: "(pool_step mode n limit out ^^ k) p q \<Longrightarrow> pool_work n p = k + pool_work n q"
  by (induction k arbitrary: q) (auto dest: pool_step_work)

lemma pool_drains: "\<exists>q. (pool_step mode n limit out)\<^sup>*\<^sup>* p q \<and> (\<forall>q'. \<not> pool_step mode n limit out q q')"
proof (induction "pool_work n p" arbitrary: p rule: less_induct)
  case less
  show ?case
  proof (cases "\<exists>p'. pool_step mode n limit out p p'")
    case True
    then obtain p' where s: "pool_step mode n limit out p p'" by blast
    then have "pool_work n p' < pool_work n p" using pool_step_work by fastforce
    then obtain q where "(pool_step mode n limit out)\<^sup>*\<^sup>* p' q" "\<forall>q'. \<not> pool_step mode n limit out q q'" using less by blast
    then show ?thesis using s by (meson converse_rtranclp_into_rtranclp)
  qed blast
qed

text \<open>C40. The pool always comes to an end: no schedule of starts and completions takes more than two
  steps per item, and from wherever it stands the pool can be run on to a state in which nothing is
  left to do; if no item failed there, the result array holds every item's result in input order.\<close>

theorem pool_terminates:
  assumes "(pool_step mode n limit out ^^ k) pool_start p" "0 < limit"
  shows "k \<le> 2 * n \<and> (\<exists>q. (pool_step mode n limit out)\<^sup>*\<^sup>* p q \<and> (\<forall>q'. \<not> pool_step mode n limit out q q') \<and>
    (errors q = [] \<longrightarrow> map Inr (map the (pool_result n q)) = map out [0..<n]))"
proof -
  have "pool_work n (pool_start :: ('a, 'b) pool) = 2 * n" by (simp add: pool_work_def pool_start_def)
  then have k: "k \<le> 2 * n" using pool_run_work [OF assms(1)] by simp
  obtain q where q: "(pool_step mode n limit out)\<^sup>*\<^sup>* p q" "\<forall>q'. \<not> pool_step mode n limit out q q'" using pool_drains by blast
  have "(pool_step mode n limit out)\<^sup>*\<^sup>* pool_start q" using relpowp_imp_rtranclp [OF assms(1)] q(1) by (rule rtranclp_trans)
  then have "errors q = [] \<longrightarrow> map Inr (map the (pool_result n q)) = map out [0..<n]" using pool_complete [OF _ assms(2)] q(2) by blast
  with k q show ?thesis by blast
qed

theorem pool_terminates_witness:
  "\<exists>q. (pool_step Adaptive 3 2 (\<lambda>i. Inr i :: unit + nat))\<^sup>*\<^sup>* (pool_launch pool_start) q \<and> (\<forall>q'. \<not> pool_step Adaptive 3 2 (\<lambda>i. Inr i) q q')"
proof -
  have "pool_step Adaptive 3 2 (\<lambda>i. Inr i :: unit + nat) pool_start (pool_launch pool_start)"
    by (rule launch [of _ _ 2]) (simp_all add: pool_start_def lane_free_def)
  then have "(pool_step Adaptive 3 2 (\<lambda>i. Inr i :: unit + nat) ^^ 1) pool_start (pool_launch pool_start)" unfolding relpowp_1 .
  from pool_terminates [OF this] show ?thesis by auto
qed

text \<open>What the callers see: the first failure that was seen, or the results; \<open>mapSettled\<close> turns every
  failure into a result of its own.\<close>

definition mapWithConcurrency :: "nat \<Rightarrow> ('e, 'r) pool \<Rightarrow> 'e + 'r option list" where
  "mapWithConcurrency n p = (case surfaced p of None \<Rightarrow> Inr (pool_result n p) | Some e \<Rightarrow> Inl e)"

text \<open>The fixed pool reports a failure whenever there was one; the adaptive one can lose it and return a hole.\<close>

lemma fixed_pool_reports:
  assumes "(pool_step Fixed n limit out)\<^sup>*\<^sup>* pool_start p" "errors p \<noteq> []"
  shows "\<exists>e. mapWithConcurrency n p = Inl e"
proof -
  have "errors p \<noteq> [] \<longrightarrow> surfaced p \<noteq> None"
    using assms(1)
  proof (induction rule: rtranclp_induct)
    case (step p q)
    from step(2,3) show ?case
      by (induction rule: pool_step.induct) (auto simp: pool_launch_def pool_settle_def can_lose_def Let_def split: sum.splits)
  qed (simp add: pool_start_def)
  then show ?thesis using assms(2) by (auto simp: mapWithConcurrency_def)
qed

lemma adaptive_pool_loses_failure:
  "\<exists>p. (pool_step Adaptive 2 2 (\<lambda>i. if i = 0 then Inr 7 else Inl ()))\<^sup>*\<^sup>* pool_start p \<and> running p = [] \<and> nextIndex p = 2 \<and>
     mapWithConcurrency 2 p = Inr [Some (7 :: nat), None]"
proof -
  let ?step = "pool_step Adaptive 2 2 (\<lambda>i. if i = 0 then Inr (7 :: nat) else Inl ())"
  let ?b = "pool_launch (pool_launch pool_start) :: (unit, nat) pool"
  let ?c = "pool_settle False 0 (Inr 7) ?b"
  let ?d = "pool_settle True 1 (Inl ()) ?c"
  have "?step pool_start (pool_launch pool_start)" "?step (pool_launch pool_start) ?b"
    by (rule launch [of _ _ 2]; simp add: pool_start_def pool_launch_def lane_free_def)+
  moreover have "?step ?b ?c" using settle [of 0 ?b False Adaptive 2 2 "\<lambda>i. if i = 0 then Inr 7 else Inl ()"] by (simp add: pool_start_def pool_launch_def)
  moreover have "?step ?c ?d" using settle [of 1 ?c True Adaptive 2 2 "\<lambda>i. if i = 0 then Inr 7 else Inl ()"]
    by (simp add: pool_start_def pool_launch_def pool_settle_def can_lose_def)
  ultimately have "?step\<^sup>*\<^sup>* pool_start ?d" by (meson converse_rtranclp_into_rtranclp rtranclp.rtrancl_refl)
  moreover have "running ?d = [] \<and> nextIndex ?d = 2 \<and> mapWithConcurrency 2 ?d = Inr [Some 7, None]"
    by (simp add: pool_start_def pool_launch_def pool_settle_def mapWithConcurrency_def pool_result_def upt_rec)
  ultimately show ?thesis by blast
qed

definition settled :: "(nat \<Rightarrow> 'e + 'r) \<Rightarrow> nat \<Rightarrow> 'x + ('e + 'r)" where
  "settled out i = Inr (out i)"

lemma settled_pool_never_fails:
  assumes "(pool_step mode n limit (settled out))\<^sup>*\<^sup>* pool_start p"
  shows "errors p = []"
  using pool_inv_reach [OF assms] by (cases "errors p") (auto simp: pool_inv_def settled_def)

subsection \<open>The adaptive limiter\<close>

record adaptive =
  hardLimit :: int
  activeCount :: int
  waiting :: "nat list"

definition createAdaptiveConcurrencyLimiter :: "raw_count \<Rightarrow> jsnum" where
  "createAdaptiveConcurrencyLimiter concurrency = clampConcurrency concurrency (num_of_int 1) (num_of_int 1024) PInf"

text \<open>
  The sampler of \<open>desiredConcurrency\<close>: none, one that throws, or one that returns a number.
\<close>

datatype sampler = NoSampler | Throws | Samples jsnum

definition desiredConcurrency :: "sampler \<Rightarrow> int \<Rightarrow> jsnum" where
  "desiredConcurrency s hard =
     (case s of NoSampler \<Rightarrow> num_of_int hard | Throws \<Rightarrow> num_of_int 1
      | Samples x \<Rightarrow> clampConcurrency (RawNumber x) (num_of_int 1) (num_of_int hard) PInf)"

function ac_drain :: "jsnum \<Rightarrow> adaptive \<Rightarrow> nat list \<times> adaptive" where
  "ac_drain desired a =
     (case waiting a of
        [] \<Rightarrow> ([], a)
      | q # qs \<Rightarrow>
          if js_lt (num_of_int (activeCount a)) desired
          then let (started, a') = ac_drain desired (a\<lparr>activeCount := activeCount a + 1, waiting := qs\<rparr>) in (q # started, a')
          else ([], a))"
  by pat_completeness auto
termination by (relation "measure (\<lambda>(_, a). length (waiting a))") auto

declare ac_drain.simps [simp del]

definition ac_acquire :: "sampler \<Rightarrow> nat \<Rightarrow> adaptive \<Rightarrow> nat list \<times> adaptive" where
  "ac_acquire s i a = ac_drain (desiredConcurrency s (hardLimit a)) (a\<lparr>waiting := waiting a @ [i]\<rparr>)"

definition ac_release :: "sampler \<Rightarrow> adaptive \<Rightarrow> nat list \<times> adaptive" where
  "ac_release s a = ac_drain (desiredConcurrency s (hardLimit a)) (a\<lparr>activeCount := max 0 (activeCount a - 1)\<rparr>)"

datatype ac_event = Acquire sampler nat | Release sampler

fun ac_run :: "ac_event list \<Rightarrow> adaptive \<Rightarrow> nat list \<times> adaptive" where
  "ac_run [] a = ([], a)"
| "ac_run (Acquire s i # es) a = (let (st, a1) = ac_acquire s i a; (sts, a2) = ac_run es a1 in (st @ sts, a2))"
| "ac_run (Release s # es) a = (let (st, a1) = ac_release s a; (sts, a2) = ac_run es a1 in (st @ sts, a2))"

fun ac_arrivals :: "ac_event list \<Rightarrow> nat list" where
  "ac_arrivals [] = []"
| "ac_arrivals (Acquire s i # es) = i # ac_arrivals es"
| "ac_arrivals (Release s # es) = ac_arrivals es"

lemma clamp_bounds:
  assumes "1 \<le> hard" "fallback = num_of_int f" "1 \<le> f"
  shows "\<exists>d. clampConcurrency raw fallback (num_of_int hard) PInf = num_of_int d \<and> 1 \<le> d \<and> d \<le> hard"
proof -
  define parsed where "parsed = (case raw of RawNumber x \<Rightarrow> x | RawText s \<Rightarrow> js_parseInt s | RawUndefined \<Rightarrow> js_parseInt [])"
  have "\<exists>k. (if js_isFinite parsed \<and> js_gt parsed (Fin 0) then js_floor parsed else js_floor fallback) = num_of_int k"
    using assms(2) by (cases parsed) (auto simp: js_isFinite_def)
  then obtain k where k: "(if js_isFinite parsed \<and> js_gt parsed (Fin 0) then js_floor parsed else js_floor fallback) = num_of_int k" by blast
  have mx: "js_max (num_of_int a) (num_of_int b) = num_of_int (max a b)" for a b by (simp add: of_int_max)
  have mn: "js_min (num_of_int a) (num_of_int b) = num_of_int (min a b)" for a b by (simp add: of_int_min)
  have "clampConcurrency raw fallback (num_of_int hard) PInf = num_of_int (max 1 (min (min k (max 1 hard)) hard))"
    unfolding clampConcurrency_def Let_def parsed_def [symmetric] k
    by (simp only: mx mn js_floor.simps floor_of_int js_isFinite_def jsnum.simps if_False)
  then show ?thesis using assms(1) by auto
qed

lemma desired_bounds: "1 \<le> hard \<Longrightarrow> \<exists>d. desiredConcurrency s hard = num_of_int d \<and> 1 \<le> d \<and> d \<le> hard"
  using clamp_bounds [of hard "num_of_int 1" 1] by (cases s) (auto simp: desiredConcurrency_def)

definition ac_inv :: "adaptive \<Rightarrow> bool" where
  "ac_inv a \<longleftrightarrow> 1 \<le> hardLimit a \<and> 0 \<le> activeCount a \<and> activeCount a \<le> hardLimit a"

lemma ac_drain_spec:
  assumes "ac_inv a" "desired = num_of_int d" "1 \<le> d" "d \<le> hardLimit a"
  shows "ac_inv (snd (ac_drain desired a)) \<and> fst (ac_drain desired a) @ waiting (snd (ac_drain desired a)) = waiting a \<and>
    hardLimit (snd (ac_drain desired a)) = hardLimit a \<and>
    (waiting (snd (ac_drain desired a)) \<noteq> [] \<longrightarrow> d \<le> activeCount (snd (ac_drain desired a)))"
  using assms
proof (induction desired a rule: ac_drain.induct)
  case (1 desired a)
  show ?case
  proof (cases "waiting a")
    case Nil
    then show ?thesis using 1 by (subst (1 2 3 4 5 6) ac_drain.simps) simp
  next
    case (Cons q qs)
    let ?a = "a\<lparr>activeCount := activeCount a + 1, waiting := qs\<rparr>"
    show ?thesis
    proof (cases "activeCount a < d")
      case True
      then have dr: "ac_drain desired a = (q # fst (ac_drain desired ?a), snd (ac_drain desired ?a))"
        using Cons "1.prems"(2) by (subst ac_drain.simps) (simp add: case_prod_unfold Let_def)
      have "ac_inv ?a" using "1.prems" True by (auto simp: ac_inv_def)
      moreover have "js_lt (num_of_int (activeCount a)) desired" using True "1.prems"(2) by simp
      ultimately have "ac_inv (snd (ac_drain desired ?a)) \<and> fst (ac_drain desired ?a) @ waiting (snd (ac_drain desired ?a)) = qs \<and>
          hardLimit (snd (ac_drain desired ?a)) = hardLimit a \<and>
          (waiting (snd (ac_drain desired ?a)) \<noteq> [] \<longrightarrow> d \<le> activeCount (snd (ac_drain desired ?a)))"
        using "1.IH" [OF Cons] "1.prems" by simp
      then show ?thesis unfolding dr using Cons by simp
    next
      case False
      then have "ac_drain desired a = ([], a)" using Cons "1.prems"(2) by (subst ac_drain.simps) simp
      then show ?thesis using "1.prems" False by simp
    qed
  qed
qed

lemma ac_step_spec:
  assumes "ac_inv a" and q: "b = a\<lparr>waiting := ws\<rparr> \<or> b = a\<lparr>activeCount := max 0 (activeCount a - 1)\<rparr>"
  shows "ac_inv (snd (ac_drain (desiredConcurrency s (hardLimit a)) b)) \<and>
    fst (ac_drain (desiredConcurrency s (hardLimit a)) b) @ waiting (snd (ac_drain (desiredConcurrency s (hardLimit a)) b)) = waiting b \<and>
    hardLimit (snd (ac_drain (desiredConcurrency s (hardLimit a)) b)) = hardLimit a \<and>
    (waiting (snd (ac_drain (desiredConcurrency s (hardLimit a)) b)) \<noteq> [] \<longrightarrow>
      1 \<le> activeCount (snd (ac_drain (desiredConcurrency s (hardLimit a)) b)))"
proof -
  have b: "ac_inv b" "hardLimit b = hardLimit a" using assms by (auto simp: ac_inv_def)
  obtain d where d: "desiredConcurrency s (hardLimit a) = num_of_int d" "1 \<le> d" "d \<le> hardLimit b"
    using desired_bounds [of "hardLimit a" s] assms(1) b(2) by (auto simp: ac_inv_def)
  from ac_drain_spec [OF b(1) d] b(2) d(2) show ?thesis by auto
qed

text \<open>The shared limiter is fair, bounded and live: over any sequence of arrivals and releases,
  with whatever lane counts the sampler returns, it never has more tasks active than its hard
  limit, it starts tasks in the order of their arrival, and it never leaves a task waiting while
  nothing is active.\<close>

theorem adaptive_limiter_correct:
  assumes "1 \<le> hard"
  shows "case ac_run es \<lparr>hardLimit = hard, activeCount = 0, waiting = []\<rparr> of (started, a) \<Rightarrow>
    0 \<le> activeCount a \<and> activeCount a \<le> hard \<and> started @ waiting a = ac_arrivals es \<and>
    (waiting a \<noteq> [] \<longrightarrow> 1 \<le> activeCount a)"
proof -
  have "ac_inv (snd (ac_run es a)) \<and> fst (ac_run es a) @ waiting (snd (ac_run es a)) = waiting a @ ac_arrivals es \<and>
      hardLimit (snd (ac_run es a)) = hardLimit a \<and> (waiting (snd (ac_run es a)) \<noteq> [] \<longrightarrow> 1 \<le> activeCount (snd (ac_run es a)))"
    if "ac_inv a" "waiting a \<noteq> [] \<longrightarrow> 1 \<le> activeCount a" for a
    using that
  proof (induction es arbitrary: a)
    case (Cons e es)
    define r where "r = (case e of Acquire s i \<Rightarrow> ac_acquire s i a | Release s \<Rightarrow> ac_release s a)"
    have run: "ac_run (e # es) a = (fst r @ fst (ac_run es (snd r)), snd (ac_run es (snd r)))"
      by (cases e) (simp_all add: r_def case_prod_unfold Let_def)
    have spec: "ac_inv (snd r) \<and> fst r @ waiting (snd r) = waiting a @ (case e of Acquire s i \<Rightarrow> [i] | Release s \<Rightarrow> []) \<and>
        hardLimit (snd r) = hardLimit a \<and> (waiting (snd r) \<noteq> [] \<longrightarrow> 1 \<le> activeCount (snd r))"
      using ac_step_spec [OF Cons.prems(1) disjI1 [OF refl]] ac_step_spec [OF Cons.prems(1) disjI2 [OF refl]]
      by (cases e) (simp_all add: r_def ac_acquire_def ac_release_def)
    then have ih: "ac_inv (snd (ac_run es (snd r))) \<and>
        fst (ac_run es (snd r)) @ waiting (snd (ac_run es (snd r))) = waiting (snd r) @ ac_arrivals es \<and>
        hardLimit (snd (ac_run es (snd r))) = hardLimit (snd r) \<and>
        (waiting (snd (ac_run es (snd r))) \<noteq> [] \<longrightarrow> 1 \<le> activeCount (snd (ac_run es (snd r))))"
      by (intro Cons.IH) auto
    have "ac_arrivals (e # es) = (case e of Acquire s i \<Rightarrow> [i] | Release s \<Rightarrow> []) @ ac_arrivals es" by (cases e) auto
    then have "fst r @ waiting (snd r) @ ac_arrivals es = waiting a @ ac_arrivals (e # es)"
      using spec by (metis append.assoc)
    with ih spec show ?case unfolding run fst_conv snd_conv append.assoc by simp
  qed simp
  from this [of "\<lparr>hardLimit = hard, activeCount = 0, waiting = []\<rparr>"] assms
  show ?thesis by (auto simp: ac_inv_def case_prod_unfold)
qed

theorem adaptive_limiter_correct_witness:
  "activeCount (snd (ac_run [Acquire NoSampler 1, Acquire Throws 2, Release Throws] \<lparr>hardLimit = 2, activeCount = 0, waiting = []\<rparr>)) \<le> 2"
  using adaptive_limiter_correct [of 2 "[Acquire NoSampler 1, Acquire Throws 2, Release Throws]"] by (simp add: case_prod_unfold)

end
