(* ===== verification/LiveQuantities.thy ===== *)
theory LiveQuantities
  imports JsText
begin

text \<open>
  Quantity bookkeeping of the live stage: the idempotent reduction of a position by cumulative
  fills, the split of a quantity over strategy sets, the bounded execution ledger and the control
  order barrier of \<open>lib/live-order-coordination.ts\<close>, and the adjustment ledger of
  \<open>lib/exchange-quantity-ledger.ts\<close>.  Every quantity is a double and every operation rounds as
  the program's does.  The lemmas show that twelve-decimal quantities below 2048 units behave like
  exact decimals: each is the double nearest to a whole number of units of \<open>1e-12\<close>, and the
  rounded sums and differences are the doubles nearest to the exact ones.
\<close>

subsection \<open>Cumulative reductions\<close>

definition finiteNonNegative :: "jsnum \<Rightarrow> jsnum" where
  "finiteNonNegative v = (if js_isFinite v \<and> js_gt v (Fin 0) then v else Fin 0)"

definition roundQuantity :: "jsnum \<Rightarrow> jsnum" where
  "roundQuantity v = num_toFixed 12 (js_max (Fin 0) v)"

record CumulativeReductionResult =
  deltaApplied :: jsnum
  cumulativeApplied :: jsnum
  nextQuantity :: jsnum

definition reconcileCumulativeReduction ::
  "jsnum \<Rightarrow> jsnum \<Rightarrow> jsnum \<Rightarrow> jsnum option \<Rightarrow> CumulativeReductionResult" where
  "reconcileCumulativeReduction currentQuantity reportedFilledQuantity previouslyAppliedQuantity authoritativeQuantity =
     (let curr = finiteNonNegative currentQuantity;
          reported = finiteNonNegative reportedFilledQuantity;
          appliedBefore = finiteNonNegative previouslyAppliedQuantity;
          fromCumulative = js_max (Fin 0) (js_sub reported appliedBefore);
          fromAuthoritative = (case authoritativeQuantity of
              None \<Rightarrow> Fin 0
            | Some a \<Rightarrow> js_max (Fin 0) (js_sub curr (js_min curr (finiteNonNegative a))));
          delta = roundQuantity (js_min curr (js_max fromCumulative fromAuthoritative))
      in \<lparr>deltaApplied = delta, cumulativeApplied = roundQuantity (js_add appliedBefore delta),
          nextQuantity = roundQuantity (js_sub curr delta)\<rparr>)"

subsection \<open>Allocation over sets\<close>

definition unique_keys :: "string list \<Rightarrow> string list" where
  "unique_keys ks = fold jsset_add (filter (\<lambda>k. k \<noteq> []) (map trim ks)) []"

text \<open>The loop over the keys: \<open>v\<close> for all but the last, which gets the remainder.\<close>

fun allocate_loop :: "jsnum \<Rightarrow> (string \<times> jsnum) list \<Rightarrow> jsnum \<Rightarrow> jsnum jsmap \<Rightarrow> jsnum jsmap" where
  "allocate_loop tot [] assigned acc = acc"
| "allocate_loop tot [(k, v)] assigned acc = AList.update k (roundQuantity (js_sub tot assigned)) acc"
| "allocate_loop tot ((k, v) # kv # kvs) assigned acc =
     allocate_loop tot (kv # kvs) (roundQuantity (js_add assigned v)) (AList.update k v acc)"

definition allocateQuantityAcrossSets :: "jsnum \<Rightarrow> string list option \<Rightarrow> jsnum jsmap" where
  "allocateQuantityAcrossSets quantity setKeys =
     (let ks = unique_keys (case setKeys of Some ks \<Rightarrow> ks | None \<Rightarrow> []);
          tot = roundQuantity (finiteNonNegative quantity)
      in if ks = [] \<or> js_le tot (Fin 0) then []
         else let share = js_div tot (num_of_int (int (length ks)))
              in allocate_loop tot (map (\<lambda>k. (k, roundQuantity share)) ks) (Fin 0) [])"

definition allocateQuantityByRatios :: "jsnum \<Rightarrow> jsnum jsmap option \<Rightarrow> string list option \<Rightarrow> jsnum jsmap" where
  "allocateQuantityByRatios quantity ratios fallbackSetKeys =
     (let normalized = filter (\<lambda>(k, v). k \<noteq> [] \<and> js_gt v (Fin 0))
            (map (\<lambda>(k, v). (trim k, finiteNonNegative v)) (case ratios of Some r \<Rightarrow> r | None \<Rightarrow> []))
      in if normalized = [] then allocateQuantityAcrossSets quantity fallbackSetKeys
         else
           let tot = roundQuantity (finiteNonNegative quantity)
           in if js_le tot (Fin 0) then []
              else let ratioTotal = fold (\<lambda>(k, v) s. js_add s v) normalized (Fin 0)
                   in allocate_loop tot (map (\<lambda>(k, v). (k, roundQuantity (js_mul tot (js_div v ratioTotal)))) normalized) (Fin 0) [])"

subsection \<open>The execution ledger\<close>

datatype PartialOrderExecutionSource = control_order | system_close | poscounts_reduce | exchange_reconcile

record PartialOrderExecution =
  exec_id :: string
  exec_source :: PartialOrderExecutionSource
  exec_orderId :: "string option"
  exec_clientOrderId :: "string option"
  exec_status :: string
  requestedQuantity :: jsnum
  cumulativeFilledQuantity :: jsnum
  appliedQuantity :: jsnum
  positionQuantityBefore :: jsnum
  positionQuantityAfter :: jsnum
  exec_price :: jsnum
  exec_setKeys :: "string list"
  setQuantitiesBefore :: "jsnum jsmap"
  setQuantities :: "jsnum jsmap"
  setQuantityDeltas :: "jsnum jsmap"
  updatedAt :: jsnum

definition nonempty :: "string option \<Rightarrow> string option" where
  "nonempty s = (case s of Some x \<Rightarrow> if x = [] then None else Some x | None \<Rightarrow> None)"

definition normalize_execution :: "int \<Rightarrow> PartialOrderExecution \<Rightarrow> PartialOrderExecution" where
  "normalize_execution now e = e\<lparr>exec_id := trim (exec_id e), exec_orderId := nonempty (exec_orderId e),
     exec_clientOrderId := nonempty (exec_clientOrderId e),
     requestedQuantity := roundQuantity (finiteNonNegative (requestedQuantity e)),
     cumulativeFilledQuantity := roundQuantity (finiteNonNegative (cumulativeFilledQuantity e)),
     appliedQuantity := roundQuantity (finiteNonNegative (appliedQuantity e)),
     positionQuantityBefore := roundQuantity (finiteNonNegative (positionQuantityBefore e)),
     positionQuantityAfter := roundQuantity (finiteNonNegative (positionQuantityAfter e)),
     exec_price := finiteNonNegative (exec_price e),
     exec_setKeys := fold jsset_add (filter (\<lambda>k. k \<noteq> []) (exec_setKeys e)) [],
     updatedAt := (if js_isFinite (updatedAt e) then updatedAt e else num_of_int now)\<rparr>"

fun replace_first :: "PartialOrderExecution \<Rightarrow> PartialOrderExecution list \<Rightarrow> PartialOrderExecution list" where
  "replace_first e [] = [e]"
| "replace_first e (r # rows) = (if exec_id r = exec_id e then e # rows else r # replace_first e rows)"

definition upsertPartialOrderExecution ::
  "int \<Rightarrow> PartialOrderExecution list \<Rightarrow> PartialOrderExecution \<Rightarrow> int \<Rightarrow> PartialOrderExecution list" where
  "upsertPartialOrderExecution now rows next cap =
     (let e = normalize_execution now next;
          rows' = (if exec_id e = [] then rows else replace_first e rows)
      in js_slice (- max 1 cap) (int (length rows')) rows')"

subsection \<open>Order states and the barrier\<close>

definition isActiveControlOrderStatus :: "string \<Rightarrow> bool" where
  "isActiveControlOrderStatus status =
     (toLowerCase (trim status) \<in> set [''new'', ''open'', ''pending'', ''placed'', ''partially_filled'', ''partial_fill''])"

definition isFilledControlOrderStatus :: "string \<Rightarrow> bool" where
  "isFilledControlOrderStatus status = (toLowerCase (trim status) \<in> set [''filled'', ''closed''])"

datatype ControlOrderBarrierDecision = wait | proceed_system | exchange_closed

record barrier_input =
  localQuantity :: jsnum
  authoritativeQuantity :: "jsnum option"
  authoritativeSnapshot :: bool
  activeControlOrders :: jsnum
  unresolvedControlOrders :: jsnum
  pendingSubmissions :: jsnum

definition decideControlOrderBarrier :: "barrier_input \<Rightarrow> ControlOrderBarrierDecision" where
  "decideControlOrderBarrier i =
     (let l = finiteNonNegative (localQuantity i)
      in if authoritativeSnapshot i \<and>
            (case authoritativeQuantity i of
               Some a \<Rightarrow> js_le (finiteNonNegative a) (js_max (fl (1 / 10 ^ 12)) (js_mul l (fl (1 / 10 ^ 8))))
             | None \<Rightarrow> False)
         then exchange_closed
         else if js_gt (activeControlOrders i) (Fin 0) \<or> js_gt (unresolvedControlOrders i) (Fin 0) \<or>
                 js_gt (pendingSubmissions i) (Fin 0)
         then wait
         else proceed_system)"

subsection \<open>The adjustment ledger\<close>

record ExchangeQuantityAdjustmentRecord =
  adj_id :: string
  adj_source :: string
  adj_orderId :: "string option"
  adj_quantity :: jsnum
  adj_price :: jsnum
  adj_timestamp :: jsnum

record adjustment_input =
  positionId :: string
  in_orderId :: "string option"
  targetQuantity :: jsnum
  entryPrice :: jsnum
  in_fills :: "jsnum list"
  in_adjustments :: "ExchangeQuantityAdjustmentRecord list"
  in_source :: "string option"
  in_timestamp :: "jsnum option"
  in_tolerance :: "jsnum option"

record ReconciledExchangeQuantityLedger =
  adjustments :: "ExchangeQuantityAdjustmentRecord list"
  changed :: bool
  fillQuantity :: jsnum
  unmanagedAdjustmentQuantity :: jsnum
  expectedManagedAdjustmentQuantity :: jsnum
  previousManagedAdjustmentQuantity :: jsnum

definition is_managed :: "ExchangeQuantityAdjustmentRecord \<Rightarrow> bool" where
  "is_managed a = (adj_source a \<in> set [''exchange_reconcile'', ''legacy_reconciliation''])"

definition sum_positive :: "jsnum list \<Rightarrow> jsnum" where
  "sum_positive qs = fold (\<lambda>q s. js_add s (finiteNonNegative q)) qs (Fin 0)"

text \<open>The text of \<open>targetQuantity.toFixed(12)\<close> in the row's id is the parameter \<open>fixed\<close>.\<close>

definition reconcileExchangeQuantityAdjustments ::
  "(jsnum \<Rightarrow> string) \<Rightarrow> int \<Rightarrow> adjustment_input \<Rightarrow> ReconciledExchangeQuantityLedger" where
  "reconcileExchangeQuantityAdjustments fixed now i =
     (let target = finiteNonNegative (targetQuantity i);
          price = finiteNonNegative (entryPrice i);
          fillQ = sum_positive (in_fills i);
          managed = filter is_managed (in_adjustments i);
          unmanaged = filter (\<lambda>a. \<not> is_managed a) (in_adjustments i);
          unmanagedQ = sum_positive (map adj_quantity unmanaged);
          previousQ = sum_positive (map adj_quantity managed);
          expectedQ = roundQuantity (js_sub (js_sub target fillQ) unmanagedQ);
          tol = (case in_tolerance i of Some t \<Rightarrow> if js_isFinite t then js_abs t else Fin 0 | None \<Rightarrow> Fin 0);
          tolerance = js_max (js_max (fl (1 / 10 ^ 12)) tol) (js_mul target (fl (1 / 10 ^ 8)));
          result = \<lparr>adjustments = in_adjustments i, changed = False, fillQuantity = fillQ,
                    unmanagedAdjustmentQuantity = unmanagedQ, expectedManagedAdjustmentQuantity = expectedQ,
                    previousManagedAdjustmentQuantity = previousQ\<rparr>
      in if js_le (js_abs (js_sub previousQ expectedQ)) tolerance then result
         else
           let nextManaged = (if js_gt expectedQ tolerance \<and> js_gt price (Fin 0)
                 then [\<lparr>adj_id = positionId i @ '':exchange-quantity:'' @ fixed target,
                        adj_source = str_or (in_source i) ''exchange_reconcile'',
                        adj_orderId = nonempty (in_orderId i), adj_quantity = expectedQ, adj_price = price,
                        adj_timestamp = (case in_timestamp i of Some t \<Rightarrow> if truthy t then t else num_of_int now
                                         | None \<Rightarrow> num_of_int now)\<rparr>]
                 else []);
               rows = unmanaged @ nextManaged
           in result\<lparr>adjustments := js_slice (- 64) (int (length rows)) rows, changed := True\<rparr>)"

subsection \<open>Twelve-decimal arithmetic is exact\<close>

text \<open>The double nearest to \<open>m\<close> units of \<open>1e-12\<close>, for quantities below 2048.\<close>

definition unit12 :: rat where
  "unit12 = 1 / 10 ^ 12"

definition qty :: "int \<Rightarrow> jsnum" where
  "qty m = fl (of_int m * unit12)"

definition small_qty :: "int \<Rightarrow> bool" where
  "small_qty m \<longleftrightarrow> 0 \<le> m \<and> m \<le> 2047 * 10 ^ 12"

text \<open>The rounding error of a double below 2048, in units: less than an eighth.\<close>

lemma err_small: "\<bar>x\<bar> < 2048 \<Longrightarrow> \<bar>fl_rat x - x\<bar> \<le> unit12 / 8"
proof -
  assume "\<bar>x\<bar> < 2048"
  then have "\<bar>fl_rat x - x\<bar> \<le> 2 powi (11 - 54)" by (intro fl_rat_err_below) simp_all
  also have "(2 :: rat) powi (11 - 54) \<le> unit12 / 8" by (simp add: unit12_def power_int_minus field_simps)
  finally show ?thesis .
qed

lemma fl_small: "\<bar>x\<bar> < 2048 \<Longrightarrow> fl x = Fin (fl_rat x)"
proof -
  assume x: "\<bar>x\<bar> < 2048"
  have "\<bar>fl_rat x\<bar> \<le> \<bar>fl_rat x - x\<bar> + \<bar>x\<bar>" by linarith
  also have "\<dots> < 2049" using err_small [OF x] x by (simp add: unit12_def)
  finally have "\<bar>fl_rat x\<bar> < 2049" .
  moreover have "(2049 :: rat) < 2 ^ 1024"
  proof -
    have "(2049 :: rat) < 2 ^ 12" by simp
    also have "(2 :: rat) ^ 12 \<le> 2 ^ 1024" by (rule power_increasing) simp_all
    finally show ?thesis .
  qed
  ultimately show ?thesis by (simp add: fl_def Let_def abs_less_iff)
qed

lemma unit12_pos [simp]: "0 < unit12" "0 \<le> unit12"
  by (simp_all add: unit12_def)

lemma small_value: "small_qty m \<Longrightarrow> 0 \<le> of_int m * unit12 \<and> of_int m * unit12 \<le> 2047"
proof -
  assume "small_qty m"
  then have "0 \<le> m" "of_int m \<le> (of_int (2047 * 10 ^ 12) :: rat)" unfolding small_qty_def by (simp_all only: of_int_le_iff)
  then show ?thesis by (simp add: unit12_def field_simps)
qed

lemma qty_Fin:
  assumes "small_qty m"
  obtains x where "qty m = Fin x" "0 \<le> x" "\<bar>x - of_int m * unit12\<bar> \<le> unit12 / 8" "x \<le> 2047"
proof -
  let ?y = "of_int m * unit12"
  have y: "0 \<le> ?y" "?y \<le> 2047" using small_value [OF assms] by simp_all
  have le: "fl_rat ?y \<le> 2047" using fl_rat_mono [OF y(2)] fl_rat_of_int [of 2047] by simp
  show ?thesis
  proof (rule that)
    show "qty m = Fin (fl_rat ?y)" unfolding qty_def using y by (intro fl_small) simp
    show "0 \<le> fl_rat ?y" using y(1) by (rule fl_rat_nonneg)
    show "\<bar>fl_rat ?y - ?y\<bar> \<le> unit12 / 8" using y by (intro err_small) simp
  qed (rule le)
qed

lemma qty_0 [simp]: "qty 0 = Fin 0"
  by (simp add: qty_def)

text \<open>Rounding to twelve decimals finds the nearest grid value.\<close>

lemma round_near:
  assumes "small_qty m" "\<bar>z - of_int m * unit12\<bar> < unit12 / 2"
  shows "roundQuantity (Fin z) = qty m"
proof -
  let ?z = "max 0 z"
  have m: "0 \<le> m" using assms(1) by (simp add: small_qty_def)
  have v: "0 \<le> of_int m * unit12" "of_int m * unit12 \<le> 2047" using small_value [OF assms(1)] by simp_all
  have near: "\<bar>?z - of_int m * unit12\<bar> < unit12 / 2" using assms(2) v(1) by (cases "0 \<le> z") (simp, linarith)
  have "unit12 < 1" by (simp add: unit12_def)
  then have "?z < 2048" using near v(2) by linarith
  then have "?z < 10 ^ 21" by (rule less_trans) simp
  then have nbig: "(10 ^ 21 \<le> \<bar>?z\<bar>) = False" "(0 \<le> ?z) = True" by (simp_all add: abs_of_nonneg not_le)
  have fl:  "\<lfloor>?z * 10 ^ 12 + 1 / 2\<rfloor> = m"
  proof -
    have "?z * 10 ^ 12 - of_int m = (?z - of_int m * unit12) * 10 ^ 12" by (simp add: unit12_def algebra_simps)
    moreover have "\<bar>(?z - of_int m * unit12) * 10 ^ 12\<bar> < 1 / 2"
    proof -
      have "\<bar>(?z - of_int m * unit12) * 10 ^ 12\<bar> = \<bar>?z - of_int m * unit12\<bar> * 10 ^ 12"
        unfolding abs_mult by simp
      also have "\<dots> < unit12 / 2 * 10 ^ 12" using near by (intro mult_strict_right_mono) simp_all
      finally show ?thesis by (simp add: unit12_def)
    qed
    ultimately have "\<bar>?z * 10 ^ 12 - of_int m\<bar> < 1 / 2" by (simp only:)
    then show ?thesis unfolding floor_eq_iff abs_less_iff by simp
  qed
  have "num_toFixed 12 (Fin ?z) = fl (of_int m / 10 ^ 12)"
    by (simp only: num_toFixed.simps nbig fl if_True if_False)
  then show ?thesis by (simp add: roundQuantity_def qty_def unit12_def del: num_toFixed.simps)
qed

lemma round_qty: "small_qty m \<Longrightarrow> roundQuantity (qty m) = qty m"
proof -
  assume m: "small_qty m"
  obtain x where x: "qty m = Fin x" "\<bar>x - of_int m * unit12\<bar> \<le> unit12 / 8" using m by (rule qty_Fin)
  then have "roundQuantity (Fin x) = qty m" using unit12_pos by (intro round_near [OF m]) linarith
  then show ?thesis using x(1) by simp
qed

lemma qty_mono: "m \<le> n \<Longrightarrow> js_le (qty m) (qty n)"
  unfolding qty_def by (intro fl_mono mult_right_mono) (simp_all add: less_imp_le)

lemma qty_strict:
  assumes "small_qty m" "small_qty n" "m < n"
  shows "js_lt (qty m) (qty n)"
proof -
  obtain x where x: "qty m = Fin x" "\<bar>x - of_int m * unit12\<bar> \<le> unit12 / 8" using assms(1) by (rule qty_Fin)
  obtain y where y: "qty n = Fin y" "\<bar>y - of_int n * unit12\<bar> \<le> unit12 / 8" using assms(2) by (rule qty_Fin)
  have "of_int (m + 1) * unit12 \<le> of_int n * unit12" using assms(3) by (intro mult_right_mono) (simp_all add: less_imp_le)
  then have "of_int m * unit12 + unit12 \<le> of_int n * unit12" by (simp add: algebra_simps)
  then have "x < y" using x(2) y(2) unit12_pos by linarith
  then show ?thesis using x(1) y(1) by simp
qed

lemma qty_sub:
  assumes "small_qty m" "small_qty n" "small_qty (m - n)"
  shows "roundQuantity (js_sub (qty m) (qty n)) = qty (m - n)"
proof -
  obtain x where x: "qty m = Fin x" "0 \<le> x" "\<bar>x - of_int m * unit12\<bar> \<le> unit12 / 8" "x \<le> 2047" using assms(1) by (rule qty_Fin)
  obtain y where y: "qty n = Fin y" "0 \<le> y" "\<bar>y - of_int n * unit12\<bar> \<le> unit12 / 8" "y \<le> 2047" using assms(2) by (rule qty_Fin)
  have b: "\<bar>x - y\<bar> < 2048" using x y by linarith
  have "\<bar>fl_rat (x - y) - (x - y)\<bar> \<le> unit12 / 8" using b by (rule err_small)
  moreover have "of_int (m - n) * unit12 = of_int m * unit12 - of_int n * unit12" by (simp add: algebra_simps)
  ultimately have "\<bar>fl_rat (x - y) - of_int (m - n) * unit12\<bar> < unit12 / 2" using x(3) y(3) unit12_pos by linarith
  from round_near [OF assms(3) this] show ?thesis by (simp add: x(1) y(1) js_sub_def fl_small [OF b])
qed

lemma qty_add:
  assumes "small_qty m" "small_qty n" "small_qty (m + n)"
  shows "roundQuantity (js_add (qty m) (qty n)) = qty (m + n)"
proof -
  obtain x where x: "qty m = Fin x" "0 \<le> x" "\<bar>x - of_int m * unit12\<bar> \<le> unit12 / 8" using assms(1) by (rule qty_Fin)
  obtain y where y: "qty n = Fin y" "0 \<le> y" "\<bar>y - of_int n * unit12\<bar> \<le> unit12 / 8" using assms(2) by (rule qty_Fin)
  have e: "of_int (m + n) * unit12 = of_int m * unit12 + of_int n * unit12" by (simp add: algebra_simps)
  have "unit12 / 8 + unit12 / 8 < 1" by (simp add: unit12_def)
  then have b: "\<bar>x + y\<bar> < 2048" using small_value [OF assms(3)] x y e by linarith
  have "\<bar>fl_rat (x + y) - (x + y)\<bar> \<le> unit12 / 8" using b by (rule err_small)
  then have "\<bar>fl_rat (x + y) - of_int (m + n) * unit12\<bar> < unit12 / 2" using x(3) y(3) e unit12_pos by linarith
  from round_near [OF assms(3) this] show ?thesis by (simp add: x(1) y(1) fl_small [OF b])
qed

lemma finite_qty: "small_qty m \<Longrightarrow> finiteNonNegative (qty m) = qty m"
proof -
  assume m: "small_qty m"
  obtain x where "qty m = Fin x" "0 \<le> x" using m by (rule qty_Fin)
  then show ?thesis by (auto simp: finiteNonNegative_def js_isFinite_def)
qed

subsection \<open>Reductions\<close>

lemma small_le: "small_qty m \<Longrightarrow> 0 \<le> n \<Longrightarrow> n \<le> m \<Longrightarrow> small_qty n"
  by (auto simp: small_qty_def)

text \<open>A number within three eighths of a unit of a grid value.\<close>

definition near :: "int \<Rightarrow> jsnum \<Rightarrow> bool" where
  "near m v \<longleftrightarrow> (\<exists>z. v = Fin z \<and> \<bar>z - of_int m * unit12\<bar> \<le> unit12 * 3 / 8)"

lemma near_round: "small_qty m \<Longrightarrow> near m v \<Longrightarrow> roundQuantity v = qty m"
proof -
  assume m: "small_qty m" and "near m v"
  then obtain z where z: "v = Fin z" "\<bar>z - of_int m * unit12\<bar> \<le> unit12 * 3 / 8" by (auto simp: near_def)
  have "\<bar>z - of_int m * unit12\<bar> < unit12 / 2" using z(2) unit12_pos by linarith
  from round_near [OF m this] z(1) show ?thesis by simp
qed

lemma near_qty: "small_qty m \<Longrightarrow> near m (qty m)"
proof -
  assume m: "small_qty m"
  obtain x where x: "qty m = Fin x" "\<bar>x - of_int m * unit12\<bar> \<le> unit12 / 8" using m by (rule qty_Fin)
  then have "\<bar>x - of_int m * unit12\<bar> \<le> unit12 * 3 / 8" using unit12_pos by linarith
  with x(1) show ?thesis by (auto simp: near_def)
qed

lemma unit_gap: "(a :: int) < b \<Longrightarrow> of_int a * unit12 + unit12 \<le> of_int b * unit12"
proof -
  assume "a < b"
  then have "of_int (a + 1) * unit12 \<le> of_int b * unit12" by (intro mult_right_mono) (simp_all add: less_imp_le)
  then show ?thesis by (simp add: algebra_simps)
qed

lemma near_max_min:
  assumes "near a v" "near b w"
  shows "near (max a b) (js_max v w)" "near (min a b) (js_min v w)"
proof -
  obtain x where x: "v = Fin x" "\<bar>x - of_int a * unit12\<bar> \<le> unit12 * 3 / 8" using assms(1) by (auto simp: near_def)
  obtain y where y: "w = Fin y" "\<bar>y - of_int b * unit12\<bar> \<le> unit12 * 3 / 8" using assms(2) by (auto simp: near_def)
  have "a < b \<Longrightarrow> x < y" "b < a \<Longrightarrow> y < x"
    using unit_gap [of a b] unit_gap [of b a] x(2) y(2) unit12_pos by linarith+
  then have "\<bar>max x y - of_int (max a b) * unit12\<bar> \<le> unit12 * 3 / 8 \<and> \<bar>min x y - of_int (min a b) * unit12\<bar> \<le> unit12 * 3 / 8"
    using x(2) y(2) by (cases a b rule: linorder_cases) (auto simp: max_def min_def)
  then show "near (max a b) (js_max v w)" "near (min a b) (js_min v w)" using x(1) y(1) by (auto simp: near_def)
qed

lemma near_sub:
  assumes "small_qty m" "small_qty n"
  shows "near (max 0 (m - n)) (js_max (Fin 0) (js_sub (qty m) (qty n)))"
proof -
  obtain x where x: "qty m = Fin x" "0 \<le> x" "\<bar>x - of_int m * unit12\<bar> \<le> unit12 / 8" "x \<le> 2047" using assms(1) by (rule qty_Fin)
  obtain y where y: "qty n = Fin y" "0 \<le> y" "\<bar>y - of_int n * unit12\<bar> \<le> unit12 / 8" "y \<le> 2047" using assms(2) by (rule qty_Fin)
  have b: "\<bar>x - y\<bar> < 2048" using x y by linarith
  have "\<bar>fl_rat (x - y) - (x - y)\<bar> \<le> unit12 / 8" using b by (rule err_small)
  moreover have "of_int (m - n) * unit12 = of_int m * unit12 - of_int n * unit12" by (simp add: algebra_simps)
  ultimately have "\<bar>fl_rat (x - y) - of_int (m - n) * unit12\<bar> \<le> unit12 * 3 / 8" using x(3) y(3) by linarith
  then have "near (m - n) (js_sub (qty m) (qty n))" by (simp add: near_def x(1) y(1) js_sub_def fl_small [OF b])
  moreover have "near 0 (Fin 0)" by (simp add: near_def)
  ultimately show ?thesis by (intro near_max_min)
qed

lemma qty_min: "small_qty m \<Longrightarrow> small_qty n \<Longrightarrow> js_min (qty m) (qty n) = qty (min m n)"
proof -
  assume s: "small_qty m" "small_qty n"
  obtain x where x: "qty m = Fin x" using s(1) by (rule qty_Fin)
  obtain y where y: "qty n = Fin y" using s(2) by (rule qty_Fin)
  show ?thesis using qty_mono [of m n] qty_mono [of n m] x y by (cases "m \<le> n") (auto simp: min_def)
qed

text \<open>The reduction computed on whole units.\<close>

lemma reconcile_units:
  assumes c: "small_qty c" and f: "small_qty f" and a: "small_qty a" and sum: "small_qty (a + c)"
    and auth: "pred_option small_qty au"
  shows "reconcileCumulativeReduction (qty c) (qty f) (qty a) (map_option qty au) =
    (let d = min c (max (max 0 (f - a)) (case au of None \<Rightarrow> 0 | Some u \<Rightarrow> max 0 (c - min c u)))
     in \<lparr>deltaApplied = qty d, cumulativeApplied = qty (a + d), nextQuantity = qty (c - d)\<rparr>)"
proof -
  define du where "du = (case au of None \<Rightarrow> 0 | Some u \<Rightarrow> max 0 (c - min c u))"
  define d where "d = min c (max (max 0 (f - a)) du)"
  have c0: "0 \<le> c" "0 \<le> a" using c a by (simp_all add: small_qty_def)
  have "near du (case map_option qty au of None \<Rightarrow> Fin 0
      | Some v \<Rightarrow> js_max (Fin 0) (js_sub (qty c) (js_min (qty c) (finiteNonNegative v))))"
  proof (cases au)
    case None
    then show ?thesis by (simp add: du_def near_def)
  next
    case (Some u)
    then have u: "small_qty u" using auth by simp
    then have "small_qty (min c u)" using c by (auto simp: min_def)
    then have "near (max 0 (c - min c u)) (js_max (Fin 0) (js_sub (qty c) (qty (min c u))))" by (rule near_sub [OF c])
    then show ?thesis using Some by (simp add: du_def finite_qty u qty_min [OF c u])
  qed
  then have "near d (js_min (qty c) (js_max (js_max (Fin 0) (js_sub (qty f) (qty a)))
      (case map_option qty au of None \<Rightarrow> Fin 0
       | Some v \<Rightarrow> js_max (Fin 0) (js_sub (qty c) (js_min (qty c) (finiteNonNegative v))))))"
    unfolding d_def by (intro near_max_min near_qty near_sub c f a)
  moreover have sd: "small_qty d" using c c0 by (auto simp: d_def small_qty_def)
  ultimately have delta: "roundQuantity (js_min (qty c) (js_max (js_max (Fin 0) (js_sub (qty f) (qty a)))
      (case map_option qty au of None \<Rightarrow> Fin 0
       | Some v \<Rightarrow> js_max (Fin 0) (js_sub (qty c) (js_min (qty c) (finiteNonNegative v)))))) = qty d"
    by (intro near_round)
  have "small_qty (a + d)" "small_qty (c - d)" using sum c c0 sd by (auto simp: small_qty_def d_def)
  then show ?thesis
    unfolding reconcileCumulativeReduction_def Let_def finite_qty [OF c] finite_qty [OF f] finite_qty [OF a] delta
      du_def [symmetric] d_def [symmetric]
    by (simp add: qty_add [OF a sd] qty_sub [OF c sd])
qed

text \<open>Observations of one order's cumulative fill, each applied to what the last one left.\<close>

fun reconcile_all :: "jsnum list \<Rightarrow> jsnum \<Rightarrow> jsnum \<Rightarrow> jsnum \<times> jsnum" where
  "reconcile_all [] c a = (c, a)"
| "reconcile_all (f # fs) c a =
     (let r = reconcileCumulativeReduction c f a None in reconcile_all fs (nextQuantity r) (cumulativeApplied r))"

text \<open>C2. Repeated, delayed and re-ordered observations of a cumulative fill are applied exactly
  once, for quantities of at most 2047 on the grid of twelve decimals (\<open>small_qty\<close>, counted in units of \<open>1e-12\<close>):
  whatever sequence of such fill reports is folded into a position of such a size, the quantity
  removed is the largest report, or the whole position if that is smaller, to the last unit of
  \<open>1e-12\<close>, rounding included; so re-observing a fill removes nothing, and quantity is conserved.
  Beyond that size doubles are too coarse for the grid and a repeated report can remove some units again.\<close>

theorem reconcile_exactly_once:
  assumes "small_qty c" "\<forall>f \<in> set fs. small_qty f"
  shows "reconcile_all (map qty fs) (qty c) (qty 0) =
    (qty (c - min c (Max (insert 0 (set fs)))), qty (min c (Max (insert 0 (set fs)))))"
proof -
  have run: "reconcile_all (map qty fs) (qty (c - d)) (qty d) =
      (qty (c - min c (Max (insert d (set fs)))), qty (min c (Max (insert d (set fs)))))"
    if "0 \<le> d" "d \<le> c" for d
    using assms(2) that
  proof (induction fs arbitrary: d)
    case Nil
    then show ?case by (simp add: min_def)
  next
    case (Cons f fs)
    let ?x = "min (c - d) (max (max 0 (f - d)) 0)" and ?d = "min c (max d f)"
    have s: "small_qty (c - d)" "small_qty d" "small_qty f" "small_qty (d + (c - d))"
      using Cons.prems assms(1) by (auto simp: small_qty_def)
    have x: "d + ?x = ?d" "c - d - ?x = c - ?d" using Cons.prems(2,3) by (auto simp: min_def max_def)
    have r: "reconcileCumulativeReduction (qty (c - d)) (qty f) (qty d) None =
        \<lparr>deltaApplied = qty ?x, cumulativeApplied = qty ?d, nextQuantity = qty (c - ?d)\<rparr>"
      using reconcile_units [OF s(1,3,2,4), of None] by (simp only: option.map option.pred_inject option.case Let_def x simp_thms)
    have "reconcile_all (map qty fs) (qty (c - ?d)) (qty ?d) =
        (qty (c - min c (Max (insert ?d (set fs)))), qty (min c (Max (insert ?d (set fs)))))"
      using Cons.prems by (intro Cons.IH) auto
    moreover have "min c (Max (insert ?d (set fs))) = min c (Max (insert d (set (f # fs))))"
    proof (cases "fs = []")
      case True
      then show ?thesis by (simp add: insert_commute)
    next
      case False
      then show ?thesis by (simp add: min_def max_def)
    qed
    ultimately show ?case by (simp add: r)
  qed
  have "0 \<le> c" using assms(1) by (simp add: small_qty_def)
  from run [OF order_refl this] show ?thesis by simp
qed

theorem reconcile_exactly_once_witness:
  "reconcile_all (map qty [500000000000, 500000000000, 200000000000]) (qty 2000000000000) (qty 0) =
   (qty 1500000000000, qty 500000000000)"
  using reconcile_exactly_once [of 2000000000000 "[500000000000, 500000000000, 200000000000]"] by (simp add: small_qty_def)

subsection \<open>Allocation\<close>

lemma distinct_unique_keys: "distinct (unique_keys ks)"
proof -
  have "distinct acc \<Longrightarrow> distinct (fold jsset_add xs acc)" for xs acc :: "string list"
    by (induction xs arbitrary: acc) (auto intro: distinct_jsset_add)
  then show ?thesis by (simp add: unique_keys_def)
qed

lemma allocate_loop_units:
  assumes "ks \<noteq> []" "distinct ks" "set ks \<inter> fst ` set acc = {}" "small_qty m" "0 \<le> a" "0 \<le> s"
    and "a + (int (length ks) - 1) * s \<le> m"
  shows "allocate_loop (qty m) (map (\<lambda>k. (k, qty s)) ks) (qty a) acc =
    acc @ map (\<lambda>k. (k, qty s)) (butlast ks) @ [(last ks, qty (m - a - (int (length ks) - 1) * s))]"
  using assms
proof (induction ks arbitrary: a acc)
  case (Cons k ks)
  show ?case
  proof (cases ks)
    case Nil
    have "small_qty a" "small_qty (m - a)" using Cons.prems Nil by (auto simp: small_qty_def)
    then show ?thesis using Cons.prems Nil by (simp add: qty_sub update_fresh)
  next
    case (Cons k' ks')
    have n: "int (length (k # ks)) - 1 = (int (length ks) - 1) + 1" by simp
    have le: "a + s + (int (length ks) - 1) * s \<le> m" using Cons.prems(7) unfolding n by (simp add: algebra_simps)
    have "0 \<le> (int (length ks) - 1) * s" using Cons Cons.prems(6) by simp
    then have "small_qty a" "small_qty s" "small_qty (a + s)" using Cons.prems(4-6) le by (auto simp: small_qty_def)
    then have "allocate_loop (qty m) (map (\<lambda>k. (k, qty s)) (k # ks)) (qty a) acc =
        allocate_loop (qty m) (map (\<lambda>k. (k, qty s)) ks) (qty (a + s)) (acc @ [(k, qty s)])"
      using Cons Cons.prems(3) by (simp add: qty_add update_fresh)
    also have "\<dots> = (acc @ [(k, qty s)]) @ map (\<lambda>k. (k, qty s)) (butlast ks) @ [(last ks, qty (m - (a + s) - (int (length ks) - 1) * s))]"
      using Cons Cons.prems le by (intro Cons.IH) auto
    also have "m - (a + s) - (int (length ks) - 1) * s = m - a - (int (length (k # ks)) - 1) * s"
      unfolding n by (simp add: algebra_simps)
    finally show ?thesis using Cons by simp
  qed
qed simp

lemma share_units:
  assumes "small_qty m" "0 < n" "n * (n - 1) \<le> m"
  obtains s where "roundQuantity (js_div (qty m) (num_of_int n)) = qty s" "0 \<le> s" "(n - 1) * s \<le> m"
proof -
  obtain x where x: "qty m = Fin x" "0 \<le> x" "\<bar>x - of_int m * unit12\<bar> \<le> unit12 / 8" "x \<le> 2047" using assms(1) by (rule qty_Fin)
  have n1: "(1 :: rat) \<le> of_int n" using assms(2) by (simp only: of_int_1_le_iff)
  have n0: "(of_int n :: rat) \<noteq> 0" using n1 by simp
  have xn: "0 \<le> x / of_int n" "x / of_int n \<le> x" using x(2) n1 mult_left_mono [OF n1 x(2)] by (simp_all add: divide_le_eq)
  have b: "\<bar>x / of_int n\<bar> < 2048" using xn x(4) by linarith
  define y where "y = fl_rat (x / of_int n)"
  define s where "s = \<lfloor>y * 10 ^ 12 + 1 / 2\<rfloor>"
  have dv: "js_div (qty m) (num_of_int n) = Fin y" using n0 by (simp add: x(1) fl_small [OF b] y_def)
  have y0: "0 \<le> y" unfolding y_def using xn(1) by (rule fl_rat_nonneg)
  have ye: "y \<le> x / of_int n + unit12 / 8" using err_small [OF b] unfolding y_def by linarith
  have "unit12 < 1" by (simp add: unit12_def)
  then have "y < 2049" using ye xn(2) x(4) by linarith
  then have "y < 10 ^ 21" by (rule less_trans) simp
  then have r: "roundQuantity (Fin y) = qty s" using y0
    by (simp add: roundQuantity_def s_def qty_def unit12_def)
  have s0: "0 \<le> s" using y0 by (simp add: s_def)
  have "of_int s \<le> y * 10 ^ 12 + 1 / 2" unfolding s_def by (rule of_int_floor_le)
  also have "\<dots> \<le> (x / of_int n + unit12 / 8) * 10 ^ 12 + 1 / 2" using ye by (intro add_right_mono mult_right_mono) simp_all
  also have "\<dots> = x * 10 ^ 12 / of_int n + 5 / 8" by (simp add: unit12_def algebra_simps)
  finally have "of_int s * of_int n \<le> x * 10 ^ 12 + 5 / 8 * of_int n" using n1 by (simp add: field_simps)
  moreover have "x * 10 ^ 12 \<le> of_int m + 1 / 8"
  proof -
    have "x \<le> of_int m * unit12 + unit12 / 8" using x(3) by linarith
    then have "x * 10 ^ 12 \<le> (of_int m * unit12 + unit12 / 8) * 10 ^ 12" by (rule mult_right_mono) simp
    then show ?thesis by (simp add: unit12_def algebra_simps)
  qed
  ultimately have "of_int s * of_int n \<le> (of_int m + of_int n :: rat)" using n1 by linarith
  then have sn: "s * n \<le> m + n" by (metis of_int_add of_int_le_iff of_int_mult)
  have "n * ((n - 1) * s) = (n - 1) * (s * n)" by (simp add: mult_ac)
  also have "\<dots> \<le> (n - 1) * (m + n)" using sn assms(2) by (intro mult_left_mono) simp_all
  also have "\<dots> = n * m + (n * (n - 1) - m)" by (simp add: algebra_simps)
  also have "\<dots> \<le> n * m" using assms(3) by simp
  finally have "(n - 1) * s \<le> m" using assms(2) by simp
  then show ?thesis using that r s0 dv by simp
qed

text \<open>C32. An equal split is exact, for a positive quantity of at most 2047 on the grid of twelve decimals that has at least
  \<open>n (n - 1)\<close> units of \<open>1e-12\<close> for the \<open>n\<close> distinct strategy sets: it is split over the distinct sets into
  non-negative amounts, one per set, that add up to the quantity to the last unit of \<open>1e-12\<close>, although every step rounds.
  With fewer units (5 units over 8 sets) the shares can add up to more than the quantity.\<close>

theorem allocate_exact:
  assumes "small_qty m" "0 < m" "unique_keys ks \<noteq> []"
    and "int (length (unique_keys ks)) * (int (length (unique_keys ks)) - 1) \<le> m"
  shows "\<exists>us. allocateQuantityAcrossSets (qty m) (Some ks) = zip (unique_keys ks) (map qty us) \<and>
    length us = length (unique_keys ks) \<and> (\<forall>u \<in> set us. 0 \<le> u) \<and> sum_list us = m"
proof -
  let ?k = "unique_keys ks" and ?n = "int (length (unique_keys ks))"
  have n: "0 < ?n" using assms(3) by simp
  obtain s where s: "roundQuantity (js_div (qty m) (num_of_int ?n)) = qty s" "0 \<le> s" "(?n - 1) * s \<le> m"
    using share_units [OF assms(1) n assms(4)] by blast
  have pos: "\<not> js_le (qty m) (Fin 0)"
  proof -
    have "js_lt (qty 0) (qty m)" by (rule qty_strict [OF _ assms(1,2)]) (simp add: small_qty_def)
    then show ?thesis using js_lt_le_trans js_lt_irrefl by (metis qty_0)
  qed
  have "allocateQuantityAcrossSets (qty m) (Some ks) =
      allocate_loop (qty m) (map (\<lambda>k. (k, qty s)) ?k) (qty 0) []"
    unfolding allocateQuantityAcrossSets_def Let_def option.case finite_qty [OF assms(1)] round_qty [OF assms(1)] s(1)
    using assms(3) pos by simp
  also have "\<dots> = map (\<lambda>k. (k, qty s)) (butlast ?k) @ [(last ?k, qty (m - (?n - 1) * s))]"
    using allocate_loop_units [OF assms(3) distinct_unique_keys, of "[]" m 0 s] assms(1) s(2,3) by simp
  also have "\<dots> = zip ?k (map qty (replicate (length ?k - 1) s @ [m - (?n - 1) * s]))"
  proof -
    have "zip (butlast ?k @ [last ?k]) (replicate (length ?k - 1) (qty s) @ [qty (m - (?n - 1) * s)]) =
        zip (butlast ?k) (replicate (length ?k - 1) (qty s)) @ [(last ?k, qty (m - (?n - 1) * s))]"
      by (subst zip_append) simp_all
    moreover have "zip (butlast ?k) (replicate (length ?k - 1) (qty s)) = map (\<lambda>k. (k, qty s)) (butlast ?k)"
      by (simp add: zip_replicate2)
    ultimately show ?thesis using assms(3) by simp
  qed
  finally have eq: "allocateQuantityAcrossSets (qty m) (Some ks) =
      zip ?k (map qty (replicate (length ?k - 1) s @ [m - (?n - 1) * s]))" .
  have "sum_list (replicate (length ?k - 1) s @ [m - (?n - 1) * s]) = m"
    using assms(3) by (cases ?k) (simp_all add: sum_list_replicate)
  then show ?thesis using eq s(2,3) n by (intro exI [of _ "replicate (length ?k - 1) s @ [m - (?n - 1) * s]"]) auto
qed

theorem allocate_exact_witness:
  "\<exists>us. allocateQuantityAcrossSets (qty 1000000000000) (Some [''a'', ''b'', ''c'', ''a'']) = zip [''a'', ''b'', ''c''] (map qty us) \<and>
     sum_list us = 1000000000000"
proof -
  have k: "unique_keys [''a'', ''b'', ''c'', ''a''] = [''a'', ''b'', ''c'']" by code_simp
  show ?thesis using allocate_exact [of 1000000000000 "[''a'', ''b'', ''c'', ''a'']"] by (auto simp: k small_qty_def)
qed

subsection \<open>The execution ledger\<close>

lemma length_last_slice: "0 < c \<Longrightarrow> js_slice (- c) (int (length xs)) xs = drop (length xs - nat c) xs"
  by (auto simp: js_slice_def Let_def nat_diff_distrib min_def max_def)

lemma replace_first_length: "length (replace_first e rows) = (if exec_id e \<in> exec_id ` set rows then length rows else length rows + 1)"
  by (induction rows) auto

lemma replace_first_idem: "replace_first e (replace_first e rows) = replace_first e rows"
  by (induction rows) auto

lemma replace_first_fresh: "exec_id e \<notin> exec_id ` set rows \<Longrightarrow> replace_first e rows = rows @ [e]"
  by (induction rows) auto

lemma replace_first_append: "exec_id e \<notin> exec_id ` set xs \<Longrightarrow> replace_first e (xs @ ys) = xs @ replace_first e ys"
  by (induction xs) auto

lemma distinct_replace_first:
  "distinct (map exec_id rows) \<Longrightarrow> distinct (map exec_id (replace_first e rows))"
proof (induction rows)
  case (Cons r rows)
  have "exec_id ` set (replace_first e rows) \<subseteq> insert (exec_id e) (exec_id ` set rows)" by (induction rows) auto
  with Cons show ?case by (cases "exec_id r = exec_id e") auto
qed simp

text \<open>The execution ledger is bounded and idempotent: on a ledger within its cap and without
  duplicate ids, recording an execution keeps both, stores exactly one row for its id, and
  recording the same observation again changes nothing.\<close>

theorem upsert_bounded_idempotent:
  assumes "int (length rows) \<le> cap" "1 \<le> cap" "distinct (map exec_id rows)" "trim (exec_id e) \<noteq> []"
  shows "let rows' = upsertPartialOrderExecution now rows e cap in
    int (length rows') \<le> cap \<and> distinct (map exec_id rows') \<and>
    filter (\<lambda>r. exec_id r = trim (exec_id e)) rows' = [normalize_execution now e] \<and>
    upsertPartialOrderExecution now rows' e cap = rows'"
proof -
  let ?e = "normalize_execution now e"
  define rows' where "rows' = upsertPartialOrderExecution now rows e cap"
  have i: "exec_id ?e = trim (exec_id e)" by (simp add: normalize_execution_def)
  have up: "upsertPartialOrderExecution now xs e cap = drop (length (replace_first ?e xs) - nat cap) (replace_first ?e xs)" for xs
    using assms(2,4) by (simp add: upsertPartialOrderExecution_def Let_def i length_last_slice max_def)
  have mem: "?e \<in> set rows'"
  proof (cases "exec_id ?e \<in> exec_id ` set rows")
    case True
    then have "length (replace_first ?e rows) \<le> nat cap" using assms(1) by (simp add: replace_first_length)
    moreover have "?e \<in> set (replace_first ?e rows)" by (induction rows) auto
    ultimately show ?thesis by (simp add: rows'_def up)
  next
    case False
    have "length (rows @ [?e]) - nat cap \<le> length rows" using assms(2) by simp
    then show ?thesis using False by (simp add: rows'_def up replace_first_fresh)
  qed
  have dist: "distinct (map exec_id rows')"
    using distinct_replace_first [OF assms(3), of ?e] by (simp add: rows'_def up drop_map [symmetric] distinct_drop)
  have len: "int (length rows') \<le> cap" using assms(2) by (simp add: rows'_def up)
  have one: "filter (\<lambda>r. exec_id r = exec_id x) xs = [x]" if "x \<in> set xs" "distinct (map exec_id xs)" for x xs
    using that by (induction xs) (auto simp: filter_empty_conv rev_image_eqI)
  have same: "replace_first ?e xs = xs" if "?e \<in> set xs" "distinct (map exec_id xs)" for xs
    using that by (induction xs) (auto simp: rev_image_eqI)
  have "upsertPartialOrderExecution now rows' e cap = rows'"
    unfolding up same [OF mem dist] using len by simp
  then show ?thesis using len dist one [OF mem dist] by (simp add: i rows'_def [symmetric])
qed

definition sample_execution :: PartialOrderExecution where
  "sample_execution = \<lparr>exec_id = ''o1'', exec_source = control_order, exec_orderId = None, exec_clientOrderId = None,
     exec_status = ''filled'', requestedQuantity = Fin 0, cumulativeFilledQuantity = Fin 0, appliedQuantity = Fin 0,
     positionQuantityBefore = Fin 0, positionQuantityAfter = Fin 0, exec_price = Fin 0, exec_setKeys = [],
     setQuantitiesBefore = [], setQuantities = [], setQuantityDeltas = [], updatedAt = Fin 0\<rparr>"

theorem upsert_bounded_idempotent_witness:
  "upsertPartialOrderExecution 5 (upsertPartialOrderExecution 5 [] sample_execution 100) sample_execution 100 =
   upsertPartialOrderExecution 5 [] sample_execution 100"
proof -
  have "trim (exec_id sample_execution) \<noteq> []" by code_simp
  then show ?thesis using upsert_bounded_idempotent [of "[]" 100 sample_execution 5] by (simp add: Let_def)
qed

end
