(* ===== verification/RedisViews.thy ===== *)
theory RedisViews
  imports RedisLocks
begin

text \<open>
  What single commands of the in-process store leave to be read, for the modules that combine a few
  of them: the contents of a key after list and string writes, and the hash, set and string views
  after the commands on other types.
\<close>

subsection \<open>Contents\<close>

lemma contents_markDirty [simp]: "contents lc (markDirty r) = contents lc r"
  by (rule ext) (simp add: content_defs)

lemma contents_list:
  "contents lc (r\<lparr>lists := AList.update k l (lists r)\<rparr>) = (contents lc r)(k := (contents lc r k)\<lparr>c_list := l\<rparr>)"
  by (rule ext) (simp add: content_defs)

lemma contents_lpush:
  "contents lc (snd (redis_lpush k vs r)) = (contents lc r)(k := (contents lc r k)\<lparr>c_list := rev vs @ list_at r k\<rparr>)"
  by (simp add: redis_lpush_def Let_def contents_list)

lemma contents_ltrim:
  "contents lc (redis_ltrim k i j r) = (contents lc r)(k := (contents lc r k)\<lparr>c_list := list_range i j (list_at r k)\<rparr>)"
proof (cases "map_of (lists r) k")
  case None
  then have "list_at r k = []" by (simp add: list_at_def)
  moreover have "list_range i j [] = ([] :: string list)" by (simp add: list_range_def js_slice_def Let_def)
  ultimately show ?thesis using None by (intro ext) (simp add: redis_ltrim_def contents_def)
next
  case (Some l)
  then have "list_at r k = l" by (simp add: list_at_def)
  then show ?thesis using Some by (simp add: redis_ltrim_def Let_def contents_list)
qed

lemma contents_parts:
  assumes "contents lc r = contents lc r'"
  shows "map_of (strings r) = map_of (strings r')" "map_of (ttl r) = map_of (ttl r')" "hash_at r = hash_at r'"
    "set_at r = set_at r'" "list_at r = list_at r'"
proof -
  have "contents lc r k = contents lc r' k" for k using assms by simp
  then show "map_of (strings r) = map_of (strings r')" "map_of (ttl r) = map_of (ttl r')" "hash_at r = hash_at r'"
    "set_at r = set_at r'" "list_at r = list_at r'"
    by (auto simp: contents_def)
qed

lemma contents_string:
  "contents lc (r\<lparr>strings := AList.update k v (strings r)\<rparr>) = (contents lc r)(k := (contents lc r k)\<lparr>c_string := Some v\<rparr>)"
  by (rule ext) (simp add: content_defs)

lemma contents_setKeyTTL:
  "contents lc (setKeyTTL now k s r) = (contents lc r)(k := (contents lc r k)\<lparr>c_ttl :=
     Some (js_add (num_of_int now) (js_mul s (num_of_int 1000)))\<rparr>)"
  by (rule ext) (simp add: content_defs setKeyTTL_def markDirty_def)

lemma contents_set_plain:
  assumes "truthy s"
  shows "contents lc (snd (redis_set now k v (no_options\<lparr>opt_EX := Some s\<rparr>) r)) =
    (contents lc r)(k := (contents lc r k)\<lparr>c_string := Some v, c_ttl :=
       Some (js_add (num_of_int now) (js_mul s (num_of_int 1000)))\<rparr>)"
proof -
  have "strings (trackOperation now r) = strings r" by simp
  then show ?thesis using assms contents_string [where r = "trackOperation now r" and lc = lc and k = k and v = v]
    by (simp add: redis_set_def Let_def no_options_def contents_setKeyTTL)
qed


subsection \<open>Single fields\<close>

lemma views_setKeyTTL [simp]:
  "hash_at (setKeyTTL now k s r) = hash_at r" "set_at (setKeyTTL now k s r) = set_at r"
  by (auto simp: hash_at_def set_at_def setKeyTTL_def markDirty_def)

lemma views_expire [simp]:
  "hash_at (snd (redis_expire now k s r)) = hash_at r" "set_at (snd (redis_expire now k s r)) = set_at r"
  "strings (snd (redis_expire now k s r)) = strings r"
  by (auto simp: redis_expire_def)

lemma views_track [simp]: "hash_at (trackOperation now r) = hash_at r" "set_at (trackOperation now r) = set_at r"
  by (auto simp: hash_at_def set_at_def trackOperation_def Let_def)

lemma views_hincrbyfloat:
  "hash_at (snd (redis_hincrbyfloat k f x r)) k =
     AList.update f (string_of_num (js_add (js_parseFloat (str_or (map_of (hash_at r k) f) ''0'')) x)) (hash_at r k)"
  "set_at (snd (redis_hincrbyfloat k f x r)) = set_at r" "strings (snd (redis_hincrbyfloat k f x r)) = strings r"
  by (auto simp: redis_hincrbyfloat_def Let_def hash_at_def set_at_def markDirty_def)

lemma views_sadd:
  assumes "m \<noteq> []"
  shows "hash_at (snd (redis_sadd now k [m] r)) = hash_at r"
    "set_at (snd (redis_sadd now k [m] r)) k = jsset_add m (set_at r k)"
    "strings (snd (redis_sadd now k [m] r)) = strings r"
    "fst (redis_sadd now k [m] r) = (if m \<in> set (set_at r k) then 0 else 1)"
  using assms
  by (auto simp: redis_sadd_def Let_def hash_at_def set_at_def markDirty_def trackOperation_def jsset_add_def)

end
