(* ===== verification/IdempotentList.thy ===== *)
theory IdempotentList
  imports RedisViews
begin

text \<open>
  Exactly-once historic batches (\<open>lib/redis-idempotent-list.ts\<close>): \<open>appendUniqueListEntries\<close>
  puts one batch of rows on a bounded list under a completion marker, and
  \<open>incrementHistoricAggregatesOnce\<close> adds one batch of counters to a hash under one marker per
  calculation.  On a network server each is one Lua script; on the in-process store it is a
  sequence of commands that \<open>withLocalKeyLock\<close> serialises per marker, so that a call is one step
  here as well.  None stands for a call that throws.  The commands of the in-process store never
  put an Error among the replies of a pipeline, so the rethrow loops after \<open>exec()\<close> have nothing
  to do.  Sizes and lifetimes are finite numbers.
\<close>

subsection \<open>Appending a batch\<close>

text \<open>The answer of a script as the client library hands it over, each element through \<open>Number\<close>.\<close>

datatype raw_index = Plain jsnum | Nested "jsnum list"

datatype script_answer = ArrayAnswer "raw_index list" | OtherAnswer

fun raw_number :: "raw_index \<Rightarrow> jsnum" where
  "raw_number (Plain x) = x"
| "raw_number (Nested xs) = (if 1 < length xs then xs ! 1 else NaN)"

definition normalizeAcceptedIndexes :: "script_answer \<Rightarrow> nat \<Rightarrow> nat list" where
  "normalizeAcceptedIndexes v entryCount =
     (case v of
        OtherAnswer \<Rightarrow> []
      | ArrayAnswer raws \<Rightarrow>
          sort (fold (\<lambda>raw seen.
                  case js_sub (raw_number raw) (num_of_int 1) of
                    Fin i \<Rightarrow> if i \<in> \<int> \<and> 0 \<le> i \<and> i < of_nat entryCount
                             then (if nat \<lfloor>i\<rfloor> \<in> set seen then seen else seen @ [nat \<lfloor>i\<rfloor>]) else seen
                  | _ \<Rightarrow> seen) raws []))"

text \<open>The loop that skips rows already on the list or earlier in the batch.\<close>

fun accept_entries :: "nat \<Rightarrow> string list \<Rightarrow> jsset \<Rightarrow> nat list \<times> string list" where
  "accept_entries index [] persisted = ([], [])"
| "accept_entries index (entry # rest) persisted =
     (if entry \<in> set persisted then accept_entries (Suc index) rest persisted
      else let (idxs, accepted) = accept_entries (Suc index) rest (jsset_add entry persisted)
           in (index # idxs, entry # accepted))"

type_synonym 'a script_eval = "string list \<Rightarrow> string list \<Rightarrow> redis \<Rightarrow> ('a \<times> redis) option"

definition appendUniqueListEntries ::
  "script_answer script_eval option \<Rightarrow> collate \<Rightarrow> int \<Rightarrow> string \<Rightarrow> string \<Rightarrow> string list \<Rightarrow> rat \<Rightarrow> rat \<Rightarrow>
   redis \<Rightarrow> (nat list \<times> redis) option" where
  "appendUniqueListEntries ev lc now listKey dedupeKey es maxEntries ttlSeconds r =
     (if es = [] then Some ([], r)
      else
        let boundedMax = max 1 \<lfloor>maxEntries\<rfloor>; boundedTtl = max 60 \<lfloor>ttlSeconds\<rfloor>
        in case ev of
             Some f \<Rightarrow>
               map_option (map_prod (\<lambda>v. normalizeAcceptedIndexes v (length es)) id)
                 (f [listKey, dedupeKey]
                    (string_of_num (num_of_int boundedMax) # string_of_num (num_of_int boundedTtl) # es) r)
           | None \<Rightarrow>
               let (marker, r1) = redis_get now dedupeKey r;
                   listEntries = redis_lrange now r1 listKey 0 (-1)
               in if str_or marker [] \<noteq> [] then Some ([], r1)
                  else
                    let (acceptedIndexes, acceptedEntries) =
                          accept_entries 0 es (fold jsset_add listEntries []);
                        pipeline = (if acceptedEntries \<noteq> []
                                    then [CLpush listKey acceptedEntries, CLtrim listKey 0 (boundedMax - 1)] else []) @
                                   [CSet dedupeKey ''1'' (no_options\<lparr>opt_EX := Some (num_of_int boundedTtl)\<rparr>)]
                    in Some (acceptedIndexes, snd (multi_exec lc (map (Pair now) pipeline) r1)))"

text \<open>
  The script \<open>APPEND_UNIQUE_LIST_ENTRIES_LUA\<close>, run on a server whose commands answer like those
  of the in-process store.  The numbers among its arguments are written in decimal, which is what
  \<open>tonumber\<close> reads; \<open>GET\<close> of a present string is true in Lua even when it is empty, and
  Lua counts from 1.  The rows go to the list in chunks of a thousand.
\<close>

function lua_push_chunks :: "string \<Rightarrow> string list \<Rightarrow> redis \<Rightarrow> redis" where
  "lua_push_chunks key es r =
     (if es = [] then r else lua_push_chunks key (drop 1000 es) (snd (redis_lpush key (take 1000 es) r)))"
  by pat_completeness auto
termination by (relation "measure (\<lambda>(_, es, _). length es)") auto

declare lua_push_chunks.simps [simp del]

fun append_unique_lua :: "int \<Rightarrow> script_answer script_eval" where
  "append_unique_lua now (listKey # dedupeKey # _) (maxArg # ttlArg # es) r =
     (let (marker, r1) = redis_get now dedupeKey r
      in if marker \<noteq> None then Some (ArrayAnswer [], r1)
         else
           let persisted = redis_lrange now r1 listKey 0 (-1);
               (acceptedIndexes, acceptedEntries) = accept_entries 1 es persisted;
               r2 = (if acceptedEntries \<noteq> []
                     then redis_ltrim listKey 0 (int_of_digits maxArg - 1) (lua_push_chunks listKey acceptedEntries r1)
                     else r1);
               r3 = snd (redis_set now dedupeKey ''1''
                      (no_options\<lparr>opt_EX := Some (num_of_int (int_of_digits ttlArg))\<rparr>) r2)
           in Some (ArrayAnswer (map (\<lambda>i. Plain (num_of_int (int i))) acceptedIndexes), r3))"
| "append_unique_lua now _ _ r = None"

subsection \<open>Adding to an aggregate\<close>

record HistoricAggregateIncrement =
  inc_field :: string
  inc_value :: jsnum

definition historicAggregateMarkerCollectionKey :: "string \<Rightarrow> string" where
  "historicAggregateMarkerCollectionKey aggregateKey = aggregateKey @ '':markers''"

definition valid_increment :: "HistoricAggregateIncrement \<Rightarrow> bool" where
  "valid_increment item = (inc_field item \<noteq> [] \<and> js_isFinite (inc_value item))"

definition incrementHistoricAggregateOnce ::
  "jsnum script_eval option \<Rightarrow> collate \<Rightarrow> int \<Rightarrow> string \<Rightarrow> string \<Rightarrow> HistoricAggregateIncrement list \<Rightarrow> rat \<Rightarrow>
   string option \<Rightarrow> redis \<Rightarrow> (bool \<times> redis) option" where
  "incrementHistoricAggregateOnce ev lc now markerKey aggregateKey increments ttlSeconds markerMember r =
     (let boundedTtl = num_of_int (max 60 \<lfloor>ttlSeconds\<rfloor>);
          markerCollectionKey = historicAggregateMarkerCollectionKey aggregateKey;
          normalizedMember = str_or markerMember markerKey;
          normalized = filter valid_increment increments
      in case ev of
           Some f \<Rightarrow>
             map_option (map_prod (\<lambda>n. n = num_of_int 1) id)
               (f [markerCollectionKey, aggregateKey, markerKey]
                  ([string_of_num boundedTtl, normalizedMember] @
                   concat (map (\<lambda>item. [inc_field item, string_of_num (inc_value item)]) normalized)) r)
         | None \<Rightarrow>
             let (legacyMarker, r1) = redis_get now markerKey r;
                 legacyCollectionMember = (redis_sismember now r1 markerCollectionKey markerKey = 1)
             in if str_or legacyMarker [] \<noteq> [] \<or> legacyCollectionMember then
                  let (_, r2) = redis_sadd now markerCollectionKey [normalizedMember] r1
                  in Some (False, snd (multi_exec lc [(now, CExpire markerCollectionKey boundedTtl)] r2))
                else
                  let (added, r2) = redis_sadd now markerCollectionKey [normalizedMember] r1
                  in if added \<noteq> 1 then Some (False, r2)
                     else Some (True, snd (multi_exec lc (map (Pair now)
                            (map (\<lambda>item. CHincrbyfloat aggregateKey (inc_field item) (inc_value item)) normalized @
                             [CExpire markerCollectionKey boundedTtl, CExpire aggregateKey boundedTtl])) r2)))"

text \<open>The loop over the markers of one calculation, each with its member.\<close>

fun increment_each ::
  "collate \<Rightarrow> int \<Rightarrow> (string \<times> string) list \<Rightarrow> string \<Rightarrow> HistoricAggregateIncrement list \<Rightarrow> rat \<Rightarrow> int \<Rightarrow> redis \<Rightarrow>
   (int \<times> redis) option" where
  "increment_each lc now [] aggregateKey incs ttlSeconds accepted r = Some (accepted, r)"
| "increment_each lc now ((markerKey, m) # rest) aggregateKey incs ttlSeconds accepted r =
     (case incrementHistoricAggregateOnce None lc now markerKey aggregateKey incs ttlSeconds (Some m) r of
        None \<Rightarrow> None
      | Some (b, r') \<Rightarrow> increment_each lc now rest aggregateKey incs ttlSeconds (if b then accepted + 1 else accepted) r')"

definition nth_opt :: "'a list option \<Rightarrow> nat \<Rightarrow> 'a option" where
  "nth_opt xs i = (case xs of None \<Rightarrow> None | Some ys \<Rightarrow> if i < length ys then Some (ys ! i) else None)"

definition incrementHistoricAggregatesOnce ::
  "jsnum script_eval option \<Rightarrow> collate \<Rightarrow> int \<Rightarrow> string list \<Rightarrow> string \<Rightarrow> HistoricAggregateIncrement list \<Rightarrow> rat \<Rightarrow>
   string list option \<Rightarrow> redis \<Rightarrow> (jsnum \<times> redis) option" where
  "incrementHistoricAggregatesOnce ev lc now markerKeys aggregateKey increments ttlSeconds markerMembers r =
     (if markerKeys = [] then Some (num_of_int 0, r)
      else
        let boundedTtl = max 60 \<lfloor>ttlSeconds\<rfloor>;
            normalizedMarkerMembers = map (\<lambda>(index, markerKey). str_or (nth_opt markerMembers index) markerKey)
                                        (enumerate 0 markerKeys);
            normalized = filter valid_increment increments
        in case ev of
             Some f \<Rightarrow>
               map_option (map_prod (\<lambda>n. if truthy n then n else num_of_int 0) id)
                 (f (historicAggregateMarkerCollectionKey aggregateKey # aggregateKey # markerKeys)
                    ([string_of_num (num_of_int boundedTtl), string_of_num (num_of_int (int (length markerKeys)))] @
                     normalizedMarkerMembers @
                     concat (map (\<lambda>item. [inc_field item, string_of_num (inc_value item)]) normalized)) r)
           | None \<Rightarrow>
               map_option (map_prod num_of_int id)
                 (increment_each lc now (zip markerKeys normalizedMarkerMembers) aggregateKey normalized (of_int boundedTtl) 0 r))"


subsection \<open>What the batch loop accepts\<close>

lemma upt_Suc_shift: "[0..<Suc n] = 0 # map Suc [0..<n]"
  by (simp add: upt_conv_Cons map_Suc_upt del: upt_Suc)

definition new_rows :: "string list \<Rightarrow> string list \<Rightarrow> nat list" where
  "new_rows es present = filter (\<lambda>i. es ! i \<notin> set present \<and> es ! i \<notin> set (take i es)) [0..<length es]"

lemma new_rows_Cons:
  "new_rows (e # es) P =
     (if e \<in> set P then map Suc (new_rows es P) else 0 # map Suc (new_rows es (jsset_add e P)))"
  unfolding new_rows_def length_Cons upt_Suc_shift
  by (auto simp: filter_map o_def intro!: filter_cong)

lemma new_rows_cong: "set P = set Q \<Longrightarrow> new_rows es P = new_rows es Q"
  by (simp add: new_rows_def)

lemma new_rows_bounds: "sorted (new_rows es P)" "distinct (new_rows es P)" "\<forall>i \<in> set (new_rows es P). i < length es"
  by (auto simp: new_rows_def sorted_wrt_filter)

lemma accept_entries_spec:
  "accept_entries n es P = (map (\<lambda>i. n + i) (new_rows es P), map ((!) es) (new_rows es P))"
proof (induction n es P rule: accept_entries.induct)
  case (2 n e es P)
  then show ?case by (simp add: new_rows_Cons o_def)
qed (simp add: new_rows_def)

lemma contents_push_chunks:
  "contents lc (lua_push_chunks k es r) = (contents lc r)(k := (contents lc r k)\<lparr>c_list := rev es @ list_at r k\<rparr>)"
proof (induction k es r rule: lua_push_chunks.induct)
  case (1 k es r)
  show ?case
  proof (cases "es = []")
    case True
    then have "lua_push_chunks k es r = r" by (simp add: lua_push_chunks.simps [of k "[]"])
    then show ?thesis using True by (intro ext) (simp add: contents_def)
  next
    case False
    have "rev (drop 1000 es) @ rev (take 1000 es) = rev es" by (simp flip: rev_append)
    then show ?thesis using 1 [OF False] False
      by (intro ext) (simp add: lua_push_chunks.simps [of k es r] contents_lpush flip: append_assoc)
  qed
qed

subsection \<open>Appending exactly once\<close>

lemma truthy_pos_int: "0 < s \<Longrightarrow> truthy (num_of_int s)"
  by (simp add: truthy_def)

lemma fold_jsset_add_set: "new_rows es (fold jsset_add L []) = new_rows es L"
  by (rule new_rows_cong) (simp add: set_fold_jsset_add)

lemma list_range_all [simp]: "list_range 0 (- 1) xs = xs"
  by (simp add: list_range_def Let_def)

text \<open>The effect of a local append without a marker, on what clients can read.\<close>

definition appended :: "int \<Rightarrow> string \<Rightarrow> string \<Rightarrow> string list \<Rightarrow> int \<Rightarrow> int \<Rightarrow> (string \<Rightarrow> key_contents) \<Rightarrow> string \<Rightarrow> key_contents" where
  "appended now listKey dedupeKey rows bmax bttl c =
     (let c1 = (if rows = [] then c
                else c(listKey := (c listKey)\<lparr>c_list := take (nat bmax) (rev rows @ c_list (c listKey))\<rparr>))
      in c1(dedupeKey := (c1 dedupeKey)\<lparr>c_string := Some ''1'',
              c_ttl := Some (js_add (num_of_int now) (js_mul (num_of_int bttl) (num_of_int 1000)))\<rparr>))"

lemma c_list_contents [simp]: "c_list (contents lc r k) = list_at r k"
  by (simp add: contents_def)

lemma ltrim_lpush_contents:
  assumes "0 < n" "contents lc r' = (contents lc r)(k := (contents lc r k)\<lparr>c_list := l\<rparr>)"
  shows "contents lc (redis_ltrim k 0 (n - 1) r') = (contents lc r)(k := (contents lc r k)\<lparr>c_list := take (nat n) l\<rparr>)"
proof -
  have "list_at r' k = l" using arg_cong [OF assms(2), of "\<lambda>c. c_list (c k)"] by simp
  then show ?thesis using assms by (simp add: contents_ltrim list_range_prefix)
qed

lemma append_local:
  assumes "es \<noteq> []" "str_or (visible_string now r dedupeKey) [] = []"
  shows "\<exists>r'. appendUniqueListEntries None lc now listKey dedupeKey es maxEntries ttlSeconds r =
       Some (new_rows es (redis_lrange now r listKey 0 (-1)), r') \<and>
     contents lc r' = appended now listKey dedupeKey (map ((!) es) (new_rows es (redis_lrange now r listKey 0 (-1))))
       (max 1 \<lfloor>maxEntries\<rfloor>) (max 60 \<lfloor>ttlSeconds\<rfloor>) (contents lc r)"
proof -
  let ?L = "redis_lrange now r listKey 0 (-1)"
  have l: "redis_lrange now (trackOperation now r) listKey 0 (-1) = ?L"
    by (simp add: redis_lrange_def list_at_def trackOperation_def Let_def isExpired_def)
  have t: "truthy (num_of_int (max 60 \<lfloor>ttlSeconds\<rfloor>))" by (rule truthy_pos_int) simp
  have c: "contents lc (snd (redis_lpush listKey vs (trackOperation now r))) =
      (contents lc r)(listKey := (contents lc r listKey)\<lparr>c_list := rev vs @ list_at r listKey\<rparr>)" for vs
    using contents_parts(5) [OF contents_trackOperation [of lc now r]] by (simp add: contents_lpush)
  have m: "contents lc (redis_ltrim listKey 0 (max 1 \<lfloor>maxEntries\<rfloor> - 1) (snd (redis_lpush listKey vs (trackOperation now r)))) =
      (contents lc r)(listKey := (contents lc r listKey)\<lparr>c_list := take (nat (max 1 \<lfloor>maxEntries\<rfloor>)) (rev vs @ list_at r listKey)\<rparr>)" for vs
    by (rule ltrim_lpush_contents [OF _ c]) simp
  show ?thesis
    using assms unfolding appendUniqueListEntries_def Let_def redis_get_def
    by (auto simp: l accept_entries_spec fold_jsset_add_set appended_def Let_def contents_set_plain [OF t] m
        prod.case_eq_if simp del: of_int_max)
qed

text \<open>C3. One complete batch goes on the list exactly once.  Without a live marker,
  \<open>appendUniqueListEntries\<close> answers the positions of the rows that are neither on the list nor
  earlier in the batch, puts those rows in front of the list, keeps the newest
  \<open>max(1, floor(maxEntries))\<close>, and every later call under the same marker within its lifetime
  answers no positions and changes nothing a client can read.\<close>

theorem append_exactly_once:
  assumes "es \<noteq> []" "visible_string now r dedupeKey = None" "\<not> isExpired now r listKey"
    and "0 \<le> now" "now + 1000 * max 60 \<lfloor>ttlSeconds\<rfloor> \<le> 2 ^ 53"
    and "accepted = filter (\<lambda>i. es ! i \<notin> set (list_at r listKey) \<and> es ! i \<notin> set (take i es)) [0..<length es]"
  shows "\<exists>r'. appendUniqueListEntries None lc now listKey dedupeKey es maxEntries ttlSeconds r = Some (accepted, r') \<and>
     list_at r' listKey = (if accepted = [] then list_at r listKey
       else take (nat (max 1 \<lfloor>maxEntries\<rfloor>)) (rev (map ((!) es) accepted) @ list_at r listKey)) \<and>
     (\<forall>t es' max' ttl'. t < now + 1000 * max 60 \<lfloor>ttlSeconds\<rfloor> \<longrightarrow>
        (\<exists>r''. appendUniqueListEntries None lc t listKey dedupeKey es' max' ttl' r' = Some ([], r'') \<and>
               contents lc r'' = contents lc r'))"
proof -
  let ?ttl = "max 60 \<lfloor>ttlSeconds\<rfloor>"
  have L: "redis_lrange now r listKey 0 (-1) = list_at r listKey" using assms(3) by (simp add: redis_lrange_def)
  have acc: "new_rows es (list_at r listKey) = accepted" using assms(6) by (simp add: new_rows_def)
  obtain r' where r': "appendUniqueListEntries None lc now listKey dedupeKey es maxEntries ttlSeconds r = Some (accepted, r')"
    "contents lc r' = appended now listKey dedupeKey (map ((!) es) accepted) (max 1 \<lfloor>maxEntries\<rfloor>) ?ttl (contents lc r)"
    using append_local [OF assms(1), of now r dedupeKey lc listKey maxEntries ttlSeconds] assms(2) L acc
    by (auto simp: str_or_def)
  have "c_list (contents lc r' listKey) = (if accepted = [] then list_at r listKey
       else take (nat (max 1 \<lfloor>maxEntries\<rfloor>)) (rev (map ((!) es) accepted) @ list_at r listKey))"
    unfolding r'(2) by (simp add: appended_def Let_def)
  moreover have "visible_string t r' dedupeKey = Some ''1''" if "t < now + 1000 * ?ttl" for t
  proof -
    have e: "js_add (num_of_int now) (js_mul (num_of_int ?ttl) (num_of_int 1000)) = num_of_int (now + 1000 * ?ttl)"
      using ttl_setKeyTTL [of now ?ttl dedupeKey r] assms(4,5) by (simp add: setKeyTTL_def del: of_int_max)
    have "contents lc r' dedupeKey = (contents lc r' dedupeKey)\<lparr>c_string := Some ''1'', c_ttl := Some (num_of_int (now + 1000 * ?ttl))\<rparr>"
      unfolding r'(2) appended_def Let_def e fun_upd_same by simp
    then have m: "map_of (strings r') dedupeKey = Some ''1''" "map_of (ttl r') dedupeKey = Some (num_of_int (now + 1000 * ?ttl))"
      by (simp_all add: contents_def del: of_int_add of_int_mult of_int_max)
    have "0 < now + 1000 * ?ttl" using assms(4) by simp
    from visible_until [OF m this, of t] show ?thesis using that by simp
  qed
  then have "\<exists>r''. appendUniqueListEntries None lc t listKey dedupeKey es' max' ttl' r' = Some ([], r'') \<and> contents lc r'' = contents lc r'"
    if "t < now + 1000 * ?ttl" for t es' max' ttl'
    using that by (auto simp: appendUniqueListEntries_def Let_def redis_get_def str_or_def)
  ultimately show ?thesis using r'(1) by (intro exI [of _ r']) simp
qed


theorem append_exactly_once_witness:
  "\<exists>r'. appendUniqueListEntries None code_unit_compare 1000 ''rows'' ''done'' [''b'', ''a'', ''c'', ''b''] 2 90
         ((redis_empty 0)\<lparr>lists := [(''rows'', [''a''])]\<rparr>) = Some ([0, 2], r') \<and>
     list_at r' ''rows'' = [''c'', ''b''] \<and>
     (\<forall>t es' max' ttl'. t < 91000 \<longrightarrow>
        (\<exists>r''. appendUniqueListEntries None code_unit_compare t ''rows'' ''done'' es' max' ttl' r' = Some ([], r'') \<and>
               contents code_unit_compare r'' = contents code_unit_compare r'))"
  using append_exactly_once [where es = "[''b'', ''a'', ''c'', ''b'']" and now = 1000 and dedupeKey = "''done''"
      and listKey = "''rows''" and r = "(redis_empty 0)\<lparr>lists := [(''rows'', [''a''])]\<rparr>" and ttlSeconds = 90
      and maxEntries = 2 and lc = code_unit_compare and accepted = "[0, 2]"]
  by (simp add: visible_string_def isExpired_def redis_empty_def list_at_def upt_conv_Cons)

text \<open>The script and the local path, on what clients can read.\<close>

lemma normalize_script_answer:
  assumes "sorted I" "distinct I" "\<forall>i \<in> set I. i < n" "int n \<le> 2 ^ 53"
  shows "normalizeAcceptedIndexes (ArrayAnswer (map (\<lambda>i. Plain (num_of_int (int i))) (map Suc I))) n = I"
proof -
  let ?step = "\<lambda>raw seen. case js_sub (raw_number raw) (num_of_int 1) of
      Fin i \<Rightarrow> if i \<in> \<int> \<and> 0 \<le> i \<and> i < of_nat n
               then (if nat \<lfloor>i\<rfloor> \<in> set seen then seen else seen @ [nat \<lfloor>i\<rfloor>]) else seen
    | _ \<Rightarrow> seen"
  have one: "js_sub (num_of_int (int (Suc i))) (num_of_int 1) = num_of_int (int i)" if "i < n" for i
    using js_sub_int [of "int (Suc i)" 1] that assms(4) by simp
  have step: "?step (Plain (num_of_int (int (Suc i)))) seen = seen @ [i]" if "i < n" "i \<notin> set seen" for i seen
    using that(2) unfolding raw_number.simps one [OF that(1)] using that(1) by simp
  have "fold ?step (map (\<lambda>i. Plain (num_of_int (int (Suc i)))) J) seen = seen @ J"
    if "distinct J" "\<forall>i \<in> set J. i < n" "set J \<inter> set seen = {}" for J seen
    using that
  proof (induction J arbitrary: seen)
    case (Cons j J)
    then have "?step (Plain (num_of_int (int (Suc j)))) seen = seen @ [j]" by (intro step) auto
    with Cons.IH [of "seen @ [j]"] Cons.prems show ?case by auto
  qed simp
  from this [OF assms(2,3), of "[]"] have "fold ?step (map (\<lambda>i. Plain (num_of_int (int i))) (map Suc I)) [] = I"
    by (simp add: o_def)
  then show ?thesis unfolding normalizeAcceptedIndexes_def using assms(1) by (simp add: sorted_sort_id)
qed


text \<open>C25. The two backends agree: on a server whose commands behave like the in-process store's,
  the Lua script and the local command sequence answer the same positions and leave the same
  contents, chunked pushes and 1-based indexes included.\<close>

theorem append_backends_agree:
  assumes "es \<noteq> []" "int (length es) \<le> 2 ^ 53" "visible_string now r dedupeKey \<noteq> Some []"
    and "\<lfloor>maxEntries\<rfloor> \<le> 2 ^ 53" "\<lfloor>ttlSeconds\<rfloor> \<le> 2 ^ 53"
  shows "\<exists>idxs r1 r2.
     appendUniqueListEntries (Some (append_unique_lua now)) lc now listKey dedupeKey es maxEntries ttlSeconds r = Some (idxs, r1) \<and>
     appendUniqueListEntries None lc now listKey dedupeKey es maxEntries ttlSeconds r = Some (idxs, r2) \<and>
     contents lc r1 = contents lc r2"
proof (cases "visible_string now r dedupeKey")
  case None
  let ?L = "redis_lrange now r listKey 0 (-1)" and ?m = "max 1 \<lfloor>maxEntries\<rfloor>" and ?s = "max 60 \<lfloor>ttlSeconds\<rfloor>"
  let ?I = "new_rows es ?L"
  obtain r2 where r2: "appendUniqueListEntries None lc now listKey dedupeKey es maxEntries ttlSeconds r = Some (?I, r2)"
    "contents lc r2 = appended now listKey dedupeKey (map ((!) es) ?I) ?m ?s (contents lc r)"
    using append_local [OF assms(1), of now r dedupeKey lc listKey maxEntries ttlSeconds] None by (auto simp: str_or_def)
  have l: "redis_lrange now (trackOperation now r) listKey 0 (-1) = ?L"
    by (simp add: redis_lrange_def list_at_def trackOperation_def Let_def isExpired_def)
  have args: "int_of_digits (string_of_num (num_of_int ?m)) = ?m" "int_of_digits (string_of_num (num_of_int ?s)) = ?s"
    using assms(4,5) by (simp_all add: string_of_num_int string_of_int_def del: of_int_max string_of_num.simps)
  have t: "truthy (num_of_int ?s)" by (rule truthy_pos_int) simp
  have c: "contents lc (lua_push_chunks listKey vs (trackOperation now r)) =
      (contents lc r)(listKey := (contents lc r listKey)\<lparr>c_list := rev vs @ list_at r listKey\<rparr>)" for vs
    using contents_parts(5) [OF contents_trackOperation [of lc now r]] by (simp add: contents_push_chunks)
  have m: "contents lc (redis_ltrim listKey 0 (?m - 1) (lua_push_chunks listKey vs (trackOperation now r))) =
      (contents lc r)(listKey := (contents lc r listKey)\<lparr>c_list := take (nat ?m) (rev vs @ list_at r listKey)\<rparr>)" for vs
    by (rule ltrim_lpush_contents [OF _ c]) simp
  have n: "normalizeAcceptedIndexes (ArrayAnswer (map (\<lambda>i. Plain (num_of_int (int i))) (map Suc ?I))) (length es) = ?I"
    using new_rows_bounds assms(2) by (intro normalize_script_answer) auto
  have "\<exists>r1. appendUniqueListEntries (Some (append_unique_lua now)) lc now listKey dedupeKey es maxEntries ttlSeconds r = Some (?I, r1) \<and>
     contents lc r1 = appended now listKey dedupeKey (map ((!) es) ?I) ?m ?s (contents lc r)"
    using assms(1) None n
    by (simp add: appendUniqueListEntries_def Let_def redis_get_def args l accept_entries_spec appended_def
        contents_set_plain [OF t] m o_def del: of_int_max string_of_num.simps)
  with r2 show ?thesis by metis
next
  case (Some v)
  with assms(1,3) show ?thesis
    by (auto simp: appendUniqueListEntries_def Let_def redis_get_def str_or_def normalizeAcceptedIndexes_def)
qed

theorem append_backends_agree_witness:
  "\<exists>idxs r1 r2.
     appendUniqueListEntries (Some (append_unique_lua 1000)) code_unit_compare 1000 ''rows'' ''done'' [''b''] 2 90 (redis_empty 0) = Some (idxs, r1) \<and>
     appendUniqueListEntries None code_unit_compare 1000 ''rows'' ''done'' [''b''] 2 90 (redis_empty 0) = Some (idxs, r2) \<and>
     contents code_unit_compare r1 = contents code_unit_compare r2"
  using append_backends_agree [where es = "[''b'']" and now = 1000 and r = "redis_empty 0" and dedupeKey = "''done''"
      and listKey = "''rows''" and maxEntries = 2 and ttlSeconds = 90 and lc = code_unit_compare]
  by (simp add: visible_string_def redis_empty_def)


subsection \<open>Counting exactly once\<close>

text \<open>What the increments of one calculation do to the hash.\<close>

definition add_increments :: "HistoricAggregateIncrement list \<Rightarrow> string jsmap \<Rightarrow> string jsmap" where
  "add_increments incs h = fold (\<lambda>i h. AList.update (inc_field i)
     (string_of_num (js_add (js_parseFloat (str_or (map_of h (inc_field i)) ''0'')) (inc_value i))) h) incs h"

lemma views_increments:
  "hash_at (snd (multi_exec lc (map (Pair now) (map (\<lambda>item. CHincrbyfloat k (inc_field item) (inc_value item)) incs @
     [CExpire a x, CExpire b y])) r)) k = add_increments incs (hash_at r k)"
  "set_at (snd (multi_exec lc (map (Pair now) (map (\<lambda>item. CHincrbyfloat k (inc_field item) (inc_value item)) incs @
     [CExpire a x, CExpire b y])) r)) = set_at r"
  "strings (snd (multi_exec lc (map (Pair now) (map (\<lambda>item. CHincrbyfloat k (inc_field item) (inc_value item)) incs @
     [CExpire a x, CExpire b y])) r)) = strings r"
  by (induction incs arbitrary: r)
    (simp_all add: add_increments_def views_hincrbyfloat prod.case_eq_if split: prod.splits)

lemma ttl_increments:
  assumes "has_data r a" "a \<noteq> k"
  shows "map_of (ttl (snd (multi_exec lc (map (Pair now) (map (\<lambda>item. CHincrbyfloat k (inc_field item) (inc_value item)) incs @
     [CExpire a x, CExpire k x])) r))) a = Some (js_add (num_of_int now) (js_mul x (num_of_int 1000)))"
  using assms
proof (induction incs arbitrary: r)
  case Nil
  then show ?case by (auto simp: redis_expire_def setKeyTTL_def markDirty_def prod.case_eq_if)
next
  case (Cons i incs)
  have "has_data (snd (redis_hincrbyfloat k (inc_field i) (inc_value i) r)) a"
    using Cons.prems(1) by (auto simp: has_data_def redis_hincrbyfloat_def markDirty_def Let_def)
  then show ?case using Cons.IH [of "snd (redis_hincrbyfloat k (inc_field i) (inc_value i) r)"] Cons.prems(2)
    by (simp add: prod.case_eq_if split: prod.splits)
qed

text \<open>One marker: the member counts exactly when the collection does not have it yet.\<close>

definition marked :: "redis \<Rightarrow> string \<Rightarrow> string set" where
  "marked r aggregateKey = set (set_at r (historicAggregateMarkerCollectionKey aggregateKey))"

lemma collection_key_other: "historicAggregateMarkerCollectionKey aggregateKey \<noteq> aggregateKey"
  by (simp add: historicAggregateMarkerCollectionKey_def)

lemma increment_known:
  assumes "m \<noteq> []" "m \<in> marked r aggregateKey"
  shows "\<exists>r'. incrementHistoricAggregateOnce None lc now k aggregateKey incs ttlSeconds (Some m) r = Some (False, r') \<and>
     marked r' aggregateKey = marked r aggregateKey \<and> hash_at r' aggregateKey = hash_at r aggregateKey \<and> strings r' = strings r \<and>
     map_of (ttl r') (historicAggregateMarkerCollectionKey aggregateKey) \<in> {map_of (ttl r) (historicAggregateMarkerCollectionKey aggregateKey),
       Some (js_add (num_of_int now) (js_mul (num_of_int (max 60 \<lfloor>ttlSeconds\<rfloor>)) (num_of_int 1000)))}"
proof -
  have m: "m \<in> set (set_at r (historicAggregateMarkerCollectionKey aggregateKey))" using assms(2) by (simp add: marked_def)
  have t: "ttl (snd (redis_sadd now kk ms q)) = ttl q" for kk ms q by (simp add: redis_sadd_def Let_def markDirty_def)
  have x: "map_of (ttl (snd (redis_expire now kk y q))) kk \<in> {map_of (ttl q) kk, Some (js_add (num_of_int now) (js_mul y (num_of_int 1000)))}" for kk y q
    by (simp add: redis_expire_def setKeyTTL_def markDirty_def)
  show ?thesis using assms(1) m x [of "historicAggregateMarkerCollectionKey aggregateKey" "num_of_int (max 60 \<lfloor>ttlSeconds\<rfloor>)"
        "snd (redis_sadd now (historicAggregateMarkerCollectionKey aggregateKey) [m] (trackOperation now r))"]
    by (auto simp: incrementHistoricAggregateOnce_def Let_def redis_get_def str_or_def marked_def
        views_sadd prod.case_eq_if jsset_add_def t simp del: of_int_max)
qed

lemma increment_new:
  assumes "m \<noteq> []" "m \<notin> marked r aggregateKey" "map_of (strings r) k = None" "k = m \<or> k \<notin> marked r aggregateKey"
  shows "\<exists>r'. incrementHistoricAggregateOnce None lc now k aggregateKey incs ttlSeconds (Some m) r = Some (True, r') \<and>
     marked r' aggregateKey = insert m (marked r aggregateKey) \<and> strings r' = strings r \<and>
     hash_at r' aggregateKey = add_increments (filter valid_increment incs) (hash_at r aggregateKey) \<and>
     map_of (ttl r') (historicAggregateMarkerCollectionKey aggregateKey) =
       Some (js_add (num_of_int now) (js_mul (num_of_int (max 60 \<lfloor>ttlSeconds\<rfloor>)) (num_of_int 1000)))"
proof -
  let ?c = "historicAggregateMarkerCollectionKey aggregateKey"
  have v: "visible_string now r k = None" using assms(3) by (simp add: visible_string_def)
  have s: "redis_sismember now (trackOperation now r) ?c k = 0"
    using assms(2,4) by (auto simp: redis_sismember_def marked_def)
  have m: "m \<notin> set (set_at r ?c)" using assms(2) by (simp add: marked_def)
  let ?r = "snd (redis_sadd now ?c [m] (trackOperation now r))"
  have "has_data ?r ?c" by (simp add: has_data_def redis_sadd_def Let_def markDirty_def)
  note t = ttl_increments [OF this collection_key_other, where lc = lc and now = now and incs = "filter valid_increment incs"
      and x = "num_of_int (max 60 \<lfloor>ttlSeconds\<rfloor>)"]
  show ?thesis
    using assms(1) m t
    by (simp add: incrementHistoricAggregateOnce_def Let_def redis_get_def v s str_or_def marked_def
        views_sadd views_increments [simplified] prod.case_eq_if del: of_int_max)
qed

text \<open>The expiry of the marker collection, from a time on.\<close>

definition markers_kept :: "redis \<Rightarrow> string \<Rightarrow> int \<Rightarrow> bool" where
  "markers_kept r aggregateKey u \<longleftrightarrow> (\<forall>t < u. \<not> isExpired t r (historicAggregateMarkerCollectionKey aggregateKey))"

lemma markers_keptI:
  assumes "map_of (ttl r) (historicAggregateMarkerCollectionKey aggregateKey) =
      Some (js_add (num_of_int now) (js_mul (num_of_int n) (num_of_int 1000)))" "0 \<le> now" "0 < n" "now + 1000 * n \<le> 2 ^ 53"
  shows "markers_kept r aggregateKey (now + 1000 * n)"
proof -
  have "js_add (num_of_int now) (js_mul (num_of_int n) (num_of_int 1000)) = num_of_int (now + 1000 * n)"
    using ttl_setKeyTTL [of now n k r] assms(2-4) by (simp add: setKeyTTL_def markDirty_def)
  then show ?thesis unfolding markers_kept_def isExpired_def using assms(1) by simp
qed

lemma increment_each_known:
  assumes "\<forall>(k, m) \<in> set ps. m \<noteq> [] \<and> m \<in> marked r aggregateKey"
  shows "\<exists>r'. increment_each lc now ps aggregateKey incs ttlSeconds a r = Some (a, r') \<and> hash_at r' aggregateKey = hash_at r aggregateKey"
  using assms
proof (induction ps arbitrary: r)
  case (Cons p ps)
  obtain k m where p: "p = (k, m)" by (cases p)
  obtain r1 where "incrementHistoricAggregateOnce None lc now k aggregateKey incs ttlSeconds (Some m) r = Some (False, r1)"
      "marked r1 aggregateKey = marked r aggregateKey" "hash_at r1 aggregateKey = hash_at r aggregateKey"
    using increment_known [of m r aggregateKey lc now k incs ttlSeconds] Cons.prems p by auto
  then show ?case using Cons.IH [of r1] Cons.prems p by auto
qed simp

lemma increment_each_spec:
  fixes aggregateKey ttlSeconds now
  defines "u \<equiv> now + 1000 * max 60 \<lfloor>ttlSeconds\<rfloor>"
  assumes "0 \<le> now" "u \<le> 2 ^ 53"
    and "\<forall>(k, m) \<in> set ps. m \<noteq> [] \<and> map_of (strings r) k = None \<and> (k = m \<or> k \<notin> marked r aggregateKey \<union> snd ` set ps)"
  shows "\<exists>r'. increment_each lc now ps aggregateKey incs ttlSeconds a r = Some (a + int (card (snd ` set ps - marked r aggregateKey)), r') \<and>
     marked r' aggregateKey = marked r aggregateKey \<union> snd ` set ps \<and>
     hash_at r' aggregateKey = ((add_increments (filter valid_increment incs)) ^^ card (snd ` set ps - marked r aggregateKey)) (hash_at r aggregateKey) \<and>
     (snd ` set ps \<subseteq> marked r aggregateKey \<and> \<not> markers_kept r aggregateKey u \<or> markers_kept r' aggregateKey u)"
  using assms(4)
proof (induction ps arbitrary: a r)
  case (Cons p ps)
  obtain k m where p: "p = (k, m)" by (cases p)
  let ?S = "\<lambda>r. marked r aggregateKey"
  have pos: "0 < max 60 \<lfloor>ttlSeconds\<rfloor>" by simp
  have one: "\<exists>r1. incrementHistoricAggregateOnce None lc now k aggregateKey incs ttlSeconds (Some m) r = Some (m \<notin> ?S r, r1) \<and>
      ?S r1 = insert m (?S r) \<and> strings r1 = strings r \<and>
      hash_at r1 aggregateKey = (if m \<in> ?S r then hash_at r aggregateKey else add_increments (filter valid_increment incs) (hash_at r aggregateKey)) \<and>
      (m \<in> ?S r \<and> \<not> markers_kept r aggregateKey u \<or> markers_kept r1 aggregateKey u)"
  proof (cases "m \<in> ?S r")
    case True
    have "m \<noteq> []" using Cons.prems p by simp
    from increment_known [OF this True, of lc now k incs ttlSeconds] obtain r1 where
      r1: "incrementHistoricAggregateOnce None lc now k aggregateKey incs ttlSeconds (Some m) r = Some (False, r1)" "?S r1 = ?S r"
        "hash_at r1 aggregateKey = hash_at r aggregateKey" "strings r1 = strings r"
        "map_of (ttl r1) (historicAggregateMarkerCollectionKey aggregateKey) = map_of (ttl r) (historicAggregateMarkerCollectionKey aggregateKey) \<or>
         map_of (ttl r1) (historicAggregateMarkerCollectionKey aggregateKey) = Some (js_add (num_of_int now) (js_mul (num_of_int (max 60 \<lfloor>ttlSeconds\<rfloor>)) (num_of_int 1000)))"
      by blast
    have "markers_kept r1 aggregateKey u" if "markers_kept r aggregateKey u"
      using r1(5) that markers_keptI [OF _ assms(2) pos assms(3) [unfolded u_def], of r1 aggregateKey]
      by (auto simp: markers_kept_def isExpired_def u_def)
    then show ?thesis using True r1 by (auto simp: insert_absorb)
  next
    case False
    have pre: "m \<noteq> []" "map_of (strings r) k = None" "k = m \<or> k \<notin> ?S r" using Cons.prems p by auto
    from increment_new [OF pre(1) False pre(2,3), of lc now incs ttlSeconds] markers_keptI [OF _ assms(2) pos assms(3) [unfolded u_def]] False
    show ?thesis unfolding u_def by metis
  qed
  then obtain r1 where r1: "incrementHistoricAggregateOnce None lc now k aggregateKey incs ttlSeconds (Some m) r = Some (m \<notin> ?S r, r1)"
      "?S r1 = insert m (?S r)" "strings r1 = strings r"
      "hash_at r1 aggregateKey = (if m \<in> ?S r then hash_at r aggregateKey else add_increments (filter valid_increment incs) (hash_at r aggregateKey))"
      "m \<in> ?S r \<and> \<not> markers_kept r aggregateKey u \<or> markers_kept r1 aggregateKey u" by blast
  let ?a = "if m \<notin> ?S r then a + 1 else a"
  have pre: "\<forall>(k, m) \<in> set ps. m \<noteq> [] \<and> map_of (strings r1) k = None \<and> (k = m \<or> k \<notin> ?S r1 \<union> snd ` set ps)"
    using Cons.prems p r1(2,3) by auto
  obtain r2 where r2: "increment_each lc now ps aggregateKey incs ttlSeconds ?a r1 = Some (?a + int (card (snd ` set ps - ?S r1)), r2)"
     "?S r2 = ?S r1 \<union> snd ` set ps"
     "hash_at r2 aggregateKey = ((add_increments (filter valid_increment incs)) ^^ card (snd ` set ps - ?S r1)) (hash_at r1 aggregateKey)"
     "snd ` set ps \<subseteq> ?S r1 \<and> \<not> markers_kept r1 aggregateKey u \<or> markers_kept r2 aggregateKey u"
    using Cons.IH [OF pre] by blast
  have c: "card (snd ` set (p # ps) - ?S r) = (if m \<in> ?S r then 0 else 1) + card (snd ` set ps - ?S r1)"
  proof -
    have "snd ` set (p # ps) - ?S r = (if m \<in> ?S r then {} else {m}) \<union> (snd ` set ps - ?S r1)" using p r1(2) by auto
    then show ?thesis using r1(2) by (auto simp: card_insert_if)
  qed
  have f: "(f ^^ ((if b then 0 else 1) + n)) x = (f ^^ n) (if b then x else f x)" for f :: "string jsmap \<Rightarrow> string jsmap" and b n x
    by (simp add: funpow_swap1)
  have kept: "snd ` set (p # ps) \<subseteq> ?S r \<and> \<not> markers_kept r aggregateKey u \<or> markers_kept r2 aggregateKey u"
    using r2(4) r1(2,5) p by auto
  show ?case using r2(1-3) kept p r1(1,2) unfolding c f r1(4) [symmetric] by (intro exI [of _ r2]) auto
qed auto

text \<open>The members of a call: the given ones, and the marker key where none is given.\<close>

definition call_members :: "string list \<Rightarrow> string list option \<Rightarrow> string list" where
  "call_members ks given = map (\<lambda>(index, k). str_or (nth_opt given index) k) (enumerate 0 ks)"

lemma call_members_ne: "[] \<notin> set ks \<Longrightarrow> [] \<notin> set (call_members ks given)"
proof
  assume ks: "[] \<notin> set ks" and "[] \<in> set (call_members ks given)"
  then obtain i where "i < length ks" "str_or (nth_opt given i) (ks ! i) = []" by (auto simp: call_members_def in_set_enumerate_eq)
  moreover have "ks ! i \<noteq> []" using ks nth_mem [OF calculation(1)] by metis
  ultimately show False by (auto simp: str_or_def split: option.splits if_splits)
qed

lemma call_members_length [simp]: "length (call_members ks given) = length ks"
  by (simp add: call_members_def)



end
