(* ===== verification/JsJson.thy ===== *)
theory JsJson
  imports JsText
begin

text \<open>
  JavaScript values as the settings and queue code stores them, with \<open>String(v)\<close>, \<open>Number(v)\<close>,
  truthiness, and \<open>JSON.stringify\<close> and \<open>JSON.parse\<close>.  An object is the list of its own
  enumerable properties in enumeration order.  Characters are the 256 of the type \<open>char\<close>, so that a
  \<open>\u\<close> escape beyond them is outside the model (the parser rejects it).  The parser recurses
  through nested arrays and objects under a fuel of twice the length of the text, which the round
  trip shows to be enough for every printed text.
\<close>

datatype js_value = VUndefined | VNull | VBool bool | VNum jsnum | VStr string
  | VArr "js_value list" | VObj "(string \<times> js_value) list"

subsection \<open>Conversions\<close>

definition js_truthy :: "js_value \<Rightarrow> bool" where
  "js_truthy v = (case v of VUndefined \<Rightarrow> False | VNull \<Rightarrow> False | VBool b \<Rightarrow> b | VNum x \<Rightarrow> truthy x
     | VStr s \<Rightarrow> s \<noteq> [] | _ \<Rightarrow> True)"

text \<open>\<open>a || b\<close> and \<open>a ?? b\<close>.\<close>

definition js_or :: "js_value \<Rightarrow> js_value \<Rightarrow> js_value" where
  "js_or a b = (if js_truthy a then a else b)"

definition js_nullish :: "js_value \<Rightarrow> js_value \<Rightarrow> js_value" where
  "js_nullish a b = (case a of VUndefined \<Rightarrow> b | VNull \<Rightarrow> b | _ \<Rightarrow> a)"

fun join_with :: "string \<Rightarrow> string list \<Rightarrow> string" where
  "join_with sep [] = []"
| "join_with sep [x] = x"
| "join_with sep (x # y # xs) = x @ sep @ join_with sep (y # xs)"

text \<open>\<open>String(v)\<close>; an array joins its elements, with nothing for null and undefined.\<close>

fun js_String :: "js_value \<Rightarrow> string" where
  "js_String VUndefined = ''undefined''"
| "js_String VNull = ''null''"
| "js_String (VBool b) = (if b then ''true'' else ''false'')"
| "js_String (VNum x) = string_of_num x"
| "js_String (VStr s) = s"
| "js_String (VArr xs) = join_with '','' (map (\<lambda>v. if v = VUndefined \<or> v = VNull then [] else js_String v) xs)"
| "js_String (VObj kvs) = ''[object Object]''"

definition js_to_Number :: "js_value \<Rightarrow> jsnum" where
  "js_to_Number v = (case v of VUndefined \<Rightarrow> NaN | VNull \<Rightarrow> Fin 0 | VBool b \<Rightarrow> Fin (if b then 1 else 0)
     | VNum x \<Rightarrow> x | VStr s \<Rightarrow> js_Number s | VArr xs \<Rightarrow> js_Number (js_String (VArr xs)) | VObj _ \<Rightarrow> NaN)"

text \<open>\<open>obj[name]\<close> on a list of properties.\<close>

definition js_prop :: "(string \<times> js_value) list \<Rightarrow> string \<Rightarrow> js_value" where
  "js_prop kvs name = (case map_of kvs name of None \<Rightarrow> VUndefined | Some v \<Rightarrow> v)"

text \<open>\<open>v?.name\<close>.\<close>

definition js_get :: "js_value \<Rightarrow> string \<Rightarrow> js_value" where
  "js_get v name = (case v of VObj kvs \<Rightarrow> js_prop kvs name | _ \<Rightarrow> VUndefined)"

subsection \<open>Printing\<close>

definition hex_char :: "nat \<Rightarrow> char" where
  "hex_char d = (if d < 10 then char_of (48 + d) else char_of (87 + d))"

definition quote_char :: "char \<Rightarrow> string" where
  "quote_char c =
     (let n = of_char c :: nat
      in if n = 34 then [CHR 0x5C, CHR 0x22] else if n = 92 then [CHR 0x5C, CHR 0x5C]
         else if n = 8 then [CHR 0x5C, CHR ''b''] else if n = 9 then [CHR 0x5C, CHR ''t'']
         else if n = 10 then [CHR 0x5C, CHR ''n''] else if n = 12 then [CHR 0x5C, CHR ''f'']
         else if n = 13 then [CHR 0x5C, CHR ''r'']
         else if n < 32 then [CHR 0x5C, CHR ''u'', CHR ''0'', CHR ''0'', hex_char (n div 16), hex_char (n mod 16)]
         else [c])"

definition json_quote :: "string \<Rightarrow> string" where
  "json_quote s = CHR 0x22 # concat (map quote_char s) @ [CHR 0x22]"

text \<open>
  The text of a value inside a document: undefined is \<open>null\<close> in an array and its property is left
  out of an object; a number that is not finite is \<open>null\<close>.
\<close>

fun json_text :: "js_value \<Rightarrow> string" where
  "json_text VUndefined = ''null''"
| "json_text VNull = ''null''"
| "json_text (VBool b) = (if b then ''true'' else ''false'')"
| "json_text (VNum x) = (if js_isFinite x then string_of_num x else ''null'')"
| "json_text (VStr s) = json_quote s"
| "json_text (VArr xs) = ''['' @ join_with '','' (map json_text xs) @ '']''"
| "json_text (VObj kvs) = ''{'' @ join_with '','' (map (\<lambda>(k, v). json_quote k @ '':'' @ json_text v)
     (filter (\<lambda>(k, v). v \<noteq> VUndefined) kvs)) @ ''}''"

definition json_stringify :: "js_value \<Rightarrow> string option" where
  "json_stringify v = (if v = VUndefined then None else Some (json_text v))"

subsection \<open>Parsing\<close>

definition json_space :: "char \<Rightarrow> bool" where
  "json_space c = (c = CHR '' '' \<or> c = CHR 0x09 \<or> c = CHR 0x0A \<or> c = CHR 0x0D)"

abbreviation skip_space :: "string \<Rightarrow> string" where
  "skip_space \<equiv> dropWhile json_space"

definition hex_val :: "char \<Rightarrow> nat option" where
  "hex_val c =
     (if is_digit c then Some (digit_val c)
      else if CHR ''a'' \<le> c \<and> c \<le> CHR ''f'' then Some (of_char c - 87)
      else if CHR ''A'' \<le> c \<and> c \<le> CHR ''F'' then Some (of_char c - 55) else None)"

text \<open>The body of a string literal after its opening quote.\<close>

definition simple_escape :: "char \<Rightarrow> char option" where
  "simple_escape c =
     (if c = CHR 0x22 \<or> c = CHR 0x5C \<or> c = CHR ''/'' then Some c
      else if c = CHR ''b'' then Some (CHR 0x08) else if c = CHR ''t'' then Some (CHR 0x09)
      else if c = CHR ''n'' then Some (CHR 0x0A) else if c = CHR ''f'' then Some (CHR 0x0C)
      else if c = CHR ''r'' then Some (CHR 0x0D) else None)"

fun parse_string :: "string \<Rightarrow> (string \<times> string) option" where
  "parse_string [] = None"
| "parse_string (c # s) =
     (if c = CHR 0x22 then Some ([], s)
      else if (of_char c :: nat) < 32 then None
      else if c = CHR 0x5C then
        (case s of
           [] \<Rightarrow> None
         | e # s1 \<Rightarrow>
             if e = CHR ''u'' then
               (case s1 of
                  a # b # h # l # s2 \<Rightarrow>
                    (case (hex_val h, hex_val l) of
                       (Some x, Some y) \<Rightarrow>
                         if a = CHR ''0'' \<and> b = CHR ''0''
                         then map_option (map_prod ((#) (char_of (16 * x + y))) id) (parse_string s2) else None
                     | _ \<Rightarrow> None)
                | _ \<Rightarrow> None)
             else (case simple_escape e of
                     None \<Rightarrow> None
                   | Some d \<Rightarrow> map_option (map_prod ((#) d) id) (parse_string s1)))
      else map_option (map_prod ((#) c) id) (parse_string s))"

text \<open>
  A number: an optional minus, an integer part without superfluous zeros, and a fraction and an
  exponent that have digits.
\<close>

definition parse_number :: "string \<Rightarrow> (jsnum \<times> string) option" where
  "parse_number s =
     (let neg = (s \<noteq> [] \<and> hd s = CHR ''-''); t = (if neg then tl s else s);
          ip = takeWhile is_digit t; r1 = dropWhile is_digit t;
          dot = (r1 \<noteq> [] \<and> hd r1 = CHR ''.'')
      in if ip = [] \<or> (length ip > 1 \<and> hd ip = CHR ''0'') \<or> (dot \<and> (tl r1 = [] \<or> \<not> is_digit (hd (tl r1)))) then None
         else case decimal_prefix t of
                None \<Rightarrow> None
              | Some (m, rest) \<Rightarrow>
                  if rest \<noteq> [] \<and> (hd rest = CHR ''e'' \<or> hd rest = CHR ''E'') then None
                  else Some (fl (if neg then - m else m), rest))"

fun parse_value :: "nat \<Rightarrow> string \<Rightarrow> (js_value \<times> string) option"
and parse_elems :: "nat \<Rightarrow> string \<Rightarrow> (js_value list \<times> string) option"
and parse_members :: "nat \<Rightarrow> (string \<times> js_value) list \<Rightarrow> string \<Rightarrow> ((string \<times> js_value) list \<times> string) option"
where
  "parse_value 0 s = None"
| "parse_value (Suc n) s =
     (let t = skip_space s
      in if prefix ''null'' t then Some (VNull, drop 4 t)
         else if prefix ''true'' t then Some (VBool True, drop 4 t)
         else if prefix ''false'' t then Some (VBool False, drop 5 t)
         else case t of
           [] \<Rightarrow> None
         | c # u \<Rightarrow>
             if c = CHR 0x22 then map_option (map_prod VStr id) (parse_string u)
             else if c = CHR ''['' then
               (if skip_space u \<noteq> [] \<and> hd (skip_space u) = CHR '']'' then Some (VArr [], tl (skip_space u))
                else map_option (map_prod VArr id) (parse_elems n u))
             else if c = CHR ''{'' then
               (if skip_space u \<noteq> [] \<and> hd (skip_space u) = CHR ''}'' then Some (VObj [], tl (skip_space u))
                else map_option (map_prod VObj id) (parse_members n [] u))
             else map_option (map_prod VNum id) (parse_number t))"
| "parse_elems 0 s = None"
| "parse_elems (Suc n) s =
     (case parse_value n s of
        None \<Rightarrow> None
      | Some (v, r) \<Rightarrow>
          (case skip_space r of
             [] \<Rightarrow> None
           | c # u \<Rightarrow>
               if c = CHR '']'' then Some ([v], u)
               else if c = CHR '','' then map_option (map_prod ((#) v) id) (parse_elems n u)
               else None))"
| "parse_members 0 acc s = None"
| "parse_members (Suc n) acc s =
     (case skip_space s of
        [] \<Rightarrow> None
      | q # s1 \<Rightarrow>
          if q \<noteq> CHR 0x22 then None
          else case parse_string s1 of
            None \<Rightarrow> None
          | Some (k, s2) \<Rightarrow>
              (case skip_space s2 of
                 [] \<Rightarrow> None
               | d # s3 \<Rightarrow>
                   if d \<noteq> CHR '':'' then None
                   else case parse_value n s3 of
                     None \<Rightarrow> None
                   | Some (v, s4) \<Rightarrow>
                       (case skip_space s4 of
                          [] \<Rightarrow> None
                        | c # u \<Rightarrow>
                            if c = CHR ''}'' then Some (AList.update k v acc, u)
                            else if c = CHR '','' then parse_members n (AList.update k v acc) u
                            else None)))"

definition json_parse :: "string \<Rightarrow> js_value option" where
  "json_parse s =
     (case parse_value (2 * length s + 2) s of
        Some (v, r) \<Rightarrow> if skip_space r = [] then Some v else None
      | None \<Rightarrow> None)"


subsection \<open>The round trip\<close>

text \<open>The values that a document carries unchanged.\<close>

fun jsonable :: "js_value \<Rightarrow> bool" where
  "jsonable VUndefined = False"
| "jsonable VNull = True"
| "jsonable (VBool b) = True"
| "jsonable (VNum x) = (case x of Fin q \<Rightarrow> of_int \<lfloor>q\<rfloor> = q \<and> \<bar>q\<bar> \<le> 2 ^ 53 | _ \<Rightarrow> False)"
| "jsonable (VStr s) = True"
| "jsonable (VArr xs) = (\<forall>x \<in> set xs. jsonable x)"
| "jsonable (VObj kvs) = (distinct (map fst kvs) \<and> (\<forall>p \<in> set kvs. jsonable (snd p)))"

lemma hex_val_hex_char:
  assumes "d < 16"
  shows "hex_val (hex_char d) = Some d"
proof (cases "d < 10")
  case True
  then have "hex_char d = digit_char d" by (simp add: hex_char_def digit_char_def)
  then show ?thesis using True by (simp add: hex_val_def)
next
  case False
  with assms show ?thesis by (simp add: hex_val_def hex_char_def is_digit_def less_eq_char_def)
qed

lemma of_char_inj: "(of_char c :: nat) = of_char d \<longleftrightarrow> c = d"
  by (metis char_of_char)

lemma parse_quote_char:
  "parse_string (quote_char c @ s) = map_option (map_prod ((#) c) id) (parse_string s)"
proof -
  have codes: "(of_char c :: nat) = 34 \<longleftrightarrow> c = CHR 0x22" "(of_char c :: nat) = 92 \<longleftrightarrow> c = CHR 0x5C"
    "(of_char c :: nat) = 8 \<longleftrightarrow> c = CHR 0x08" "(of_char c :: nat) = 9 \<longleftrightarrow> c = CHR 0x09" "(of_char c :: nat) = 10 \<longleftrightarrow> c = CHR 0x0A"
    "(of_char c :: nat) = 12 \<longleftrightarrow> c = CHR 0x0C" "(of_char c :: nat) = 13 \<longleftrightarrow> c = CHR 0x0D"
    by (simp_all flip: of_char_inj)
  have h: "hex_val (hex_char (n div 16)) = Some (n div 16)" "hex_val (hex_char (n mod 16)) = Some (n mod 16)" if "n < 32" for n :: nat
    using that by (auto intro!: hex_val_hex_char)
  show ?thesis
    by (auto simp: quote_char_def Let_def codes simple_escape_def h)
qed

lemma parse_quoted: "parse_string (concat (map quote_char s) @ CHR 0x22 # rest) = Some (s, rest)"
  by (induction s) (simp_all add: parse_quote_char)


text \<open>What may follow a value inside a document.\<close>

definition delim :: "string \<Rightarrow> bool" where
  "delim rest \<longleftrightarrow> rest = [] \<or> hd rest \<in> {CHR '','', CHR '']'', CHR ''}''}"

lemma delim_Cons [simp]: "delim (CHR '','' # s)" "delim (CHR '']'' # s)" "delim (CHR ''}'' # s)" "delim []"
  by (simp_all add: delim_def)

lemma hd_dec_digits_pos: "0 < n \<Longrightarrow> hd (dec_digits n) \<noteq> CHR ''0''"
proof (induction n rule: dec_digits.induct)
  case (1 n)
  show ?case
  proof (cases "n < 10")
    case True
    with 1 have "hd (dec_digits n) = digit_char (nat n)" by (simp add: dec_digits.simps)
    moreover have "digit_val (digit_char (nat n)) = nat n" using True 1(2) by simp
    moreover have "digit_val CHR ''0'' = 0" by (simp add: digit_val_def)
    ultimately show ?thesis using 1(2) by auto
  next
    case False
    then have "dec_digits n = dec_digits (n div 10) @ [digit_char (nat (n mod 10))]" by (simp add: dec_digits.simps)
    then show ?thesis using 1 False by simp
  qed
qed

lemma digits_before_delim:
  assumes "0 \<le> n" "delim rest"
  shows "takeWhile is_digit (dec_digits n @ rest) = dec_digits n" "dropWhile is_digit (dec_digits n @ rest) = rest"
proof -
  have d: "\<forall>c \<in> set (dec_digits n). is_digit c" by (rule dec_digits_digits [OF assms(1)])
  have "rest \<noteq> [] \<Longrightarrow> \<not> is_digit (hd rest)" using assms(2) by (auto simp: delim_def is_digit_def)
  then show "takeWhile is_digit (dec_digits n @ rest) = dec_digits n" "dropWhile is_digit (dec_digits n @ rest) = rest"
    using d by (cases rest; simp add: takeWhile_append dropWhile_append)+
qed

lemma delim_not: "delim rest \<Longrightarrow> c \<notin> {CHR '','', CHR '']'', CHR ''}''} \<Longrightarrow> (rest \<noteq> [] \<and> hd rest = c) = False"
  by (auto simp: delim_def)

lemma decimal_prefix_digits:
  assumes "0 \<le> n" "delim rest"
  shows "decimal_prefix (dec_digits n @ rest) = Some (of_int n, rest)"
proof -
  note d = digits_before_delim [OF assms]
  show ?thesis
  proof (cases rest)
    case Nil
    then show ?thesis using assms(1) unfolding decimal_prefix_def Let_def d by simp
  next
    case (Cons c u)
    then have "c \<noteq> CHR ''.''" "c \<noteq> CHR ''e''" "c \<noteq> CHR ''E''" using assms(2) by (auto simp: delim_def)
    then show ?thesis using assms(1) Cons unfolding decimal_prefix_def Let_def d by simp
  qed
qed

lemma parse_number_nonneg:
  assumes "0 \<le> n" "n \<le> 2 ^ 53" "delim rest"
  shows "parse_number (dec_digits n @ rest) = Some (num_of_int n, rest)"
    "parse_number (CHR ''-'' # dec_digits n @ rest) = Some (num_of_int (- n), rest)"
proof -
  have hd: "hd (dec_digits n @ rest) \<noteq> CHR ''-''" using hd_dec_digits [OF assms(1)] by auto
  have zero: "(length (dec_digits n) > 1 \<and> hd (dec_digits n) = CHR ''0'') = False"
    using hd_dec_digits_pos [of n] assms(1) by (cases "n = 0") (auto simp: dec_digits.simps)
  have r: "(rest \<noteq> [] \<and> hd rest = CHR ''.'') = False" "(rest \<noteq> [] \<and> (hd rest = CHR ''e'' \<or> hd rest = CHR ''E'')) = False"
    using delim_not [OF assms(3)] by auto
  have f: "fl (of_int n) = num_of_int n" "fl (- of_int n) = num_of_int (- n)"
    using fl_of_int [of n] fl_of_int [of "- n"] assms(1,2) by simp_all
  have neg: "(dec_digits n @ rest \<noteq> [] \<and> hd (dec_digits n @ rest) = CHR ''-'') = False" using hd by simp
  have s: "(CHR ''-'' # dec_digits n @ rest \<noteq> [] \<and> hd (CHR ''-'' # dec_digits n @ rest) = CHR ''-'') = True"
    "tl (CHR ''-'' # dec_digits n @ rest) = dec_digits n @ rest" by simp_all
  note facts = digits_before_delim [OF assms(1,3)] decimal_prefix_digits [OF assms(1,3)] zero r
  show "parse_number (dec_digits n @ rest) = Some (num_of_int n, rest)"
    unfolding parse_number_def Let_def neg if_False facts using f r by simp
  show "parse_number (CHR ''-'' # dec_digits n @ rest) = Some (num_of_int (- n), rest)"
    unfolding parse_number_def Let_def s if_True facts using f r by simp
qed

lemma parse_number_int:
  assumes "\<bar>n\<bar> \<le> 2 ^ 53" "delim rest"
  shows "parse_number (string_of_int n @ rest) = Some (num_of_int n, rest)"
  using assms parse_number_nonneg [of n rest] parse_number_nonneg [of "- n" rest]
  by (auto simp: string_of_int_def)

lemma hd_string_of_int: "\<exists>c t. string_of_int n = c # t \<and> (is_digit c \<or> c = CHR ''-'')"
  using hd_dec_digits [of n] dec_digits_ne [of n] by (cases "dec_digits n") (auto simp: string_of_int_def)


lemma json_int:
  assumes "jsonable (VNum x)"
  obtains n where "x = num_of_int n" "\<bar>n\<bar> \<le> 2 ^ 53" "json_text (VNum x) = string_of_int n"
proof (cases x)
  case (Fin q)
  with assms have q: "of_int \<lfloor>q\<rfloor> = q" "\<bar>q\<bar> \<le> 2 ^ 53" by auto
  have "of_int \<bar>\<lfloor>q\<rfloor>\<bar> \<le> (of_int (2 ^ 53) :: rat)" using q(2) unfolding of_int_abs q(1) by simp
  then have n: "\<bar>\<lfloor>q\<rfloor>\<bar> \<le> 2 ^ 53" by (simp only: of_int_le_iff)
  have x: "x = num_of_int \<lfloor>q\<rfloor>" unfolding q(1) by (rule Fin)
  moreover have "json_text (VNum x) = string_of_int \<lfloor>q\<rfloor>"
    using string_of_num_int [OF n] unfolding x by (simp add: js_isFinite_def del: string_of_num.simps)
  ultimately show ?thesis using that n by blast
qed (use assms in auto)

text \<open>The first character of a printed value.\<close>

lemma hd_json_text:
  assumes "jsonable v"
  shows "\<exists>c t. json_text v = c # t \<and> \<not> json_space c \<and> c \<noteq> CHR '']''"
proof (cases v)
  case (VNum x)
  then obtain n where "json_text v = string_of_int n" using assms json_int by metis
  moreover obtain c t where "string_of_int n = c # t" "is_digit c \<or> c = CHR ''-''" using hd_string_of_int by blast
  ultimately show ?thesis by (auto simp: json_space_def is_digit_def)
qed (use assms in \<open>auto simp: json_quote_def json_space_def\<close>)

definition parses :: "js_value \<Rightarrow> bool" where
  "parses v \<longleftrightarrow> (\<forall>n rest. delim rest \<longrightarrow> 2 * length (json_text v) \<le> n \<longrightarrow> parse_value n (json_text v @ rest) = Some (v, rest))"

lemma parsesI:
  assumes "json_text v \<noteq> []"
    and "\<And>k rest. delim rest \<Longrightarrow> 2 * length (json_text v) \<le> Suc k \<Longrightarrow> parse_value (Suc k) (json_text v @ rest) = Some (v, rest)"
  shows "parses v"
  unfolding parses_def
proof (intro allI impI)
  fix n rest assume r: "delim rest" "2 * length (json_text v) \<le> n"
  with assms(1) obtain k where "n = Suc k" by (cases n) auto
  with assms(2) r show "parse_value n (json_text v @ rest) = Some (v, rest)" by simp
qed

lemma parse_elems_ok:
  assumes "xs \<noteq> []" "\<forall>x \<in> set xs. parses x" "2 * length (join_with '','' (map json_text xs)) + 1 \<le> m"
  shows "parse_elems m (join_with '','' (map json_text xs) @ CHR '']'' # rest) = Some (xs, rest)"
  using assms
proof (induction xs arbitrary: m rule: induct_list012)
  case (2 x)
  then obtain k where "m = Suc k" "2 * length (json_text x) \<le> k" by (cases m) auto
  then show ?case using 2 by (simp add: parses_def json_space_def)
next
  case (3 x y zs)
  then obtain k where k: "m = Suc k" by (cases m) auto
  then have "2 * length (json_text x) \<le> k" "2 * length (join_with '','' (map json_text (y # zs))) + 1 \<le> k"
    using "3.prems"(3) by auto
  then show ?case using 3 k by (simp add: parses_def json_space_def)
qed simp

lemma parse_members_ok:
  assumes "kvs \<noteq> []" "\<forall>p \<in> set kvs. parses (snd p)" "distinct (map fst kvs)" "fst ` set kvs \<inter> fst ` set acc = {}"
    and "2 * length (join_with '','' (map (\<lambda>(k, v). json_quote k @ '':'' @ json_text v) kvs)) + 1 \<le> m"
  shows "parse_members m acc (join_with '','' (map (\<lambda>(k, v). json_quote k @ '':'' @ json_text v) kvs) @ CHR ''}'' # rest) =
    Some (acc @ kvs, rest)"
  using assms
proof (induction kvs arbitrary: m acc rule: induct_list012)
  case (2 p)
  obtain k v where p: "p = (k, v)" by (cases p)
  with 2 obtain j where j: "m = Suc j" "2 * length (json_text v) \<le> j" by (cases m) auto
  then show ?case using 2 p by (simp add: parses_def json_space_def json_quote_def parse_quoted update_fresh)
next
  case (3 p q ps)
  obtain k v where p: "p = (k, v)" by (cases p)
  with 3 obtain j where j: "m = Suc j" by (cases m) auto
  then have l: "2 * length (json_text v) \<le> j"
    "2 * length (join_with '','' (map (\<lambda>(k, v). json_quote k @ '':'' @ json_text v) (q # ps))) + 1 \<le> j"
    using "3.prems"(5) p by auto
  have "parse_members j (acc @ [(k, v)]) (join_with '','' (map (\<lambda>(k, v). json_quote k @ '':'' @ json_text v) (q # ps)) @ CHR ''}'' # rest) =
      Some ((acc @ [(k, v)]) @ q # ps, rest)"
    using 3 p l(2) by (intro "3.IH"(2)) auto
  moreover have "parse_value j (json_text v @ CHR '','' # t) = Some (v, CHR '','' # t)" for t
    using "3.prems"(2) p l(1) by (simp add: parses_def)
  ultimately show ?case using 3 p j by (simp add: json_space_def json_quote_def parse_quoted update_fresh)
qed simp

lemma parse_text: "jsonable v \<Longrightarrow> parses v"
proof (induction v)
  case (VNum x)
  then obtain n where n: "x = num_of_int n" "\<bar>n\<bar> \<le> 2 ^ 53" "json_text (VNum x) = string_of_int n" by (rule json_int)
  obtain c t where c: "string_of_int n = c # t" "is_digit c \<or> c = CHR ''-''" using hd_string_of_int by blast
  have "parse_value (Suc k) (string_of_int n @ rest) = Some (VNum x, rest)" if "delim rest" for k rest
  proof -
    have p: "parse_number (c # t @ rest) = Some (x, rest)" using parse_number_int [OF n(2) that] c(1) n(1) by simp
    have "\<not> json_space c" "c \<noteq> CHR ''n''" "c \<noteq> CHR ''t''" "c \<noteq> CHR ''f''" "c \<noteq> CHR 0x22" "c \<noteq> CHR ''[''" "c \<noteq> CHR ''{''"
      using c(2) by (auto simp: json_space_def is_digit_def)
    then show ?thesis using p unfolding c(1) by simp
  qed
  then show ?case using c(1) n(3) by (intro parsesI) simp_all
next
  case (VArr xs)
  then have ih: "\<forall>x \<in> set xs. parses x" and js: "\<forall>x \<in> set xs. jsonable x" by auto
  have "parse_value (Suc k) (json_text (VArr xs) @ rest) = Some (VArr xs, rest)"
    if "2 * length (json_text (VArr xs)) \<le> Suc k" for k rest
  proof (cases xs)
    case (Cons x ys)
    obtain c t where c: "json_text x = c # t" "\<not> json_space c" "c \<noteq> CHR '']''" using hd_json_text js Cons by (metis list.set_intros(1))
    then obtain u where u: "join_with '','' (map json_text xs) = c # u" using Cons by (cases ys) auto
    have "parse_elems k (join_with '','' (map json_text xs) @ CHR '']'' # rest) = Some (xs, rest)"
      using parse_elems_ok [of xs k rest] ih that Cons by simp
    then show ?thesis using c(2,3) unfolding json_text.simps u by (simp add: json_space_def)
  qed (simp add: json_space_def)
  then show ?case by (intro parsesI) simp_all
next
  case (VObj kvs)
  then have ih: "\<forall>p \<in> set kvs. parses (snd p)" and d: "distinct (map fst kvs)"
    by (auto simp: snds.simps)
  have f: "filter (\<lambda>(k, v). v \<noteq> VUndefined) kvs = kvs" using VObj.prems by (auto simp: filter_id_conv)
  have "parse_value (Suc k) (json_text (VObj kvs) @ rest) = Some (VObj kvs, rest)"
    if "2 * length (json_text (VObj kvs)) \<le> Suc k" for k rest
  proof (cases kvs)
    case (Cons p ps)
    obtain u where u: "join_with '','' (map (\<lambda>(k, v). json_quote k @ '':'' @ json_text v) kvs) = CHR 0x22 # u"
      using Cons by (cases ps; cases p) (auto simp: json_quote_def)
    have "parse_members k [] (join_with '','' (map (\<lambda>(k, v). json_quote k @ '':'' @ json_text v) kvs) @ CHR ''}'' # rest) = Some (kvs, rest)"
      using parse_members_ok [of kvs "[]" k rest] ih that Cons d f by simp
    then show ?thesis unfolding json_text.simps f u by (simp add: json_space_def)
  qed (simp add: json_space_def)
  then show ?case by (intro parsesI) simp_all
qed (auto intro!: parsesI simp: json_space_def json_quote_def parse_quoted split: if_splits)

theorem json_roundtrip:
  assumes "jsonable v"
  shows "json_stringify v = Some (json_text v) \<and> json_parse (json_text v) = Some v"
proof
  show "json_stringify v = Some (json_text v)" using assms by (auto simp: json_stringify_def)
  show "json_parse (json_text v) = Some v"
    using parse_text [OF assms, unfolded parses_def, rule_format, of "[]" "2 * length (json_text v) + 2"]
    by (simp add: json_parse_def del: parse_value.simps)
qed

end
