(* ===== verification/Settings.thy ===== *)
theory Settings
  imports RedisSweep JsJson
begin

text \<open>
  The settings store of \<open>lib/redis-db.ts\<close>: \<open>setSettings\<close> flattens an object into a hash of
  strings, \<open>getSettings\<close> reads the hash back and guesses the types from the text.  The engine's
  lifecycle state has a second, scoped hash that every write reaches as well.  Property values are
  the \<open>js_value\<close>s of \<open>JsJson\<close>; \<open>initRedis\<close> has run, and the commands of one call run at
  one time.
\<close>

subsection \<open>Values to text and back\<close>

definition convertToString :: "js_value \<Rightarrow> string" where
  "convertToString v = (case v of VBool b \<Rightarrow> if b then ''1'' else ''0'' | VNull \<Rightarrow> [] | VUndefined \<Rightarrow> []
     | _ \<Rightarrow> js_String v)"

definition flattenForHmset :: "(string \<times> js_value) list \<Rightarrow> string jsmap" where
  "flattenForHmset obj = fold (\<lambda>(key, v) result.
     case v of VUndefined \<Rightarrow> result | VNull \<Rightarrow> result
     | VObj _ \<Rightarrow> AList.update key (json_text v) result
     | VArr _ \<Rightarrow> AList.update key (json_text v) result
     | _ \<Rightarrow> AList.update key (convertToString v) result) obj []"

text \<open>The patterns \<open>/^-?\d+$/\<close> and \<open>/^-?\d+\.\d+$/\<close>.\<close>

definition unsigned :: "string \<Rightarrow> string" where
  "unsigned s = (if s \<noteq> [] \<and> hd s = CHR ''-'' then tl s else s)"

definition all_digits :: "string \<Rightarrow> bool" where
  "all_digits s = (s \<noteq> [] \<and> list_all is_digit s)"

definition int_pattern :: "string \<Rightarrow> bool" where
  "int_pattern s = all_digits (unsigned s)"

definition decimal_pattern :: "string \<Rightarrow> bool" where
  "decimal_pattern s = (let t = unsigned s; r = dropWhile is_digit t
     in takeWhile is_digit t \<noteq> [] \<and> r \<noteq> [] \<and> hd r = CHR ''.'' \<and> all_digits (tl r))"

definition looks_like_json :: "string \<Rightarrow> bool" where
  "looks_like_json s = (s \<noteq> [] \<and> (hd s = CHR ''{'' \<and> last s = CHR ''}'' \<or> hd s = CHR ''['' \<and> last s = CHR '']''))"

definition parseHashValue :: "string \<Rightarrow> js_value" where
  "parseHashValue s =
     (if s = [] then VStr []
      else if looks_like_json s then (case json_parse s of Some v \<Rightarrow> v | None \<Rightarrow> VStr s)
      else if s = ''1'' \<or> s = ''true'' then VBool True
      else if s = ''0'' \<or> s = ''false'' then VBool False
      else if int_pattern s then VNum (js_parseInt s)
      else if decimal_pattern s then VNum (js_parseFloat s)
      else VStr s)"

definition NUMERIC_HASH_FIELDS :: "string list" where
  "NUMERIC_HASH_FIELDS = [
    ''symbol_count'', ''symbolCount'', ''block_max_stack'', ''blockMaxStack'', ''block_volume_ratio'',
    ''blockVolumeRatio'', ''block_profit_factor_ratio'', ''blockProfitFactorRatio'',
    ''block_pause_count_ratio'', ''blockPauseCountRatio'', ''max_concurrent_trades'',
    ''maxConcurrentTrades'', ''prev_pos_min_count'', ''prevPosMinCount'', ''prev_pos_window'',
    ''prevPosWindow'', ''main_eval_pos_count'', ''mainEvalPosCount'', ''real_eval_pos_count'',
    ''realEvalPosCount'', ''live_eval_pos_count'', ''liveEvalPosCount'', ''block_row_live_volume_ratio'',
    ''blockRowLiveVolumeRatio'', ''block_row_live_profit_factor_ratio'', ''blockRowLiveProfitFactorRatio'',
    ''block_row_live_max_stack'', ''blockRowLiveMaxStack'', ''block_row_live_pause_count_ratio'',
    ''blockRowLivePauseCountRatio'', ''min_step'', ''minStep'', ''trailing_min_step'', ''trailingMinStep'',
    ''leverage_percentage'', ''leveragePercentage'', ''live_volume_factor'', ''preset_volume_factor'',
    ''signal_volume_factor'', ''base_volume_factor'', ''volume_factor'', ''volume_factor_live'',
    ''volume_factor_preset'', ''volume_factor_signal'', ''mainTradeVolumeFactor'',
    ''presetTradeVolumeFactor'', ''signalTradeVolumeFactor'', ''volume_step_ratio'', ''average_count'',
    ''averageCount'', ''max_spread_pips'', ''maxSpreadPips'', ''lot_size'', ''lotSize'',
    ''position_cost_percent'', ''positionCostPercent'', ''spread_buffer_pips'', ''spreadBufferPips'',
    ''spread_multiplier'', ''spreadMultiplier'', ''positions_average'', ''positionsAverage'',
    ''default_leverage'', ''default_volume'', ''maxPositionsLong'', ''maxPositionsShort'',
    ''presetTpStep'', ''presetSlStep'', ''presetTrailStartStep'', ''presetTrailStopStep'',
    ''presetBlockVolumeRatio'', ''presetBlockPauseCountRatio'', ''axis_prev_max_window'',
    ''axisPrevMaxWindow'', ''axis_last_max_window'', ''axisLastMaxWindow'', ''axis_cont_max_window'',
    ''axisContMaxWindow'', ''axis_pause_max_window'', ''axisPauseMaxWindow'', ''base_profit_factor'',
    ''baseProfitFactor'', ''main_profit_factor'', ''mainProfitFactor'', ''real_profit_factor'',
    ''realProfitFactor'', ''live_profit_factor'', ''liveProfitFactor'', ''max_drawdown_time_main_hours'',
    ''maxDrawdownTimeMainHours'', ''max_drawdown_time_real_hours'', ''maxDrawdownTimeRealHours'',
    ''max_drawdown_time_live_hours'', ''maxDrawdownTimeLiveHours'', ''stage_min_pos_count_base'',
    ''stageMinPosCountBase'', ''stage_min_pos_count_main'', ''stageMinPosCountMain'',
    ''stage_min_pos_count_real'', ''stageMinPosCountReal'', ''specialMinStep'', ''specialMaxStep'',
    ''specialStepSize'', ''specialActiveWindow'', ''specialMinimumEvidence'', ''specialMinimumAgreement'',
    ''specialMinimumMarketChangePct'', ''specialMinimumScore'', ''specialNoiseFilterPct'',
    ''specialMomentumWeight'', ''specialActivityWeight'', ''specialVolatilityWeight'',
    ''specialMarketChangeSpeedWeight'', ''specialMinimumMarketChangeSpeedRatio'',
    ''specialMaximumMarketChangeSpeedPctPerSecond'', ''specialScenarioWeight'',
    ''specialScenarioMinimumScore'', ''specialPastActivityPersistenceMinimum'',
    ''specialActivityBreakoutRatio'', ''specialReversalAccelerationMinimumPct'',
    ''specialActivityLookback'', ''specialMinimumActivityRatio'', ''specialMarketActivityFadeRatio'',
    ''specialMaximumVolatilityPct'', ''specialVolatilityTargetPct'',
    ''specialMinimumVolatilityVolumeScale'', ''specialOrderFlowWeight'',
    ''specialMinimumDirectionalOrderFlow'', ''specialMaximumSpreadBps'', ''specialMinimumHoldingSteps'',
    ''specialMaximumHoldingSteps'', ''specialMinimumHoldingSeconds'', ''specialTargetHoldingSeconds'',
    ''specialMaximumHoldingSeconds'', ''specialMinimumTimeframeConfirmations'',
    ''specialMinimumCombinedScoreMargin'', ''specialTimeframe15sWeight'', ''specialTimeframe1mWeight'',
    ''specialTimeframe15mWeight'', ''specialTimeframe30mWeight'', ''specialMaxPositionsPerDirection'',
    ''specialAdditionalPositionStepPositionCostRatio'', ''specialVolumeIncrementRatio'',
    ''specialMaxVolumeRatio'', ''specialTakeProfitMinPositionCostRatio'',
    ''specialTakeProfitMaxPositionCostRatio'', ''specialTakeProfitVolatilityMultiplier'',
    ''specialTakeProfitMarketChangeMultiplier'', ''specialStopLossMinPositionCostRatio'',
    ''specialStopLossVolatilityMultiplier'', ''specialStopLossMaxTakeProfitRatio'',
    ''specialTrailingVolatilityAdaptationWeight'', ''specialTrailingSpeedAdaptationWeight'',
    ''specialTrailingActivityAdaptationWeight'', ''specialTrailingScenarioAdaptationWeight'',
    ''specialTrailingActivationTakeProfitRatio'', ''specialTrailingDistanceTakeProfitRatio'',
    ''specialTrailingStepTakeProfitRatio'', ''specialRoundTripCostPct'',
    ''specialMinimumTakeProfitAfterCostsRatio'', ''specialBacktestMinimumTrades'',
    ''specialBacktestMinimumTradesPerDirection'', ''specialBacktestMinimumTradesPerSymbol'',
    ''specialBacktestMinimumStableProfitFactor'', ''specialBacktestMaximumDrawdownPct'',
    ''specialWalkForwardFolds'', ''specialWalkForwardPurgeSteps'', ''specialWalkForwardMaximumFoldLossPct'']"

definition parse_field :: "string \<Rightarrow> string \<Rightarrow> js_value" where
  "parse_field key v =
     (if key \<in> set NUMERIC_HASH_FIELDS \<and> (int_pattern v \<or> decimal_pattern v)
      then VNum (if CHR ''.'' \<in> set v then js_parseFloat v else js_parseInt v)
      else parseHashValue v)"

definition parseHash :: "string jsmap \<Rightarrow> (string \<times> js_value) list option" where
  "parseHash hash = (if hash = [] then None else Some (map (\<lambda>(key, v). (key, parse_field key v)) hash))"

subsection \<open>Reading and writing\<close>

definition settings_key :: "string \<Rightarrow> string" where
  "settings_key key = ''settings:'' @ key"

definition num_rank :: "jsnum \<Rightarrow> rat" where
  "num_rank x = (case x of Fin q \<Rightarrow> q | _ \<Rightarrow> 0)"

text \<open>An object whose keys are all numerals is read back as an array.\<close>

definition getSettings :: "int \<Rightarrow> string \<Rightarrow> redis \<Rightarrow> js_value \<times> redis" where
  "getSettings now key r =
     (let (hash, r1) = redis_hgetall now (settings_key key) r
      in (case parseHash hash of
            None \<Rightarrow> VNull
          | Some parsed \<Rightarrow>
              if list_all all_digits (map fst parsed)
              then VArr (map (\<lambda>i. js_prop parsed (string_of_num i)) (sort_key num_rank (map (js_Number \<circ> fst) parsed)))
              else VObj parsed, r1))"

text \<open>\<open>Object.entries(value)\<close>, which throws on null and undefined.\<close>

definition object_entries :: "js_value \<Rightarrow> (string \<times> js_value) list option" where
  "object_entries v = (case v of VUndefined \<Rightarrow> None | VNull \<Rightarrow> None | VObj kvs \<Rightarrow> Some kvs
     | VArr xs \<Rightarrow> Some (map (\<lambda>(i, x). (string_of_int (int i), x)) (enumerate 0 xs))
     | VStr s \<Rightarrow> Some (map (\<lambda>(i, c). (string_of_int (int i), VStr [c])) (enumerate 0 s))
     | _ \<Rightarrow> Some [])"

text \<open>\<open>/^trade_engine_state:(.+)$/\<close> with no colon in the group.\<close>

definition main_state_id :: "string \<Rightarrow> string option" where
  "main_state_id key =
     (let i = drop (length ''trade_engine_state:'') key
      in if starts_with ''trade_engine_state:'' key \<and> i \<noteq> [] \<and> CHR 0x0A \<notin> set i \<and> CHR 0x0D \<notin> set i \<and> CHR '':'' \<notin> set i
         then Some i else None)"

definition safe_char :: "char \<Rightarrow> bool" where
  "safe_char c = (CHR ''A'' \<le> c \<and> c \<le> CHR ''Z'' \<or> CHR ''a'' \<le> c \<and> c \<le> CHR ''z'' \<or> is_digit c \<or>
     c = CHR ''.'' \<or> c = CHR ''_'' \<or> c = CHR ''-'')"

definition safeConnectionId :: "string \<Rightarrow> string" where
  "safeConnectionId i = map (\<lambda>c. if safe_char c then c else CHR ''_'') i"

definition lifecycleFields :: "string list" where
  "lifecycleFields = [''engine_ready'', ''entry_processors_gated'', ''prehistoric_bootstrap_status'', ''prehistoric_data_loaded'',
     ''all_phases_started'', ''indications_started'', ''strategies_started'', ''realtime_started'', ''live_trading_started'']"

definition stalePauseFields :: "string list" where
  "stalePauseFields = [''pause_requested'', ''pause_reason'', ''pause_requested_at'', ''paused_at'', ''paused_by'', ''stopped_at'',
     ''operator_stopped_at'']"

definition publishesRunningContract :: "string jsmap \<Rightarrow> bool" where
  "publishesRunningContract data =
     (toLowerCase (str_or (map_of data ''status'') []) = ''running'' \<and> list_ex (jsmap_has data) lifecycleFields)"

definition scoped_key :: "string \<Rightarrow> string" where
  "scoped_key i = ''settings:trade_engine_state:'' @ safeConnectionId i @ '':main''"

abbreviation hset_all :: "int \<Rightarrow> string \<Rightarrow> string jsmap \<Rightarrow> redis \<Rightarrow> redis" where
  "hset_all now key data r \<equiv> snd (redis_hset now key (HsetObject (map (\<lambda>(f, s). (f, HStr s)) data)) r)"

definition setSettings :: "int \<Rightarrow> string \<Rightarrow> js_value \<Rightarrow> redis \<Rightarrow> redis option" where
  "setSettings now key v r =
     (case object_entries v of
        None \<Rightarrow> None
      | Some obj \<Rightarrow>
          let data = flattenForHmset obj;
              r1 = hset_all now (settings_key key) data r
          in Some (case main_state_id key of
                     None \<Rightarrow> r1
                   | Some i \<Rightarrow>
                       let r2 = hset_all now (scoped_key i) data r1
                       in if publishesRunningContract data
                          then snd (redis_hdel (''trade_engine_state:'' @ safeConnectionId i) stalePauseFields
                                 (snd (redis_hdel (scoped_key i) stalePauseFields
                                    (snd (redis_hdel (settings_key key) stalePauseFields r2)))))
                          else r2))"


subsection \<open>What survives the text\<close>

text \<open>The text a property is stored under, if it is stored at all.\<close>

definition field_text :: "js_value \<Rightarrow> string option" where
  "field_text v = (case v of VUndefined \<Rightarrow> None | VNull \<Rightarrow> None | VObj _ \<Rightarrow> Some (json_text v)
     | VArr _ \<Rightarrow> Some (json_text v) | _ \<Rightarrow> Some (convertToString v))"

definition store_field :: "string \<times> js_value \<Rightarrow> string jsmap \<Rightarrow> string jsmap" where
  "store_field p m = (case field_text (snd p) of None \<Rightarrow> m | Some t \<Rightarrow> AList.update (fst p) t m)"

lemma flatten_store: "flattenForHmset kvs = fold store_field kvs []"
  unfolding flattenForHmset_def
  by (rule arg_cong [where f = "\<lambda>h. fold h kvs []"]) (auto simp: fun_eq_iff store_field_def field_text_def split: js_value.split)

lemma store_fields_lookup:
  assumes "distinct (map fst kvs)"
  shows "map_of (fold store_field kvs acc) f =
    (case Option.bind (map_of kvs f) field_text of None \<Rightarrow> map_of acc f | Some t \<Rightarrow> Some t)"
  using assms
proof (induction kvs arbitrary: acc)
  case (Cons p kvs)
  have "map_of kvs (fst p) = None" using Cons.prems by (simp add: map_of_eq_None_iff)
  then show ?case using Cons by (cases p) (auto simp: store_field_def split: option.splits)
qed simp

lemma flatten_lookup:
  "distinct (map fst kvs) \<Longrightarrow> map_of (flattenForHmset kvs) f = Option.bind (map_of kvs f) field_text"
  unfolding flatten_store by (subst store_fields_lookup) (auto split: option.split)

lemma flatten_wf: "jsmap_wf (flattenForHmset kvs)"
proof -
  have "jsmap_wf m \<Longrightarrow> jsmap_wf (fold store_field kvs m)" for m
    by (induction kvs arbitrary: m) (simp_all add: store_field_def AList.distinct_update split: option.split)
  then show ?thesis by (simp add: flatten_store)
qed

text \<open>The values a settings field returns unchanged.\<close>

definition survives :: "string \<Rightarrow> js_value \<Rightarrow> bool" where
  "survives f v =
     (case v of
        VBool b \<Rightarrow> f \<notin> set NUMERIC_HASH_FIELDS
      | VNum x \<Rightarrow> jsonable v \<and> (f \<in> set NUMERIC_HASH_FIELDS \<or> x \<noteq> num_of_int 0 \<and> x \<noteq> num_of_int 1)
      | VStr s \<Rightarrow> \<not> looks_like_json s \<and> \<not> int_pattern s \<and> \<not> decimal_pattern s \<and> s \<noteq> ''true'' \<and> s \<noteq> ''false''
      | VArr _ \<Rightarrow> jsonable v
      | VObj _ \<Rightarrow> jsonable v
      | _ \<Rightarrow> False)"

lemma int_pattern_string_of_int: "int_pattern (string_of_int n)" "CHR ''.'' \<notin> set (string_of_int n)" "\<not> looks_like_json (string_of_int n)"
proof -
  obtain m s where m: "0 \<le> m" "string_of_int n = s @ dec_digits m" "s = [] \<or> s = ''-''"
    using that [of "- n" "''-''"] that [of n "[]"] by (cases "n < 0") (simp_all add: string_of_int_def)
  have d: "\<forall>c \<in> set (dec_digits m). is_digit c" by (rule dec_digits_digits [OF m(1)])
  have h: "is_digit (hd (dec_digits m))" by (rule hd_dec_digits [OF m(1)])
  then have "hd (dec_digits m) \<noteq> CHR ''-''" "hd (dec_digits m) \<noteq> CHR ''{''" "hd (dec_digits m) \<noteq> CHR ''[''"
    by (auto simp: is_digit_def)
  then show "int_pattern (string_of_int n)" "\<not> looks_like_json (string_of_int n)"
    using m(2,3) d by (auto simp: int_pattern_def unsigned_def all_digits_def list_all_iff looks_like_json_def)
  have "\<not> is_digit CHR ''.''" by (simp add: is_digit_def)
  then show "CHR ''.'' \<notin> set (string_of_int n)" using m(2,3) d by auto
qed

lemma json_like:
  assumes "json_text v = c # u @ [d]" "(c = CHR ''['' \<and> d = CHR '']'') \<or> (c = CHR ''{'' \<and> d = CHR ''}'')" "jsonable v"
  shows "parse_field f (json_text v) = v"
proof -
  have "\<not> is_digit c" "c \<noteq> CHR ''-''" using assms(2) by (auto simp: is_digit_def)
  then have "\<not> int_pattern (json_text v)" "\<not> decimal_pattern (json_text v)"
    using assms(1) by (auto simp: int_pattern_def decimal_pattern_def unsigned_def all_digits_def)
  then show ?thesis
    using assms json_roundtrip [OF assms(3)] by (auto simp: parse_field_def parseHashValue_def looks_like_json_def)
qed

lemma small_ints: "js_parseInt ''1'' = num_of_int 1" "js_parseInt ''0'' = num_of_int 0"
  using parseInt_string_of_int [of 1] parseInt_string_of_int [of 0]
  by (simp_all add: string_of_int_def dec_digits.simps digit_char_def char_of_def bit_0)

lemma numeral_patterns: "int_pattern ''1''" "int_pattern ''0''"
  by (simp_all add: int_pattern_def unsigned_def all_digits_def is_digit_def)

lemma parse_survivor:
  assumes "survives f v"
  shows "\<exists>t. field_text v = Some t \<and> parse_field f t = v"
proof (cases v)
  case (VNum x)
  with assms have "jsonable (VNum x)" and c: "f \<in> set NUMERIC_HASH_FIELDS \<or> x \<noteq> num_of_int 0 \<and> x \<noteq> num_of_int 1"
    by (simp_all add: survives_def)
  then obtain n where n: "x = num_of_int n" "\<bar>n\<bar> \<le> 2 ^ 53" by (elim json_int)
  have t: "field_text v = Some (string_of_int n)"
    using VNum n(1,2) by (simp add: field_text_def convertToString_def del: string_of_num.simps)
  have p: "js_parseInt (string_of_int n) = x" using parseInt_string_of_int [OF n(2)] n(1) by simp
  have "string_of_int n \<noteq> ''true''" "string_of_int n \<noteq> ''false''"
    using hd_string_of_int [of n] by (auto simp: is_digit_def)
  moreover have "string_of_int n \<noteq> ''1'' \<and> string_of_int n \<noteq> ''0''" if "x \<noteq> num_of_int 0" "x \<noteq> num_of_int 1"
    using p small_ints that by metis
  ultimately show ?thesis
    using t p c int_pattern_string_of_int [of n] VNum by (auto simp: parse_field_def parseHashValue_def)
next
  case (VArr xs)
  have "json_text v = CHR ''['' # join_with '','' (map json_text xs) @ [CHR '']'']" using VArr by simp
  then show ?thesis using VArr assms json_like [of v] by (auto simp: survives_def field_text_def)
next
  case (VObj kvs)
  have "\<exists>u. json_text v = CHR ''{'' # u @ [CHR ''}'']" using VObj by simp
  then show ?thesis using VObj assms json_like [of v] by (auto simp: survives_def field_text_def)
next
  case (VStr x)
  then have "field_text v = Some x" by (simp add: field_text_def convertToString_def)
  moreover have "x \<noteq> ''1''" "x \<noteq> ''0''" using VStr assms numeral_patterns by (auto simp: survives_def)
  ultimately show ?thesis using VStr assms by (simp add: survives_def parse_field_def parseHashValue_def)
next
  case (VBool b)
  then have "field_text v = Some (if b then ''1'' else ''0'')" by (simp add: field_text_def convertToString_def)
  moreover have "f \<notin> set NUMERIC_HASH_FIELDS" using VBool assms by (simp add: survives_def)
  ultimately show ?thesis using VBool by (simp add: parse_field_def parseHashValue_def looks_like_json_def)
qed (use assms in \<open>simp_all add: survives_def\<close>)


subsection \<open>What the hashes hold\<close>

abbreviation hfield :: "redis \<Rightarrow> string \<Rightarrow> string \<Rightarrow> string option" where
  "hfield r key f \<equiv> map_of (hash_at r key) f"

lemma normalize_strings: "jsmap_wf data \<Longrightarrow> map_of (normalizeRedisHash (map (\<lambda>(f, s). (f, HStr s)) data)) = map_of data"
proof (rule ext)
  fix f assume wf: "jsmap_wf data"
  have "map (\<lambda>(f, v). (f, redisHashScalar v)) (map (\<lambda>(f, s). (f, HStr s)) data) = data"
    by (simp add: map_idI case_prod_unfold o_def)
  then show "map_of (normalizeRedisHash (map (\<lambda>(f, s). (f, HStr s)) data)) f = map_of data f"
    unfolding normalizeRedisHash_def using wf by (simp add: map_of_spread split: option.split)
qed

lemma normalize_wf: "jsmap_wf (normalizeRedisHash m)"
  unfolding normalizeRedisHash_def by (rule jsmap_wf_spread) simp

lemma hfield_hset_all:
  assumes "jsmap_wf data"
  shows "hfield (hset_all now k data r) k' f =
    (if k' = k then (case map_of data f of None \<Rightarrow> hfield r k f | Some s \<Rightarrow> Some s) else hfield r k' f)"
    "ttl (hset_all now k data r) = ttl r"
  using map_of_spread [OF normalize_wf, where a = "hash_at r k" and k = f] normalize_strings [OF assms]
  by (auto simp: redis_hset_def redis_hset_object_def Let_def hash_at_def trackOperation_def markDirty_def split: option.splits)

lemma hdel_loop_lookup: "map_of (snd (hdel_loop fs h n)) f = (if f \<in> set fs then None else map_of h f)"
  by (induction fs h n rule: hdel_loop.induct) auto

lemma hfield_hdel:
  "hfield (snd (redis_hdel k fs r)) k' f = (if k' = k \<and> f \<in> set fs then None else hfield r k' f)"
  "ttl (snd (redis_hdel k fs r)) = ttl r"
proof (atomize (full), cases "map_of (hashes r) k")
  case (Some h)
  have l: "map_of (snd (hdel_loop fs h 0)) f = (if f \<in> set fs then None else map_of h f)" by (rule hdel_loop_lookup)
  show "hfield (snd (redis_hdel k fs r)) k' f = (if k' = k \<and> f \<in> set fs then None else hfield r k' f) \<and>
    ttl (snd (redis_hdel k fs r)) = ttl r"
  proof (cases "snd (hdel_loop fs h 0) = []")
    case True
    then show ?thesis using Some l by (auto simp: redis_hdel_def Let_def hash_at_def markDirty_def split: prod.splits if_splits)
  next
    case False
    then show ?thesis using Some l by (auto simp: redis_hdel_def Let_def hash_at_def markDirty_def split: prod.splits)
  qed
qed (simp add: redis_hdel_def hash_at_def)

lemma setSettings_object: "\<exists>r1. setSettings now key (VObj kvs) r = Some r1"
  by (simp add: setSettings_def object_entries_def Let_def)

lemma setSettings_hash:
  assumes "setSettings now key (VObj kvs) r = Some r1"
  shows "f \<notin> set stalePauseFields \<Longrightarrow> hfield r1 (settings_key key) f =
      (case map_of (flattenForHmset kvs) f of None \<Rightarrow> hfield r (settings_key key) f | Some s \<Rightarrow> Some s)"
    "ttl r1 = ttl r"
  using assms
  by (auto simp: setSettings_def object_entries_def Let_def hfield_hset_all [OF flatten_wf] hfield_hdel split: option.splits if_splits)

lemma getSettings_object:
  assumes "\<not> isExpired t r (settings_key key)" "hfield r (settings_key key) g \<noteq> None" "\<not> all_digits g"
  shows "\<exists>fields r'. getSettings t key r = (VObj fields, r') \<and>
    (\<forall>f. js_prop fields f = (case hfield r (settings_key key) f of None \<Rightarrow> VUndefined | Some s \<Rightarrow> parse_field f s))"
proof -
  let ?h = "hash_at r (settings_key key)"
  let ?p = "map (\<lambda>(key, v). (key, parse_field key v)) ?h"
  have h: "redis_hgetall t (settings_key key) r = (?h, trackOperation t r)"
    using assms(1) by (simp add: redis_hgetall_def Let_def hash_at_def trackOperation_def isExpired_def)
  have "g \<in> fst ` set ?h" using assms(2) by (simp add: map_of_eq_None_iff)
  then have "?h \<noteq> []" "\<not> list_all all_digits (map fst ?p)" using assms(3) by (auto simp: list_all_iff split_beta)
  moreover have "map_of (map (\<lambda>(key, v). (key, parse_field key v)) m) f = map_option (parse_field f) (map_of m f)" for m f
    by (induction m) auto
  ultimately show ?thesis
    unfolding getSettings_def h parseHash_def Let_def js_prop_def by (auto split: option.splits)
qed


text \<open>C18. Writing an object of settings and reading it back gives every surviving value unchanged:
  booleans, integers up to \<open>2^53\<close> in magnitude (0 and 1 only in the fields listed as numeric), strings
  that do not look like another type, arrays and objects of such values.  A field that is absent,
  null or undefined in the object keeps what was stored before.  The pause fields that a running
  lifecycle report deletes are excepted.\<close>

theorem settings_roundtrip:
  assumes "distinct (map fst kvs)" "\<not> isExpired t r (settings_key key)"
    and "(g, w) \<in> set kvs" "\<not> all_digits g" "survives g w" "g \<notin> set stalePauseFields"
  shows "\<exists>r1 fields r2. setSettings now key (VObj kvs) r = Some r1 \<and> getSettings t key r1 = (VObj fields, r2) \<and>
     (\<forall>f v. (f, v) \<in> set kvs \<and> survives f v \<and> f \<notin> set stalePauseFields \<longrightarrow> js_prop fields f = v) \<and>
     (\<forall>f. map_of kvs f \<in> {None, Some VNull, Some VUndefined} \<and> f \<notin> set stalePauseFields \<longrightarrow>
        js_prop fields f = (case map_of (hash_at r (settings_key key)) f of None \<Rightarrow> VUndefined | Some s \<Rightarrow> parse_field f s))"
proof -
  obtain r1 where r1: "setSettings now key (VObj kvs) r = Some r1" using setSettings_object by blast
  have e: "\<not> isExpired t r1 (settings_key key)" using assms(2) setSettings_hash(2) [OF r1] by (simp add: isExpired_def)
  have h: "hfield r1 (settings_key key) f =
      (case Option.bind (map_of kvs f) field_text of None \<Rightarrow> hfield r (settings_key key) f | Some s \<Rightarrow> Some s)"
    if "f \<notin> set stalePauseFields" for f
    using setSettings_hash(1) [OF r1 that] flatten_lookup [OF assms(1)] by simp
  have kept: "\<exists>s. hfield r1 (settings_key key) f = Some s \<and> parse_field f s = v"
    if "(f, v) \<in> set kvs" "survives f v" "f \<notin> set stalePauseFields" for f v
  proof -
    have "map_of kvs f = Some v" using that(1) assms(1) by simp
    then show ?thesis using parse_survivor [OF that(2)] h [OF that(3)] by auto
  qed
  from kept [OF assms(3,5,6)] have "hfield r1 (settings_key key) g \<noteq> None" by auto
  from getSettings_object [OF e this assms(4)] obtain fields r2 where g: "getSettings t key r1 = (VObj fields, r2)"
    "\<forall>f. js_prop fields f = (case hfield r1 (settings_key key) f of None \<Rightarrow> VUndefined | Some s \<Rightarrow> parse_field f s)" by blast
  have "js_prop fields f = v" if "(f, v) \<in> set kvs" "survives f v" "f \<notin> set stalePauseFields" for f v
    using kept [OF that] g(2) by auto
  moreover have "js_prop fields f = (case hfield r (settings_key key) f of None \<Rightarrow> VUndefined | Some s \<Rightarrow> parse_field f s)"
    if "map_of kvs f \<in> {None, Some VNull, Some VUndefined}" "f \<notin> set stalePauseFields" for f
  proof -
    have "Option.bind (map_of kvs f) field_text = None" using that(1) by (auto simp: field_text_def)
    then show ?thesis using h [OF that(2)] g(2) by simp
  qed
  ultimately show ?thesis using r1 g(1) by blast
qed

theorem settings_roundtrip_witness:
  "\<exists>r1 fields r2. setSettings 0 ''ui'' (VObj [(''theme'', VStr ''dark''), (''old'', VNull)]) (redis_empty 0) = Some r1 \<and>
     getSettings 5 ''ui'' r1 = (VObj fields, r2) \<and>
     (\<forall>f v. (f, v) \<in> {(''theme'', VStr ''dark''), (''old'', VNull)} \<and> survives f v \<and> f \<notin> set stalePauseFields \<longrightarrow> js_prop fields f = v) \<and>
     (\<forall>f. map_of [(''theme'', VStr ''dark''), (''old'', VNull)] f \<in> {None, Some VNull, Some VUndefined} \<and> f \<notin> set stalePauseFields \<longrightarrow>
        js_prop fields f = (case map_of (hash_at (redis_empty 0) (settings_key ''ui'')) f of None \<Rightarrow> VUndefined | Some s \<Rightarrow> parse_field f s))"
proof -
  have "survives ''theme'' (VStr ''dark'')"
    by (simp add: survives_def looks_like_json_def int_pattern_def decimal_pattern_def unsigned_def all_digits_def is_digit_def)
  moreover have "\<not> all_digits ''theme''" by (simp add: all_digits_def is_digit_def)
  moreover have "''theme'' \<notin> set stalePauseFields" by (simp add: stalePauseFields_def)
  moreover have "\<not> isExpired 5 (redis_empty 0) (settings_key ''ui'')" by (simp add: isExpired_def redis_empty_def)
  ultimately show ?thesis
    using settings_roundtrip [where kvs = "[(''theme'', VStr ''dark''), (''old'', VNull)]" and t = 5 and r = "redis_empty 0"
        and key = "''ui''" and g = "''theme''" and w = "VStr ''dark''" and now = 0]
    by simp
qed

lemma stored_text:
  "field_text (VNum (num_of_int 1)) = Some ''1''" "field_text (VNum (num_of_int 0)) = Some ''0''"
proof -
  have "string_of_int 1 = ''1''" "string_of_int 0 = ''0''"
    by (simp_all add: string_of_int_def dec_digits.simps digit_char_def char_of_def bit_0)
  then show "field_text (VNum (num_of_int 1)) = Some ''1''" "field_text (VNum (num_of_int 0)) = Some ''0''"
    using string_of_num_int [of 1] string_of_num_int [of 0]
    by (simp_all add: field_text_def convertToString_def del: string_of_num.simps)
qed

lemma parse_int_text:
  assumes "2 \<le> n" "n \<le> 2 ^ 53"
  shows "parse_field f (string_of_int n) = VNum (num_of_int n)"
proof -
  have "(of_int n :: rat) \<le> of_int (2 ^ 53)" using assms(2) by (simp only: of_int_le_iff)
  then have "survives f (VNum (num_of_int n))" using assms(1) by (auto simp: survives_def)
  then show ?thesis
    using parse_survivor [of f "VNum (num_of_int n)"] assms
    by (auto simp: field_text_def convertToString_def simp del: string_of_num.simps)
qed

text \<open>In a field that is not listed as numeric, the numbers 0 and 1 come back as the booleans
  false and true, and a string of digits comes back as a number.\<close>

theorem settings_coercions:
  assumes "f \<notin> set NUMERIC_HASH_FIELDS" "2 \<le> n" "n \<le> 2 ^ 53"
  shows "map_option (parse_field f) (field_text (VNum (num_of_int 1))) = Some (VBool True) \<and>
    map_option (parse_field f) (field_text (VNum (num_of_int 0))) = Some (VBool False) \<and>
    map_option (parse_field f) (field_text (VStr (string_of_int n))) = Some (VNum (num_of_int n))"
proof -
  have "parse_field f ''1'' = VBool True" "parse_field f ''0'' = VBool False"
    using assms(1) by (simp_all add: parse_field_def parseHashValue_def looks_like_json_def)
  then show ?thesis
    unfolding stored_text using parse_int_text [OF assms(2,3)] by (simp add: field_text_def convertToString_def)
qed

theorem settings_coercions_witness:
  "map_option (parse_field ''retryCount'') (field_text (VNum (num_of_int 1))) = Some (VBool True) \<and>
    map_option (parse_field ''retryCount'') (field_text (VNum (num_of_int 0))) = Some (VBool False) \<and>
    map_option (parse_field ''retryCount'') (field_text (VStr (string_of_int 7))) = Some (VNum (num_of_int 7))"
  using settings_coercions [of "''retryCount''" 7] by (simp add: NUMERIC_HASH_FIELDS_def)

text \<open>A lifecycle write to an engine's main state reaches both of its hashes with the same text
  in every field, and a running report leaves no pause or stop field behind in either of them or in
  the bare hash.\<close>

theorem settings_mirror:
  assumes "main_state_id key = Some i" "setSettings now key (VObj kvs) r = Some r1" "distinct (map fst kvs)"
  shows "(\<forall>f s. Option.bind (map_of kvs f) field_text = Some s \<and> f \<notin> set stalePauseFields \<longrightarrow>
       map_of (hash_at r1 (settings_key key)) f = Some s \<and> map_of (hash_at r1 (scoped_key i)) f = Some s) \<and>
    (publishesRunningContract (flattenForHmset kvs) \<longrightarrow> (\<forall>f \<in> set stalePauseFields.
       \<forall>k \<in> {settings_key key, scoped_key i, ''trade_engine_state:'' @ safeConnectionId i}. map_of (hash_at r1 k) f = None))"
  using assms
  by (auto simp: setSettings_def object_entries_def Let_def hfield_hset_all [OF flatten_wf] hfield_hdel flatten_lookup
      split: option.splits if_splits)

theorem settings_mirror_witness:
  "\<exists>r1. setSettings 0 ''trade_engine_state:c1'' (VObj [(''status'', VStr ''running''), (''engine_ready'', VBool True)]) (redis_empty 0) = Some r1 \<and>
     map_of (hash_at r1 ''settings:trade_engine_state:c1:main'') ''engine_ready'' = Some ''1'' \<and>
     map_of (hash_at r1 ''settings:trade_engine_state:c1'') ''paused_at'' = None"
proof -
  let ?kvs = "[(''status'', VStr ''running''), (''engine_ready'', VBool True)]"
  obtain r1 where r1: "setSettings 0 ''trade_engine_state:c1'' (VObj ?kvs) (redis_empty 0) = Some r1" using setSettings_object by blast
  have i: "main_state_id ''trade_engine_state:c1'' = Some ''c1''" by (simp add: main_state_id_def)
  have k: "scoped_key ''c1'' = ''settings:trade_engine_state:c1:main''" "settings_key ''trade_engine_state:c1'' = ''settings:trade_engine_state:c1''"
    by (simp_all add: scoped_key_def settings_key_def safeConnectionId_def safe_char_def is_digit_def less_eq_char_def)
  have p: "publishesRunningContract (flattenForHmset ?kvs)"
    by (simp add: publishesRunningContract_def flattenForHmset_def convertToString_def str_or_def lifecycleFields_def
        toLowerCase_def ascii_lower_def less_eq_char_def)
  have t: "Option.bind (map_of ?kvs ''engine_ready'') field_text = Some ''1''" "''engine_ready'' \<notin> set stalePauseFields"
    "''paused_at'' \<in> set stalePauseFields"
    by (simp_all add: field_text_def convertToString_def stalePauseFields_def)
  show ?thesis using settings_mirror [OF i r1] p t unfolding k using r1 by (intro exI [of _ r1]) simp
qed

end
