(* ===== verification/RefreshQueue.thy ===== *)
theory RefreshQueue
  imports RedisViews Settings
begin

text \<open>
  The queue of engine refresh requests (\<open>lib/engine-refresh-queue.ts\<close>): one durable request per
  connection, kept as a settings hash plus an index set, ordered by switch generation, action and
  timestamp; a claim key that one consumer holds while it acts; the allocator of switch generations.
  A request is a JavaScript object, read back from the hash with the coercions of \<open>getSettings\<close>.

  The ids that the one-time scan for requests of an older layout finds, \<open>Date.parse\<close>, the claim
  values and request ids with their random parts, the consumer's callbacks and the immediate drain are
  arguments.  \<open>runSerializedRefreshMutation\<close> makes a local mutation one step; a script run on the
  server is one step as well.  \<open>Error\<close> stands for a call that throws.
\<close>

subsection \<open>Keys and lifetimes\<close>

definition ENGINE_REFRESH_REQUEST_PREFIX :: string where
  "ENGINE_REFRESH_REQUEST_PREFIX = ''engine_coordinator:refresh_requested:''"

definition ENGINE_REFRESH_REQUEST_INDEX :: string where
  "ENGINE_REFRESH_REQUEST_INDEX = ''engine_coordinator:refresh_requested:index''"

definition ENGINE_REFRESH_CLAIM_TTL_MS :: int where
  "ENGINE_REFRESH_CLAIM_TTL_MS = 60000"

definition parseEngineRefreshRequestTtlMs :: "string option \<Rightarrow> jsnum" where
  "parseEngineRefreshRequestTtlMs env =
     (let configured = js_Number (case env of None \<Rightarrow> [] | Some s \<Rightarrow> s)
      in if js_isFinite configured \<and> js_ge configured (num_of_int 60000) then configured
         else num_of_int (10 * 60 * 1000))"

definition request_settings_key :: "string \<Rightarrow> string" where
  "request_settings_key connectionId = ENGINE_REFRESH_REQUEST_PREFIX @ connectionId"

definition refreshClaimKey :: "string \<Rightarrow> string" where
  "refreshClaimKey connectionId = ''engine_coordinator:refresh_claim:'' @ connectionId"

subsection \<open>Claims\<close>

datatype refresh_backend = LocalStore | NetworkScripts lua_eval

definition acquireRefreshClaim :: "int \<Rightarrow> string \<Rightarrow> string \<Rightarrow> redis \<Rightarrow> string option \<times> redis" where
  "acquireRefreshClaim now connectionId claimValue r =
     (let (ans, r1) = redis_set now (refreshClaimKey connectionId) claimValue
            (no_options\<lparr>opt_NX := True, opt_PX := Some (num_of_int ENGINE_REFRESH_CLAIM_TTL_MS)\<rparr>) r
      in (if ans = Some ''OK'' then Some claimValue else None, r1))"

definition releaseRefreshClaim :: "refresh_backend \<Rightarrow> int \<Rightarrow> string \<Rightarrow> string \<Rightarrow> redis \<Rightarrow> redis" where
  "releaseRefreshClaim backend now connectionId claimValue r =
     (let key = refreshClaimKey connectionId
      in case backend of
           NetworkScripts f \<Rightarrow> (case f ReleaseIfOwner key [claimValue] r of None \<Rightarrow> r | Some (_, r1) \<Rightarrow> r1)
         | LocalStore \<Rightarrow>
             let (current, r1) = redis_get now key r
             in if current = Some claimValue then snd (redis_del [key] r1) else r1)"

text \<open>None when the script call throws.\<close>

definition renewRefreshClaim :: "refresh_backend \<Rightarrow> int \<Rightarrow> string \<Rightarrow> string \<Rightarrow> redis \<Rightarrow> (bool \<times> redis) option" where
  "renewRefreshClaim backend now connectionId claimValue r =
     (let key = refreshClaimKey connectionId
      in case backend of
           NetworkScripts f \<Rightarrow>
             map_option (map_prod (\<lambda>n. n = num_of_int 1) id)
               (f PexpireIfOwner key [claimValue, string_of_num (num_of_int ENGINE_REFRESH_CLAIM_TTL_MS)] r)
         | LocalStore \<Rightarrow>
             let (current, r1) = redis_get now key r
             in if current \<noteq> Some claimValue then Some (False, r1)
                else let (ans, r2) = redis_set now key claimValue
                           (no_options\<lparr>opt_XX := True, opt_PX := Some (num_of_int ENGINE_REFRESH_CLAIM_TTL_MS)\<rparr>) r1
                     in Some (ans = Some ''OK'', r2))"

subsection \<open>Ordering\<close>

type_synonym EngineRefreshRequest = "(string \<times> js_value) list"

definition refreshActionPriority :: "js_value \<Rightarrow> nat" where
  "refreshActionPriority action =
     (if action = VStr ''restart'' then 3
      else if action = VStr ''start'' \<or> action = VStr ''stop'' then 2 else 1)"

definition shouldReplaceEngineRefreshRequest :: "js_value \<Rightarrow> EngineRefreshRequest \<Rightarrow> bool" where
  "shouldReplaceEngineRefreshRequest current proposed =
     (if \<not> js_truthy current then True
      else
        let currentGeneration = js_to_Number (js_nullish (js_get current ''state_switch_version'') (VNum (num_of_int (-1))));
            proposedGeneration = js_to_Number (js_nullish (js_prop proposed ''state_switch_version'') (VNum (num_of_int (-1))))
        in if \<not> js_isSafeInteger proposedGeneration \<or> js_lt proposedGeneration (Fin 0) then False
           else if \<not> js_isSafeInteger currentGeneration \<or> js_lt currentGeneration (Fin 0) then True
           else if proposedGeneration \<noteq> currentGeneration then js_gt proposedGeneration currentGeneration
           else
             let currentPriority = refreshActionPriority (js_get current ''action'');
                 proposedPriority = refreshActionPriority (js_prop proposed ''action'')
             in if proposedPriority \<noteq> currentPriority then proposedPriority > currentPriority
                else 0 \<le> code_unit_compare (js_String (js_or (js_prop proposed ''timestamp'') (VStr [])))
                           (js_String (js_or (js_get current ''timestamp'') (VStr []))))"

definition serializeRefreshRequest :: "EngineRefreshRequest \<Rightarrow> string jsmap" where
  "serializeRefreshRequest request = fold (\<lambda>(field, v) out.
     case v of VUndefined \<Rightarrow> out | VStr s \<Rightarrow> AList.update field s out
     | _ \<Rightarrow> AList.update field (json_text v) out) request []"

text \<open>
  The shared store: an ordering script with its keys and arguments, which answers a number, or throws;
  the cleanup script likewise.
\<close>

datatype refresh_script = PersistIfLatest | ClearIfOwned

datatype queue_backend = LocalQueue | SharedQueue "(refresh_script \<Rightarrow> string list \<Rightarrow> string list \<Rightarrow> redis \<Rightarrow> (jsnum \<times> redis) option) option"

datatype 'a outcome = Done 'a | Error string

definition persistLatestEngineRefreshRequest ::
  "queue_backend \<Rightarrow> jsnum \<Rightarrow> int \<Rightarrow> EngineRefreshRequest \<Rightarrow> redis \<Rightarrow> bool outcome \<times> redis" where
  "persistLatestEngineRefreshRequest backend ttlMs now request r =
     (let connectionId = js_String (js_prop request ''connectionId'');
          requestKey = ''settings:'' @ request_settings_key connectionId;
          indexKey = ''settings:'' @ ENGINE_REFRESH_REQUEST_INDEX
      in case backend of
           SharedQueue None \<Rightarrow> (Error ''Shared Redis adapter does not support atomic refresh ordering'', r)
         | SharedQueue (Some f) \<Rightarrow>
             let es = serializeRefreshRequest request
             in (case f PersistIfLatest [requestKey, indexKey]
                     ([js_String (js_prop request ''state_switch_version''), js_String (js_prop request ''action''),
                       js_String (js_or (js_prop request ''timestamp'') (VStr [])), string_of_int (int (length es))] @
                      concat (map (\<lambda>(field, v). [field, v]) es) @ [connectionId, string_of_num ttlMs]) r of
                   None \<Rightarrow> (Error ''eval'', r)
                 | Some (n, r1) \<Rightarrow> (Done (n = num_of_int 1), r1))
         | LocalQueue \<Rightarrow>
             let (current, r1) = getSettings now (request_settings_key connectionId) r
             in if \<not> shouldReplaceEngineRefreshRequest current request then (Done False, r1)
                else case setSettings now (request_settings_key connectionId) (VObj request) r1 of
                       None \<Rightarrow> (Error ''setSettings'', r1)
                     | Some r2 \<Rightarrow>
                         let (_, r3) = redis_sadd now indexKey [connectionId] r2;
                             (_, r4) = redis_expire now requestKey (js_ceil (js_div ttlMs (num_of_int 1000))) r3
                         in (Done True, r4))"

subsection \<open>Switch generations\<close>

text \<open>The argument is the connection's \<open>state_switch_version\<close>, undefined when there is no connection.\<close>

definition nextStateSwitchVersion :: "js_value \<Rightarrow> string" where
  "nextStateSwitchVersion version =
     (let current = js_to_Number (js_nullish version (VNum (num_of_int 0)))
      in string_of_num (js_add (if js_isFinite current then current else num_of_int 0) (num_of_int 1)))"

definition allocateStateSwitchVersion :: "int \<Rightarrow> string \<Rightarrow> js_value \<Rightarrow> redis \<Rightarrow> string \<times> redis" where
  "allocateStateSwitchVersion now connectionId version r =
     (let key = ''connection_state_switch_version:'' @ connectionId;
          current = js_to_Number (js_nullish version (VNum (num_of_int 0)));
          floorValue = (if js_isSafeInteger current \<and> js_ge current (Fin 0) then current else num_of_int 0);
          (allocated, r1) = redis_incr now key r
      in if js_le allocated floorValue
         then let (allocated2, r2) = redis_incrby now key (js_add (js_sub floorValue allocated) (num_of_int 1)) r1
              in (string_of_num allocated2, r2)
         else (string_of_num allocated, r1))"

definition currentStateSwitchVersion :: "js_value \<Rightarrow> string" where
  "currentStateSwitchVersion version = js_String (js_nullish version (VNum (num_of_int 0)))"


subsection \<open>Queueing\<close>

text \<open>What the immediate drain of the running coordinator reports.\<close>

record drain_result =
  attempted :: bool
  applied :: bool
  drain_error :: "string option"

record EngineRefreshQueueStatus =
  refreshQueued :: bool
  refreshSuperseded :: bool
  refresh_queued_at :: js_value
  refresh_last_attempt_at :: js_value
  refresh_last_error :: js_value
  refresh_processed_at :: js_value
  retryCount :: jsnum
  immediateDrainAttempted :: bool
  immediateDrainApplied :: bool

definition queued_request :: "string \<Rightarrow> string \<Rightarrow> EngineRefreshRequest \<Rightarrow> EngineRefreshRequest" where
  "queued_request freshId nowIso request =
     (let get = js_prop request; emptyStr = VStr [];
          queuedAt = js_or (js_or (get ''refresh_queued_at'') (get ''timestamp'')) (VStr nowIso)
      in js_spread request
           [(''requestId'', js_or (get ''requestId'') (VStr freshId)),
            (''refresh_queued_at'', queuedAt),
            (''retryCount'', VNum (js_to_Number (js_nullish (get ''retryCount'') (VNum (num_of_int 0))))),
            (''lastError'', js_or (get ''lastError'') emptyStr),
            (''lastErrorAt'', js_or (get ''lastErrorAt'') emptyStr),
            (''refresh_last_error'', js_or (js_or (get ''refresh_last_error'') (get ''lastError'')) emptyStr),
            (''refresh_last_attempt_at'', js_or (js_or (get ''refresh_last_attempt_at'') (get ''lastErrorAt'')) emptyStr),
            (''refresh_processed_at'', js_or (get ''refresh_processed_at'') emptyStr)])"

definition queueEngineRefreshRequest ::
  "queue_backend \<Rightarrow> jsnum \<Rightarrow> (EngineRefreshRequest \<Rightarrow> redis \<Rightarrow> drain_result \<times> redis) \<Rightarrow> string \<Rightarrow> string \<Rightarrow> int \<Rightarrow>
   EngineRefreshRequest \<Rightarrow> redis \<Rightarrow> EngineRefreshQueueStatus outcome \<times> redis" where
  "queueEngineRefreshRequest backend ttlMs drainNow freshId nowIso now request r =
     (let q = queued_request freshId nowIso request;
          (res, r1) = persistLatestEngineRefreshRequest backend ttlMs now q r
      in case res of
           Error e \<Rightarrow> (Error e, r1)
         | Done persisted \<Rightarrow>
             let (drain, r2) = drainNow q r1
             in (Done \<lparr>refreshQueued = persisted, refreshSuperseded = (\<not> persisted),
                   refresh_queued_at = js_prop q ''refresh_queued_at'',
                   refresh_last_attempt_at = (if attempted drain then VStr nowIso else js_prop q ''refresh_last_attempt_at''),
                   refresh_last_error = (case drain_error drain of
                       Some e \<Rightarrow> if persisted then VStr e else js_prop q ''refresh_last_error''
                     | None \<Rightarrow> js_prop q ''refresh_last_error''),
                   refresh_processed_at = (if applied drain then VStr nowIso else js_prop q ''refresh_processed_at''),
                   retryCount = js_to_Number (js_nullish (js_prop q ''retryCount'') (VNum (num_of_int 0))),
                   immediateDrainAttempted = attempted drain, immediateDrainApplied = applied drain\<rparr>, r2))"

subsection \<open>Listing, clearing, failing\<close>

fun read_requests ::
  "int \<Rightarrow> string list \<Rightarrow> redis \<Rightarrow> EngineRefreshRequest list \<times> string list \<times> redis" where
  "read_requests now [] r = ([], [], r)"
| "read_requests now (connectionId # ids) r =
     (let (request, r1) = getSettings now (request_settings_key connectionId) r;
          (found, missing, r2) = read_requests now ids r1
      in if js_truthy (js_get request ''connectionId'') \<and> js_truthy (js_get request ''timestamp'')
         then (case request of VObj kvs \<Rightarrow> kvs # found | _ \<Rightarrow> found, missing, r2)
         else (found, connectionId # missing, r2))"

definition getQueuedEngineRefreshRequests ::
  "string list \<Rightarrow> int \<Rightarrow> redis \<Rightarrow> EngineRefreshRequest list \<times> redis" where
  "getQueuedEngineRefreshRequests legacyIds now r =
     (let indexKey = ''settings:'' @ ENGINE_REFRESH_REQUEST_INDEX;
          (members, r1) = redis_smembers now indexKey r;
          connectionIds = (if members = [] then legacyIds else members);
          (requests, missing, r2) = read_requests now (fold jsset_add connectionIds []) r1;
          r3 = (if missing \<noteq> [] then snd (redis_srem indexKey missing r2) else r2)
      in (requests, r3))"

definition same_request :: "js_value \<Rightarrow> EngineRefreshRequest \<Rightarrow> bool" where
  "same_request current expected =
     (let expectedRequestId = js_String (js_or (js_prop expected ''requestId'') (VStr []))
      in if expectedRequestId \<noteq> []
         then js_String (js_or (js_get current ''requestId'') (VStr [])) = expectedRequestId
         else js_String (js_nullish (js_get current ''state_switch_version'') (VStr [])) = js_String (js_prop expected ''state_switch_version'') \<and>
              js_String (js_nullish (js_get current ''action'') (VStr [])) = js_String (js_prop expected ''action'') \<and>
              js_String (js_nullish (js_get current ''timestamp'') (VStr [])) = js_String (js_prop expected ''timestamp''))"

definition clearEngineRefreshRequest ::
  "queue_backend \<Rightarrow> int \<Rightarrow> string \<Rightarrow> EngineRefreshRequest option \<Rightarrow> redis \<Rightarrow> unit outcome \<times> redis" where
  "clearEngineRefreshRequest backend now connectionId expectedRequest r =
     (let requestKey = ''settings:'' @ request_settings_key connectionId;
          indexKey = ''settings:'' @ ENGINE_REFRESH_REQUEST_INDEX;
          drop_it = (\<lambda>r. snd (redis_srem indexKey [connectionId] (snd (redis_del [requestKey] r))))
      in case expectedRequest of
           None \<Rightarrow> (Done (), drop_it r)
         | Some expected \<Rightarrow>
             (case backend of
                SharedQueue None \<Rightarrow> (Error ''Shared Redis adapter does not support owned refresh cleanup'', r)
              | SharedQueue (Some f) \<Rightarrow>
                  (case f ClearIfOwned [requestKey, indexKey]
                      [js_String (js_or (js_prop expected ''requestId'') (VStr [])), js_String (js_prop expected ''state_switch_version''),
                       js_String (js_prop expected ''action''), js_String (js_prop expected ''timestamp''), connectionId] r of
                     None \<Rightarrow> (Error ''eval'', r)
                   | Some (_, r1) \<Rightarrow> (Done (), r1))
              | LocalQueue \<Rightarrow>
                  let (current, r1) = getSettings now (request_settings_key connectionId) r
                  in (Done (), if same_request current expected then drop_it r1 else r1)))"

definition recordEngineRefreshRequestFailure ::
  "queue_backend \<Rightarrow> jsnum \<Rightarrow> string \<Rightarrow> int \<Rightarrow> EngineRefreshRequest \<Rightarrow> string \<Rightarrow> redis \<Rightarrow> bool outcome \<times> redis" where
  "recordEngineRefreshRequestFailure backend ttlMs nowIso now request lastError r =
     (let n = js_to_Number (js_nullish (js_prop request ''retryCount'') (VNum (num_of_int 0)))
      in persistLatestEngineRefreshRequest backend ttlMs now
           (js_spread request
              [(''retryCount'', VNum (if js_isFinite n then js_add n (num_of_int 1) else num_of_int 1)),
               (''lastError'', VStr lastError), (''lastErrorAt'', VStr nowIso), (''refresh_last_error'', VStr lastError),
               (''refresh_last_attempt_at'', VStr nowIso)]) r)"

subsection \<open>Consuming\<close>

datatype act_result = Processed | Deferred | Threw string

text \<open>
  One consumer run: \<open>act\<close> is the consumer's action with the time at which it ends, whether the
  renewal timer found the claim lost meanwhile, and what it did to the store.
\<close>

record consumer =
  getConnection :: "string \<Rightarrow> js_value outcome"
  act :: "EngineRefreshRequest \<Rightarrow> js_value \<Rightarrow> int \<Rightarrow> redis \<Rightarrow> act_result \<times> int \<times> bool \<times> redis"
  date_ms :: "js_value \<Rightarrow> jsnum"
  claim_value :: "EngineRefreshRequest \<Rightarrow> string"
  iso_now :: string

definition try_request ::
  "queue_backend \<Rightarrow> consumer \<Rightarrow> jsnum \<Rightarrow> int \<Rightarrow> EngineRefreshRequest \<Rightarrow> redis \<Rightarrow> bool outcome \<times> int \<times> redis" where
  "try_request backend c maxAgeMs now request r =
     (let connectionId = js_String (js_prop request ''connectionId'');
          requestTime = date_ms c (js_prop request ''timestamp'');
          age = (if js_isFinite requestTime then js_sub (num_of_int now) requestTime else PInf);
          clear = (\<lambda>t r. case clearEngineRefreshRequest backend t connectionId (Some request) r of
                           (Done _, r') \<Rightarrow> (Done True, t, r') | (Error e, r') \<Rightarrow> (Error e, t, r'))
      in if \<not> js_isFinite requestTime \<or> js_ge age maxAgeMs then clear now r
         else case getConnection c connectionId of
                Error e \<Rightarrow> (Error e, now, r)
              | Done connection \<Rightarrow>
                  let currentVersion = js_String (js_nullish (js_get connection ''state_switch_version'') (VNum (num_of_int 0)));
                      requestedVersion = js_String (js_nullish (js_prop request ''state_switch_version'') (VStr []))
                  in if \<not> js_truthy connection \<or> currentVersion \<noteq> requestedVersion then clear now r
                     else case act c request connection now r of
                            (Threw e, t, lost, r1) \<Rightarrow> (Error e, t, r1)
                          | (Deferred, t, lost, r1) \<Rightarrow> (Done False, t, r1)
                          | (Processed, t, lost, r1) \<Rightarrow> if lost then (Done False, t, r1) else clear t r1)"

fun process_requests ::
  "refresh_backend \<Rightarrow> queue_backend \<Rightarrow> jsnum \<Rightarrow> consumer \<Rightarrow> jsnum \<Rightarrow> int \<Rightarrow> EngineRefreshRequest list \<Rightarrow> int \<Rightarrow> redis \<Rightarrow>
   int outcome \<times> redis" where
  "process_requests claims backend ttlMs c maxAgeMs now [] processed r = (Done processed, r)"
| "process_requests claims backend ttlMs c maxAgeMs now (request # rest) processed r =
     (let connectionId = js_String (js_prop request ''connectionId'');
          (claim, r1) = acquireRefreshClaim now connectionId (claim_value c request) r
      in case claim of
           None \<Rightarrow> process_requests claims backend ttlMs c maxAgeMs now rest processed r1
         | Some claimValue \<Rightarrow>
             let (res, t, r2) = try_request backend c maxAgeMs now request r1
             in case res of
                  Done ok \<Rightarrow>
                    process_requests claims backend ttlMs c maxAgeMs t rest (if ok then processed + 1 else processed)
                      (releaseRefreshClaim claims t connectionId claimValue r2)
                | Error e \<Rightarrow>
                    let (res2, r3) = recordEngineRefreshRequestFailure backend ttlMs (iso_now c) t request e r2;
                        r4 = releaseRefreshClaim claims t connectionId claimValue r3
                    in case res2 of
                         Error e2 \<Rightarrow> (Error e2, r4)
                       | Done _ \<Rightarrow> process_requests claims backend ttlMs c maxAgeMs t rest processed r4)"

definition processQueuedEngineRefreshRequests ::
  "refresh_backend \<Rightarrow> queue_backend \<Rightarrow> jsnum \<Rightarrow> string list \<Rightarrow> consumer \<Rightarrow> string option \<Rightarrow> jsnum option \<Rightarrow> int \<Rightarrow> redis \<Rightarrow>
   int outcome \<times> redis" where
  "processQueuedEngineRefreshRequests claims backend ttlMs legacyIds c targetConnectionId maxAgeMs now r =
     (let (requests, r1) = getQueuedEngineRefreshRequests legacyIds now r;
          targeted = (case targetConnectionId of
                        Some i \<Rightarrow> if i \<noteq> [] then filter (\<lambda>q. js_prop q ''connectionId'' = VStr i) requests else requests
                      | None \<Rightarrow> requests)
      in process_requests claims backend ttlMs c (case maxAgeMs of Some x \<Rightarrow> x | None \<Rightarrow> ttlMs) now targeted 0 r1)"


subsection \<open>Generations are allocated once\<close>

text \<open>A counter key without expiry that holds \<open>n\<close>, an absent one holding 0.\<close>

definition counter_holds :: "redis \<Rightarrow> string \<Rightarrow> int \<Rightarrow> bool" where
  "counter_holds r k n \<longleftrightarrow> map_of (ttl r) k = None \<and> str_or (map_of (strings r) k) ''0'' = string_of_int n"

lemma incrby_counter:
  assumes "counter_holds r k n" "0 \<le> n" "0 \<le> m" "n + m \<le> 2 ^ 53"
  shows "\<exists>r'. redis_incrby t k (num_of_int m) r = (num_of_int (n + m), r') \<and> counter_holds r' k (n + m)"
proof -
  have h: "str_or (map_of (strings r) k) ''0'' = string_of_int n" "\<not> isExpired t r k"
    using assms(1) by (simp_all add: counter_holds_def isExpired_def)
  have p: "js_parseInt (string_of_int n) = num_of_int n" using assms(2-4) by (intro parseInt_string_of_int) auto
  have a: "js_add (num_of_int n) (num_of_int m) = num_of_int (n + m)" using assms(2-4) by (intro js_add_int) auto
  have i: "redis_incrby t k (num_of_int m) r = (num_of_int (n + m),
      markDirty (r\<lparr>strings := AList.update k (string_of_num (num_of_int (n + m))) (strings r)\<rparr>))"
    unfolding redis_incrby_def Let_def h(1) p a using h(2) by simp
  have "string_of_num (num_of_int (n + m)) = string_of_int (n + m)" using assms(2-4) by (intro string_of_num_int) auto
  then show ?thesis using assms(1) unfolding i by (auto simp: counter_holds_def str_or_def)
qed

abbreviation version_counter :: "string \<Rightarrow> string" where
  "version_counter connectionId \<equiv> ''connection_state_switch_version:'' @ connectionId"

lemma allocate_step:
  assumes "counter_holds r (version_counter connectionId) n" "0 \<le> n" "0 \<le> f" "max n f + 1 < 2 ^ 53"
    and "js_to_Number (js_nullish version (VNum (num_of_int 0))) = num_of_int f"
  shows "\<exists>r'. allocateStateSwitchVersion t connectionId version r = (string_of_int (max n f + 1), r') \<and>
    counter_holds r' (version_counter connectionId) (max n f + 1)"
proof -
  let ?k = "version_counter connectionId"
  have fl: "js_isSafeInteger (num_of_int f) \<and> js_ge (num_of_int f) (Fin 0)"
  proof -
    have "(of_int f :: rat) \<le> of_int (2 ^ 53 - 1)" "(of_int (- (2 ^ 53 - 1)) :: rat) \<le> of_int f" using assms(3,4) by (simp_all only: of_int_le_iff)
    then show ?thesis using assms(3) by (simp add: js_isSafeInteger_def)
  qed
  obtain r1 where r1: "redis_incrby t ?k (num_of_int 1) r = (num_of_int (n + 1), r1)" "counter_holds r1 ?k (n + 1)"
    using incrby_counter [OF assms(1,2), of 1 t] assms(4) by auto
  have str: "string_of_num (num_of_int m) = string_of_int m" if "0 \<le> m" "m < 2 ^ 53" for m
    using that by (intro string_of_num_int) auto
  have le: "js_le (num_of_int (n + 1)) (num_of_int f) \<longleftrightarrow> n + 1 \<le> f" by (simp only: js_le_Fin of_int_le_iff)
  show ?thesis
  proof (cases "n + 1 \<le> f")
    case True
    have d: "js_add (js_sub (num_of_int f) (num_of_int (n + 1))) (num_of_int 1) = num_of_int (f - n)"
    proof -
      have "js_sub (num_of_int f) (num_of_int (n + 1)) = num_of_int (f - (n + 1))" using assms(2,4) True by (intro js_sub_int) auto
      moreover have "js_add (num_of_int (f - (n + 1))) (num_of_int 1) = num_of_int (f - (n + 1) + 1)" using assms(2,4) True by (intro js_add_int) auto
      ultimately show ?thesis by (simp del: of_int_diff of_int_add js_add.simps add: algebra_simps)
    qed
    have e: "n + 1 + (f - n) = f + 1" by simp
    have "0 \<le> n + 1" "0 \<le> f - n" "n + 1 + (f - n) \<le> 2 ^ 53" using assms(2,4) True by simp_all
    from incrby_counter [OF r1(2) this, of t]
    obtain r2 where r2: "redis_incrby t ?k (num_of_int (f - n)) r1 = (num_of_int (f + 1), r2)" "counter_holds r2 ?k (f + 1)"
      unfolding e by blast
    have "string_of_num (num_of_int (f + 1)) = string_of_int (f + 1)" using assms(3,4) by (intro str) auto
    then have "allocateStateSwitchVersion t connectionId version r = (string_of_int (f + 1), r2)"
      by (simp only: allocateStateSwitchVersion_def Let_def redis_incr_def assms(5) fl if_True simp_thms r1(1) prod.case le True d r2(1))
    moreover have "max n f = f" using True by simp
    ultimately show ?thesis using r2(2) by simp
  next
    case False
    have "string_of_num (num_of_int (n + 1)) = string_of_int (n + 1)" using assms(2,4) by (intro str) auto
    then have "allocateStateSwitchVersion t connectionId version r = (string_of_int (n + 1), r1)"
      by (simp only: allocateStateSwitchVersion_def Let_def redis_incr_def assms(5) fl if_True if_False simp_thms r1(1) prod.case le False)
    moreover have "max n f = n" using False by simp
    ultimately show ?thesis using r1(2) by simp
  qed
qed

text \<open>A run of allocations by any callers, each with the version it read off its connection.\<close>

fun allocate_all :: "string \<Rightarrow> (int \<times> js_value) list \<Rightarrow> redis \<Rightarrow> string list" where
  "allocate_all connectionId [] r = []"
| "allocate_all connectionId ((t, version) # calls) r =
     (let (v, r') = allocateStateSwitchVersion t connectionId version r in v # allocate_all connectionId calls r')"

text \<open>Switch generations are unambiguous: whatever versions the callers read, the allocated
  generations increase strictly, and each lies above the caller's own version.\<close>

theorem allocate_increasing:
  assumes "counter_holds r (version_counter connectionId) n" "0 \<le> n"
    and "list_all2 (\<lambda>(t, version) f. 0 \<le> f \<and> f < b \<and> js_to_Number (js_nullish version (VNum (num_of_int 0))) = num_of_int f) calls floors"
    and "n \<le> b" "b + int (length calls) < 2 ^ 53"
  shows "\<exists>ns. allocate_all connectionId calls r = map string_of_int ns \<and> sorted_wrt (<) (n # ns) \<and> list_all2 (<) floors ns"
  using assms
proof (induction calls arbitrary: floors r n b)
  case (Cons c calls)
  obtain t version where c: "c = (t, version)" by (cases c)
  then obtain f fs where f: "floors = f # fs" "0 \<le> f" "f < b" "js_to_Number (js_nullish version (VNum (num_of_int 0))) = num_of_int f"
    "list_all2 (\<lambda>(t, version) f. 0 \<le> f \<and> f < b \<and> js_to_Number (js_nullish version (VNum (num_of_int 0))) = num_of_int f) calls fs"
    using Cons.prems(3) by (auto simp: list_all2_Cons1)
  have "max n f + 1 < 2 ^ 53" using Cons.prems(4,5) f(3) by simp
  from allocate_step [OF Cons.prems(1,2) f(2) this f(4)]
  obtain r' where r': "allocateStateSwitchVersion t connectionId version r = (string_of_int (max n f + 1), r')"
    "counter_holds r' (version_counter connectionId) (max n f + 1)" by blast
  have "\<exists>ns. allocate_all connectionId calls r' = map string_of_int ns \<and> sorted_wrt (<) ((max n f + 1) # ns) \<and> list_all2 (<) fs ns"
  proof (rule Cons.IH [where b = "b + 1"])
    show "list_all2 (\<lambda>(t, version) f. 0 \<le> f \<and> f < b + 1 \<and> js_to_Number (js_nullish version (VNum (num_of_int 0))) = num_of_int f) calls fs"
      using f(5) by (rule list_all2_mono) auto
  qed (use r'(2) Cons.prems f(2,3) in auto)
  then obtain ns where "allocate_all connectionId calls r' = map string_of_int ns" "sorted_wrt (<) ((max n f + 1) # ns)" "list_all2 (<) fs ns"
    by blast
  then show ?case using c f(1) r'(1) by (intro exI [of _ "(max n f + 1) # ns"]) auto
qed simp

theorem allocate_increasing_witness:
  "\<exists>ns. allocate_all ''c1'' [(1, VUndefined), (2, VStr ''7'')] (redis_empty 0) = map string_of_int ns \<and>
     sorted_wrt (<) (0 # ns) \<and> list_all2 (<) [0, 7] ns"
proof (rule allocate_increasing [where b = 8])
  have z: "string_of_int 0 = ''0''" "string_of_int 7 = ''7''"
    by (simp_all add: string_of_int_def dec_digits.simps digit_char_def char_of_def bit_0)
  show "counter_holds (redis_empty 0) (version_counter ''c1'') 0" by (simp add: counter_holds_def redis_empty_def str_or_def z)
  have "js_Number ''7'' = num_of_int 7" using js_Number_dec_digits [of 7] by (simp add: z)
  then show "list_all2 (\<lambda>(t, version) f. 0 \<le> f \<and> f < 8 \<and> js_to_Number (js_nullish version (VNum (num_of_int 0))) = num_of_int f)
      [(1, VUndefined), (2, VStr ''7'')] [0, 7]"
    by (simp add: js_to_Number_def js_nullish_def)
qed simp_all


subsection \<open>The latest request wins\<close>

text \<open>The rank of a request: generation, action, timestamp.\<close>

type_synonym rank = "int \<times> string \<times> string"

definition rank_le :: "rank \<Rightarrow> rank \<Rightarrow> bool" where
  "rank_le x y = (case (x, y) of ((g0, a0, t0), (g, a, t)) \<Rightarrow>
     g0 < g \<or> g0 = g \<and>
       (refreshActionPriority (VStr a0) < refreshActionPriority (VStr a) \<or>
        refreshActionPriority (VStr a0) = refreshActionPriority (VStr a) \<and> 0 \<le> code_unit_compare t t0))"

lemma code_unit_refl [simp]: "code_unit_compare t t = 0"
  by (simp add: code_unit_compare_eq)

lemma rank_le_refl [simp]: "rank_le x x"
  by (cases x) (simp add: rank_le_def)

lemma rank_le_total: "rank_le x y \<or> rank_le y x"
  using code_unit_compare_sym [of "snd (snd x)" "snd (snd y)"]
  by (cases x; cases y) (auto simp: rank_le_def)

lemma rank_le_trans: "rank_le x y \<Longrightarrow> rank_le y z \<Longrightarrow> rank_le x z"
proof -
  assume "rank_le x y" "rank_le y z"
  moreover have "0 \<le> code_unit_compare c a" if "0 \<le> code_unit_compare b a" "0 \<le> code_unit_compare c b" for a b c
    using that code_unit_compare_trans [of a b c] code_unit_compare_sym [of a b] code_unit_compare_sym [of b c]
      code_unit_compare_sym [of a c] code_unit_compare_sym [of b a] code_unit_compare_sym [of c b] code_unit_compare_sym [of c a]
    by linarith
  ultimately show ?thesis by (cases x; cases y; cases z) (auto simp: rank_le_def)
qed

text \<open>A request with a rank, for one connection: what the routes put in the queue.\<close>

definition ranked :: "string \<Rightarrow> EngineRefreshRequest \<Rightarrow> rank \<Rightarrow> bool" where
  "ranked cid q k = (case k of (g, a, t) \<Rightarrow>
     distinct (map fst q) \<and> map_of q ''connectionId'' = Some (VStr cid) \<and> 0 \<le> g \<and> g < 2 ^ 53 \<and>
     (map_of q ''state_switch_version'' = Some (VStr (string_of_int g)) \<or> map_of q ''state_switch_version'' = Some (VNum (num_of_int g))) \<and>
     map_of q ''action'' = Some (VStr a) \<and> survives ''action'' (VStr a) \<and>
     map_of q ''timestamp'' = Some (VStr t) \<and> survives ''timestamp'' (VStr t) \<and> t \<noteq> [])"

definition slot_holds :: "redis \<Rightarrow> string \<Rightarrow> rank \<Rightarrow> bool" where
  "slot_holds r cid k = (case k of (g, a, t) \<Rightarrow>
     0 \<le> g \<and> g < 2 ^ 53 \<and> survives ''action'' (VStr a) \<and> survives ''timestamp'' (VStr t) \<and> t \<noteq> [] \<and>
     hfield r (settings_key (request_settings_key cid)) ''state_switch_version'' = Some (string_of_int g) \<and>
     hfield r (settings_key (request_settings_key cid)) ''action'' = Some a \<and>
     hfield r (settings_key (request_settings_key cid)) ''timestamp'' = Some t)"

lemma not_numeric_field: "''state_switch_version'' \<notin> set NUMERIC_HASH_FIELDS"
  by (simp add: NUMERIC_HASH_FIELDS_def)

lemma generation_of_text:
  assumes "0 \<le> g" "g < 2 ^ 53"
  shows "js_to_Number (parse_field ''state_switch_version'' (string_of_int g)) = num_of_int g"
    "parse_field ''state_switch_version'' (string_of_int g) \<noteq> VUndefined"
    "parse_field ''state_switch_version'' (string_of_int g) \<noteq> VNull"
proof -
  have d: "string_of_int 1 = ''1''" "string_of_int 0 = ''0''"
    by (simp_all add: string_of_int_def dec_digits.simps digit_char_def char_of_def bit_0)
  consider "g = 0" | "g = 1" | "2 \<le> g" using assms(1) by linarith
  then have "parse_field ''state_switch_version'' (string_of_int g) \<in> {VBool False, VBool True, VNum (num_of_int g)} \<and>
    js_to_Number (parse_field ''state_switch_version'' (string_of_int g)) = num_of_int g"
  proof cases
    case 3
    then show ?thesis using parse_int_text [of g] assms(2) by (simp add: js_to_Number_def)
  qed (use not_numeric_field in \<open>simp_all add: d parse_field_def parseHashValue_def looks_like_json_def js_to_Number_def\<close>)
  then show "js_to_Number (parse_field ''state_switch_version'' (string_of_int g)) = num_of_int g"
    "parse_field ''state_switch_version'' (string_of_int g) \<noteq> VUndefined"
    "parse_field ''state_switch_version'' (string_of_int g) \<noteq> VNull" by auto
qed

lemma survivor_text: "survives f (VStr s) \<Longrightarrow> parse_field f s = VStr s"
  using parse_survivor [of f "VStr s"] by (simp add: field_text_def convertToString_def)

lemma request_generation:
  assumes "ranked cid q (g, a, t)"
  shows "js_to_Number (js_nullish (js_prop q ''state_switch_version'') (VNum (num_of_int (-1)))) = num_of_int g"
    "Option.bind (map_of q ''state_switch_version'') field_text = Some (string_of_int g)"
  using assms js_Number_dec_digits [of g] string_of_num_int [of g]
  by (auto simp: ranked_def js_prop_def js_nullish_def js_to_Number_def field_text_def convertToString_def simp del: string_of_num.simps)

lemma safe_generation: "0 \<le> g \<Longrightarrow> g < 2 ^ 53 \<Longrightarrow> js_isSafeInteger (num_of_int g) \<and> \<not> js_lt (num_of_int g) (Fin 0)"
proof -
  assume "0 \<le> g" "g < 2 ^ 53"
  then have "(of_int g :: rat) \<le> of_int (2 ^ 53 - 1)" "(of_int (- (2 ^ 53 - 1)) :: rat) \<le> of_int g" by (simp_all only: of_int_le_iff)
  then show ?thesis using \<open>0 \<le> g\<close> by (simp add: js_isSafeInteger_def)
qed

lemma replace_rank:
  assumes "js_to_Number (js_nullish (js_prop flds ''state_switch_version'') (VNum (num_of_int (-1)))) = num_of_int g0"
    and "js_prop flds ''action'' = VStr a0" "js_prop flds ''timestamp'' = VStr t0" "t0 \<noteq> []" "0 \<le> g0" "g0 < 2 ^ 53"
    and "ranked cid q (g, a, t)"
  shows "shouldReplaceEngineRefreshRequest (VObj flds) q \<longleftrightarrow> rank_le (g0, a0, t0) (g, a, t)"
proof -
  have q: "0 \<le> g" "g < 2 ^ 53" "js_prop q ''action'' = VStr a" "js_prop q ''timestamp'' = VStr t" "t \<noteq> []"
    using assms(7) by (auto simp: ranked_def js_prop_def)
  have n: "num_of_int x = num_of_int y \<longleftrightarrow> x = y" "js_lt (num_of_int x) (num_of_int y) \<longleftrightarrow> x < y" for x y by simp_all
  show ?thesis
    unfolding shouldReplaceEngineRefreshRequest_def Let_def request_generation(1) [OF assms(7)]
    using safe_generation [OF q(1,2)] safe_generation [OF assms(5,6)] assms(1-4) q
    by (auto simp: js_truthy_def js_get_def n rank_le_def js_or_def)
qed


abbreviation slot_key :: "string \<Rightarrow> string" where
  "slot_key cid \<equiv> settings_key (request_settings_key cid)"

lemma js_nullish_present: "v \<noteq> VUndefined \<Longrightarrow> v \<noteq> VNull \<Longrightarrow> js_nullish v d = v"
  by (cases v) (simp_all add: js_nullish_def)

lemma slot_reads:
  assumes "slot_holds r cid (g, a, t)" "\<not> isExpired now r (slot_key cid)"
  shows "\<exists>flds r'. getSettings now (request_settings_key cid) r = (VObj flds, r') \<and> r' = trackOperation now r \<and>
    js_to_Number (js_nullish (js_prop flds ''state_switch_version'') (VNum (num_of_int (-1)))) = num_of_int g \<and>
    js_prop flds ''action'' = VStr a \<and> js_prop flds ''timestamp'' = VStr t"
proof -
  note h = assms(1) [unfolded slot_holds_def, simplified]
  have "\<not> all_digits ''action''" by (simp add: all_digits_def is_digit_def)
  with getSettings_object [OF assms(2), of "''action''"] h obtain flds r' where
    f: "getSettings now (request_settings_key cid) r = (VObj flds, r')"
    "\<forall>f. js_prop flds f = (case hfield r (slot_key cid) f of None \<Rightarrow> VUndefined | Some s \<Rightarrow> parse_field f s)" by auto
  have "r' = trackOperation now r" using f(1) by (simp add: getSettings_def redis_hgetall_def Let_def split: prod.splits)
  moreover have "js_prop flds ''state_switch_version'' = parse_field ''state_switch_version'' (string_of_int g)" using f(2) h by simp
  then have "js_to_Number (js_nullish (js_prop flds ''state_switch_version'') (VNum (num_of_int (-1)))) = num_of_int g"
    using generation_of_text [of g] h js_nullish_present by simp
  moreover have "js_prop flds ''action'' = VStr a" "js_prop flds ''timestamp'' = VStr t" using f(2) h survivor_text by simp_all
  ultimately show ?thesis using f(1) by blast
qed

text \<open>What a write of the slot leaves behind.\<close>

lemma ttl_sadd [simp]: "ttl (snd (redis_sadd now k ms r)) = ttl r"
  by (simp add: redis_sadd_def Let_def trackOperation_def markDirty_def)

lemma seconds_of_ms:
  assumes "0 \<le> S" "S \<le> 2 ^ 53"
  shows "js_ceil (js_div (num_of_int (1000 * S)) (num_of_int 1000)) = num_of_int S"
proof -
  have "fl (of_int S) = num_of_int S" using assms by (intro fl_of_int) auto
  then show ?thesis by simp
qed

lemma slot_write:
  assumes "ranked cid q (g, a, t)" "cid \<noteq> []" "0 < S" "0 \<le> now" "now + 1000 * S \<le> 2 ^ 53"
    and "setSettings now (request_settings_key cid) (VObj q) r = Some r2"
  shows "slot_holds (snd (redis_expire now (slot_key cid) (num_of_int S) (snd (redis_sadd now ik [cid] r2)))) cid (g, a, t)"
    "map_of (ttl (snd (redis_expire now (slot_key cid) (num_of_int S) (snd (redis_sadd now ik [cid] r2))))) (slot_key cid) =
       Some (num_of_int (now + 1000 * S))"
proof -
  note q = assms(1) [unfolded ranked_def, simplified]
  have nf: "f \<notin> set stalePauseFields" if "f \<in> {''state_switch_version'', ''action'', ''timestamp''}" for f
    using that by (auto simp: stalePauseFields_def)
  have h: "hfield r2 (slot_key cid) f = Some s" if "f \<in> {''state_switch_version'', ''action'', ''timestamp''}"
      "Option.bind (map_of q f) field_text = Some s" for f s
    using setSettings_hash(1) [OF assms(6) nf [OF that(1)]] flatten_lookup [of q f] q that(2) by simp
  have "hfield r2 (slot_key cid) ''state_switch_version'' = Some (string_of_int g)"
    "hfield r2 (slot_key cid) ''action'' = Some a" "hfield r2 (slot_key cid) ''timestamp'' = Some t"
    using request_generation(2) [OF assms(1)] q by (auto intro!: h simp: field_text_def convertToString_def)
  note f = this
  then show "slot_holds (snd (redis_expire now (slot_key cid) (num_of_int S) (snd (redis_sadd now ik [cid] r2)))) cid (g, a, t)"
    using q by (simp add: slot_holds_def views_sadd assms(2))
  have "jsmap_has (hashes (snd (redis_sadd now ik [cid] r2))) (slot_key cid)"
  proof
    assume "map_of (hashes (snd (redis_sadd now ik [cid] r2))) (slot_key cid) = None"
    then have "hash_at (snd (redis_sadd now ik [cid] r2)) (slot_key cid) = []" by (simp add: hash_at_def)
    then show False using f(1) by (simp add: views_sadd assms(2))
  qed
  then have "has_data (snd (redis_sadd now ik [cid] r2)) (slot_key cid)" by (simp add: has_data_def)
  then show "map_of (ttl (snd (redis_expire now (slot_key cid) (num_of_int S) (snd (redis_sadd now ik [cid] r2))))) (slot_key cid) =
       Some (num_of_int (now + 1000 * S))"
    using ttl_setKeyTTL [OF assms(4,3,5)] by (simp add: redis_expire_def)
qed

lemma persist_step:
  assumes "ranked cid q k" "cid \<noteq> []" "0 < S" "0 \<le> now" "now + 1000 * S \<le> 2 ^ 53"
    and "hash_at r (slot_key cid) = [] \<and> b \<or> slot_holds r cid k0 \<and> \<not> isExpired now r (slot_key cid) \<and> b = rank_le k0 k"
  shows "\<exists>r'. persistLatestEngineRefreshRequest LocalQueue (num_of_int (1000 * S)) now q r = (Done b, r') \<and>
    (if b then slot_holds r' cid k \<and> map_of (ttl r') (slot_key cid) = Some (num_of_int (now + 1000 * S))
     else slot_holds r' cid k0 \<and> ttl r' = ttl r)"
proof -
  obtain g a t where k: "k = (g, a, t)" by (cases k)
  have cid: "js_String (js_prop q ''connectionId'') = cid" using assms(1) k by (simp add: ranked_def js_prop_def)
  obtain current where cur: "getSettings now (request_settings_key cid) r = (current, trackOperation now r)"
    "shouldReplaceEngineRefreshRequest current q = b"
  proof (cases "hash_at r (slot_key cid) = [] \<and> b")
    case True
    then have "getSettings now (request_settings_key cid) r = (VNull, trackOperation now r)"
      by (simp add: getSettings_def redis_hgetall_def Let_def parseHash_def)
    moreover have "shouldReplaceEngineRefreshRequest VNull q" by (simp add: shouldReplaceEngineRefreshRequest_def js_truthy_def)
    ultimately show ?thesis using True that by blast
  next
    case False
    obtain g0 a0 t0 where k0: "k0 = (g0, a0, t0)" by (cases k0)
    with False assms(6) have s: "slot_holds r cid (g0, a0, t0)" "\<not> isExpired now r (slot_key cid)" "b = rank_le (g0, a0, t0) (g, a, t)"
      using k by auto
    from slot_reads [OF s(1,2)] obtain flds where f: "getSettings now (request_settings_key cid) r = (VObj flds, trackOperation now r)"
      "js_to_Number (js_nullish (js_prop flds ''state_switch_version'') (VNum (num_of_int (-1)))) = num_of_int g0"
      "js_prop flds ''action'' = VStr a0" "js_prop flds ''timestamp'' = VStr t0" by blast
    have "t0 \<noteq> []" "0 \<le> g0" "g0 < 2 ^ 53" using s(1) by (simp_all add: slot_holds_def)
    from replace_rank [OF f(2-4) this] assms(1) k s(3) f(1) that show ?thesis by blast
  qed
  obtain r2 where r2: "setSettings now (request_settings_key cid) (VObj q) (trackOperation now r) = Some r2"
    using setSettings_object by blast
  have sec: "js_ceil (js_div (num_of_int (1000 * S)) (num_of_int 1000)) = num_of_int S"
    using assms(3-5) by (intro seconds_of_ms) auto
  have key: "''settings:'' @ request_settings_key cid = slot_key cid" by (simp add: settings_key_def)
  let ?ik = "''settings:'' @ ENGINE_REFRESH_REQUEST_INDEX"
  let ?r = "snd (redis_expire now (slot_key cid) (num_of_int S) (snd (redis_sadd now ?ik [cid] r2)))"
  have e: "persistLatestEngineRefreshRequest LocalQueue (num_of_int (1000 * S)) now q r =
     (if b then (Done True, ?r) else (Done False, trackOperation now r))"
    unfolding persistLatestEngineRefreshRequest_def Let_def cid key sec
    by (simp add: cur r2 case_prod_unfold del: string_of_num.simps)
  show ?thesis
  proof (cases b)
    case True
    then show ?thesis using e slot_write [OF assms(1) [unfolded k] assms(2-5) r2] k by simp
  next
    case False
    then have "slot_holds (trackOperation now r) cid k0" using assms(6) by (auto simp: slot_holds_def split: prod.splits)
    then show ?thesis using e False by simp
  qed
qed


text \<open>A run of proposals, each at its time.\<close>

fun persist_all :: "jsnum \<Rightarrow> (int \<times> EngineRefreshRequest) list \<Rightarrow> redis \<Rightarrow> redis" where
  "persist_all ttlMs [] r = r"
| "persist_all ttlMs ((now, q) # calls) r =
     persist_all ttlMs calls (snd (persistLatestEngineRefreshRequest LocalQueue ttlMs now q r))"

definition slot_live :: "redis \<Rightarrow> string \<Rightarrow> int \<Rightarrow> bool" where
  "slot_live r cid u \<longleftrightarrow> (\<exists>e. map_of (ttl r) (slot_key cid) = Some (num_of_int e) \<and> u \<le> e \<and> 0 < u)"

lemma slot_live_unexpired: "slot_live r cid u \<Longrightarrow> t < u \<Longrightarrow> \<not> isExpired t r (slot_key cid)"
  by (auto simp: slot_live_def isExpired_def)

lemma persist_all_max:
  assumes "list_all2 (\<lambda>(now, q) k. u - 1000 * S \<le> now \<and> now < u \<and> 0 \<le> now \<and> ranked cid q k) calls ks"
    and "cid \<noteq> []" "0 < S" "u + 1000 * S \<le> 2 ^ 53" "slot_holds r cid k0" "slot_live r cid u"
  shows "\<exists>k \<in> set (k0 # ks). slot_holds (persist_all (num_of_int (1000 * S)) calls r) cid k \<and>
    slot_live (persist_all (num_of_int (1000 * S)) calls r) cid u \<and> (\<forall>k' \<in> set (k0 # ks). rank_le k' k)"
  using assms
proof (induction calls arbitrary: ks r k0)
  case (Cons c calls)
  obtain now q where c: "c = (now, q)" by (cases c)
  with Cons.prems(1) obtain k ks' where k: "ks = k # ks'" "u - 1000 * S \<le> now" "now < u" "0 \<le> now" "ranked cid q k"
    "list_all2 (\<lambda>(now, q) k. u - 1000 * S \<le> now \<and> now < u \<and> 0 \<le> now \<and> ranked cid q k) calls ks'"
    by (auto simp: list_all2_Cons1)
  have "\<not> isExpired now r (slot_key cid)" using slot_live_unexpired Cons.prems(6) k(3) by blast
  moreover have "now + 1000 * S \<le> 2 ^ 53" using k(3) Cons.prems(4) by simp
  ultimately obtain r' where r': "persistLatestEngineRefreshRequest LocalQueue (num_of_int (1000 * S)) now q r = (Done (rank_le k0 k), r')"
    "if rank_le k0 k then slot_holds r' cid k \<and> map_of (ttl r') (slot_key cid) = Some (num_of_int (now + 1000 * S))
     else slot_holds r' cid k0 \<and> ttl r' = ttl r"
    using persist_step [OF k(5) Cons.prems(2,3) k(4), of r "rank_le k0 k" k0] Cons.prems(5) by blast
  let ?m = "if rank_le k0 k then k else k0"
  have "slot_holds r' cid ?m" using r'(2) by (simp split: if_splits)
  moreover have "slot_live r' cid u"
  proof (cases "rank_le k0 k")
    case True
    then have "map_of (ttl r') (slot_key cid) = Some (num_of_int (now + 1000 * S))" using r'(2) by simp
    moreover have "u \<le> now + 1000 * S" "0 < u" using k(2-4) by simp_all
    ultimately show ?thesis unfolding slot_live_def by blast
  next
    case False
    then show ?thesis using r'(2) Cons.prems(6) by (simp add: slot_live_def)
  qed
  ultimately obtain m where m: "m \<in> set (?m # ks')" "slot_holds (persist_all (num_of_int (1000 * S)) calls r') cid m"
    "slot_live (persist_all (num_of_int (1000 * S)) calls r') cid u" "\<forall>k' \<in> set (?m # ks'). rank_le k' m"
    using Cons.IH [OF k(6) Cons.prems(2-4)] by blast
  have "rank_le k0 ?m" "rank_le k ?m" using rank_le_total [of k0 k] by auto
  then have "rank_le k0 m" "rank_le k m" using m(4) rank_le_trans by (metis list.set_intros(1))+
  then have "\<forall>k' \<in> set (k0 # ks). rank_le k' m" using m(4) k(1) by simp
  moreover have "m \<in> set (k0 # ks)" using m(1) k(1) by (auto split: if_splits)
  ultimately show ?case using m(2,3) c r'(1) by auto
qed simp

text \<open>C15. The latest request wins, in whatever order the requests arrive: on the in-process backend, after any run
  of proposals for one connection that starts on an empty slot and stays within the lifetime of one request, each with a
  whole generation and an action and timestamp of plain text, the queue holds
  one of the proposed requests, and none of them is newer by generation, then action (restart over
  start and stop over the rest), then timestamp.  A reader within that lifetime gets its generation, action and
  timestamp back.\<close>

theorem refresh_latest_wins:
  assumes "hash_at r (slot_key cid) = []" "calls \<noteq> []"
    and "list_all2 (\<lambda>(now, q) k. t0 \<le> now \<and> now < t0 + 1000 * S \<and> ranked cid q k) calls ks"
    and "cid \<noteq> []" "0 < S" "0 \<le> t0" "t0 + 2000 * S \<le> 2 ^ 53" "t < t0 + 1000 * S"
  shows "\<exists>g a ts flds r2. (g, a, ts) \<in> set ks \<and> (\<forall>k' \<in> set ks. rank_le k' (g, a, ts)) \<and>
     getSettings t (request_settings_key cid) (persist_all (num_of_int (1000 * S)) calls r) = (VObj flds, r2) \<and>
     js_to_Number (js_prop flds ''state_switch_version'') = num_of_int g \<and>
     js_prop flds ''action'' = VStr a \<and> js_prop flds ''timestamp'' = VStr ts"
proof -
  let ?u = "t0 + 1000 * S"
  obtain now q calls' k ks' where c: "calls = (now, q) # calls'" "ks = k # ks'" "t0 \<le> now" "now < ?u" "ranked cid q k"
    "list_all2 (\<lambda>(now, q) k. t0 \<le> now \<and> now < ?u \<and> ranked cid q k) calls' ks'"
    using assms(2,3) by (cases calls) (auto simp: list_all2_Cons1)
  have "now + 1000 * S \<le> 2 ^ 53" "0 \<le> now" using c(3,4) assms(6,7) by simp_all
  then obtain r' where r': "persistLatestEngineRefreshRequest LocalQueue (num_of_int (1000 * S)) now q r = (Done True, r')"
    "slot_holds r' cid k" "map_of (ttl r') (slot_key cid) = Some (num_of_int (now + 1000 * S))"
    using persist_step [OF c(5) assms(4,5), of now r True k] assms(1) by auto
  have "slot_live r' cid ?u"
  proof -
    have "?u \<le> now + 1000 * S" "0 < ?u" using c(3) assms(5,6) by simp_all
    then show ?thesis using r'(3) unfolding slot_live_def by blast
  qed
  moreover have "list_all2 (\<lambda>(now, q) k. ?u - 1000 * S \<le> now \<and> now < ?u \<and> 0 \<le> now \<and> ranked cid q k) calls' ks'"
    using c(6) by (rule list_all2_mono) (use assms(6) in auto)
  moreover have "?u + 1000 * S \<le> 2 ^ 53" using assms(7) by simp
  ultimately obtain m where "m \<in> set ks" "slot_holds (persist_all (num_of_int (1000 * S)) calls' r') cid m"
    "slot_live (persist_all (num_of_int (1000 * S)) calls' r') cid ?u" "\<forall>k' \<in> set ks. rank_le k' m"
    using persist_all_max [of ?u S cid calls' ks' r' k] assms(4,5) r'(2) unfolding c(2) by blast
  moreover obtain g a ts where "m = (g, a, ts)" by (cases m)
  ultimately have m: "(g, a, ts) \<in> set ks" "slot_holds (persist_all (num_of_int (1000 * S)) calls' r') cid (g, a, ts)"
    "slot_live (persist_all (num_of_int (1000 * S)) calls' r') cid ?u" "\<forall>k' \<in> set ks. rank_le k' (g, a, ts)"
    by simp_all
  have f: "persist_all (num_of_int (1000 * S)) calls r = persist_all (num_of_int (1000 * S)) calls' r'" using c(1) r'(1) by simp
  have "\<not> isExpired t (persist_all (num_of_int (1000 * S)) calls' r') (slot_key cid)" using slot_live_unexpired [OF m(3) assms(8)] .
  from slot_reads [OF m(2) this] obtain flds r2 where
    g: "getSettings t (request_settings_key cid) (persist_all (num_of_int (1000 * S)) calls' r') = (VObj flds, r2)"
    "js_to_Number (js_nullish (js_prop flds ''state_switch_version'') (VNum (num_of_int (-1)))) = num_of_int g"
    "js_prop flds ''action'' = VStr a" "js_prop flds ''timestamp'' = VStr ts" by blast
  have "0 \<le> g" using m(2) by (simp add: slot_holds_def)
  then have "js_nullish (js_prop flds ''state_switch_version'') (VNum (num_of_int (-1))) = js_prop flds ''state_switch_version''"
    using g(2) by (auto simp: js_nullish_def js_to_Number_def split: js_value.splits)
  then show ?thesis using m(1,4) f g by metis
qed


theorem refresh_latest_wins_witness:
  "\<exists>g a ts flds r2. (g, a, ts) \<in> {(2, ''start'', ''t1''), (2, ''restart'', ''t0'')} \<and>
     (\<forall>k' \<in> {(2, ''start'', ''t1''), (2, ''restart'', ''t0'')}. rank_le k' (g, a, ts)) \<and>
     getSettings 30 (request_settings_key ''c1'') (persist_all (num_of_int (1000 * 600))
       [(10, [(''connectionId'', VStr ''c1''), (''state_switch_version'', VNum (num_of_int 2)), (''action'', VStr ''start''), (''timestamp'', VStr ''t1'')]),
        (20, [(''connectionId'', VStr ''c1''), (''state_switch_version'', VNum (num_of_int 2)), (''action'', VStr ''restart''), (''timestamp'', VStr ''t0'')])]
       (redis_empty 0)) = (VObj flds, r2) \<and>
     js_to_Number (js_prop flds ''state_switch_version'') = num_of_int g \<and>
     js_prop flds ''action'' = VStr a \<and> js_prop flds ''timestamp'' = VStr ts"
proof -
  have s: "survives ''action'' (VStr ''start'')" "survives ''action'' (VStr ''restart'')" "survives ''timestamp'' (VStr ''t0'')"
    "survives ''timestamp'' (VStr ''t1'')"
    by (simp_all add: survives_def looks_like_json_def int_pattern_def decimal_pattern_def unsigned_def all_digits_def is_digit_def)
  have h: "hash_at (redis_empty 0) (slot_key ''c1'') = []" by (simp add: hash_at_def redis_empty_def)
  show ?thesis
    using refresh_latest_wins [OF h, where ?t0.0 = 0 and S = 600 and t = 30 and ks = "[(2, ''start'', ''t1''), (2, ''restart'', ''t0'')]" and
       calls = "[(10, [(''connectionId'', VStr ''c1''), (''state_switch_version'', VNum (num_of_int 2)), (''action'', VStr ''start''), (''timestamp'', VStr ''t1'')]),
        (20, [(''connectionId'', VStr ''c1''), (''state_switch_version'', VNum (num_of_int 2)), (''action'', VStr ''restart''), (''timestamp'', VStr ''t0'')])]"]
    by (simp add: ranked_def s del: persist_all.simps)
qed

lemma srem_other [simp]: "hashes (snd (redis_srem k ms r)) = hashes r" "ttl (snd (redis_srem k ms r)) = ttl r"
  by (auto simp: redis_srem_def Let_def markDirty_def split: option.splits prod.splits)

text \<open>Finishing a request never removes another one: on the local store,
  \<open>clearEngineRefreshRequest\<close> given a request with an id removes the queued request and its expiry
  exactly when the queued one carries that id, and otherwise leaves every key's contents alone.\<close>

theorem clear_owned_only:
  assumes "\<not> isExpired now r (slot_key cid)" "map_of (hash_at r (slot_key cid)) ''requestId'' = Some s"
    and "survives ''requestId'' (VStr s)" "map_of expected ''requestId'' = Some (VStr i)" "i \<noteq> []"
  shows "\<exists>r'. clearEngineRefreshRequest LocalQueue now cid (Some expected) r = (Done (), r') \<and>
     (if s = i then hash_at r' (slot_key cid) = [] \<and> map_of (ttl r') (slot_key cid) = None
      else contents lc r' = contents lc r)"
proof -
  have "\<not> all_digits ''requestId''" by (simp add: all_digits_def is_digit_def)
  with getSettings_object [OF assms(1), of "''requestId''"] assms(2) obtain flds r1 where
    f: "getSettings now (request_settings_key cid) r = (VObj flds, r1)" "js_prop flds ''requestId'' = VStr s"
    using survivor_text [OF assms(3)] by force
  have r1: "r1 = trackOperation now r" using f(1) by (simp add: getSettings_def redis_hgetall_def Let_def split: prod.splits)
  have m: "same_request (VObj flds) expected \<longleftrightarrow> s = i"
    using assms(4,5) f(2) by (auto simp: same_request_def js_prop_def js_get_def js_or_def js_truthy_def)
  have key: "''settings:'' @ request_settings_key cid = slot_key cid" by (simp add: settings_key_def)
  have "jsmap_has (hashes r) (slot_key cid)" using assms(2) by (auto simp: hash_at_def split: option.splits)
  then have d: "has_data r1 (slot_key cid)" by (simp only: r1 has_data_track) (simp add: has_data_def)
  let ?r = "snd (redis_srem (''settings:'' @ ENGINE_REFRESH_REQUEST_INDEX) [cid] (snd (redis_del [slot_key cid] r1)))"
  have "clearEngineRefreshRequest LocalQueue now cid (Some expected) r = (Done (), if s = i then ?r else r1)"
    unfolding clearEngineRefreshRequest_def Let_def key by (simp add: f(1) m)
  moreover have "hash_at ?r (slot_key cid) = [] \<and> map_of (ttl ?r) (slot_key cid) = None"
    using d by (simp add: hash_at_def view_simps)
  ultimately show ?thesis using r1 by auto
qed

theorem clear_owned_only_witness:
  "\<exists>r'. clearEngineRefreshRequest LocalQueue 5 ''c1'' (Some [(''requestId'', VStr ''old'')])
       ((redis_empty 0)\<lparr>hashes := [(slot_key ''c1'', [(''requestId'', ''new''), (''action'', ''stop'')])]\<rparr>) = (Done (), r') \<and>
     contents code_unit_compare r' = contents code_unit_compare
       ((redis_empty 0)\<lparr>hashes := [(slot_key ''c1'', [(''requestId'', ''new''), (''action'', ''stop'')])]\<rparr>)"
proof -
  have "survives ''requestId'' (VStr ''new'')"
    by (simp add: survives_def looks_like_json_def int_pattern_def decimal_pattern_def unsigned_def all_digits_def is_digit_def)
  then show ?thesis
    using clear_owned_only [where now = 5 and cid = "''c1''" and s = "''new''" and i = "''old''" and expected = "[(''requestId'', VStr ''old'')]"
        and r = "(redis_empty 0)\<lparr>hashes := [(slot_key ''c1'', [(''requestId'', ''new''), (''action'', ''stop'')])]\<rparr>" and lc = code_unit_compare]
    by (simp add: isExpired_def redis_empty_def hash_at_def)
qed

end
