(* ===== verification/JsMath.thy ===== *)
theory JsMath
  imports JsText
begin

text \<open>
  Numeric idioms of the trading code: \<open>x || d\<close> on numbers, missing numbers, rounding to
  significant digits, and the order laws of the rounded operations.  Rounding to nearest is
  monotone, so addition, subtraction from a constant and multiplication by a positive constant are
  monotone on all numbers but NaN.
\<close>

definition num_or :: "jsnum \<Rightarrow> jsnum \<Rightarrow> jsnum" where
  "num_or a b = (if truthy a then a else b)"

text \<open>\<open>Math.round\<close> and \<open>Number.EPSILON\<close>.\<close>

fun js_round :: "jsnum \<Rightarrow> jsnum" where
  "js_round (Fin x) = num_of_int \<lfloor>x + 1 / 2\<rfloor>"
| "js_round a = a"

definition EPSILON :: jsnum where "EPSILON = Fin (2 powi (- 52))"

text \<open>\<open>Number(x)\<close> of an optional number.\<close>

definition opt_num :: "jsnum option \<Rightarrow> jsnum" where
  "opt_num x = (case x of None \<Rightarrow> NaN | Some n \<Rightarrow> n)"

text \<open>
  \<open>Number(x.toPrecision(p))\<close>: the decimal with \<open>p\<close> significant digits nearest to \<open>x\<close> (the
  larger of two equally near ones, on the absolute value), read back as a number.
\<close>

fun num_toPrecision :: "nat \<Rightarrow> jsnum \<Rightarrow> jsnum" where
  "num_toPrecision p (Fin x) =
     (if x = 0 then Fin 0
      else let u = 10 powi (dec_exp \<bar>x\<bar> - int p); n = of_int \<lfloor>\<bar>x\<bar> / u + 1 / 2\<rfloor> * u
           in fl (if 0 < x then n else - n))"
| "num_toPrecision p a = a"

text \<open>\<open>x.toPrecision(p)\<close> as text, for a number above zero: \<open>p\<close> significant digits, in exponent form for large and tiny values.\<close>

fun text_toPrecision :: "nat \<Rightarrow> jsnum \<Rightarrow> string" where
  "text_toPrecision p (Fin x) =
     (let e0 = dec_exp x - 1; n0 = \<lfloor>x * 10 powi (int p - 1 - e0) + 1 / 2\<rfloor>;
          (n, e) = (if n0 = 10 ^ p then (10 ^ (p - 1), e0 + 1) else (n0, e0));
          m = dec_digits n
      in if e < - 6 \<or> int p \<le> e
         then take 1 m @ (if p = 1 then [] else CHR ''.'' # drop 1 m) @ ''e'' @ (if 0 \<le> e then ''+'' else ''-'') @ dec_digits \<bar>e\<bar>
         else if e = int p - 1 then m
         else if 0 \<le> e then take (nat (e + 1)) m @ CHR ''.'' # drop (nat (e + 1)) m
         else ''0.'' @ replicate (nat (- (e + 1))) CHR ''0'' @ m)"
| "text_toPrecision p PInf = ''Infinity''"
| "text_toPrecision p NInf = ''-Infinity''"
| "text_toPrecision p NaN = ''NaN''"

subsection \<open>Order\<close>

lemma num_or_not_NaN [simp]: "b \<noteq> NaN \<Longrightarrow> num_or a b \<noteq> NaN"
  by (simp add: num_or_def truthy_def)

lemma js_max_not_NaN [simp]: "js_max a b = NaN \<longleftrightarrow> a = NaN \<or> b = NaN"
  by (auto simp: js_max_def)

lemma js_min_not_NaN [simp]: "js_min a b = NaN \<longleftrightarrow> a = NaN \<or> b = NaN"
  by (auto simp: js_min_def)

lemma js_le_total: "a \<noteq> NaN \<Longrightarrow> b \<noteq> NaN \<Longrightarrow> js_le a b \<or> js_le b a"
  using js_not_lt js_lt_imp_le by blast

lemma js_le_not_NaN: "js_le a b \<Longrightarrow> a \<noteq> NaN \<and> b \<noteq> NaN"
  by (cases a; cases b) (auto simp: js_le_def js_eq_def)

lemma js_max_least: "js_le a c \<Longrightarrow> js_le b c \<Longrightarrow> js_le (js_max a b) c"
  using js_le_not_NaN [of a c] js_le_not_NaN [of b c] by (simp add: js_max_def)

lemma js_min_greatest: "js_le c a \<Longrightarrow> js_le c b \<Longrightarrow> js_le c (js_min a b)"
  using js_le_not_NaN [of c a] js_le_not_NaN [of c b] by (simp add: js_min_def)

lemma js_le_extremes [simp]: "js_le NInf b \<longleftrightarrow> b \<noteq> NaN" "js_le a PInf \<longleftrightarrow> a \<noteq> NaN"
  by (cases b; simp add: js_le_def js_eq_def) (cases a; simp add: js_le_def js_eq_def)

lemma js_le_cases:
  assumes "js_le a b"
  obtains "a = NInf" "b \<noteq> NaN" | "b = PInf" "a \<noteq> NaN" | x y where "a = Fin x" "b = Fin y" "x \<le> y"
  using assms by (cases a; cases b) (auto simp: js_le_def js_eq_def)

lemma js_add_mono: "js_le a b \<Longrightarrow> js_le (js_add a (Fin c)) (js_add b (Fin c))"
  by (erule js_le_cases; cases a; cases b) (auto intro: fl_mono)

lemma js_add_mono_left: "js_le a b \<Longrightarrow> js_le (js_add (Fin c) a) (js_add (Fin c) b)"
  by (erule js_le_cases; cases a; cases b) (auto intro: fl_mono)

lemma js_neg_anti: "js_le a b \<Longrightarrow> js_le (js_neg b) (js_neg a)"
  by (cases a; cases b) (auto simp: js_le_def js_eq_def)

lemma js_sub_anti: "js_le a b \<Longrightarrow> js_le (js_sub (Fin c) b) (js_sub (Fin c) a)"
  unfolding js_sub_def by (intro js_add_mono_left js_neg_anti)

lemma js_sub_mono: "js_le a b \<Longrightarrow> js_le (js_sub a (Fin c)) (js_sub b (Fin c))"
  unfolding js_sub_def by (simp add: js_add_mono)

lemma js_mul_mono:
  assumes "0 < c" "js_le a b"
  shows "js_le (js_mul (Fin c) a) (js_mul (Fin c) b)"
  using assms(2,1) by (elim js_le_cases; cases a; cases b) (auto simp: signed_inf_def intro!: fl_mono)

lemma js_max_list_not_NaN: "NaN \<notin> set xs \<Longrightarrow> js_max_list xs \<noteq> NaN"
proof -
  have "m \<noteq> NaN \<Longrightarrow> NaN \<notin> set xs \<Longrightarrow> fold (\<lambda>x m. js_max m x) xs m \<noteq> NaN" for m
    by (induction xs arbitrary: m) (auto simp: js_max_def)
  then show "NaN \<notin> set xs \<Longrightarrow> ?thesis" by (simp add: js_max_list_def)
qed

lemma js_max_list_ge: "NaN \<notin> set xs \<Longrightarrow> x \<in> set xs \<Longrightarrow> js_le x (js_max_list xs)"
proof -
  have "m \<noteq> NaN \<Longrightarrow> NaN \<notin> set xs \<Longrightarrow> js_le m (fold (\<lambda>x m. js_max m x) xs m) \<and> (\<forall>x \<in> set xs. js_le x (fold (\<lambda>x m. js_max m x) xs m))" for m
  proof (induction xs arbitrary: m)
    case (Cons y ys)
    have "js_le m (js_max m y) \<and> js_le y (js_max m y)" "js_max m y \<noteq> NaN"
      using Cons.prems js_max_ge [of m y] by (auto simp: js_max_def)
    then show ?case using Cons.IH [of "js_max m y"] Cons.prems by (auto intro: js_le_trans)
  qed simp
  from this [of NInf] show "NaN \<notin> set xs \<Longrightarrow> x \<in> set xs \<Longrightarrow> ?thesis" by (simp add: js_max_list_def)
qed

lemma fl_rat_abs_le_pow2:
  assumes "\<bar>y\<bar> \<le> 2 powi k" "- 1074 \<le> k"
  shows "\<bar>fl_rat y\<bar> \<le> 2 powi k"
proof -
  have p: "fl_rat (2 powi k) = 2 powi k" using fl_rat_exact [of 1 k] assms(2) by simp
  have "y \<le> 2 powi k" "- y \<le> 2 powi k" using assms(1) by (simp_all only: abs_le_iff)
  then have "fl_rat y \<le> 2 powi k" "- fl_rat y \<le> 2 powi k"
    using fl_rat_mono [of y "2 powi k"] fl_rat_mono [of "- y" "2 powi k"] p fl_rat_minus [of y] by simp_all
  then show ?thesis by (simp only: abs_le_iff)
qed

lemma fl_bounded:
  assumes "\<bar>y\<bar> \<le> 2 powi k" "- 1074 \<le> k" "k < 1024"
  shows "fl y = Fin (fl_rat y)"
proof -
  have "(2 :: rat) powi k < 2 powi 1024" using assms(3) by (simp only: pow2_less)
  then have "\<bar>fl_rat y\<bar> < 2 ^ 1024" using fl_rat_abs_le_pow2 [OF assms(1,2)] by (simp add: power_int_def)
  then show ?thesis by (auto simp: fl_def Let_def abs_less_iff)
qed

lemma fl_between:
  assumes "is_dbl (Fin a)" "is_dbl (Fin b)" "a \<le> x" "x \<le> b"
  shows "\<exists>y. fl x = Fin y \<and> a \<le> y \<and> y \<le> b \<and> fl y = Fin y"
  using fl_mono [OF assms(3)] fl_mono [OF assms(4)] fl_dbl [OF assms(1)] fl_dbl [OF assms(2)] is_dbl_fl [of x] fl_dbl
  by (cases "fl x") auto

lemma Min_attained:
  fixes f :: "'a \<Rightarrow> rat"
  assumes "xs \<noteq> []"
  obtains x where "x \<in> set xs" "Min (f ` set xs) = f x" "\<forall>y \<in> set xs. f x \<le> f y"
proof -
  have "Min (f ` set xs) \<in> f ` set xs" using assms by (intro Min_in) simp_all
  then obtain x where x: "x \<in> set xs" "Min (f ` set xs) = f x" by blast
  have "f x \<le> f y" if "y \<in> set xs" for y unfolding x(2) [symmetric] using that by (intro Min_le) simp_all
  with x that show thesis by blast
qed

lemma Max_attained:
  fixes f :: "'a \<Rightarrow> rat"
  assumes "xs \<noteq> []"
  obtains x where "x \<in> set xs" "Max (f ` set xs) = f x" "\<forall>y \<in> set xs. f y \<le> f x"
proof -
  have "Max (f ` set xs) \<in> f ` set xs" using assms by (intro Max_in) simp_all
  then obtain x where x: "x \<in> set xs" "Max (f ` set xs) = f x" by blast
  have "f y \<le> f x" if "y \<in> set xs" for y unfolding x(2) [symmetric] using that by (intro Max_ge) simp_all
  with x that show thesis by blast
qed

subsection \<open>Relative error\<close>

lemma fl_rat_rel_normal:
  assumes "2 powi (- 1022) \<le> x"
  shows "fl_rat x \<le> x * (1 + 2 powi (- 53))"
proof -
  have x: "0 < x" using assms pow2_pos [of "- 1022"] by (rule order_less_le_trans [rotated])
  have "(2 :: rat) powi (- 1022) < 2 powi (ilog2 x + 1)" using ilog2_bounds(2) [OF x] assms by (rule order_le_less_trans [rotated])
  then have "- 1022 \<le> ilog2 x" by (simp only: pow2_less)
  then have f: "fexp x = ilog2 x + - 52" using x by (simp add: fexp_def)
  have h: "(2 :: rat) powi (- 52) = 2 * 2 powi (- 53)" using pow2_add [of 1 "- 53"] by simp
  have "(2 :: rat) powi (fexp x) / 2 = 2 powi (ilog2 x) * 2 powi (- 53)" unfolding f pow2_add h by simp
  also have "\<dots> \<le> x * 2 powi (- 53)" using ilog2_bounds(1) [OF x] by (intro mult_right_mono) simp_all
  finally have "\<bar>fl_rat x - x\<bar> \<le> x * 2 powi (- 53)" using fl_rat_err [of x] x by linarith
  then show ?thesis unfolding distrib_left by linarith
qed

lemma fl_rat_rel_err: "1 \<le> x \<Longrightarrow> fl_rat x \<le> x * (1 + 2 powi (- 53))"
  using pow2_mono [of "- 1022" 0] by (intro fl_rat_rel_normal) simp

lemma fl_rat_diff_rel_err:
  assumes "fl_rat x = x" "fl_rat y = y" "y < x"
  shows "fl_rat (x - y) \<le> (x - y) * (1 + 2 powi (- 53))"
proof (cases "2 powi (- 1022) \<le> x - y")
  case False
  obtain m where m: "x = of_int m * 2 powi (- 1074)" using assms(1) by (rule dbl_multiple)
  obtain n where n: "y = of_int n * 2 powi (- 1074)" using assms(2) by (rule dbl_multiple)
  have d: "x - y = of_int (m - n) * 2 powi (- 1074)" by (simp add: m n algebra_simps)
  have "(2 :: rat) powi (- 1022) = of_int (2 ^ 52) * 2 powi (- 1074)" using pow2_add [of 52 "- 1074"] by (simp add: power_int_def [of _ 52])
  then have "of_int (m - n) * (2 :: rat) powi (- 1074) < of_int (2 ^ 52) * 2 powi (- 1074)" using False unfolding d by simp
  then have "m - n < 2 ^ 52" unfolding mult_less_cancel_right_pos [OF pow2_pos] of_int_less_iff .
  moreover have "n < m" using assms(3) by (simp add: m n)
  ultimately have "fl_rat (x - y) = x - y" unfolding d by (intro fl_rat_exact) auto
  moreover have "(x - y) * 1 \<le> (x - y) * (1 + 2 powi (- 53))" using assms(3) by (intro mult_left_mono) simp_all
  ultimately show ?thesis by simp
qed (rule fl_rat_rel_normal)

end
