(* ===== verification/AggregateProtection.thy ===== *)
theory AggregateProtection
  imports JsMath "HOL-Library.Multiset"
begin

text \<open>
  Full-slot security stops (\<open>lib/aggregate-protection-coordination.ts\<close>).  The logical rows of one
  symbol and direction share one position at the venue; the planner groups the rows by that slot,
  elects the row that owns the slot's security stop, and computes the stop's price and the quantity
  it may close.  A number that is missing is \<open>NaN\<close>, which is what \<open>Number(undefined)\<close> gives; a
  literal is the double nearest to it.
\<close>

datatype AggregateProtectionDirection = Long | Short

record AggregateProtectionCandidate =
  cid :: string
  symbol :: string
  direction :: AggregateProtectionDirection
  quantity :: jsnum
  entryPrice :: jsnum
  liquidationPrice :: jsnum
  priceTick :: jsnum
  desiredStopLoss :: jsnum
  desiredTakeProfit :: jsnum
  createdAt :: jsnum
  quantityStep :: jsnum
  hasSecurityStopOrder :: bool
  hasPendingSecurityStop :: bool

record AggregateProtectionVenuePosition =
  venue_symbol :: string
  venue_direction :: AggregateProtectionDirection
  venue_quantity :: jsnum

record security_stop =
  outerStopLossPrice :: jsnum
  maximumStopRange :: jsnum
  securityStopGap :: jsnum
  securityStopPrice :: jsnum

record AggregateProtectionPlan =
  plan_key :: string
  leaderId :: string
  memberIds :: "string list"
  staleMemberIds :: "string list"
  plan_direction :: AggregateProtectionDirection
  plan_symbol :: string
  reportedSystemQuantity :: jsnum
  systemQuantity :: jsnum
  venueQuantity :: jsnum
  rawVenueQuantity :: jsnum
  quantityTolerance :: jsnum
  ownershipMatches :: bool
  plan_stop_loss :: jsnum
  plan_take_profit :: jsnum
  plan_security :: security_stop

subsection \<open>Slots and leaders\<close>

fun direction_text :: "AggregateProtectionDirection \<Rightarrow> string" where
  "direction_text Long = ''long''"
| "direction_text Short = ''short''"

definition slot_char :: "char \<Rightarrow> bool" where
  "slot_char c = (CHR ''A'' \<le> c \<and> c \<le> CHR ''Z'' \<or> is_digit c)"

definition aggregateProtectionSlot :: "string \<Rightarrow> AggregateProtectionDirection \<Rightarrow> string" where
  "aggregateProtectionSlot name dir = filter slot_char (toUpperCase name) @ ''|'' @ direction_text dir"

definition finitePositive :: "jsnum \<Rightarrow> jsnum" where
  "finitePositive v = (if js_isFinite v \<and> js_gt v (Fin 0) then v else Fin 0)"

definition leaderScore :: "AggregateProtectionCandidate \<Rightarrow> int" where
  "leaderScore c = (if hasSecurityStopOrder c then 1 else 0) + (if hasPendingSecurityStop c then 1 else 0)"

text \<open>\<open>a - b || c - d || e\<close> as a comparison: the first difference that is not zero decides.\<close>

definition leader_before :: "(string \<Rightarrow> string \<Rightarrow> int) \<Rightarrow> AggregateProtectionCandidate \<Rightarrow> AggregateProtectionCandidate \<Rightarrow> bool" where
  "leader_before lc a b =
     (let s = leaderScore b - leaderScore a; d = js_sub (finitePositive (createdAt a)) (finitePositive (createdAt b))
      in if s \<noteq> 0 then s < 0 else if truthy d then js_lt d (Fin 0) else lc (cid a) (cid b) < 0)"

definition selectLeader :: "(string \<Rightarrow> string \<Rightarrow> int) \<Rightarrow> AggregateProtectionCandidate list \<Rightarrow> AggregateProtectionCandidate" where
  "selectLeader lc cs = hd (stable_sort (leader_before lc) cs)"

subsection \<open>Prices\<close>

definition outerStopLoss :: "AggregateProtectionDirection \<Rightarrow> jsnum list \<Rightarrow> jsnum" where
  "outerStopLoss dir vs =
     (let pos = filter (\<lambda>v. js_gt (finitePositive v) (Fin 0)) vs
      in if pos = [] then Fin 0 else case dir of Long \<Rightarrow> js_min_list pos | Short \<Rightarrow> js_max_list pos)"

definition outerTakeProfit :: "AggregateProtectionDirection \<Rightarrow> jsnum list \<Rightarrow> jsnum" where
  "outerTakeProfit dir vs =
     (let pos = filter (\<lambda>v. js_gt (finitePositive v) (Fin 0)) vs
      in if pos = [] then Fin 0 else case dir of Long \<Rightarrow> js_max_list pos | Short \<Rightarrow> js_min_list pos)"

definition roundDownToTick :: "jsnum \<Rightarrow> jsnum \<Rightarrow> jsnum" where
  "roundDownToTick v tick =
     (if \<not> js_gt v (Fin 0) \<or> \<not> js_gt tick (Fin 0) then Fin 0
      else num_toPrecision 15 (js_mul (js_floor (js_div (js_add v (js_mul tick (fl (1 / 10 ^ 9)))) tick)) tick))"

definition roundUpToTick :: "jsnum \<Rightarrow> jsnum \<Rightarrow> jsnum" where
  "roundUpToTick v tick =
     (if \<not> js_gt v (Fin 0) \<or> \<not> js_gt tick (Fin 0) then Fin 0
      else num_toPrecision 15 (js_mul (js_ceil (js_div (js_sub v (js_mul tick (fl (1 / 10 ^ 9)))) tick)) tick))"

text \<open>A liquidation price counts only on the far side of the entry.\<close>

definition liquidation_of :: "AggregateProtectionDirection \<Rightarrow> AggregateProtectionCandidate \<Rightarrow> jsnum" where
  "liquidation_of dir row =
     (let liquidation = finitePositive (liquidationPrice row); entry = finitePositive (entryPrice row)
      in if \<not> js_gt liquidation (Fin 0) then Fin 0
         else if js_gt entry (Fin 0) \<and> (case dir of Long \<Rightarrow> js_ge liquidation entry | Short \<Rightarrow> js_le liquidation entry) then Fin 0
         else liquidation)"

definition securityStopForRows :: "AggregateProtectionDirection \<Rightarrow> AggregateProtectionCandidate list \<Rightarrow> security_stop" where
  "securityStopForRows dir rows =
     (let outer = outerStopLoss dir (map desiredStopLoss rows);
          ranges = map (\<lambda>row. let entry = finitePositive (entryPrice row); stop = finitePositive (desiredStopLoss row)
                     in if js_gt entry (Fin 0) \<and> js_gt stop (Fin 0) then js_abs (js_sub entry stop) else Fin 0) rows;
          maximumRange = (if ranges \<noteq> [] then js_max_list ranges else Fin 0);
          ticks = map (finitePositive \<circ> priceTick) rows
      in if \<not> js_gt outer (Fin 0) \<or> \<not> js_gt maximumRange (Fin 0) \<or> list_ex (\<lambda>tick. \<not> js_gt tick (Fin 0)) ticks
         then \<lparr>outerStopLossPrice = outer, maximumStopRange = maximumRange, securityStopGap = Fin 0, securityStopPrice = Fin 0\<rparr>
         else
           let tick = js_max_list ticks;
               gap = js_max (js_mul tick (num_of_int 2)) (js_mul maximumRange (fl (1 / 10)));
               liquidations = filter (\<lambda>v. js_gt v (Fin 0)) (map (liquidation_of dir) rows);
               price = (case dir of
                 Long \<Rightarrow>
                   (let lfloor = (if liquidations \<noteq> [] then js_add (js_max_list liquidations) (js_mul tick (num_of_int 2)) else Fin 0);
                        p0 = roundDownToTick (js_sub outer gap) tick;
                        p1 = (if js_gt lfloor (Fin 0) \<and> js_lt p0 lfloor then roundUpToTick lfloor tick else p0)
                    in if \<not> js_gt p1 (Fin 0) \<or> js_gt p1 (js_add (js_sub outer tick) (js_mul tick (fl (1 / 10 ^ 8)))) then Fin 0 else p1)
               | Short \<Rightarrow>
                   (let lceil = (if liquidations \<noteq> [] then js_sub (js_min_list liquidations) (js_mul tick (num_of_int 2)) else PInf);
                        p0 = roundUpToTick (js_add outer gap) tick;
                        p1 = (if js_isFinite lceil \<and> js_gt p0 lceil then roundDownToTick lceil tick else p0)
                    in if \<not> js_gt p1 (Fin 0) \<or> js_lt p1 (js_sub (js_add outer tick) (js_mul tick (fl (1 / 10 ^ 8)))) then Fin 0 else p1))
           in \<lparr>outerStopLossPrice = outer, maximumStopRange = maximumRange, securityStopGap = gap, securityStopPrice = price\<rparr>)"

subsection \<open>Plans\<close>

definition group_candidates :: "AggregateProtectionCandidate list \<Rightarrow> AggregateProtectionCandidate list jsmap" where
  "group_candidates cs = fold (\<lambda>c groups.
     if cid c = [] \<or> js_le (finitePositive (quantity c)) (Fin 0) then groups
     else let key = aggregateProtectionSlot (symbol c) (direction c);
              rows = (case map_of groups key of None \<Rightarrow> [] | Some rs \<Rightarrow> rs)
          in AList.update key (rows @ [c]) groups) cs []"

definition sum_quantity :: "AggregateProtectionCandidate list \<Rightarrow> jsnum" where
  "sum_quantity rows = foldl (\<lambda>s row. js_add s (finitePositive (quantity row))) (Fin 0) rows"

definition build_plan ::
  "(string \<Rightarrow> string \<Rightarrow> int) \<Rightarrow> AggregateProtectionVenuePosition jsmap \<Rightarrow> string \<Rightarrow> AggregateProtectionCandidate list \<Rightarrow>
   AggregateProtectionPlan" where
  "build_plan lc venueBySlot key rows =
     (let reported = sum_quantity rows;
          venueQty = finitePositive (case map_of venueBySlot key of None \<Rightarrow> NaN | Some v \<Rightarrow> venue_quantity v);
          tolerance = js_max_list (fl (1 / 10 ^ 10) # js_mul venueQty (fl (1 / 10 ^ 8)) #
                        map (\<lambda>row. js_div (finitePositive (quantityStep row)) (num_of_int 2)) rows);
          leader = selectLeader lc rows;
          system = sum_quantity rows;
          ownQuantityPresent = (js_gt system (Fin 0) \<and> js_gt venueQty (Fin 0) \<and> js_ge (js_add venueQty tolerance) system)
      in \<lparr>plan_key = key, leaderId = cid leader,
          memberIds = stable_sort (\<lambda>a b. code_unit_compare a b < 0) (map cid rows),
          staleMemberIds = [],
          plan_direction = direction leader, plan_symbol = symbol leader,
          reportedSystemQuantity = reported, systemQuantity = system,
          venueQuantity = (if ownQuantityPresent then system else venueQty),
          rawVenueQuantity = venueQty, quantityTolerance = tolerance, ownershipMatches = ownQuantityPresent,
          plan_stop_loss = outerStopLoss (direction leader) (map desiredStopLoss rows),
          plan_take_profit = outerTakeProfit (direction leader) (map desiredTakeProfit rows),
          plan_security = securityStopForRows (direction leader) rows\<rparr>)"

definition buildAggregateProtectionPlans ::
  "(string \<Rightarrow> string \<Rightarrow> int) \<Rightarrow> AggregateProtectionCandidate list \<Rightarrow> AggregateProtectionVenuePosition list \<Rightarrow>
   AggregateProtectionPlan list" where
  "buildAggregateProtectionPlans lc candidates venuePositions =
     (let venueBySlot = fold (\<lambda>v m. AList.update (aggregateProtectionSlot (venue_symbol v) (venue_direction v)) v m) venuePositions []
      in stable_sort (\<lambda>a b. lc (plan_key a) (plan_key b) < 0)
           (map (\<lambda>(key, rows). build_plan lc venueBySlot key rows) (group_candidates candidates)))"

subsection \<open>Rows are neither lost nor shared\<close>

lemma mset_stable_sort: "mset (stable_sort before xs) = mset xs"
proof -
  have "mset (stable_insert before x ys) = add_mset x (mset ys)" for x ys by (induction ys) auto
  then show ?thesis unfolding stable_sort_def by (induction xs) auto
qed

definition eligible :: "AggregateProtectionCandidate \<Rightarrow> bool" where
  "eligible c = (cid c \<noteq> [] \<and> js_gt (finitePositive (quantity c)) (Fin 0))"

abbreviation slot_of :: "AggregateProtectionCandidate \<Rightarrow> string" where
  "slot_of c \<equiv> aggregateProtectionSlot (symbol c) (direction c)"

lemma finitePositive_cases: "finitePositive v = Fin 0 \<or> (\<exists>x. 0 < x \<and> v = Fin x \<and> finitePositive v = Fin x)"
  by (cases v) (auto simp: finitePositive_def js_isFinite_def)

lemma not_eligible: "cid c = [] \<or> js_le (finitePositive (quantity c)) (Fin 0) \<longleftrightarrow> \<not> eligible c"
  using finitePositive_cases [of "quantity c"] by (auto simp: eligible_def)

definition put_row :: "AggregateProtectionCandidate \<Rightarrow> AggregateProtectionCandidate list jsmap \<Rightarrow> AggregateProtectionCandidate list jsmap" where
  "put_row c groups = AList.update (slot_of c) ((case map_of groups (slot_of c) of None \<Rightarrow> [] | Some rs \<Rightarrow> rs) @ [c]) groups"

lemma group_snoc: "group_candidates (cs @ [c]) = (if eligible c then put_row c (group_candidates cs) else group_candidates cs)"
  unfolding group_candidates_def not_eligible by (simp add: put_row_def Let_def)

lemma group_lookup:
  "map_of (group_candidates cs) key =
     (let rows = filter (\<lambda>c. eligible c \<and> slot_of c = key) cs in if rows = [] then None else Some rows)"
proof (induction cs rule: rev_induct)
  case Nil
  then show ?case by (simp add: group_candidates_def)
next
  case (snoc c cs)
  then show ?case by (auto simp: group_snoc put_row_def Let_def split: option.splits if_splits)
qed

lemma group_wf: "jsmap_wf (group_candidates cs)"
proof (induction cs rule: rev_induct)
  case Nil
  then show ?case by (simp add: group_candidates_def)
next
  case (snoc c cs)
  then show ?case by (simp add: group_snoc put_row_def AList.distinct_update)
qed

lemma mset_update:
  "mset (concat (map snd (AList.update k ((case map_of m k of None \<Rightarrow> [] | Some rs \<Rightarrow> rs) @ [c]) m))) =
     add_mset c (mset (concat (map snd m)))"
  by (induction m) (auto split: option.split)

lemma mset_concat_perm: "mset xs = mset ys \<Longrightarrow> mset (concat (map f xs)) = mset (concat (map f ys))"
  by (simp add: mset_concat sum_mset_sum_list [symmetric])

lemma group_mset: "mset (concat (map snd (group_candidates cs))) = mset (filter eligible cs)"
proof (induction cs rule: rev_induct)
  case Nil
  then show ?case by (simp add: group_candidates_def)
next
  case (snoc c cs)
  then show ?case by (simp add: group_snoc put_row_def mset_update)
qed

subsection \<open>The leader\<close>

text \<open>The order of \<open>selectLeader\<close> on candidates whose creation times are numbers.\<close>

definition created :: "AggregateProtectionCandidate \<Rightarrow> rat" where
  "created c = (case finitePositive (createdAt c) of Fin x \<Rightarrow> x | _ \<Rightarrow> 0)"

lemma leader_before_iff:
  assumes "is_dbl (createdAt a)" "is_dbl (createdAt b)"
  shows "leader_before lc a b \<longleftrightarrow> leaderScore b < leaderScore a \<or>
    leaderScore a = leaderScore b \<and> (created a < created b \<or> created a = created b \<and> lc (cid a) (cid b) < 0)"
proof -
  have f: "finitePositive (createdAt c) = Fin (created c) \<and> fl_rat (created c) = created c" if "is_dbl (createdAt c)" for c
    using finitePositive_cases [of "createdAt c"] that by (auto simp: created_def is_dbl_def)
  obtain x y where x: "finitePositive (createdAt a) = Fin x" "created a = x" "fl_rat x = x"
    and y: "finitePositive (createdAt b) = Fin y" "created b = y" "fl_rat y = y" using f assms by blast
  have d: "js_sub (Fin x) (Fin y) = fl (x - y)" by (simp add: js_sub_def)
  have l: "x < y \<Longrightarrow> truthy (fl (x - y)) \<and> js_lt (fl (x - y)) (Fin 0)"
    and g: "y < x \<Longrightarrow> truthy (fl (x - y)) \<and> \<not> js_lt (fl (x - y)) (Fin 0)"
    using fl_rat_diff_pos [OF y(3) x(3)] fl_rat_diff_pos [OF x(3) y(3)] fl_rat_minus [of "y - x"]
    by (auto simp: fl_def Let_def truthy_def)
  show ?thesis
    using l g unfolding leader_before_def Let_def x y d by (cases x y rule: linorder_cases) (auto simp: truthy_def)
qed

context collation
begin

lemma not_before: "\<not> lc b a < 0 \<longleftrightarrow> lc a b \<le> 0"
  using lc_sym [of b a] by linarith

lemma sort_by_key: "sorted_wrt (\<lambda>a b. lc (f a) (f b) \<le> 0) (stable_sort (\<lambda>a b. lc (f a) (f b) < 0) xs)"
proof -
  have "sorted_wrt (\<lambda>a b. \<not> lc (f b) (f a) < 0) (stable_sort (\<lambda>a b. lc (f a) (f b) < 0) xs)"
  proof (rule stable_sort_ordered [where A = UNIV])
    show "\<not> lc (f b) (f a) < 0" if "lc (f a) (f b) < 0" for a b using that lc_sym [of "f a" "f b"] by linarith
    show "\<not> lc (f c) (f a) < 0" if "\<not> lc (f b) (f a) < 0" "\<not> lc (f c) (f b) < 0" for a b c
      using that lc_trans unfolding not_before by blast
  qed simp
  then show ?thesis by (simp add: not_before)
qed

lemma leader_minimal:
  assumes "rows \<noteq> []" "\<forall>c \<in> set rows. is_dbl (createdAt c)"
  shows "selectLeader lc rows \<in> set rows \<and> (\<forall>c \<in> set rows. \<not> leader_before lc c (selectLeader lc rows))"
proof -
  let ?s = "stable_sort (leader_before lc) rows"
  have "sorted_wrt (\<lambda>a b. \<not> leader_before lc b a) ?s"
  proof (rule stable_sort_ordered [where A = "set rows"])
    show "\<not> leader_before lc b a" if "a \<in> set rows" "b \<in> set rows" "leader_before lc a b" for a b
      using that assms(2) lc_sym [of "cid a" "cid b"] lc_sym [of "cid b" "cid a"] by (auto simp: leader_before_iff)
    show "\<not> leader_before lc c a" if "a \<in> set rows" "b \<in> set rows" "c \<in> set rows" "\<not> leader_before lc b a" "\<not> leader_before lc c b" for a b c
    proof -
      have "lc (cid a) (cid c) \<le> 0" if "lc (cid a) (cid b) \<le> 0" "lc (cid b) (cid c) \<le> 0" using lc_trans that by blast
      then show ?thesis
        using that assms(2) lc_sym [of "cid b" "cid a"] lc_sym [of "cid c" "cid b"] lc_sym [of "cid c" "cid a"]
        by (auto simp: leader_before_iff not_less)
    qed
  qed simp
  moreover obtain x xs where s: "?s = x # xs" using assms(1) by (cases ?s) (auto dest: arg_cong [where f = length])
  moreover have r: "set rows = set (x # xs)" using set_stable_sort [of "leader_before lc" rows] s by simp
  moreover have "is_dbl (createdAt x)" using assms(2) r by simp
  then have "\<not> leader_before lc x x" using lc_refl by (simp add: leader_before_iff)
  ultimately have "\<forall>c \<in> set rows. \<not> leader_before lc c x" by simp
  then show ?thesis using s r by (simp add: selectLeader_def)
qed

end


text \<open>The planner neither loses nor shares a row: the plans have distinct slots in collation
  order; a plan's members are exactly the candidates with an id and a positive quantity in its slot;
  every such candidate is a member of exactly one plan; and the leader is one of the plan's rows
  that no other precedes (most security-stop markers first, then the earliest, then the id).\<close>

theorem plans_partition:
  assumes "collation lc" "\<forall>c \<in> set cs. is_dbl (createdAt c)"
    and "plans = buildAggregateProtectionPlans lc cs vs"
  shows "distinct (map plan_key plans) \<and> sorted_wrt (\<lambda>a b. lc (plan_key a) (plan_key b) \<le> 0) plans \<and>
    mset (concat (map memberIds plans)) = mset (map cid (filter eligible cs)) \<and>
    (\<forall>p \<in> set plans. \<exists>rows leader. rows = filter (\<lambda>c. eligible c \<and> slot_of c = plan_key p) cs \<and> leader \<in> set rows \<and>
       mset (memberIds p) = mset (map cid rows) \<and> leaderId p = cid leader \<and> plan_direction p = direction leader \<and>
       (\<forall>c \<in> set rows. \<not> leader_before lc c leader))"
proof -
  let ?v = "fold (\<lambda>v m. AList.update (aggregateProtectionSlot (venue_symbol v) (venue_direction v)) v m) vs []"
  let ?g = "group_candidates cs" and ?b = "\<lambda>(key, rows). build_plan lc ?v key rows"
  let ?before = "\<lambda>a b. lc (plan_key a) (plan_key b) < 0"
  have p: "plans = stable_sort ?before (map ?b ?g)" using assms(3) by (simp add: buildAggregateProtectionPlans_def)
  have keys: "map plan_key (map ?b ?g) = map fst ?g" by (auto simp: build_plan_def Let_def)
  have members: "mset (memberIds (?b kr)) = mset (map cid (snd kr))" for kr
    by (cases kr) (simp add: build_plan_def Let_def mset_stable_sort)
  have "distinct (map plan_key plans)"
    unfolding p distinct_map_stable_sort keys by (rule group_wf)
  moreover have "sorted_wrt (\<lambda>a b. lc (plan_key a) (plan_key b) \<le> 0) plans"
    unfolding p by (rule collation.sort_by_key [OF assms(1)])
  moreover have "mset (concat (map memberIds plans)) = mset (map cid (filter eligible cs))"
  proof -
    have "mset (concat (map memberIds plans)) = mset (concat (map memberIds (map ?b ?g)))"
      unfolding p by (rule mset_concat_perm) (simp add: mset_stable_sort)
    also have "mset (concat (map memberIds (map ?b g))) = mset (map cid (concat (map snd g)))" for g
      using members by (induction g) simp_all
    finally show ?thesis by (simp add: group_mset)
  qed
  moreover have "\<exists>rows leader. rows = filter (\<lambda>c. eligible c \<and> slot_of c = plan_key q) cs \<and> leader \<in> set rows \<and>
       mset (memberIds q) = mset (map cid rows) \<and> leaderId q = cid leader \<and> plan_direction q = direction leader \<and>
       (\<forall>c \<in> set rows. \<not> leader_before lc c leader)" if "q \<in> set plans" for q
  proof -
    from that obtain k rows where g: "(k, rows) \<in> set ?g" "q = build_plan lc ?v k rows" unfolding p by auto
    then have "map_of ?g k = Some rows" using group_wf by simp
    then have rows: "rows = filter (\<lambda>c. eligible c \<and> slot_of c = k) cs" "rows \<noteq> []"
      by (auto simp: group_lookup Let_def split: if_splits)
    have "selectLeader lc rows \<in> set rows \<and> (\<forall>c \<in> set rows. \<not> leader_before lc c (selectLeader lc rows))"
      using assms(2) rows by (intro collation.leader_minimal [OF assms(1)]) auto
    moreover have "plan_key q = k" "leaderId q = cid (selectLeader lc rows)" "plan_direction q = direction (selectLeader lc rows)"
      using g(2) by (simp_all add: build_plan_def Let_def)
    moreover have "mset (memberIds q) = mset (map cid rows)" using members [of "(k, rows)"] g(2) by simp
    ultimately show ?thesis using rows(1) by blast
  qed
  ultimately show ?thesis by blast
qed


subsection \<open>Only the system's own quantity\<close>

lemma js_add_ge:
  assumes "is_dbl a" "a \<noteq> NaN" "a \<noteq> NInf" "b \<noteq> NaN" "js_le (Fin 0) b"
  shows "js_le a (js_add a b) \<and> is_dbl (js_add a b) \<and> js_add a b \<noteq> NaN \<and> js_add a b \<noteq> NInf"
proof (cases "\<exists>x y. a = Fin x \<and> b = Fin y")
  case True
  then obtain x y where xy: "a = Fin x" "b = Fin y" "0 \<le> y" using assms(5) by auto
  then have le: "js_le (Fin x) (fl (x + y))" using fl_mono [of x "x + y"] assms(1) fl_dbl by simp
  then have "fl (x + y) \<noteq> NInf" by (cases "fl (x + y)") auto
  then show ?thesis using le xy by simp
next
  case False
  then have "js_add a b = PInf" using assms(2-5) by (cases a; cases b) auto
  then show ?thesis using assms(2) by (cases a) (simp_all add: is_dbl_def)
qed

lemma finitePositive_number: "is_dbl v \<Longrightarrow> is_dbl (finitePositive v)" "finitePositive v \<noteq> NaN" "js_le (Fin 0) (finitePositive v)"
  "finitePositive v \<noteq> NInf"
  using finitePositive_cases [of v] by (auto simp: is_dbl_def)

lemma fl_unit:
  assumes "0 \<le> x" "x \<le> 1"
  shows "\<exists>y. fl x = Fin y \<and> 0 \<le> y \<and> y \<le> 1"
proof -
  have "js_le (Fin 0) (fl x)" "js_le (fl x) (Fin 1)"
    using fl_mono [OF assms(1)] fl_mono [OF assms(2)] fl_of_int [of 1] by simp_all
  then show ?thesis by (cases "fl x") auto
qed

lemma sum_quantity_grows:
  assumes "\<forall>c \<in> set rows. is_dbl (quantity c)" "is_dbl s" "s \<noteq> NaN" "s \<noteq> NInf"
  shows "js_le s (foldl (\<lambda>s row. js_add s (finitePositive (quantity row))) s rows)"
  using assms
proof (induction rows arbitrary: s)
  case (Cons c rows)
  have a: "js_le s (js_add s (finitePositive (quantity c)))" "is_dbl (js_add s (finitePositive (quantity c)))"
    "js_add s (finitePositive (quantity c)) \<noteq> NaN" "js_add s (finitePositive (quantity c)) \<noteq> NInf"
    using js_add_ge [OF Cons.prems(2-4)] finitePositive_number by auto
  from Cons.IH [OF _ a(2-4)] Cons.prems(1) a(1) show ?case by (auto intro: js_le_trans)
qed simp

lemma sum_quantity_pos:
  assumes "\<forall>c \<in> set rows. is_dbl (quantity c) \<and> eligible c" "rows \<noteq> []"
  shows "js_gt (sum_quantity rows) (Fin 0)"
proof -
  obtain c rows' where r: "rows = c # rows'" using assms(2) by (cases rows) auto
  obtain x where x: "finitePositive (quantity c) = Fin x" "0 < x" "is_dbl (Fin x)"
    using assms(1) finitePositive_cases [of "quantity c"] r by (auto simp: eligible_def)
  then have "js_add (Fin 0) (finitePositive (quantity c)) = Fin x" by (simp add: fl_dbl)
  then have "js_le (Fin x) (sum_quantity rows)"
    using sum_quantity_grows [of rows' "Fin x"] assms(1) r x(3) by (simp add: sum_quantity_def)
  then show ?thesis using x(2) js_lt_le_trans [of "Fin 0" "Fin x"] by simp
qed

lemma venue_lookup:
  "map_of (fold (\<lambda>v m. AList.update (aggregateProtectionSlot (venue_symbol v) (venue_direction v)) v m) vs m) k = Some v \<Longrightarrow>
     v \<in> set vs \<or> map_of m k = Some v"
proof (induction vs arbitrary: m)
  case (Cons u vs)
  from Cons.IH [of "AList.update (aggregateProtectionSlot (venue_symbol u) (venue_direction u)) u m"] Cons.prems have "v \<in> set vs \<or> map_of (AList.update (aggregateProtectionSlot (venue_symbol u) (venue_direction u)) u m) k = Some v"
    by simp
  then show ?case by (auto split: if_splits)
qed simp

text \<open>C24. A plan never reaches beyond the system's own exposure: the quantity its stop may close
  is at most the sum of its rows and at most what the venue holds plus the rounding tolerance, and it
  is that sum itself exactly when the venue accounts for it.\<close>

theorem plan_quantity_own:
  assumes "\<forall>c \<in> set cs. is_dbl (quantity c) \<and> is_dbl (quantityStep c)" "\<forall>v \<in> set vs. is_dbl (venue_quantity v)"
    and "p \<in> set (buildAggregateProtectionPlans lc cs vs)"
  shows "js_le (venueQuantity p) (systemQuantity p) \<and>
    js_le (venueQuantity p) (js_add (rawVenueQuantity p) (quantityTolerance p)) \<and>
    (ownershipMatches p \<longrightarrow> venueQuantity p = systemQuantity p) \<and>
    (\<not> ownershipMatches p \<longrightarrow> venueQuantity p = rawVenueQuantity p)"
proof -
  let ?v = "fold (\<lambda>v m. AList.update (aggregateProtectionSlot (venue_symbol v) (venue_direction v)) v m) vs []"
  from assms(3) obtain k rows where g: "(k, rows) \<in> set (group_candidates cs)" "p = build_plan lc ?v k rows"
    by (auto simp: buildAggregateProtectionPlans_def)
  then have "map_of (group_candidates cs) k = Some rows" using group_wf by simp
  then have rows: "rows = filter (\<lambda>c. eligible c \<and> slot_of c = k) cs" "rows \<noteq> []"
    by (auto simp: group_lookup Let_def split: if_splits)
  have vq: "is_dbl (finitePositive (case map_of ?v k of None \<Rightarrow> NaN | Some v \<Rightarrow> venue_quantity v))"
    using assms(2) venue_lookup [of vs "[]" k] by (intro finitePositive_number(1)) (auto simp: is_dbl_def split: option.split)
  define q where "q = rawVenueQuantity p"
  have q: "q = finitePositive (case map_of ?v k of None \<Rightarrow> NaN | Some v \<Rightarrow> venue_quantity v)"
    using g(2) by (simp add: q_def build_plan_def Let_def)
  obtain x where x: "q = Fin x" "0 \<le> x" "is_dbl (Fin x)"
    using vq finitePositive_cases [of "case map_of ?v k of None \<Rightarrow> NaN | Some v \<Rightarrow> venue_quantity v"] unfolding q by auto
  define tol where "tol = quantityTolerance p"
  have tl: "tol = js_max_list (fl (1 / 10 ^ 10) # js_mul q (fl (1 / 10 ^ 8)) # map (\<lambda>row. js_div (finitePositive (quantityStep row)) (num_of_int 2)) rows)"
    using g(2) q by (simp add: tol_def build_plan_def Let_def)
  obtain c8 where c8: "fl (1 / 10 ^ 8) = Fin c8" using fl_unit [of "1 / 10 ^ 8"] by auto
  have "js_mul q (fl (1 / 10 ^ 8)) \<noteq> NaN" unfolding c8 x(1) by simp
  moreover have "js_div (finitePositive (quantityStep row)) (num_of_int 2) \<noteq> NaN" for row
    using finitePositive_cases [of "quantityStep row"] by auto
  moreover have "fl (1 / 10 ^ 10) \<noteq> NaN" by (rule fl_not_NaN)
  ultimately have nn: "NaN \<notin> set (fl (1 / 10 ^ 10) # js_mul q (fl (1 / 10 ^ 8)) # map (\<lambda>row. js_div (finitePositive (quantityStep row)) (num_of_int 2)) rows)"
    unfolding list.set set_map image_iff insert_iff Un_iff empty_iff by (auto simp: eq_commute [of NaN] simp del: power_divide)
  have t0: "js_le (Fin 0) tol" "tol \<noteq> NaN"
    using js_max_list_ge [OF nn, of "fl (1 / 10 ^ 10)"] fl_mono [of 0 "1 / 10 ^ 10"] js_max_list_not_NaN [OF nn]
    unfolding tl by (auto intro: js_le_trans)
  have up: "js_le q (js_add q tol)" using js_add_ge [of q tol] x t0 by simp
  have pos: "js_gt (systemQuantity p) (Fin 0)"
    using sum_quantity_pos [of rows] assms(1) rows g(2) by (simp add: build_plan_def Let_def)
  have sn: "systemQuantity p \<noteq> NaN" using pos by auto
  have own: "ownershipMatches p \<longleftrightarrow> js_gt q (Fin 0) \<and> js_ge (js_add q tol) (systemQuantity p)"
    "venueQuantity p = (if ownershipMatches p then systemQuantity p else q)"
    using g(2) pos q tol_def by (simp_all add: build_plan_def Let_def)
  have "js_le q (systemQuantity p)" if "\<not> ownershipMatches p"
  proof (cases "js_gt q (Fin 0)")
    case True
    then have "js_lt (js_add q tol) (systemQuantity p)"
      using that own(1) pos js_add_ge [of q tol] x t0 js_not_lt [of "js_add q tol" "systemQuantity p"] sn by auto
    then show ?thesis using up js_le_lt_trans js_lt_imp_le by blast
  next
    case False
    then show ?thesis using pos x by (auto dest: js_lt_imp_le)
  qed
  then show ?thesis using own up pos by (auto simp: q_def tol_def dest: js_lt_imp_le)
qed


definition sample_candidate :: "string \<Rightarrow> int \<Rightarrow> int \<Rightarrow> AggregateProtectionCandidate" where
  "sample_candidate i q t = \<lparr>cid = i, symbol = ''BTC-USDT'', direction = Long, quantity = num_of_int q, entryPrice = num_of_int 100,
     liquidationPrice = NaN, priceTick = num_of_int 1, desiredStopLoss = num_of_int 90, desiredTakeProfit = num_of_int 120,
     createdAt = num_of_int t, quantityStep = NaN, hasSecurityStopOrder = False, hasPendingSecurityStop = False\<rparr>"

theorem plans_partition_witness:
  "\<exists>plans. plans = buildAggregateProtectionPlans code_unit_compare [sample_candidate ''a'' 2 7, sample_candidate ''b'' 1 5, sample_candidate ''c'' 0 5] [] \<and>
     distinct (map plan_key plans) \<and> sorted_wrt (\<lambda>a b. code_unit_compare (plan_key a) (plan_key b) \<le> 0) plans \<and>
     mset (concat (map memberIds plans)) = {#''a'', ''b''#}"
proof -
  have d: "is_dbl (num_of_int 7)" "is_dbl (num_of_int 5)" by (rule is_dbl_int, simp)+
  have "filter eligible [sample_candidate ''a'' 2 7, sample_candidate ''b'' 1 5, sample_candidate ''c'' 0 5] =
      [sample_candidate ''a'' 2 7, sample_candidate ''b'' 1 5]"
    by (simp add: eligible_def finitePositive_def sample_candidate_def js_isFinite_def)
  then show ?thesis
    using plans_partition [of code_unit_compare "[sample_candidate ''a'' 2 7, sample_candidate ''b'' 1 5, sample_candidate ''c'' 0 5]" _ "[]"]
      code_unit.collation_axioms d by (simp add: sample_candidate_def)
qed

theorem plan_quantity_own_witness:
  "\<exists>p. p \<in> set (buildAggregateProtectionPlans code_unit_compare [sample_candidate ''a'' 2 7] []) \<and>
     js_le (venueQuantity p) (systemQuantity p) \<and>
     js_le (venueQuantity p) (js_add (rawVenueQuantity p) (quantityTolerance p)) \<and>
     (ownershipMatches p \<longrightarrow> venueQuantity p = systemQuantity p) \<and>
     (\<not> ownershipMatches p \<longrightarrow> venueQuantity p = rawVenueQuantity p)"
proof -
  have d: "is_dbl (num_of_int 2)" "is_dbl NaN" by (rule is_dbl_int, simp) (simp add: is_dbl_def)
  have "length (buildAggregateProtectionPlans code_unit_compare [sample_candidate ''a'' 2 7] []) = 1"
    by (simp add: buildAggregateProtectionPlans_def group_candidates_def finitePositive_def sample_candidate_def js_isFinite_def)
  then obtain p where "p \<in> set (buildAggregateProtectionPlans code_unit_compare [sample_candidate ''a'' 2 7] [])"
    by (cases "buildAggregateProtectionPlans code_unit_compare [sample_candidate ''a'' 2 7] []") auto
  then show ?thesis using plan_quantity_own [of "[sample_candidate ''a'' 2 7]" "[]" p] d by (auto simp: sample_candidate_def)
qed

subsection \<open>The security stop lies beyond every row's own stop\<close>

text \<open>
  The last check of the planner in doubles: one tick away from the outermost stop, less a
  hundred-millionth of a tick, is strictly beyond the stop, as long as a tick is visible at the
  stop's magnitude.
\<close>

lemma fl_sum_err:
  assumes "\<bar>y\<bar> < 2 powi (k + 1)" "\<bar>z\<bar> < 2 powi (k - 26)" "- 200 < k"
  shows "\<bar>fl_rat (fl_rat y + fl_rat z) - (y + z)\<bar> \<le> 2 powi (k - 51)"
proof -
  define U where "U = (2 :: rat) powi (k - 80)"
  have U: "0 < U" by (simp add: U_def)
  have pw: "2 powi (k - 53) = 134217728 * U" "2 powi (k - 52) = 268435456 * U" "2 powi (k - 51) = 536870912 * U"
    "2 powi (k - 26) = 18014398509481984 * U" "2 powi (k + 1) = 2417851639229258349412352 * U" "2 powi (k + 2) = 4835703278458516698824704 * U"
    unfolding U_def using pow2_add [of 27 "k - 80"] pow2_add [of 28 "k - 80"] pow2_add [of 29 "k - 80"]
      pow2_add [of 54 "k - 80"] pow2_add [of 81 "k - 80"] pow2_add [of 82 "k - 80"] by (simp_all add: add.commute)
  have ks: "k + 1 - 54 = k - 53" "k - 26 - 54 = k - 80" "k + 2 - 54 = k - 52" by simp_all
  have e1: "\<bar>fl_rat y - y\<bar> \<le> 134217728 * U" using fl_rat_err_below [OF assms(1)] assms(3) unfolding ks pw by simp
  have e2: "\<bar>fl_rat z - z\<bar> \<le> U" using fl_rat_err_below [OF assms(2)] assms(3) unfolding ks U_def by simp
  have "\<bar>fl_rat y + fl_rat z\<bar> < 2 powi (k + 2)" using e1 e2 assms(1,2) U unfolding pw abs_le_iff abs_less_iff by linarith
  from fl_rat_err_below [OF this] have "\<bar>fl_rat (fl_rat y + fl_rat z) - (fl_rat y + fl_rat z)\<bar> \<le> 268435456 * U"
    using assms(3) unfolding ks pw by simp
  then show ?thesis using e1 e2 U unfolding pw abs_le_iff by linarith
qed

lemma beyond_by_tick:
  assumes "0 < t" "t \<le> x" "x * 2 powi (- 48) \<le> t" "2 powi (- 200) \<le> x" "0 \<le> c" "c \<le> 2 powi (- 26)"
  shows "fl_rat (fl_rat (x - t) + fl_rat (t * c)) < x" "x < fl_rat (fl_rat (x + t) - fl_rat (t * c))"
proof -
  have x: "0 < x" using assms(1,2) by simp
  define k where "k = ilog2 x + 1"
  have b: "2 powi (k - 1) \<le> x" "x < 2 powi k" using ilog2_bounds [OF x] by (simp_all add: k_def)
  have "(2 :: rat) powi (- 200) < 2 powi k" using assms(4) b(2) by simp
  then have k: "- 200 < k" by (simp only: pow2_less)
  define W where "W = (2 :: rat) powi (k - 51)"
  have W: "0 < W" by (simp add: W_def)
  have pw: "2 powi (k - 1) = 1125899906842624 * W" "2 powi k = 2251799813685248 * W" "2 powi (k - 26) = 33554432 * W" "2 powi (k + 1) = 4503599627370496 * W"
    unfolding W_def using pow2_add [of 50 "k - 51"] pow2_add [of 51 "k - 51"] pow2_add [of 25 "k - 51"] pow2_add [of 52 "k - 51"]
    by (simp_all add: add.commute)
  have m: "(2 :: rat) powi (- 26) = 1 / 67108864" "(2 :: rat) powi (- 48) = 1 / 281474976710656" by (simp_all add: power_int_minus)
  have tc: "0 \<le> t * c" "t * c \<le> t / 67108864"
    using assms(1,5) mult_left_mono [OF assms(6), of t] unfolding m by simp_all
  have tl: "4 * W \<le> t" using assms(3) b(1) unfolding m pw by simp
  have lim: "\<bar>t * c\<bar> < 2 powi (k - 26)" "\<bar>- (t * c)\<bar> < 2 powi (k - 26)" "\<bar>x - t\<bar> < 2 powi (k + 1)" "\<bar>x + t\<bar> < 2 powi (k + 1)"
    using tc assms(1,2) b(2) W unfolding pw abs_less_iff by linarith+
  have "\<bar>fl_rat (fl_rat (x - t) + fl_rat (t * c)) - (x - t + t * c)\<bar> \<le> W"
    using fl_sum_err [OF lim(3,1) k] by (simp add: W_def)
  then show "fl_rat (fl_rat (x - t) + fl_rat (t * c)) < x" using tc tl W assms(1) unfolding abs_le_iff by linarith
  have "\<bar>fl_rat (fl_rat (x + t) - fl_rat (t * c)) - (x + t - t * c)\<bar> \<le> W"
    using fl_sum_err [OF lim(4,2) k] by (simp add: W_def fl_rat_minus)
  then show "x < fl_rat (fl_rat (x + t) - fl_rat (t * c))" using tc tl W assms(1) unfolding abs_le_iff by linarith
qed

text \<open>The guard of \<open>securityStopForRows\<close>, in both directions.\<close>

lemma small_constant: "\<exists>c. fl (1 / 10 ^ 8) = Fin c \<and> 0 \<le> c \<and> c \<le> 2 powi (- 26)"
proof -
  have "fl (2 powi (- 26)) = Fin (2 powi (- 26))"
    by (rule fl_dbl) (use fl_rat_exact [of 1 "- 26"] in \<open>simp add: is_dbl_def power_int_minus\<close>)
  moreover have "(1 :: rat) / 10 ^ 8 \<le> 2 powi (- 26)" by (simp add: power_int_minus)
  ultimately have "js_le (fl (1 / 10 ^ 8)) (Fin (2 powi (- 26)))" using fl_mono by metis
  then show ?thesis using fl_unit [of "1 / 10 ^ 8"] by auto
qed

lemma guard_bounds:
  assumes "0 < t" "t \<le> x" "x * 2 powi (- 48) \<le> t" "2 powi (- 200) \<le> x" "x \<le> 2 powi k" "0 \<le> k" "k \<le> 1000"
  shows "js_lt (js_add (js_sub (Fin x) (Fin t)) (js_mul (Fin t) (fl (1 / 10 ^ 8)))) (Fin x)"
    "js_lt (Fin x) (js_sub (js_add (Fin x) (Fin t)) (js_mul (Fin t) (fl (1 / 10 ^ 8))))"
proof -
  obtain c where c: "fl (1 / 10 ^ 8) = Fin c" "0 \<le> c" "c \<le> 2 powi (- 26)" using small_constant by blast
  have p: "(2 :: rat) powi (k + 1) = 2 * 2 powi k" "(2 :: rat) powi (k + 2) = 4 * 2 powi k"
    using pow2_add [of k 1] pow2_add [of k 2] by simp_all
  have "c \<le> 1" using c(3) by (simp add: power_int_minus)
  then have tc: "0 \<le> t * c" "t * c \<le> t" using assms(1) c(2) mult_left_mono [of c 1 t] by simp_all
  have f: "fl y = Fin (fl_rat y)" "\<bar>fl_rat y\<bar> \<le> 2 powi (k + 1)" if "\<bar>y\<bar> \<le> 2 powi (k + 1)" for y
    using fl_bounded [OF that] fl_rat_abs_le_pow2 [OF that] assms(6,7) by simp_all
  have b: "\<bar>x - t\<bar> \<le> 2 powi (k + 1)" "\<bar>x + t\<bar> \<le> 2 powi (k + 1)" "\<bar>t * c\<bar> \<le> 2 powi (k + 1)"
    using assms(1,2,5) tc unfolding p abs_le_iff by linarith+
  have g: "\<bar>fl_rat (x - t) + fl_rat (t * c)\<bar> \<le> 2 powi (k + 2)" "\<bar>fl_rat (x + t) - fl_rat (t * c)\<bar> \<le> 2 powi (k + 2)"
    using f(2) [OF b(1)] f(2) [OF b(2)] f(2) [OF b(3)] unfolding p abs_le_iff by linarith+
  have h: "fl (fl_rat (x - t) + fl_rat (t * c)) = Fin (fl_rat (fl_rat (x - t) + fl_rat (t * c)))"
    "fl (fl_rat (x + t) - fl_rat (t * c)) = Fin (fl_rat (fl_rat (x + t) - fl_rat (t * c)))"
    using fl_bounded [OF g(1)] fl_bounded [OF g(2)] assms(6,7) by simp_all
  have s: "js_sub (Fin u) (Fin v) = fl (u - v)" for u v by (simp add: js_sub_def)
  note bt = beyond_by_tick [OF assms(1-4) c(2,3)]
  show "js_lt (js_add (js_sub (Fin x) (Fin t)) (js_mul (Fin t) (fl (1 / 10 ^ 8)))) (Fin x)"
    unfolding c(1) s js_mul.simps f(1) [OF b(1)] f(1) [OF b(3)] js_add.simps h using bt(1) by simp
  show "js_lt (Fin x) (js_sub (js_add (Fin x) (Fin t)) (js_mul (Fin t) (fl (1 / 10 ^ 8))))"
    unfolding c(1) js_mul.simps js_add.simps f(1) [OF b(2)] f(1) [OF b(3)] s h using bt(2) by simp
qed

lemma finitePositive_Fin: "0 < x \<Longrightarrow> finitePositive (Fin x) = Fin x"
  by (simp add: finitePositive_def js_isFinite_def)

lemma outer_stop_attained:
  assumes "\<And>row. row \<in> set rows \<Longrightarrow> desiredStopLoss row = Fin (st row) \<and> 0 < st row" "rows \<noteq> []"
  shows "\<exists>ro \<in> set rows. outerStopLoss Long (map desiredStopLoss rows) = Fin (st ro) \<and> (\<forall>row \<in> set rows. st ro \<le> st row)"
    "\<exists>ro \<in> set rows. outerStopLoss Short (map desiredStopLoss rows) = Fin (st ro) \<and> (\<forall>row \<in> set rows. st row \<le> st ro)"
proof -
  have stops: "filter (\<lambda>v. js_gt (finitePositive v) (Fin 0)) (map desiredStopLoss rows) = map Fin (map st rows)"
    using assms(1) finitePositive_Fin by (auto simp: filter_map o_def filter_id_conv)
  show "\<exists>ro \<in> set rows. outerStopLoss Long (map desiredStopLoss rows) = Fin (st ro) \<and> (\<forall>row \<in> set rows. st ro \<le> st row)"
    using Min_attained [OF assms(2), of st] assms(2) js_min_list_Fin [of "map st rows"] unfolding outerStopLoss_def Let_def stops
    by auto
  show "\<exists>ro \<in> set rows. outerStopLoss Short (map desiredStopLoss rows) = Fin (st ro) \<and> (\<forall>row \<in> set rows. st row \<le> st ro)"
    using Max_attained [OF assms(2), of st] assms(2) js_max_list_Fin [of "map st rows"] unfolding outerStopLoss_def Let_def stops
    by auto
qed

text \<open>What the last test of \<open>securityStopForRows\<close> lets through, with the outer stop and the tick as numbers.\<close>

lemma long_price_below:
  assumes "price = securityStopPrice (securityStopForRows Long rows)" "price \<noteq> Fin 0"
    and "outerStopLoss Long (map desiredStopLoss rows) = Fin x" "js_max_list (map (finitePositive \<circ> priceTick) rows) = Fin t"
    and "js_lt (js_add (js_sub (Fin x) (Fin t)) (js_mul (Fin t) (fl (1 / 10 ^ 8)))) (Fin x)"
  shows "js_gt price (Fin 0) \<and> js_lt price (Fin x)"
proof -
  define bound where "bound = js_add (js_sub (Fin x) (Fin t)) (js_mul (Fin t) (fl (1 / 10 ^ 8)))"
  have g: "js_lt bound (Fin x)" using assms(5) by (simp add: bound_def)
  have c: "js_gt price (Fin 0) \<and> \<not> js_gt price bound"
    using assms(1,2) unfolding securityStopForRows_def Let_def assms(3,4) bound_def [symmetric] by (auto split: if_splits)
  then show ?thesis
    using js_not_lt [of bound price] g by (cases "price = NaN"; cases "bound = NaN") (auto intro: js_le_lt_trans)
qed

lemma short_price_above:
  assumes "price = securityStopPrice (securityStopForRows Short rows)" "price \<noteq> Fin 0"
    and "outerStopLoss Short (map desiredStopLoss rows) = Fin x" "js_max_list (map (finitePositive \<circ> priceTick) rows) = Fin t"
    and "js_lt (Fin x) (js_sub (js_add (Fin x) (Fin t)) (js_mul (Fin t) (fl (1 / 10 ^ 8))))"
  shows "js_gt price (Fin 0) \<and> js_lt (Fin x) price"
proof -
  define bound where "bound = js_sub (js_add (Fin x) (Fin t)) (js_mul (Fin t) (fl (1 / 10 ^ 8)))"
  have g: "js_lt (Fin x) bound" using assms(5) by (simp add: bound_def)
  have c: "js_gt price (Fin 0) \<and> \<not> js_lt price bound"
    using assms(1,2) unfolding securityStopForRows_def Let_def assms(3,4) bound_def [symmetric] by (auto split: if_splits)
  then show ?thesis
    using js_not_lt [of price bound] g by (cases "price = NaN"; cases "bound = NaN") (auto intro: js_lt_le_trans)
qed

lemma stop_scale:
  fixes rows :: "AggregateProtectionCandidate list"
  assumes "\<forall>row \<in> set rows. \<forall>row' \<in> set rows. \<exists>s t. desiredStopLoss row = Fin s \<and> priceTick row' = Fin t \<and>
       2 powi (- 200) \<le> s \<and> s \<le> 2 powi 200 \<and> s * 2 powi (- 48) \<le> t \<and> t \<le> s"
  obtains st tk where "\<And>row. row \<in> set rows \<Longrightarrow> desiredStopLoss row = Fin (st row) \<and> 0 < st row"
    "\<And>row. row \<in> set rows \<Longrightarrow> priceTick row = Fin (tk row) \<and> 0 < tk row"
    "\<And>row row'. row \<in> set rows \<Longrightarrow> row' \<in> set rows \<Longrightarrow>
       tk row' \<le> st row \<and> st row * 2 powi (- 48) \<le> tk row' \<and> 2 powi (- 200) \<le> st row \<and> st row \<le> 2 powi 200"
proof -
  define st where "st row = (case desiredStopLoss row of Fin s \<Rightarrow> s | _ \<Rightarrow> 0)" for row :: AggregateProtectionCandidate
  define tk where "tk row = (case priceTick row of Fin s \<Rightarrow> s | _ \<Rightarrow> 0)" for row :: AggregateProtectionCandidate
  define lo where "lo = (2 :: rat) powi (- 200)"
  define hi where "hi = (2 :: rat) powi 200"
  define e where "e = (2 :: rat) powi (- 48)"
  have le: "0 < lo" "0 < e" by (simp_all only: lo_def e_def pow2_pos)
  have w: "(desiredStopLoss row = Fin (st row) \<and> 0 < st row) \<and> (priceTick row' = Fin (tk row') \<and> 0 < tk row') \<and>
      tk row' \<le> st row \<and> st row * e \<le> tk row' \<and> lo \<le> st row \<and> st row \<le> hi"
    if r: "row \<in> set rows" "row' \<in> set rows" for row row'
  proof -
    obtain s t where st: "desiredStopLoss row = Fin s" "priceTick row' = Fin t" "lo \<le> s" "s \<le> hi" "s * e \<le> t" "t \<le> s"
      using assms r unfolding lo_def [symmetric] hi_def [symmetric] e_def [symmetric] by blast
    have eq: "st row = s" "tk row' = t" using st(1,2) by (simp_all only: st_def tk_def jsnum.case)
    have s: "0 < s" using st(3) le(1) by (rule order.strict_trans2 [rotated])
    have "0 < s * e" using s le(2) by (rule mult_pos_pos)
    then have "0 < t" using st(5) by (rule order.strict_trans2)
    then show ?thesis unfolding eq using st s by simp
  qed
  show thesis by (rule that [of st tk]) (use w in \<open>unfold lo_def hi_def e_def, blast+\<close>)
qed

text \<open>C17. The security stop is a backstop: when the planner sets one, its price is positive and
  lies strictly beyond every row's own stop, below all of them for a long slot and above all of them
  for a short one, so that it never closes a row before the row's own stop does.\<close>

theorem security_stop_beyond:
  assumes "\<forall>row \<in> set rows. \<forall>row' \<in> set rows. \<exists>s t. desiredStopLoss row = Fin s \<and> priceTick row' = Fin t \<and>
       2 powi (- 200) \<le> s \<and> s \<le> 2 powi 200 \<and> s * 2 powi (- 48) \<le> t \<and> t \<le> s"
    and "price = securityStopPrice (securityStopForRows dir rows)" "price \<noteq> Fin 0"
  shows "js_gt price (Fin 0) \<and> (\<forall>row \<in> set rows.
    case dir of Long \<Rightarrow> js_lt price (desiredStopLoss row) | Short \<Rightarrow> js_lt (desiredStopLoss row) price)"
proof -
  obtain st tk where v: "\<And>row. row \<in> set rows \<Longrightarrow> desiredStopLoss row = Fin (st row) \<and> 0 < st row"
    and k: "\<And>row. row \<in> set rows \<Longrightarrow> priceTick row = Fin (tk row) \<and> 0 < tk row"
    and w: "\<And>row row'. row \<in> set rows \<Longrightarrow> row' \<in> set rows \<Longrightarrow>
      tk row' \<le> st row \<and> st row * 2 powi (- 48) \<le> tk row' \<and> 2 powi (- 200) \<le> st row \<and> st row \<le> 2 powi 200"
    using stop_scale [OF assms(1)] by metis
  have ne: "rows \<noteq> []" using assms(2,3) by (auto simp: securityStopForRows_def outerStopLoss_def Let_def)
  have ticks: "map (finitePositive \<circ> priceTick) rows = map Fin (map tk rows)" using k finitePositive_Fin by auto
  obtain rt where rt: "rt \<in> set rows" "js_max_list (map (finitePositive \<circ> priceTick) rows) = Fin (tk rt)"
    using Max_attained [OF ne, of tk] ne js_max_list_Fin [of "map tk rows"] unfolding ticks by auto
  have g: "0 < tk rt" "tk rt \<le> st ro" "st ro * 2 powi (- 48) \<le> tk rt" "2 powi (- 200) \<le> st ro" "st ro \<le> 2 powi 200" if "ro \<in> set rows" for ro
    using k [OF rt(1)] w [OF that rt(1)] by blast+
  show ?thesis
  proof (cases dir)
    case Long
    obtain ro where ro: "ro \<in> set rows" "outerStopLoss Long (map desiredStopLoss rows) = Fin (st ro)" "\<forall>row \<in> set rows. st ro \<le> st row"
      using outer_stop_attained(1) [of rows st] v ne by blast
    have c: "js_gt price (Fin 0) \<and> js_lt price (Fin (st ro))"
      by (rule long_price_below [OF assms(2) [unfolded Long] assms(3) ro(2) rt(2)]) (use guard_bounds(1) [OF g [OF ro(1)]] in simp)
    then show ?thesis using ro(3) v Long js_lt_le_trans [of price "Fin (st ro)"] by simp
  next
    case Short
    obtain ro where ro: "ro \<in> set rows" "outerStopLoss Short (map desiredStopLoss rows) = Fin (st ro)" "\<forall>row \<in> set rows. st row \<le> st ro"
      using outer_stop_attained(2) [of rows st] v ne by blast
    have c: "js_gt price (Fin 0) \<and> js_lt (Fin (st ro)) price"
      by (rule short_price_above [OF assms(2) [unfolded Short] assms(3) ro(2) rt(2)]) (use guard_bounds(2) [OF g [OF ro(1)]] in simp)
    then show ?thesis using ro(3) v Short js_le_lt_trans [of _ "Fin (st ro)" price] by simp
  qed
qed

lemma fl_sample: "fl 88 = Fin 88" "fl 90 = Fin 90" "fl 89 = Fin 89" "fl 10 = Fin 10" "fl 2 = Fin 2"
  using fl_of_int [of 88] fl_of_int [of 90] fl_of_int [of 89] fl_of_int [of 10] fl_of_int [of 2] by simp_all

lemma toPrecision_88: "num_toPrecision 15 (Fin 88) = Fin 88"
proof -
  have "(2 :: rat) powi 6 < 2 powi (ilog2 88 + 1)" using ilog2_bounds(2) [of 88] by simp
  then have "5 < ilog2 88" by (simp only: pow2_less)
  moreover have "ilog2 88 < 7" by (rule ilog2_less) simp_all
  ultimately have "ilog2 88 = 6" by simp
  then have "dec_exp 88 = 2" by (simp add: dec_exp_def)
  moreover have "\<lfloor>1760000000000001 / 2 :: rat\<rfloor> = 880000000000000" by (simp add: floor_eq_iff)
  ultimately show ?thesis by (simp add: power_int_minus fl_sample)
qed

lemma sample_security_stop: "securityStopPrice (securityStopForRows Long [sample_candidate ''a'' 2 7]) = Fin 88"
proof -
  have dbl: "is_dbl (Fin 0)" "is_dbl (Fin 1)" "is_dbl (Fin 2)" "is_dbl (Fin 88)" "is_dbl (Fin 89)"  "is_dbl (Fin 90)"
    using is_dbl_int [of 0] is_dbl_int [of 1] is_dbl_int [of 2] is_dbl_int [of 88] is_dbl_int [of 89] is_dbl_int [of 90] by simp_all
  have part: "is_dbl (Fin (177 / 2))" "is_dbl (Fin (1 / 8))"
    using fl_rat_exact [of 177 "- 1"] fl_rat_exact [of 1 "- 3"] by (simp_all add: is_dbl_def power_int_minus)
  obtain c where c: "fl (1 / 10) = Fin c" "0 \<le> c" "c \<le> 1 / 8" using fl_between [OF dbl(1) part(2), of "1 / 10"] by auto
  obtain g where g: "fl (10 * c) = Fin g" "0 \<le> g" "g \<le> 2" using fl_between [OF dbl(1) dbl(3), of "10 * c"] c by auto
  obtain d where d: "fl (1 / 10 ^ 9) = Fin d" "0 \<le> d" "d \<le> 1 / 8" "fl d = Fin d"
    using fl_between [OF dbl(1) part(2), of "1 / 10 ^ 9"] by auto
  obtain h where h: "fl (1 / 10 ^ 8) = Fin h" "0 \<le> h" "h \<le> 1 / 8" "fl h = Fin h"
    using fl_between [OF dbl(1) part(2), of "1 / 10 ^ 8"] by auto
  obtain y where y: "fl (88 + d) = Fin y" "88 \<le> y" "y \<le> 177 / 2" "fl y = Fin y"
    using fl_between [OF dbl(4) part(1), of "88 + d"] d by auto
  obtain z where z: "fl (89 + h) = Fin z" "89 \<le> z" using fl_between [OF dbl(5,6), of "89 + h"] h by auto
  have "\<lfloor>y\<rfloor> = 88" using y(2,3) by (simp add: floor_eq_iff)
  then have r: "roundDownToTick (Fin 88) (Fin 1) = Fin 88"
    using d y by (simp add: roundDownToTick_def fl_sample toPrecision_88 del: num_toPrecision.simps)
  have o: "outerStopLoss Long [Fin 90] = Fin 90" by (simp add: outerStopLoss_def finitePositive_def js_isFinite_def js_min_list_def js_min_def)
  show ?thesis
    unfolding securityStopForRows_def Let_def sample_candidate_def
    using r o c g h z
    by (simp add: finitePositive_def js_isFinite_def js_max_list_def js_max_def js_sub_def fl_sample liquidation_of_def)
qed

theorem security_stop_beyond_witness:
  "js_lt (securityStopPrice (securityStopForRows Long [sample_candidate ''a'' 2 7])) (desiredStopLoss (sample_candidate ''a'' 2 7))"
proof -
  have e: "(2 :: rat) powi (- 200) \<le> 1" "(90 :: rat) \<le> 2 powi 200" "(2 :: rat) powi (- 48) * 90 \<le> 1"
    using pow2_mono [of "- 200" 0] pow2_mono [of 7 200] pow2_mono [of "- 48" "- 7"] by (simp_all add: power_int_minus)
  have "\<forall>row \<in> set [sample_candidate ''a'' 2 7]. \<forall>row' \<in> set [sample_candidate ''a'' 2 7].
      \<exists>s t. desiredStopLoss row = Fin s \<and> priceTick row' = Fin t \<and>
       2 powi (- 200) \<le> s \<and> s \<le> 2 powi 200 \<and> s * 2 powi (- 48) \<le> t \<and> t \<le> s"
    using e by (simp add: sample_candidate_def)
  from security_stop_beyond [OF this refl, of Long] show ?thesis unfolding sample_security_stop by simp
qed

end
