(* ===== verification/SignalTrailing.thy ===== *)
theory SignalTrailing
  imports JsMath JsJson "HOL-Library.Word"
begin

text \<open>
  Trailing stops of Signal positions (\<open>lib/signal-trailing.ts\<close>): the profile built from percent
  settings, one trailing tick, and the identity of a position's execution slot with its 32-bit hash.
  A number that may be absent is an option, \<open>Number(undefined)\<close> being NaN; a literal is the double
  nearest to it.
\<close>

unbundle bit_operations_syntax

subsection \<open>Profiles\<close>

definition SIGNAL_TRAILING_MIN_STOP_PCT_FLOOR :: jsnum where
  "SIGNAL_TRAILING_MIN_STOP_PCT_FLOOR = fl (8 / 10)"

definition SIGNAL_TRAILING_DEFAULT_MIN_STOP_PCT :: jsnum where
  "SIGNAL_TRAILING_DEFAULT_MIN_STOP_PCT = fl (8 / 10)"

definition SIGNAL_TRAILING_DEFAULT_POSITIVE_MOVE_RATIO :: jsnum where
  "SIGNAL_TRAILING_DEFAULT_POSITIVE_MOVE_RATIO = fl (4 / 10)"

definition SIGNAL_TRAILING_DEFAULT_UPDATE_STOP_RANGE_RATIO :: jsnum where
  "SIGNAL_TRAILING_DEFAULT_UPDATE_STOP_RANGE_RATIO = fl (1 / 2)"

datatype trailing_mode = Fixed | Signal_dynamic

record TrailingProfile =
  startRatio :: jsnum
  stopRatio :: jsnum
  stepRatio :: jsnum
  trailing_mode :: "trailing_mode option"
  minStopRatio :: "jsnum option"
  positiveMoveRatio :: "jsnum option"
  updateStopRangeRatio :: "jsnum option"

record SignalTrailingSettings =
  trailingStartPct :: jsnum
  trailingMinStopPct :: jsnum
  trailingPositiveMoveRatio :: jsnum
  trailingUpdateStopRangeRatio :: jsnum
  minTrailingStopDistancePct :: "jsnum option"

definition buildSignalTrailingProfile :: "SignalTrailingSettings \<Rightarrow> TrailingProfile" where
  "buildSignalTrailingProfile s =
     (let start = js_div (js_max (Fin 0) (num_or (trailingStartPct s) (Fin 0))) (num_of_int 100);
          minStop = js_div (js_max (js_max SIGNAL_TRAILING_MIN_STOP_PCT_FLOOR
                               (num_or (opt_num (minTrailingStopDistancePct s)) (Fin 0)))
                               (num_or (trailingMinStopPct s) SIGNAL_TRAILING_DEFAULT_MIN_STOP_PCT)) (num_of_int 100);
          move = js_max (fl (5 / 100)) (js_min (Fin 1) (num_or (trailingPositiveMoveRatio s) SIGNAL_TRAILING_DEFAULT_POSITIVE_MOVE_RATIO));
          upd = js_max (fl (1 / 10)) (js_min (Fin 1) (num_or (trailingUpdateStopRangeRatio s) SIGNAL_TRAILING_DEFAULT_UPDATE_STOP_RANGE_RATIO))
      in \<lparr>startRatio = start, stopRatio = minStop, stepRatio = js_mul minStop upd, trailing_mode = Some Signal_dynamic,
          minStopRatio = Some minStop, positiveMoveRatio = Some move, updateStopRangeRatio = Some upd\<rparr>)"

definition isSignalDynamicTrailingProfile :: "TrailingProfile option \<Rightarrow> bool" where
  "isSignalDynamicTrailingProfile p = (case p of None \<Rightarrow> False | Some q \<Rightarrow> trailing_mode q = Some Signal_dynamic)"

subsection \<open>Execution slots\<close>

record SignalExecutionSlotInput =
  executionLane :: js_value
  indicationType :: js_value
  trailingProfile :: "TrailingProfile option"
  setKey :: js_value
  parentSetKey :: js_value
  signalRisk :: js_value

datatype SignalExecutionLane = Default_lane | Signal_trailing_lane

fun lane_text :: "SignalExecutionLane \<Rightarrow> string" where
  "lane_text Default_lane = ''default''"
| "lane_text Signal_trailing_lane = ''signal_trailing''"

definition resolveSignalExecutionLane :: "SignalExecutionSlotInput \<Rightarrow> SignalExecutionLane" where
  "resolveSignalExecutionLane position =
     (if executionLane position = VStr ''signal_trailing'' then Signal_trailing_lane
      else if toLowerCase (js_String (js_or (indicationType position) (VStr []))) = ''signal'' \<and>
              isSignalDynamicTrailingProfile (trailingProfile position)
      then Signal_trailing_lane else Default_lane)"

text \<open>\<open>n.toString(36)\<close> of a natural number.\<close>

definition radix36_char :: "nat \<Rightarrow> char" where
  "radix36_char d = (if d < 10 then char_of (48 + d) else char_of (87 + d))"

fun radix36 :: "nat \<Rightarrow> string" where
  "radix36 n = (if n < 36 then [radix36_char n] else radix36 (n div 36) @ [radix36_char (n mod 36)])"

declare radix36.simps [simp del]

definition padStart :: "nat \<Rightarrow> char \<Rightarrow> string \<Rightarrow> string" where
  "padStart w c s = replicate (w - length s) c @ s"

text \<open>
  The hash is FNV-1a on 32 bits: \<open>^=\<close> and \<open>Math.imul\<close> work on 32-bit integers and \<open>>>> 0\<close> reads the
  result as an unsigned one, so the word carries the same bits at every step.
\<close>

definition stable_hash :: "string \<Rightarrow> 32 word" where
  "stable_hash s = foldl (\<lambda>hash c. (hash XOR of_nat (of_char c)) * 0x01000193) 0x811C9DC5 s"

definition stableSlotHash :: "string \<Rightarrow> string" where
  "stableSlotHash s = padStart 7 CHR ''0'' (radix36 (unat (stable_hash s)))"

definition slot_part_char :: "char \<Rightarrow> bool" where
  "slot_part_char c = (CHR ''a'' \<le> c \<and> c \<le> CHR ''z'' \<or> is_digit c \<or> c = CHR ''_'' \<or> c = CHR ''-'')"

definition strip_dashes :: "string \<Rightarrow> string" where
  "strip_dashes s = rev (dropWhile (\<lambda>c. c = CHR ''-'') (rev (dropWhile (\<lambda>c. c = CHR ''-'') s)))"

definition executionSlotPart :: "js_value \<Rightarrow> string \<Rightarrow> string" where
  "executionSlotPart v fallback =
     (let raw = toLowerCase (trim (js_String (js_nullish v (VStr []))))
      in if raw = [] then fallback
         else let readable = take 48 (strip_dashes (replace_runs (\<lambda>c. \<not> slot_part_char c) CHR ''-'' raw))
              in (if readable \<noteq> [] then readable else fallback) @ ''-'' @ stableSlotHash raw)"

definition risk_object :: "js_value \<Rightarrow> (string \<times> js_value) list option" where
  "risk_object v = (case v of VObj kvs \<Rightarrow> Some kvs | VArr _ \<Rightarrow> Some [] | _ \<Rightarrow> None)"

definition risk_prop :: "(string \<times> js_value) list option \<Rightarrow> string \<Rightarrow> js_value" where
  "risk_prop risk name = (case risk of None \<Rightarrow> VUndefined | Some kvs \<Rightarrow> js_prop kvs name)"

definition clean_ids :: "js_value \<Rightarrow> string list" where
  "clean_ids v = (case v of
     VArr xs \<Rightarrow> stable_sort (\<lambda>a b. code_unit_compare a b < 0) (filter (\<lambda>s. s \<noteq> []) (map (trim \<circ> js_String) xs))
   | _ \<Rightarrow> [])"

definition signal_lanes :: "js_value \<Rightarrow> (string \<times> js_value) list list" where
  "signal_lanes v = (case v of VArr xs \<Rightarrow> List.map_filter risk_object xs | _ \<Rightarrow> [])"

definition resolveSignalExecutionSlot :: "SignalExecutionSlotInput \<Rightarrow> string" where
  "resolveSignalExecutionSlot position =
     (let lane = lane_text (resolveSignalExecutionLane position);
          risk = risk_object (signalRisk position);
          itype = toLowerCase (trim (js_String (js_or (indicationType position) (VStr []))));
          isSignal = (itype = ''signal'' \<or> (itype = [] \<and> risk \<noteq> None))
      in if \<not> isSignal then lane
         else
           let lanes = signal_lanes (risk_prop risk ''signalLanes'');
               lane0 = (case lanes of [] \<Rightarrow> None | l # _ \<Rightarrow> Some l);
               sourceIds = clean_ids (risk_prop risk ''sourceIds'');
               configIds = clean_ids (risk_prop risk ''configIds'');
               sourceId = js_nullish (risk_prop risk ''sourceId'') (js_nullish (risk_prop lane0 ''sourceId'')
                            (VStr (if sourceIds \<noteq> [] then join_with ''+'' sourceIds else ''source'')));
               configId = js_nullish (risk_prop risk ''configId'') (js_nullish (risk_prop lane0 ''configId'')
                            (if configIds \<noteq> [] then VStr (join_with ''+'' configIds)
                             else js_or (js_or (parentSetKey position) (setKey position)) (VStr ''dynamic'')))
           in join_with '':'' [''signal'', lane, executionSlotPart sourceId ''source'', executionSlotPart configId ''dynamic''])"

subsection \<open>One tick\<close>

datatype side = Long_side | Short_side

record trailing_state =
  active :: bool
  anchor :: jsnum
  stopPrice :: jsnum
  stopRangeRatio :: "jsnum option"

record SignalTrailingTickResult =
  changed :: bool
  res_active :: bool
  res_anchor :: jsnum
  res_stopPrice :: jsnum
  res_stopRangeRatio :: jsnum
  favorableMoveRatio :: jsnum

definition calculateSignalTrailingTick ::
  "jsnum \<Rightarrow> jsnum \<Rightarrow> side \<Rightarrow> TrailingProfile \<Rightarrow> trailing_state \<Rightarrow> SignalTrailingTickResult" where
  "calculateSignalTrailingTick entryPrice currentPrice sd profile st =
     (let minStop = js_max (js_div SIGNAL_TRAILING_MIN_STOP_PCT_FLOOR (num_of_int 100))
            (num_or (case minStopRatio profile of Some m \<Rightarrow> m | None \<Rightarrow> stopRatio profile) (Fin 0));
          move = js_max (fl (5 / 100)) (js_min (Fin 1) (num_or (opt_num (positiveMoveRatio profile)) (fl (4 / 10))));
          updateRatio = js_max (fl (1 / 10)) (js_min (Fin 1) (num_or (opt_num (updateStopRangeRatio profile)) (fl (1 / 2))));
          start = js_max (Fin 0) (num_or (startRatio profile) (Fin 0));
          favorable = (if js_gt entryPrice (Fin 0) \<and> js_gt currentPrice (Fin 0)
                       then js_max (Fin 0) (case sd of
                              Long_side \<Rightarrow> js_div (js_sub currentPrice entryPrice) entryPrice
                            | Short_side \<Rightarrow> js_div (js_sub entryPrice currentPrice) entryPrice)
                       else Fin 0);
          currentRange = js_max minStop (num_or (opt_num (stopRangeRatio st)) minStop);
          unchanged = \<lparr>changed = False, res_active = active st, res_anchor = anchor st, res_stopPrice = stopPrice st,
                       res_stopRangeRatio = currentRange, favorableMoveRatio = favorable\<rparr>;
          threshold = js_mul (js_mul (anchor st) currentRange) updateRatio;
          advanced = (case sd of Long_side \<Rightarrow> js_ge currentPrice (js_add (anchor st) threshold)
                                | Short_side \<Rightarrow> js_le currentPrice (js_sub (anchor st) threshold));
          nextRange = js_max minStop (js_mul favorable move);
          candidateStop = (case sd of Long_side \<Rightarrow> js_mul currentPrice (js_sub (Fin 1) nextRange)
                                     | Short_side \<Rightarrow> js_mul currentPrice (js_add (Fin 1) nextRange));
          monotonicStop = (if js_gt (stopPrice st) (Fin 0)
                           then case sd of Long_side \<Rightarrow> js_max (stopPrice st) candidateStop
                                         | Short_side \<Rightarrow> js_min (stopPrice st) candidateStop
                           else candidateStop)
      in if \<not> js_gt entryPrice (Fin 0) \<or> \<not> js_gt currentPrice (Fin 0) then unchanged
         else if \<not> active st \<and> js_lt favorable start then unchanged
         else if active st \<and> js_gt (anchor st) (Fin 0) \<and> \<not> advanced then unchanged
         else \<lparr>changed = (\<not> active st \<or> \<not> js_eq (anchor st) currentPrice \<or> \<not> js_eq (stopPrice st) monotonicStop \<or>
                          \<not> js_eq currentRange nextRange),
               res_active = True, res_anchor = currentPrice, res_stopPrice = monotonicStop,
               res_stopRangeRatio = nextRange, favorableMoveRatio = favorable\<rparr>)"

subsection \<open>The stop only tightens\<close>

definition stop_floor :: jsnum where
  "stop_floor = js_div SIGNAL_TRAILING_MIN_STOP_PCT_FLOOR (num_of_int 100)"

text \<open>The state fed into the next tick.\<close>

definition apply_tick :: "jsnum \<Rightarrow> side \<Rightarrow> TrailingProfile \<Rightarrow> jsnum \<Rightarrow> trailing_state \<Rightarrow> trailing_state" where
  "apply_tick entryPrice sd profile price st =
     (let r = calculateSignalTrailingTick entryPrice price sd profile st
      in \<lparr>active = res_active r, anchor = res_anchor r, stopPrice = res_stopPrice r, stopRangeRatio = Some (res_stopRangeRatio r)\<rparr>)"

text \<open>The stop a tick proposes at a price, for a range \<open>rng\<close>.\<close>

definition tick_candidate :: "side \<Rightarrow> rat \<Rightarrow> jsnum \<Rightarrow> jsnum" where
  "tick_candidate sd p rng = (case sd of Long_side \<Rightarrow> js_mul (Fin p) (js_sub (Fin 1) rng) | Short_side \<Rightarrow> js_mul (Fin p) (js_add (Fin 1) rng))"

lemma ratio_range:
  assumes "0 < a" "d \<noteq> NaN"
  shows "\<exists>m > 0. js_max (Fin a) (js_min (Fin 1) (num_or x d)) = Fin m"
  using num_or_not_NaN [OF assms(2), of x] assms(1)
  by (cases "num_or x d") (auto simp: js_max_def js_min_def)

lemma favorable_range: "x \<noteq> NaN \<Longrightarrow> 0 < m \<Longrightarrow> js_mul (js_max (Fin 0) x) (Fin m) \<noteq> NaN"
  by (cases x) (auto simp: js_max_def signed_inf_def)

lemma move_not_NaN: "0 < e \<Longrightarrow> js_div (js_sub (Fin a) (Fin b)) (Fin e) \<noteq> NaN"
  by (cases "fl (a - b)") (auto simp: js_sub_def fl_not_NaN)

lemma fl_literal:
  assumes "1 / 1024 \<le> x" "x \<le> 1"
  obtains a where "fl x = Fin a" "0 < a"
proof -
  have "is_dbl (Fin (1 / 1024))" using fl_rat_exact [of 1 "- 10"] by (simp add: is_dbl_def power_int_minus)
  moreover have "is_dbl (Fin 1)" using is_dbl_int [of 1] by simp
  ultimately show thesis using fl_between [OF _ _ assms] that by fastforce
qed

lemma tick_stop:
  assumes "r = calculateSignalTrailingTick (Fin e) (Fin p) sd profile st"
  shows "res_stopPrice r = stopPrice st \<or>
    (0 < p \<and> (\<exists>rng. js_le stop_floor rng \<and>
       res_stopPrice r = (if js_gt (stopPrice st) (Fin 0)
         then (case sd of Long_side \<Rightarrow> js_max (stopPrice st) (tick_candidate sd p rng) | Short_side \<Rightarrow> js_min (stopPrice st) (tick_candidate sd p rng))
         else tick_candidate sd p rng)))"
proof (cases "0 < e \<and> 0 < p")
  case True
  obtain a where a: "fl (5 / 100) = Fin a" "0 < a" by (rule fl_literal [of "5 / 100"]) auto
  obtain m where m: "0 < m" "js_max (Fin a) (js_min (Fin 1) (num_or (opt_num (positiveMoveRatio profile)) (fl (4 / 10)))) = Fin m"
    using ratio_range [OF a(2) fl_not_NaN] by blast
  define minStop where "minStop = js_max stop_floor
    (num_or (case minStopRatio profile of Some m \<Rightarrow> m | None \<Rightarrow> stopRatio profile) (Fin 0))"
  obtain g where g: "SIGNAL_TRAILING_MIN_STOP_PCT_FLOOR = Fin g"
    unfolding SIGNAL_TRAILING_MIN_STOP_PCT_FLOOR_def by (rule fl_literal [of "8 / 10"]) auto
  have fl: "stop_floor \<noteq> NaN" by (simp add: stop_floor_def g fl_not_NaN)
  have ms: "js_le stop_floor minStop" "minStop \<noteq> NaN"
    using js_max_ge [OF fl, of "num_or (case minStopRatio profile of Some m \<Rightarrow> m | None \<Rightarrow> stopRatio profile) (Fin 0)"] fl
    unfolding minStop_def by simp_all
  define fav where "fav = js_max (Fin 0) (case sd of
      Long_side \<Rightarrow> js_div (js_sub (Fin p) (Fin e)) (Fin e) | Short_side \<Rightarrow> js_div (js_sub (Fin e) (Fin p)) (Fin e))"
  define rng where "rng = js_max minStop (js_mul fav (Fin m))"
  have "js_mul fav (Fin m) \<noteq> NaN"
    unfolding fav_def by (rule favorable_range) (use True m(1) move_not_NaN in \<open>auto split: side.split\<close>)
  then have "js_le stop_floor rng" using js_max_ge [OF ms(2), of "js_mul fav (Fin m)"] ms(1) js_le_trans unfolding rng_def by blast
  moreover have "res_stopPrice r = stopPrice st \<or>
       res_stopPrice r = (if js_gt (stopPrice st) (Fin 0)
         then (case sd of Long_side \<Rightarrow> js_max (stopPrice st) (tick_candidate sd p rng) | Short_side \<Rightarrow> js_min (stopPrice st) (tick_candidate sd p rng))
         else tick_candidate sd p rng)"
    using True unfolding assms calculateSignalTrailingTick_def Let_def stop_floor_def [symmetric] a(1) m(2) minStop_def [symmetric] rng_def fav_def tick_candidate_def
    by (auto split: side.split)
  ultimately show ?thesis using True by blast
qed (auto simp: assms calculateSignalTrailingTick_def Let_def)

lemma candidate_floor:
  assumes "0 < p" "js_le stop_floor rng"
  shows "case sd of Long_side \<Rightarrow> js_le (tick_candidate sd p rng) (js_mul (Fin p) (js_sub (Fin 1) stop_floor))
    | Short_side \<Rightarrow> js_le (js_mul (Fin p) (js_add (Fin 1) stop_floor)) (tick_candidate sd p rng)"
  using js_mul_mono [OF assms(1) js_sub_anti [OF assms(2)]] js_mul_mono [OF assms(1) js_add_mono_left [OF assms(2)]]
  by (auto simp: tick_candidate_def split: side.split)

text \<open>At least the price's own distance on the short side, so a stop that trails downwards stays positive.\<close>

lemma short_floor_pos:
  assumes "0 < p" "is_dbl (Fin p)"
  shows "js_gt (js_mul (Fin p) (js_add (Fin 1) stop_floor)) (Fin 0)"
proof -
  obtain g where g: "SIGNAL_TRAILING_MIN_STOP_PCT_FLOOR = Fin g" "0 < g"
    unfolding SIGNAL_TRAILING_MIN_STOP_PCT_FLOOR_def by (rule fl_literal [of "8 / 10"]) auto
  have "js_le (fl 0) (fl (g / 100))" using g(2) by (intro fl_mono) simp
  then have "js_le (Fin 0) stop_floor" by (simp add: stop_floor_def g fl_not_NaN)
  then have "js_le (js_add (Fin 1) (Fin 0)) (js_add (Fin 1) stop_floor)" by (rule js_add_mono_left)
  then have "js_le (Fin 1) (js_add (Fin 1) stop_floor)" using fl_of_int [of 1] by simp
  then have "js_le (js_mul (Fin p) (Fin 1)) (js_mul (Fin p) (js_add (Fin 1) stop_floor))" by (rule js_mul_mono [OF assms(1)])
  moreover have "js_mul (Fin p) (Fin 1) = Fin p" using fl_dbl [OF assms(2)] by simp
  ultimately show ?thesis using assms(1) js_lt_le_trans [of "Fin 0" "Fin p"] by simp
qed

definition trails :: "side \<Rightarrow> jsnum list \<Rightarrow> jsnum \<Rightarrow> jsnum \<Rightarrow> bool" where
  "trails sd prices old new \<longleftrightarrow> js_gt new (Fin 0) \<and>
     (case sd of Long_side \<Rightarrow> js_le old new | Short_side \<Rightarrow> js_le new old) \<and>
     (new = old \<or> (\<exists>p \<in> set prices. case sd of
        Long_side \<Rightarrow> js_le new (js_mul p (js_sub (Fin 1) stop_floor))
      | Short_side \<Rightarrow> js_le (js_mul p (js_add (Fin 1) stop_floor)) new))"

lemma tick_trails:
  assumes "js_gt (stopPrice st) (Fin 0)" "is_dbl (Fin p)"
  shows "trails sd [Fin p] (stopPrice st) (stopPrice (apply_tick (Fin e) sd profile (Fin p) st))"
proof -
  define r where "r = calculateSignalTrailingTick (Fin e) (Fin p) sd profile st"
  have eq: "stopPrice (apply_tick (Fin e) sd profile (Fin p) st) = res_stopPrice r" by (simp add: apply_tick_def r_def Let_def)
  have s: "stopPrice st \<noteq> NaN" using assms(1) by auto
  from tick_stop [OF r_def] consider "res_stopPrice r = stopPrice st"
    | rng where "0 < p" "js_le stop_floor rng"
      "res_stopPrice r = (case sd of Long_side \<Rightarrow> js_max (stopPrice st) (tick_candidate sd p rng) | Short_side \<Rightarrow> js_min (stopPrice st) (tick_candidate sd p rng))"
    using assms by auto
  then show ?thesis
  proof cases
    case 1
    then show ?thesis unfolding eq using assms s by (auto simp: trails_def split: side.split)
  next
    case (2 rng)
    show ?thesis
    proof (cases sd)
      case Long_side
      have c: "js_le (tick_candidate sd p rng) (js_mul (Fin p) (js_sub (Fin 1) stop_floor))"
        using candidate_floor [OF 2(1,2), of sd] Long_side by simp
      have "js_le (stopPrice st) (res_stopPrice r)" using js_max_ge [OF s] js_le_not_NaN [OF c] 2(3) Long_side by simp
      moreover have "res_stopPrice r = stopPrice st \<or> res_stopPrice r = tick_candidate sd p rng"
        using 2(3) Long_side s js_le_not_NaN [OF c] by (simp add: js_max_def)
      ultimately show ?thesis unfolding eq using c assms Long_side js_lt_le_trans by (auto simp: trails_def)
    next
      case Short_side
      have c: "js_le (js_mul (Fin p) (js_add (Fin 1) stop_floor)) (tick_candidate sd p rng)"
        using candidate_floor [OF 2(1,2), of sd] Short_side by simp
      have "js_le (res_stopPrice r) (stopPrice st)" using js_min_le [OF s] js_le_not_NaN [OF c] 2(3) Short_side by simp
      moreover have "res_stopPrice r = stopPrice st \<or> res_stopPrice r = tick_candidate sd p rng"
        using 2(3) Short_side s js_le_not_NaN [OF c] by (simp add: js_min_def)
      ultimately show ?thesis unfolding eq using c assms Short_side js_lt_le_trans [OF short_floor_pos [OF 2(1) assms(2)]] by (auto simp: trails_def)
    qed
  qed
qed

lemma trails_trans:
  assumes "trails sd ps a b" "trails sd qs b c"
  shows "trails sd (ps @ qs) a c"
  using assms by (cases sd) (auto simp: trails_def intro: js_le_trans)

text \<open>C4. A trailing stop only tightens: whatever prices the ticks see, the stop of a long position
  never falls and the stop of a short one never rises, it stays positive, and every stop that was
  moved lies at least the floor of 0.8 percent away from a price of the run, rounding included.\<close>

theorem trailing_stop_ratchet:
  assumes "\<forall>p \<in> set prices. js_isFinite p \<and> is_dbl p" "js_gt (stopPrice st) (Fin 0)"
    and "stop' = stopPrice (fold (apply_tick (Fin e) sd profile) prices st)"
  shows "js_gt stop' (Fin 0) \<and>
    (case sd of Long_side \<Rightarrow> js_le (stopPrice st) stop' | Short_side \<Rightarrow> js_le stop' (stopPrice st)) \<and>
    (stop' = stopPrice st \<or> (\<exists>p \<in> set prices. case sd of
        Long_side \<Rightarrow> js_le stop' (js_mul p (js_sub (Fin 1) stop_floor))
      | Short_side \<Rightarrow> js_le (js_mul p (js_add (Fin 1) stop_floor)) stop'))"
proof -
  have "trails sd prices (stopPrice st) (stopPrice (fold (apply_tick (Fin e) sd profile) prices st))"
    using assms(1,2)
  proof (induction prices arbitrary: st)
    case Nil
    then show ?case by (auto simp: trails_def split: side.split)
  next
    case (Cons p ps)
    then obtain x where p: "p = Fin x" "is_dbl (Fin x)" by (cases p) (auto simp: js_isFinite_def)
    have t: "trails sd [p] (stopPrice st) (stopPrice (apply_tick (Fin e) sd profile p st))"
      using tick_trails [OF Cons.prems(2)] p by simp
    then have "js_gt (stopPrice (apply_tick (Fin e) sd profile p st)) (Fin 0)" by (simp add: trails_def)
    then show ?case using trails_trans [OF t Cons.IH] Cons.prems(1) by simp
  qed
  then show ?thesis unfolding assms(3) trails_def .
qed

definition sample_profile :: TrailingProfile where
  "sample_profile = \<lparr>startRatio = Fin 0, stopRatio = Fin (1 / 128), stepRatio = Fin (1 / 256), trailing_mode = Some Signal_dynamic,
     minStopRatio = None, positiveMoveRatio = None, updateStopRangeRatio = None\<rparr>"

theorem trailing_stop_ratchet_witness:
  "\<exists>stop'. stop' = stopPrice (fold (apply_tick (num_of_int 100) Long_side sample_profile) [num_of_int 120, num_of_int 90]
       \<lparr>active = False, anchor = Fin 0, stopPrice = num_of_int 95, stopRangeRatio = None\<rparr>) \<and>
     js_le (num_of_int 95) stop'"
  using trailing_stop_ratchet [of "[num_of_int 120, num_of_int 90]"
      "\<lparr>active = False, anchor = Fin 0, stopPrice = num_of_int 95, stopRangeRatio = None\<rparr>" _ "of_int 100" Long_side sample_profile, OF _ _ refl]
    is_dbl_int [of 120] is_dbl_int [of 90] by (simp add: js_isFinite_def)

subsection \<open>Execution slots have a fixed shape\<close>

definition radix36_digit :: "char \<Rightarrow> bool" where
  "radix36_digit c = (CHR ''a'' \<le> c \<and> c \<le> CHR ''z'' \<or> is_digit c)"

lemma radix36_char_digit: "d < 36 \<Longrightarrow> radix36_digit (radix36_char d)"
  by (auto simp: radix36_digit_def radix36_char_def is_digit_def Let_def less_eq_char_def)

lemma radix36_shape: "n < 36 ^ k \<Longrightarrow> 0 < k \<Longrightarrow> length (radix36 n) \<le> k \<and> (\<forall>c \<in> set (radix36 n). radix36_digit c)"
proof (induction n arbitrary: k rule: radix36.induct)
  case (1 n)
  show ?case
  proof (cases "n < 36")
    case True
    then show ?thesis using 1(3) by (subst (1 2) radix36.simps) (auto intro: radix36_char_digit)
  next
    case False
    then obtain j where j: "k = Suc j" "0 < j" using 1(2) by (cases k; cases "k - 1") auto
    then have "n div 36 < 36 ^ j" using 1(2) by (simp add: less_mult_imp_div_less mult.commute)
    then show ?thesis using 1(1) [OF False, of j] j False by (subst (1 2) radix36.simps) (auto intro: radix36_char_digit)
  qed
qed

lemma stableSlotHash_shape: "length (stableSlotHash s) = 7 \<and> (\<forall>c \<in> set (stableSlotHash s). radix36_digit c)"
proof -
  have "unat (stable_hash s) < 2 ^ 32" using unsigned_less [of "stable_hash s", where 'a = nat] by simp
  also have "(2 :: nat) ^ 32 < 36 ^ 7" by simp
  finally have "length (radix36 (unat (stable_hash s))) \<le> 7 \<and> (\<forall>c \<in> set (radix36 (unat (stable_hash s))). radix36_digit c)"
    by (intro radix36_shape) simp_all
  then show ?thesis by (auto simp: stableSlotHash_def padStart_def radix36_digit_def is_digit_def)
qed

abbreviation dash_runs :: "string \<Rightarrow> string" where
  "dash_runs \<equiv> replace_runs (\<lambda>c. \<not> slot_part_char c) CHR ''-''"

lemma collapse_chars: "c \<in> set (dash_runs s) \<Longrightarrow> slot_part_char c"
  by (drule set_replace_runs) (auto simp: slot_part_char_def)

lemma slot_part_shape:
  assumes "fallback \<noteq> []" "length fallback \<le> 48" "\<forall>c \<in> set fallback. slot_part_char c"
  shows "executionSlotPart v fallback \<noteq> [] \<and> length (executionSlotPart v fallback) \<le> 56 \<and>
    (\<forall>c \<in> set (executionSlotPart v fallback). slot_part_char c)"
proof -
  have chars: "slot_part_char c" if "c \<in> set (take 48 (strip_dashes (dash_runs s)))" for c s
    using that collapse_chars [of c s] by (auto simp: strip_dashes_def dest!: in_set_takeD set_dropWhileD)
  have body: "length r \<le> 48 \<and> r \<noteq> [] \<and> (\<forall>c \<in> set r. slot_part_char c)"
    if r: "r = (let t = take 48 (strip_dashes (dash_runs s)) in if t \<noteq> [] then t else fallback)" for r s
  proof -
    define t where "t = take 48 (strip_dashes (dash_runs s))"
    have "length t \<le> 48" by (simp add: t_def)
    moreover have "\<forall>c \<in> set t. slot_part_char c" using chars unfolding t_def by blast
    moreover have "r = (if t \<noteq> [] then t else fallback)" using r unfolding t_def [symmetric] Let_def .
    ultimately show ?thesis using assms by simp
  qed
  have "radix36_digit c \<Longrightarrow> slot_part_char c" for c by (auto simp: radix36_digit_def slot_part_char_def)
  then have tail: "length (''-'' @ stableSlotHash s) = 8 \<and> (\<forall>c \<in> set (''-'' @ stableSlotHash s). slot_part_char c)" for s
    using stableSlotHash_shape [of s] by (simp add: slot_part_char_def)
  define raw where "raw = toLowerCase (trim (js_String (js_nullish v (VStr []))))"
  define r where "r = (let t = take 48 (strip_dashes (dash_runs raw)) in if t \<noteq> [] then t else fallback)"
  have eq: "executionSlotPart v fallback = (if raw = [] then fallback else r @ ''-'' @ stableSlotHash raw)"
    unfolding executionSlotPart_def Let_def raw_def [symmetric] r_def by simp
  show ?thesis
  proof (cases "raw = []")
    case True
    then show ?thesis unfolding eq using assms by simp
  next
    case False
    then show ?thesis unfolding eq using body [OF r_def] tail [of raw] by (auto simp del: append_Cons)
  qed
qed

text \<open>The execution slot of a position is either its lane alone or the text \<open>signal:lane:source:config\<close>
  whose two last parts are non-empty, at most 56 characters long and made of lower-case letters,
  digits, dashes and underscores only, whatever text, numbers or objects the position carries; so the
  slot splits at its colons into exactly its four parts and is safe inside a Redis key.\<close>

theorem execution_slot_shape:
  "resolveSignalExecutionSlot position = lane_text (resolveSignalExecutionLane position) \<or>
   (\<exists>source config. resolveSignalExecutionSlot position =
        ''signal:'' @ lane_text (resolveSignalExecutionLane position) @ '':'' @ source @ '':'' @ config \<and>
      source \<noteq> [] \<and> config \<noteq> [] \<and> length source \<le> 56 \<and> length config \<le> 56 \<and>
      list_all slot_part_char source \<and> list_all slot_part_char config)"
proof -
  have "list_all slot_part_char ''source''" "list_all slot_part_char ''dynamic''" by code_simp+
  then have shape: "executionSlotPart v f \<noteq> [] \<and> length (executionSlotPart v f) \<le> 56 \<and> list_all slot_part_char (executionSlotPart v f)"
    if "f = ''source'' \<or> f = ''dynamic''" for v f
    using slot_part_shape [of f v] that by (auto simp: list_all_iff)
  show ?thesis unfolding resolveSignalExecutionSlot_def Let_def using shape by (auto split: if_splits)
qed

end
