(* ===== verification/ControlCapacity.thy ===== *)
theory ControlCapacity
  imports JsMath JsJson
begin

text \<open>
  The venue's limit of open protection orders (\<open>lib/control-order-capacity.ts\<close>): which order rows
  are control orders and how many distinct ones are open, the synchronous reservation budget that
  parallel workers share, and the planner that merges economically identical protection intents
  into batches and gives the free places to stop losses first.
\<close>

definition BINGX_CONTROL_ORDER_LIMIT :: jsnum where
  "BINGX_CONTROL_ORDER_LIMIT = num_of_int 200"

datatype ProtectionOrderLeg = Stop_loss | Take_profit

subsection \<open>Counting open control orders\<close>

type_synonym order_row = "(string \<times> js_value) list"

definition normalizedOrderType :: "order_row \<Rightarrow> string" where
  "normalizedOrderType order =
     replace_runs (\<lambda>c. is_space c \<or> c = CHR ''-'') CHR ''_'' (toUpperCase (trim (js_String
       (foldr (\<lambda>name v. js_nullish (js_prop order name) v)
          [''type'', ''orderType'', ''origType'', ''triggerType'', ''stopOrderType''] (VStr [])))))"

definition isBingXControlOrder :: "order_row \<Rightarrow> bool" where
  "isBingXControlOrder order =
     (let ty = normalizedOrderType order
      in js_includes ty ''STOP'' \<or> js_includes ty ''TAKE_PROFIT'' \<or> js_includes ty ''TAKEPROFIT'' \<or>
         js_includes ty ''TRIGGER'' \<or> ty = ''TP'' \<or> ty = ''SL'' \<or>
         list_ex (\<lambda>name. let n = js_to_Number (js_prop order name) in js_isFinite n \<and> js_gt n (Fin 0))
           [''stopPrice'', ''triggerPrice'', ''stopLossPrice'', ''takeProfitPrice'', ''activatePrice''])"

definition orderIdentity :: "order_row \<Rightarrow> nat \<Rightarrow> string" where
  "orderIdentity order index =
     (let ids = map (\<lambda>name. let v = js_prop order name in if v = VUndefined \<or> v = VNull then [] else trim (js_String v))
                 [''orderId'', ''orderID'', ''id'', ''ordId'']
      in case filter (\<lambda>s. s \<noteq> []) ids of
           i # _ \<Rightarrow> ''venue:'' @ i
         | [] \<Rightarrow> ''row:'' @ string_of_int (int index))"

definition countUniqueBingXControlOrders :: "order_row list \<Rightarrow> nat" where
  "countUniqueBingXControlOrders orders =
     length (fold (\<lambda>(order, index) ids. if isBingXControlOrder order then jsset_add (orderIdentity order index) ids else ids)
       (zip orders [0..<length orders]) [])"

subsection \<open>The reservation budget\<close>

record ControlOrderCapacityBudget =
  observedOpen :: jsnum
  reservations :: jsset
  releasedOrderIds :: jsset
  budget_limit :: jsnum

definition new_budget :: "jsnum \<Rightarrow> jsnum \<Rightarrow> ControlOrderCapacityBudget" where
  "new_budget observed cap =
     \<lparr>observedOpen = js_max (Fin 0) (js_min cap (js_floor (num_or observed (Fin 0)))),
      reservations = [], releasedOrderIds = [], budget_limit = cap\<rparr>"

definition reserve :: "string \<Rightarrow> ControlOrderCapacityBudget \<Rightarrow> bool \<times> ControlOrderCapacityBudget" where
  "reserve reservationId b =
     (let i = trim reservationId
      in if i = [] then (False, b)
         else if i \<in> set (reservations b) then (True, b)
         else if js_ge (js_add (observedOpen b) (num_of_int (int (length (reservations b))))) (budget_limit b) then (False, b)
         else (True, b\<lparr>reservations := jsset_add i (reservations b)\<rparr>))"

definition releaseReservation :: "string \<Rightarrow> ControlOrderCapacityBudget \<Rightarrow> ControlOrderCapacityBudget" where
  "releaseReservation reservationId b = b\<lparr>reservations := jsset_delete (trim reservationId) (reservations b)\<rparr>"

definition noteCancellation :: "js_value \<Rightarrow> ControlOrderCapacityBudget \<Rightarrow> ControlOrderCapacityBudget" where
  "noteCancellation orderId b =
     (let i = trim (js_String (js_nullish orderId (VStr [])))
      in if i = [] \<or> i \<in> set (releasedOrderIds b) then b
         else b\<lparr>releasedOrderIds := jsset_add i (releasedOrderIds b),
                observedOpen := js_max (Fin 0) (js_sub (observedOpen b) (num_of_int 1))\<rparr>)"

definition markExhausted :: "ControlOrderCapacityBudget \<Rightarrow> ControlOrderCapacityBudget" where
  "markExhausted b = b\<lparr>observedOpen := budget_limit b, reservations := []\<rparr>"

record ControlOrderCapacitySnapshot =
  snap_limit :: jsnum
  snap_observedOpen :: jsnum
  snap_reserved :: jsnum
  available :: jsnum
  exhausted :: bool

definition snapshot :: "ControlOrderCapacityBudget \<Rightarrow> ControlOrderCapacitySnapshot" where
  "snapshot b =
     (let reserved = num_of_int (int (length (reservations b)));
          free = js_max (Fin 0) (js_sub (js_sub (budget_limit b) (observedOpen b)) reserved)
      in \<lparr>snap_limit = budget_limit b, snap_observedOpen = observedOpen b, snap_reserved = reserved,
          available = free, exhausted = js_eq free (Fin 0)\<rparr>)"

subsection \<open>Batches\<close>

datatype order_direction = Long_dir | Short_dir

fun dir_text :: "order_direction \<Rightarrow> string" where
  "dir_text Long_dir = ''long''"
| "dir_text Short_dir = ''short''"

fun leg_text :: "ProtectionOrderLeg \<Rightarrow> string" where
  "leg_text Stop_loss = ''stop_loss''"
| "leg_text Take_profit = ''take_profit''"

record ProtectionOrderIntent =
  intent_connectionId :: string
  intent_symbol :: string
  intent_direction :: order_direction
  intent_leg :: ProtectionOrderLeg
  intent_triggerPrice :: jsnum
  intent_quantity :: jsnum
  intent_strategyId :: string

datatype batch_handling = Venue_control | System_close

record ProtectionOrderBatch =
  batchKey :: string
  connectionId :: string
  symbol :: string
  direction :: order_direction
  leg :: ProtectionOrderLeg
  triggerPrice :: jsnum
  quantity :: jsnum
  strategyIds :: "string list"
  sourceIntentCount :: nat
  handling :: batch_handling

definition normalizedSymbol :: "string \<Rightarrow> string" where
  "normalizedSymbol v = filter (\<lambda>c. c \<notin> {CHR ''-'', CHR ''_'', CHR ''/'', CHR '':''}) (toUpperCase (trim v))"

definition usable_intent :: "ProtectionOrderIntent \<Rightarrow> bool" where
  "usable_intent i =
     (normalizedSymbol (intent_symbol i) \<noteq> [] \<and> js_gt (intent_triggerPrice i) (Fin 0) \<and> js_gt (intent_quantity i) (Fin 0) \<and>
      trim (intent_strategyId i) \<noteq> [])"

definition intent_key :: "ProtectionOrderIntent \<Rightarrow> string" where
  "intent_key i = join_with '':'' [intent_connectionId i, normalizedSymbol (intent_symbol i), dir_text (intent_direction i),
     leg_text (intent_leg i), text_toPrecision 15 (intent_triggerPrice i)]"

definition add_intent :: "ProtectionOrderIntent \<Rightarrow> ProtectionOrderBatch jsmap \<Rightarrow> ProtectionOrderBatch jsmap" where
  "add_intent i grouped =
     (if \<not> usable_intent i then grouped
      else
        let key = intent_key i; strategyId = trim (intent_strategyId i)
        in case map_of grouped key of
             Some b \<Rightarrow> AList.update key (b\<lparr>quantity := js_add (quantity b) (intent_quantity i),
                         sourceIntentCount := Suc (sourceIntentCount b),
                         strategyIds := (if strategyId \<in> set (strategyIds b) then strategyIds b else strategyIds b @ [strategyId])\<rparr>) grouped
           | None \<Rightarrow> AList.update key \<lparr>batchKey = key, connectionId = intent_connectionId i, symbol = normalizedSymbol (intent_symbol i),
                       direction = intent_direction i, leg = intent_leg i, triggerPrice = intent_triggerPrice i,
                       quantity = intent_quantity i, strategyIds = [strategyId], sourceIntentCount = 1, handling = System_close\<rparr> grouped)"

definition batch_before :: "(string \<Rightarrow> string \<Rightarrow> int) \<Rightarrow> ProtectionOrderBatch \<Rightarrow> ProtectionOrderBatch \<Rightarrow> bool" where
  "batch_before lc l r =
     (if leg l \<noteq> leg r then leg l = Stop_loss
      else if sourceIntentCount l \<noteq> sourceIntentCount r then sourceIntentCount r < sourceIntentCount l
      else lc (batchKey l) (batchKey r) < 0)"

fun assign_capacity :: "ProtectionOrderBatch list \<Rightarrow> ControlOrderCapacityBudget \<Rightarrow> ProtectionOrderBatch list \<times> ControlOrderCapacityBudget" where
  "assign_capacity [] b = ([], b)"
| "assign_capacity (x # xs) b =
     (let (ok, b1) = reserve (batchKey x) b; (ys, b2) = assign_capacity xs b1
      in ((if ok then x\<lparr>handling := Venue_control\<rparr> else x) # ys, b2))"

record protection_plan =
  batches :: "ProtectionOrderBatch list"
  venueBatches :: "ProtectionOrderBatch list"
  systemBatches :: "ProtectionOrderBatch list"
  plan_sourceIntentCount :: nat
  combinedOrderCount :: nat
  avoidedOrderCount :: nat
  capacity :: ControlOrderCapacitySnapshot

definition planProtectionOrderBatches ::
  "(string \<Rightarrow> string \<Rightarrow> int) \<Rightarrow> ProtectionOrderIntent list \<Rightarrow> jsnum \<Rightarrow> jsnum option \<Rightarrow> protection_plan" where
  "planProtectionOrderBatches lc intents observed cap =
     (let grouped = fold add_intent intents [];
          sorted = stable_sort (batch_before lc) (map snd grouped);
          (bs, budget) = assign_capacity sorted (new_budget observed (case cap of Some n \<Rightarrow> n | None \<Rightarrow> BINGX_CONTROL_ORDER_LIMIT))
      in \<lparr>batches = bs, venueBatches = filter (\<lambda>b. handling b = Venue_control) bs,
          systemBatches = filter (\<lambda>b. handling b = System_close) bs,
          plan_sourceIntentCount = length intents, combinedOrderCount = length bs,
          avoidedOrderCount = length intents - length bs, capacity = snapshot budget\<rparr>)"

subsection \<open>The budget never overshoots\<close>

datatype budget_op = Reserve string | Release string | Cancelled js_value | Exhaust

fun budget_step :: "budget_op \<Rightarrow> ControlOrderCapacityBudget \<Rightarrow> ControlOrderCapacityBudget" where
  "budget_step (Reserve i) b = snd (reserve i b)"
| "budget_step (Release i) b = releaseReservation i b"
| "budget_step (Cancelled v) b = noteCancellation v b"
| "budget_step Exhaust b = markExhausted b"

definition budget_ok :: "int \<Rightarrow> int \<Rightarrow> ControlOrderCapacityBudget \<Rightarrow> bool" where
  "budget_ok L k b \<longleftrightarrow> budget_limit b = num_of_int L \<and> observedOpen b = num_of_int k \<and> 0 \<le> k \<and>
     k + int (length (reservations b)) \<le> L \<and> distinct (reservations b)"

lemma budget_ok_new:
  assumes "0 \<le> L"
  shows "\<exists>k. budget_ok L k (new_budget observed (num_of_int L))"
proof -
  have "\<exists>k. 0 \<le> k \<and> k \<le> L \<and> js_max (Fin 0) (js_min (num_of_int L) (js_floor (num_or observed (Fin 0)))) = num_of_int k"
  proof (cases "num_or observed (Fin 0)")
    case (Fin x)
    have "Fin (max 0 (min (of_int L) (of_int \<lfloor>x\<rfloor>))) = num_of_int (max 0 (min L \<lfloor>x\<rfloor>))" by (simp add: of_int_max of_int_min)
    then show ?thesis using assms Fin by (intro exI [of _ "max 0 (min L \<lfloor>x\<rfloor>)"]) simp
  next
    case NaN
    then show ?thesis using num_or_not_NaN [of "Fin 0" observed] by simp
  next
    case PInf
    then show ?thesis using assms by (intro exI [of _ L]) (simp add: js_min_def)
  next
    case NInf
    then show ?thesis using assms by (intro exI [of _ 0]) (simp add: js_min_def js_max_def)
  qed
  then show ?thesis by (auto simp: budget_ok_def new_budget_def)
qed

lemma count_add:
  assumes "budget_ok L k b" "L \<le> 2 ^ 50"
  shows "js_add (observedOpen b) (num_of_int (int (length (reservations b)))) = num_of_int (k + int (length (reservations b)))"
  using assms by (simp add: budget_ok_def js_add_int [of k "int (length (reservations b))", simplified])

lemma reserve_ok:
  assumes "budget_ok L k b" "L \<le> 2 ^ 50"
  shows "budget_ok L k (snd (reserve i b))"
  using assms count_add [OF assms]
  by (auto simp: reserve_def budget_ok_def Let_def length_jsset_add distinct_jsset_add)

lemma length_jsset_delete: "length (jsset_delete x s) \<le> length s"
  by (simp add: jsset_delete_def)

lemma budget_ok_step:
  assumes "budget_ok L k b" "0 \<le> L" "L \<le> 2 ^ 50"
  shows "\<exists>k'. budget_ok L k' (budget_step p b)"
proof (cases p)
  case (Reserve i)
  then show ?thesis using reserve_ok [OF assms(1,3)] by auto
next
  case (Release i)
  then show ?thesis using assms(1) length_jsset_delete [of "trim i" "reservations b"]
    by (auto simp: releaseReservation_def budget_ok_def distinct_jsset_delete)
next
  case (Cancelled v)
  have "0 \<le> k" "k \<le> 2 ^ 50" using assms by (simp_all add: budget_ok_def)
  then have "\<bar>k - 1\<bar> \<le> 2 ^ 53" by (simp add: abs_le_iff)
  then have "js_max (Fin 0) (js_sub (num_of_int k) (num_of_int 1)) = num_of_int (max 0 (k - 1))"
    by (simp only: js_sub_int js_max_Fin of_int_max of_int_0)
  then show ?thesis using Cancelled assms(1)
    by (auto simp: noteCancellation_def budget_ok_def Let_def intro: exI [of _ "max 0 (k - 1)"])
next
  case Exhaust
  then show ?thesis using assms by (auto simp: markExhausted_def budget_ok_def)
qed

text \<open>C30. The shared budget never promises more protection orders than the venue allows: from any
  observed count, after any sequence of reservations, releases, cancellations and exhaustion marks,
  the open orders it assumes and the distinct reservations it holds add up to at most the limit, and
  its snapshot reports exactly the difference as available.\<close>

theorem control_capacity_bound:
  assumes "0 \<le> L" "L \<le> 2 ^ 50" "b = fold budget_step ops (new_budget observed (num_of_int L))"
  shows "\<exists>k. 0 \<le> k \<and> snap_observedOpen (snapshot b) = num_of_int k \<and> k + int (length (reservations b)) \<le> L \<and>
    distinct (reservations b) \<and> available (snapshot b) = num_of_int (L - k - int (length (reservations b)))"
proof -
  have "\<exists>k. budget_ok L k b0 \<Longrightarrow> \<exists>k. budget_ok L k (fold budget_step ops b0)" for b0
    using budget_ok_step [OF _ assms(1,2)] by (induction ops arbitrary: b0) (simp, metis fold_simps(2))
  then obtain k where k: "budget_ok L k b" using budget_ok_new [OF assms(1)] assms(3) by blast
  have "js_sub (js_sub (num_of_int L) (num_of_int k)) (num_of_int (int (length (reservations b)))) =
      num_of_int (L - k - int (length (reservations b)))"
    using js_sub_int [of L k] js_sub_int [of "L - k" "int (length (reservations b))"] k assms(1,2) by (simp add: budget_ok_def)
  then show ?thesis using k by (auto simp: budget_ok_def snapshot_def Let_def intro!: exI [of _ k])
qed

theorem control_capacity_bound_witness:
  "\<exists>b k. b = fold budget_step [Reserve ''a'', Reserve ''b'', Cancelled (VStr ''x''), Reserve ''c''] (new_budget (num_of_int 1) (num_of_int 2)) \<and>
     0 \<le> k \<and> k + int (length (reservations b)) \<le> 2"
  using control_capacity_bound [of 2 _ "[Reserve ''a'', Reserve ''b'', Cancelled (VStr ''x''), Reserve ''c'']" "num_of_int 1", OF _ _ refl] by auto

subsection \<open>Stop losses come first\<close>

lemma trim_id:
  assumes "s \<noteq> []" "\<not> is_space (hd s)" "\<not> is_space (last s)"
  shows "trim s = s"
proof -
  have "dropWhile is_space s = s" using assms by (cases s) auto
  moreover have "dropWhile is_space (rev s) = rev s" using assms by (cases s rule: rev_cases) auto
  ultimately show ?thesis by (simp add: trim_def)
qed

lemma dec_digits_no_space: "0 \<le> n \<Longrightarrow> c \<in> set (dec_digits n) \<Longrightarrow> \<not> is_space c"
  using dec_digits_digits [of n] is_digit_not_space by blast

lemma not_space [simp]: "\<not> is_space CHR ''.''" "\<not> is_space CHR ''e''" "\<not> is_space CHR ''+''" "\<not> is_space CHR ''-''"
  "\<not> is_space CHR ''0''" "\<not> is_space CHR '':''"
  by (simp_all add: is_space_def)

lemma precision_text_shape:
  assumes "js_gt v (Fin 0)" "0 < p"
  shows "text_toPrecision p v \<noteq> [] \<and> (\<forall>c \<in> set (text_toPrecision p v). \<not> is_space c)"
proof (cases v)
  case (Fin x)
  define e0 where "e0 = dec_exp x - 1"
  define n0 where "n0 = \<lfloor>x * 10 powi (int p - 1 - e0) + 1 / 2\<rfloor>"
  define ne where "ne = (if n0 = 10 ^ p then (10 ^ (p - 1), e0 + 1) else (n0, e0))"
  obtain n e where ne2: "ne = (n, e)" by (cases ne)
  have "0 \<le> x * 10 powi (int p - 1 - e0)" using assms(1) Fin by simp
  then have "0 \<le> n0" by (simp add: n0_def)
  then have n: "0 \<le> n" using ne2 by (auto simp: ne_def split: if_splits)
  have m: "\<not> is_space c" if "c \<in> set (dec_digits n)" for c using dec_digits_no_space [OF n that] .
  have ex: "\<not> is_space c" if "c \<in> set (dec_digits \<bar>e\<bar>)" for c using dec_digits_no_space [OF _ that] by simp
  have "text_toPrecision p v = (let m = dec_digits n in if e < - 6 \<or> int p \<le> e
         then take 1 m @ (if p = 1 then [] else CHR ''.'' # drop 1 m) @ ''e'' @ (if 0 \<le> e then ''+'' else ''-'') @ dec_digits \<bar>e\<bar>
         else if e = int p - 1 then m
         else if 0 \<le> e then take (nat (e + 1)) m @ CHR ''.'' # drop (nat (e + 1)) m
         else ''0.'' @ replicate (nat (- (e + 1))) CHR ''0'' @ m)"
    using ne2 unfolding Fin text_toPrecision.simps Let_def e0_def [symmetric] n0_def [symmetric] ne_def [symmetric] by simp
  then show ?thesis using m ex by (auto simp: Let_def dest: in_set_takeD in_set_dropD)
qed (use assms(1) in \<open>auto simp: is_space_def\<close>)

lemma intent_key_shape:
  assumes "usable_intent i" "trimStart (intent_connectionId i) = intent_connectionId i"
  shows "intent_key i \<noteq> [] \<and> trim (intent_key i) = intent_key i"
proof -
  define t where "t = text_toPrecision 15 (intent_triggerPrice i)"
  have t: "t \<noteq> []" "\<not> is_space (last t)"
    using precision_text_shape [of "intent_triggerPrice i" 15] assms(1) last_in_set [of t] by (auto simp: usable_intent_def t_def)
  have k: "intent_key i = intent_connectionId i @ '':'' @ normalizedSymbol (intent_symbol i) @ '':'' @ dir_text (intent_direction i) @
      '':'' @ leg_text (intent_leg i) @ '':'' @ t"
    by (simp add: intent_key_def t_def)
  have "\<not> is_space (hd (intent_connectionId i))" if "intent_connectionId i \<noteq> []"
    using assms(2) that hd_dropWhile [of is_space "intent_connectionId i"] unfolding trimStart_def by metis
  then have "\<not> is_space (hd (intent_key i))" unfolding k by (cases "intent_connectionId i = []") auto
  moreover have "\<not> is_space (last (intent_key i))" unfolding k using t by simp
  ultimately show ?thesis using trim_id [of "intent_key i"] unfolding k by simp
qed

text \<open>The batches of a run of intents.\<close>

lemma grouped_inv:
  "jsmap_wf (fold add_intent intents []) \<and>
   (\<forall>(key, b) \<in> set (fold add_intent intents []). batchKey b = key \<and> handling b = System_close \<and>
      (\<exists>i \<in> set intents. usable_intent i \<and> key = intent_key i))"
proof (induction intents rule: rev_induct)
  case (snoc i js)
  define g where "g = fold add_intent js []"
  have IH: "jsmap_wf g" "\<And>key b. (key, b) \<in> set g \<Longrightarrow> batchKey b = key \<and> handling b = System_close \<and> (\<exists>i \<in> set js. usable_intent i \<and> key = intent_key i)"
    using snoc unfolding g_def by auto
  have "jsmap_wf (add_intent i g)" using IH(1) by (simp add: add_intent_def Let_def jsmap_wf_update split: option.split)
  moreover have "batchKey b = key \<and> handling b = System_close \<and> (\<exists>j \<in> set (js @ [i]). usable_intent j \<and> key = intent_key j)"
    if "(key, b) \<in> set (add_intent i g)" for key b
    using that IH(2) map_of_SomeD [of g "intent_key i"] set_update_wf [OF IH(1)]
    by (auto simp: add_intent_def Let_def split: if_splits option.splits)
  ultimately show ?case unfolding fold_append comp_apply fold_simps g_def [symmetric] by auto
qed simp

lemma assign_capacity_split:
  assumes "budget_ok L k b" "0 \<le> L" "L \<le> 2 ^ 50" "distinct (map batchKey xs)"
    and "\<forall>x \<in> set xs. batchKey x \<noteq> [] \<and> trim (batchKey x) = batchKey x \<and> batchKey x \<notin> set (reservations b)"
    and "n = nat (L - k - int (length (reservations b)))"
  shows "fst (assign_capacity xs b) = map (handling_update (\<lambda>_. Venue_control)) (take n xs) @ drop n xs \<and>
    observedOpen (snd (assign_capacity xs b)) = observedOpen b"
  using assms
proof (induction xs arbitrary: b n)
  case (Cons x xs)
  note c = count_add [OF Cons.prems(1,3)]
  have ok: "k + int (length (reservations b)) \<le> L" "budget_limit b = num_of_int L" using Cons.prems(1) by (simp_all add: budget_ok_def)
  have id: "batchKey x \<noteq> []" "trim (batchKey x) = batchKey x" "batchKey x \<notin> set (reservations b)" using Cons.prems(5) by auto
  show ?case
  proof (cases "k + int (length (reservations b)) = L")
    case True
    then have r: "reserve (batchKey x) b = (False, b)" using id ok c by (simp add: reserve_def)
    show ?thesis using Cons.IH [of b 0] Cons.prems True r by (auto simp: split: prod.split)
  next
    case False
    define b1 where "b1 = b\<lparr>reservations := jsset_add (batchKey x) (reservations b)\<rparr>"
    have r: "reserve (batchKey x) b = (True, b1)" using id ok c False by (simp add: reserve_def b1_def)
    then have b1: "budget_ok L k b1" using reserve_ok [OF Cons.prems(1,3), of "batchKey x"] by simp
    have l: "length (reservations b1) = Suc (length (reservations b))" using id by (simp add: b1_def length_jsset_add)
    then obtain m where m: "n = Suc m" "m = nat (L - k - int (length (reservations b1)))"
      using Cons.prems(6) False ok by (cases n) auto
    have fresh: "\<forall>y \<in> set xs. batchKey y \<noteq> batchKey x" using Cons.prems(4) by (metis distinct.simps(2) image_eqI list.simps(9) set_map)
    have "fst (assign_capacity xs b1) = map (handling_update (\<lambda>_. Venue_control)) (take m xs) @ drop m xs \<and>
        observedOpen (snd (assign_capacity xs b1)) = observedOpen b1"
      using Cons.prems by (intro Cons.IH [OF b1 _ _ _ _ m(2)]) (auto simp: b1_def fresh)
    then show ?thesis using r m by (auto simp: b1_def split: prod.split)
  qed
qed simp

context collation
begin

lemma batches_sorted: "sorted_wrt (\<lambda>a b. \<not> batch_before lc b a) (stable_sort (batch_before lc) xs)"
proof (rule stable_sort_ordered [where A = UNIV])
  show "\<not> batch_before lc b a" if "batch_before lc a b" for a b
    using that lc_sym [of "batchKey a" "batchKey b"] by (cases "leg a"; cases "leg b") (auto simp: batch_before_def split: if_splits)
  show "\<not> batch_before lc c a" if "\<not> batch_before lc b a" "\<not> batch_before lc c b" for a b c
  proof -
    have "\<not> lc (batchKey c) (batchKey a) < 0" if "\<not> lc (batchKey b) (batchKey a) < 0" "\<not> lc (batchKey c) (batchKey b) < 0"
      using that lc_sym [of "batchKey b" "batchKey a"] lc_sym [of "batchKey c" "batchKey b"] lc_sym [of "batchKey c" "batchKey a"]
        lc_trans [of "batchKey a" "batchKey b" "batchKey c"] by linarith
    then show ?thesis using that by (cases "leg a"; cases "leg b"; cases "leg c") (auto simp: batch_before_def split: if_splits)
  qed
qed simp

lemma batches_legs: "sorted_wrt (\<lambda>a b. leg a = Take_profit \<longrightarrow> leg b = Take_profit) (stable_sort (batch_before lc) xs)"
  by (rule sorted_wrt_mono_rel [OF _ batches_sorted]) (auto simp: batch_before_def split: if_splits, metis ProtectionOrderLeg.exhaust)

end

lemma map_handling_filter:
  assumes "\<forall>x \<in> set xs. handling x = System_close"
  shows "filter (\<lambda>b. handling b = Venue_control) (map (handling_update (\<lambda>_. Venue_control)) (take n xs) @ drop n xs) =
      map (handling_update (\<lambda>_. Venue_control)) (take n xs)"
    and "filter (\<lambda>b. handling b = System_close) (map (handling_update (\<lambda>_. Venue_control)) (take n xs) @ drop n xs) = drop n xs"
  using assms by (auto simp: filter_empty_conv filter_id_conv filter_map o_def dest: in_set_dropD)

text \<open>C14. The planner fills the venue's free places from the front and gives them to stop losses
  first: for connection ids without leading white space and a whole venue limit, the batches are the venue batches
  followed by the system ones, there are as many venue batches as free places allow and never more, and a take profit
  gets a place only when every stop loss has one.\<close>

theorem stop_losses_first:
  assumes "collation lc" "0 \<le> L" "L \<le> 2 ^ 50"
    and "\<forall>i \<in> set intents. trimStart (intent_connectionId i) = intent_connectionId i"
    and "plan = planProtectionOrderBatches lc intents observed (Some (num_of_int L))"
  shows "\<exists>k. 0 \<le> k \<and> k \<le> L \<and> snap_observedOpen (capacity plan) = num_of_int k \<and>
    batches plan = venueBatches plan @ systemBatches plan \<and>
    length (venueBatches plan) = min (nat (L - k)) (length (batches plan)) \<and>
    ((\<exists>b \<in> set (venueBatches plan). leg b = Take_profit) \<longrightarrow> (\<forall>b \<in> set (systemBatches plan). leg b = Take_profit))"
proof -
  define xs where "xs = stable_sort (batch_before lc) (map snd (fold add_intent intents []))"
  define b0 where "b0 = new_budget observed (num_of_int L)"
  obtain k where k: "budget_ok L k b0" using budget_ok_new [OF assms(2)] unfolding b0_def by blast
  have r: "reservations b0 = []" by (simp add: b0_def new_budget_def)
  define n where "n = nat (L - k - int (length (reservations b0)))"
  have g: "jsmap_wf (fold add_intent intents [])"
    "\<And>key b. (key, b) \<in> set (fold add_intent intents []) \<Longrightarrow> batchKey b = key \<and> handling b = System_close \<and>
      (\<exists>i \<in> set intents. usable_intent i \<and> key = intent_key i)"
    using grouped_inv [of intents] by auto
  have "map (batchKey \<circ> snd) (fold add_intent intents []) = map fst (fold add_intent intents [])"
    using g(2) by (auto intro!: map_cong)
  then have d: "distinct (map batchKey xs)" using g(1) unfolding xs_def distinct_map_stable_sort map_map by metis
  have h: "\<forall>x \<in> set xs. handling x = System_close \<and> batchKey x \<noteq> [] \<and> trim (batchKey x) = batchKey x"
    using g(2) assms(4) intent_key_shape unfolding xs_def by fastforce
  have a: "fst (assign_capacity xs b0) = map (handling_update (\<lambda>_. Venue_control)) (take n xs) @ drop n xs"
    "observedOpen (snd (assign_capacity xs b0)) = observedOpen b0"
    using assign_capacity_split [OF k assms(2,3) d _ n_def] h r by auto
  have p: "batches plan = fst (assign_capacity xs b0)" "venueBatches plan = filter (\<lambda>b. handling b = Venue_control) (batches plan)"
    "systemBatches plan = filter (\<lambda>b. handling b = System_close) (batches plan)"
    "snap_observedOpen (capacity plan) = observedOpen (snd (assign_capacity xs b0))"
    unfolding assms(5) planProtectionOrderBatches_def xs_def b0_def by (simp_all add: Let_def snapshot_def split: prod.split)
  have v: "venueBatches plan = map (handling_update (\<lambda>_. Venue_control)) (take n xs)" "systemBatches plan = drop n xs"
    unfolding p(2,3) p(1) a(1) using map_handling_filter [of xs n] h by auto
  have "sorted_wrt (\<lambda>a b. leg a = Take_profit \<longrightarrow> leg b = Take_profit) (take n xs @ drop n xs)"
    using collation.batches_legs [OF assms(1)] unfolding xs_def by simp
  then have "\<forall>c \<in> set (take n xs). \<forall>b \<in> set (drop n xs). leg c = Take_profit \<longrightarrow> leg b = Take_profit"
    unfolding sorted_wrt_append by blast
  then have "(\<exists>b \<in> set (venueBatches plan). leg b = Take_profit) \<longrightarrow> (\<forall>b \<in> set (systemBatches plan). leg b = Take_profit)"
    unfolding v by auto
  moreover have "length (venueBatches plan) = min (nat (L - k)) (length (batches plan))"
    unfolding v p(1) a(1) using r by (auto simp: n_def min_def)
  moreover have "batches plan = venueBatches plan @ systemBatches plan" unfolding v p(1) a(1) ..
  moreover have "snap_observedOpen (capacity plan) = num_of_int k" "0 \<le> k" "k \<le> L"
    using k r unfolding p(4) a(2) by (simp_all add: budget_ok_def)
  ultimately show ?thesis by blast
qed

definition sample_intent :: "string \<Rightarrow> ProtectionOrderLeg \<Rightarrow> ProtectionOrderIntent" where
  "sample_intent s l = \<lparr>intent_connectionId = ''c'', intent_symbol = ''BTC-USDT'', intent_direction = Long_dir, intent_leg = l,
     intent_triggerPrice = num_of_int 100, intent_quantity = num_of_int 1, intent_strategyId = s\<rparr>"

theorem stop_losses_first_witness:
  "\<exists>plan k. plan = planProtectionOrderBatches code_unit_compare [sample_intent ''a'' Take_profit, sample_intent ''a'' Stop_loss] (num_of_int 0) (Some (num_of_int 1)) \<and>
     batches plan = venueBatches plan @ systemBatches plan \<and> length (venueBatches plan) = min (nat (1 - k)) (length (batches plan))"
proof -
  have "\<forall>i \<in> set [sample_intent ''a'' Take_profit, sample_intent ''a'' Stop_loss]. trimStart (intent_connectionId i) = intent_connectionId i"
    by (simp add: sample_intent_def trimStart_def is_space_def)
  from stop_losses_first [OF code_unit.collation_axioms _ _ this refl, of 1 "num_of_int 0"] show ?thesis by auto
qed

subsection \<open>Grouping against a reference\<close>

text \<open>The batch of all intents with one key, read off the list of them.\<close>

definition reference_batch :: "string \<Rightarrow> ProtectionOrderIntent list \<Rightarrow> ProtectionOrderBatch" where
  "reference_batch key rows = \<lparr>batchKey = key, connectionId = intent_connectionId (hd rows), symbol = normalizedSymbol (intent_symbol (hd rows)),
     direction = intent_direction (hd rows), leg = intent_leg (hd rows), triggerPrice = intent_triggerPrice (hd rows),
     quantity = foldl js_add (intent_quantity (hd rows)) (map intent_quantity (tl rows)),
     strategyIds = fold jsset_add (map (trim \<circ> intent_strategyId) rows) [], sourceIntentCount = length rows, handling = System_close\<rparr>"

lemma reference_batch_snoc:
  "rows \<noteq> [] \<Longrightarrow> reference_batch key (rows @ [i]) =
     (let b = reference_batch key rows in b\<lparr>quantity := js_add (quantity b) (intent_quantity i), sourceIntentCount := Suc (sourceIntentCount b),
        strategyIds := jsset_add (trim (intent_strategyId i)) (strategyIds b)\<rparr>)"
  by (simp add: reference_batch_def)

lemma grouped_lookup:
  "map_of (fold add_intent intents []) key =
     (let rows = filter (\<lambda>i. usable_intent i \<and> intent_key i = key) intents in if rows = [] then None else Some (reference_batch key rows))"
proof (induction intents rule: rev_induct)
  case (snoc i js)
  show ?case
  proof (cases "usable_intent i \<and> intent_key i = key")
    case False
    then show ?thesis using snoc by (auto simp: add_intent_def Let_def split: option.split)
  next
    case True
    show ?thesis
    proof (cases "filter (\<lambda>i. usable_intent i \<and> intent_key i = key) js = []")
      case e: True
      then show ?thesis using snoc True by (simp add: add_intent_def Let_def reference_batch_def jsset_add_def)
    next
      case False
      then show ?thesis using snoc True reference_batch_snoc [OF False, of key i]
        by (simp add: add_intent_def Let_def jsset_add_def)
    qed
  qed
qed simp

lemma grouped_reference:
  "set (map snd (fold add_intent intents [])) =
     {reference_batch key (filter (\<lambda>i. usable_intent i \<and> intent_key i = key) intents) | key. key \<in> intent_key ` set (filter usable_intent intents)}"
proof -
  have wf: "jsmap_wf (fold add_intent intents [])" using grouped_inv by blast
  have "b \<in> set (map snd (fold add_intent intents [])) \<longleftrightarrow> (\<exists>key. map_of (fold add_intent intents []) key = Some b)" for b
    using wf map_of_eq_Some_iff [OF wf] by (auto simp: image_iff) force
  then have "b \<in> set (map snd (fold add_intent intents [])) \<longleftrightarrow> (\<exists>key. key \<in> intent_key ` set (filter usable_intent intents) \<and>
      b = reference_batch key (filter (\<lambda>i. usable_intent i \<and> intent_key i = key) intents))" for b
    unfolding grouped_lookup Let_def by (auto simp: filter_empty_conv image_iff)
  then show ?thesis by blast
qed

text \<open>The incremental merge equals its reference: up to their handling, the planner's batches are
  exactly the groups of the usable intents by connection, symbol, side, leg and printed trigger price,
  one batch per group, with the group's left-to-right quantity sum, its number of intents and its
  distinct strategies.\<close>

theorem batches_match_reference:
  "(handling_update (\<lambda>_. System_close)) ` set (batches (planProtectionOrderBatches lc intents observed limit)) =
     {reference_batch key (filter (\<lambda>i. usable_intent i \<and> intent_key i = key) intents) | key. key \<in> intent_key ` set (filter usable_intent intents)} \<and>
   distinct (map batchKey (batches (planProtectionOrderBatches lc intents observed limit)))"
proof -
  define xs where "xs = stable_sort (batch_before lc) (map snd (fold add_intent intents []))"
  have m: "map (handling_update (\<lambda>_. System_close)) (fst (assign_capacity ys b)) = map (handling_update (\<lambda>_. System_close)) ys \<and>
      map batchKey (fst (assign_capacity ys b)) = map batchKey ys" for ys b
    by (induction ys arbitrary: b) (auto simp: Let_def split: prod.split, (metis fst_conv)+)
  have p: "batches (planProtectionOrderBatches lc intents observed limit) =
      fst (assign_capacity xs (new_budget observed (case limit of Some n \<Rightarrow> n | None \<Rightarrow> BINGX_CONTROL_ORDER_LIMIT)))"
    unfolding planProtectionOrderBatches_def xs_def by (simp add: Let_def split: prod.split)
  have "\<forall>b \<in> set xs. handling_update (\<lambda>_. System_close) b = b"
    using grouped_inv [of intents] unfolding xs_def by force
  then have "handling_update (\<lambda>_. System_close) ` set xs = set xs" by force
  then have "handling_update (\<lambda>_. System_close) ` set (batches (planProtectionOrderBatches lc intents observed limit)) = set xs"
    using m unfolding p set_map [symmetric] by metis
  moreover have "map (batchKey \<circ> snd) (fold add_intent intents []) = map fst (fold add_intent intents [])"
    using grouped_inv [of intents] by (auto intro!: map_cong)
  then have "distinct (map batchKey xs)" using grouped_inv [of intents] unfolding xs_def distinct_map_stable_sort map_map by metis
  ultimately show ?thesis using m grouped_reference [of intents] unfolding p xs_def by (simp only: set_stable_sort)
qed

end
