(* ===== verification/ErrorHandling.thy ===== *)
theory ErrorHandling
  imports JsMath JsJson
begin

text \<open>
  Error classification and the retrying operation wrapper (\<open>lib/error-handling.ts\<close>).  A thrown value
  is an \<open>Error\<close> with its name and message, or any other value without a \<open>message\<close> property.  The
  wrapped operation is a function from the number of the attempt to its outcome, the clock a function
  from the number of the attempt to the time at which its failure is handled; a wait of the wrapper is
  an entry of the list of delays.  Console output is not modelled; the bounded list of stored error
  logs is.
\<close>

subsection \<open>Codes\<close>

datatype ErrorCode = CONNECTION_FAILED | INVALID_CREDENTIALS | API_TIMEOUT | RATE_LIMITED | ORDER_FAILED | INSUFFICIENT_BALANCE
  | INVALID_SYMBOL | ORDER_NOT_FOUND | POSITION_NOT_FOUND | POSITION_CLOSED | LIQUIDATION_RISK | LEVERAGE_TOO_HIGH
  | POSITION_SIZE_TOO_LARGE | DRAWDOWN_EXCEEDED | MAX_POSITIONS_REACHED | SIGNAL_NOT_READY | INDICATOR_CALCULATION_FAILED
  | DATABASE_ERROR | VALIDATION_FAILED | UNKNOWN

datatype thrown = Thrown_error string string | Thrown_value js_value

text \<open>\<open>error.toString()\<close>, and \<open>error instanceof Error ? error.message : String(error)\<close>.\<close>

fun thrown_toString :: "thrown \<Rightarrow> string" where
  "thrown_toString (Thrown_error name msg) = (if msg = [] then name else if name = [] then msg else name @ '': '' @ msg)"
| "thrown_toString (Thrown_value v) = js_String v"

fun thrown_message :: "thrown \<Rightarrow> string" where
  "thrown_message (Thrown_error name msg) = msg"
| "thrown_message (Thrown_value v) = js_String v"

definition classified_text :: "thrown \<Rightarrow> string" where
  "classified_text err = (case err of
     Thrown_error name msg \<Rightarrow> toLowerCase (if msg \<noteq> [] then msg else thrown_toString err)
   | Thrown_value v \<Rightarrow> toLowerCase (js_String v))"

definition classifyError :: "thrown \<Rightarrow> ErrorCode" where
  "classifyError err =
     (if (case err of Thrown_value v \<Rightarrow> \<not> js_truthy v | _ \<Rightarrow> False) then UNKNOWN
      else
        let has = js_includes (classified_text err)
        in if has ''econnrefused'' \<or> has ''connection refused'' then CONNECTION_FAILED
           else if has ''invalid api key'' \<or> has ''invalid credentials'' then INVALID_CREDENTIALS
           else if has ''timeout'' then API_TIMEOUT
           else if has ''rate limit'' \<or> has ''429'' \<or> has ''100410'' \<or> has ''trigger frequency limit'' then RATE_LIMITED
           else if has ''insufficient balance'' \<or> has ''insufficient margin'' then INSUFFICIENT_BALANCE
           else if has ''invalid symbol'' then INVALID_SYMBOL
           else if has ''order not found'' then ORDER_NOT_FOUND
           else if has ''position not found'' then POSITION_NOT_FOUND
           else if has ''liquidation'' then LIQUIDATION_RISK
           else if has ''leverage'' \<and> has ''too high'' then LEVERAGE_TOO_HIGH
           else if has ''position size'' \<and> has ''too large'' then POSITION_SIZE_TOO_LARGE
           else if has ''drawdown'' then DRAWDOWN_EXCEEDED
           else if has ''max positions'' then MAX_POSITIONS_REACHED
           else UNKNOWN)"

text \<open>The leftmost match of \<open>/(?:can retry after time:|will be unblocked after)\s*(\d+)/i\<close>, as its digits.\<close>

definition hint_digits :: "string \<Rightarrow> string \<Rightarrow> string" where
  "hint_digits pat s = (if starts_with pat (toLowerCase s) then takeWhile is_digit (dropWhile is_space (drop (length pat) s)) else [])"

fun find_hint :: "string \<Rightarrow> string option" where
  "find_hint [] = None"
| "find_hint (c # s) =
     (let a = hint_digits ''can retry after time:'' (c # s); b = hint_digits ''will be unblocked after'' (c # s)
      in if a \<noteq> [] then Some a else if b \<noteq> [] then Some b else find_hint s)"

definition parseBingXRetryAfter :: "int \<Rightarrow> string \<Rightarrow> jsnum option" where
  "parseBingXRetryAfter now errorMsg =
     (if errorMsg = [] then None
      else case find_hint errorMsg of
             None \<Rightarrow> None
           | Some ds \<Rightarrow>
               let retryAt = js_parseInt ds
               in if retryAt = NaN then None
                  else Some (js_max (num_of_int 1000) (js_min (num_of_int 600000) (js_sub retryAt (num_of_int now)))))"

definition getRetryDelay :: "int \<Rightarrow> ErrorCode \<Rightarrow> nat \<Rightarrow> string \<Rightarrow> jsnum" where
  "getRetryDelay now code attempt errorMsg =
     (let baseDelay = num_of_int 1000; exponential = fl (2 powi (int attempt - 1))
      in case code of
           RATE_LIMITED \<Rightarrow>
             (case (if errorMsg \<noteq> [] then parseBingXRetryAfter now errorMsg else None) of
                Some bingxDelay \<Rightarrow> js_min (num_of_int 500000) bingxDelay
              | None \<Rightarrow> js_mul (js_mul baseDelay exponential) (num_of_int 5))
         | API_TIMEOUT \<Rightarrow> js_mul (js_mul baseDelay exponential) (num_of_int 2)
         | CONNECTION_FAILED \<Rightarrow> js_mul (js_mul baseDelay exponential) (num_of_int 3)
         | _ \<Rightarrow> js_mul baseDelay exponential)"

definition isRetryable :: "ErrorCode \<Rightarrow> bool" where
  "isRetryable code = (code \<notin> {INVALID_CREDENTIALS, INVALID_SYMBOL, LEVERAGE_TOO_HIGH, POSITION_SIZE_TOO_LARGE, VALIDATION_FAILED})"

definition shouldStop :: "ErrorCode \<Rightarrow> bool" where
  "shouldStop code = (code \<in> {INVALID_CREDENTIALS, LIQUIDATION_RISK, DRAWDOWN_EXCEEDED})"

subsection \<open>Stored logs\<close>

record LogContext =
  component :: string
  operation :: string
  ctx_connectionId :: "string option"
  ctx_symbol :: "string option"
  ctx_orderId :: "string option"
  ctx_positionId :: "string option"
  ctx_userId :: "string option"

record ErrorLog =
  log_code :: ErrorCode
  log_message :: string
  log_context :: LogContext
  log_timestamp :: string
  originalError :: string

abbreviation maxLogs :: nat where
  "maxLogs \<equiv> 1000"

definition logger_error :: "string \<Rightarrow> LogContext \<Rightarrow> ErrorCode \<Rightarrow> string \<Rightarrow> thrown \<Rightarrow> ErrorLog list \<Rightarrow> ErrorLog list" where
  "logger_error timestamp context code message err logs =
     (let pushed = logs @ [\<lparr>log_code = code, log_message = message, log_context = context, log_timestamp = timestamp,
                            originalError = thrown_message err\<rparr>]
      in if length pushed > maxLogs then tl pushed else pushed)"

definition getErrorLogs :: "int \<Rightarrow> ErrorLog list \<Rightarrow> ErrorLog list" where
  "getErrorLogs n logs = js_slice (- n) (int (length logs)) logs"

definition getErrorsByFilter :: "string option \<Rightarrow> ErrorCode option \<Rightarrow> ErrorLog list \<Rightarrow> ErrorLog list" where
  "getErrorsByFilter cmp code logs = filter (\<lambda>entry.
     \<not> (str_or cmp [] \<noteq> [] \<and> component (log_context entry) \<noteq> str_or cmp []) \<and>
     (case code of None \<Rightarrow> True | Some c \<Rightarrow> log_code entry = c)) logs"

definition clearLogs :: "ErrorLog list \<Rightarrow> ErrorLog list" where
  "clearLogs logs = []"

subsection \<open>The wrapper\<close>

record 'a handled =
  success :: bool
  result_data :: "'a option"
  result_error :: "string option"
  result_code :: "ErrorCode option"

text \<open>
  The loop of \<open>withErrorHandling\<close> from attempt \<open>attempt\<close> on, with the last error seen; it answers
  with the result, the delays waited and the stored logs.
\<close>

function attempt_loop ::
  "LogContext \<Rightarrow> (nat \<Rightarrow> thrown + 'a) \<Rightarrow> (nat \<Rightarrow> int) \<Rightarrow> (nat \<Rightarrow> string) \<Rightarrow> nat \<Rightarrow> nat \<Rightarrow> thrown \<Rightarrow> ErrorCode \<Rightarrow> ErrorLog list \<Rightarrow>
   'a handled \<times> jsnum list \<times> ErrorLog list" where
  "attempt_loop ctx oper clock stamp maxRetries attempt lastError lastCode logs =
     (if attempt \<le> maxRetries then
        case oper attempt of
          Inr v \<Rightarrow> (\<lparr>success = True, result_data = Some v, result_error = None, result_code = None\<rparr>, [], logs)
        | Inl err \<Rightarrow>
            let code = classifyError err; logs1 = logger_error (stamp attempt) ctx code ''Operation failed'' err logs
            in if \<not> isRetryable code
               then (\<lparr>success = False, result_data = None, result_error = Some (thrown_message err), result_code = Some code\<rparr>, [], logs1)
               else if shouldStop code
               then (\<lparr>success = False, result_data = None, result_error = Some ''Critical error - stopping'', result_code = Some code\<rparr>, [], logs1)
               else
                 let (r, waits, logs2) = attempt_loop ctx oper clock stamp maxRetries (Suc attempt) err code logs1
                 in (r, (if attempt < maxRetries then getRetryDelay (clock attempt) code attempt (thrown_message err) # waits else waits), logs2)
      else (\<lparr>success = False, result_data = None, result_error = Some (thrown_message lastError), result_code = Some lastCode\<rparr>, [], logs))"
  by pat_completeness auto
termination by (relation "measure (\<lambda>(_, _, _, _, m, a, _). Suc m - a)") auto

declare attempt_loop.simps [simp del]

definition withErrorHandling ::
  "LogContext \<Rightarrow> (nat \<Rightarrow> thrown + 'a) \<Rightarrow> (nat \<Rightarrow> int) \<Rightarrow> (nat \<Rightarrow> string) \<Rightarrow> nat \<Rightarrow> ErrorLog list \<Rightarrow> 'a handled \<times> jsnum list \<times> ErrorLog list" where
  "withErrorHandling ctx oper clock stamp maxRetries logs =
     attempt_loop ctx oper clock stamp maxRetries 1 (Thrown_value VUndefined) UNKNOWN logs"

subsection \<open>Retries\<close>

definition ends_run :: "thrown \<Rightarrow> bool" where
  "ends_run err \<longleftrightarrow> \<not> isRetryable (classifyError err) \<or> shouldStop (classifyError err)"

lemma attempt_loop_spec:
  assumes "attempt_loop ctx oper clock stamp m a lastError lastCode logs = (r, waits, logs')" "a \<le> m" "n = a + length waits"
  shows "n \<le> m \<and> (success r \<longrightarrow> (\<exists>v. oper n = Inr v \<and> result_data r = Some v)) \<and>
    (\<not> success r \<longrightarrow> (\<exists>err. oper n = Inl err \<and> result_code r = Some (classifyError err) \<and> (n = m \<or> ends_run err))) \<and>
    (\<forall>k. a \<le> k \<and> k < n \<longrightarrow> (\<exists>err. oper k = Inl err \<and> \<not> ends_run err \<and>
       waits ! (k - a) = getRetryDelay (clock k) (classifyError err) k (thrown_message err)))"
  using assms
proof (induction ctx oper clock stamp m a lastError lastCode logs arbitrary: r waits logs' n rule: attempt_loop.induct)
  case (1 ctx oper clock stamp m a lastError lastCode logs)
  show ?case
  proof (cases "oper a")
    case (Inr v)
    then show ?thesis using "1.prems" by (auto simp: attempt_loop.simps [of ctx oper clock stamp m a])
  next
    case (Inl err)
    define logs1 where "logs1 = logger_error (stamp a) ctx (classifyError err) ''Operation failed'' err logs"
    show ?thesis
    proof (cases "ends_run err")
      case True
      then show ?thesis using "1.prems" Inl
        by (auto simp: attempt_loop.simps [of ctx oper clock stamp m a] ends_run_def Let_def split: if_splits)
    next
      case False
      obtain r2 w2 l2 where rec: "attempt_loop ctx oper clock stamp m (Suc a) err (classifyError err) logs1 = (r2, w2, l2)"
        by (metis prod_cases3)
      have eq: "r = r2" "waits = (if a < m then getRetryDelay (clock a) (classifyError err) a (thrown_message err) # w2 else w2)"
        using "1.prems"(1,2) Inl False rec
        by (auto simp: attempt_loop.simps [of ctx oper clock stamp m a] ends_run_def Let_def logs1_def split: if_splits)
      show ?thesis
      proof (cases "a < m")
        case True
        have IH: "Suc a + length w2 \<le> m \<and> (success r2 \<longrightarrow> (\<exists>v. oper (Suc a + length w2) = Inr v \<and> result_data r2 = Some v)) \<and>
            (\<not> success r2 \<longrightarrow> (\<exists>err. oper (Suc a + length w2) = Inl err \<and> result_code r2 = Some (classifyError err) \<and> (Suc a + length w2 = m \<or> ends_run err))) \<and>
            (\<forall>k. Suc a \<le> k \<and> k < Suc a + length w2 \<longrightarrow> (\<exists>err. oper k = Inl err \<and> \<not> ends_run err \<and>
               w2 ! (k - Suc a) = getRetryDelay (clock k) (classifyError err) k (thrown_message err)))"
          using "1.IH" [OF "1.prems"(2) Inl refl logs1_def _ _ rec _ refl] False True by (simp add: ends_run_def)
        have n: "n = Suc a + length w2" using "1.prems"(3) eq(2) True by simp
        have "\<exists>err. oper k = Inl err \<and> \<not> ends_run err \<and> waits ! (k - a) = getRetryDelay (clock k) (classifyError err) k (thrown_message err)"
          if "a \<le> k" "k < n" for k
        proof (cases "k = a")
          case True
          then show ?thesis using Inl False eq(2) \<open>a < m\<close> by simp
        next
          case k: False
          then have "k - a = Suc (k - Suc a)" using that(1) by simp
          then show ?thesis using IH k that n eq(2) True by auto
        qed
        then show ?thesis using IH n eq(1) by auto
      next
        case m: False
        then have "a = m" using "1.prems"(2) by simp
        then have "w2 = []" "r2 = \<lparr>success = False, result_data = None, result_error = Some (thrown_message err), result_code = Some (classifyError err)\<rparr>"
          using rec by (auto simp: attempt_loop.simps [of ctx oper clock stamp m "Suc m"])
        then show ?thesis using eq m "1.prems"(3) Inl \<open>a = m\<close> by auto
      qed
    qed
  qed
qed

lemma logs_bounded:
  assumes "attempt_loop ctx oper clock stamp m a lastError lastCode logs = (r, waits, logs')" "length logs \<le> maxLogs"
  shows "length logs' \<le> maxLogs"
proof -
  have "length (logger_error t c k msg err ls) \<le> maxLogs" if "length ls \<le> maxLogs" for t c k msg err ls
    using that by (simp add: logger_error_def Let_def)
  then show ?thesis using assms
    by (induction ctx oper clock stamp m a lastError lastCode logs arbitrary: r waits logs' rule: attempt_loop.induct)
      (subst (asm) (2) attempt_loop.simps, auto simp: Let_def split: if_splits sum.splits prod.splits)
qed

text \<open>C20. The wrapper always comes to an end after at most the allowed number of attempts: a success
  carries the value of the last attempt made, a failure the code of the last attempt's error, and the
  run only stops short of the limit on a success or on an error that must not be retried; every
  earlier attempt failed with a retryable error and was followed by that error's delay; and the
  stored logs stay within their bound.\<close>

theorem retry_discipline:
  assumes "withErrorHandling ctx oper clock stamp maxRetries logs = (r, waits, logs')" "1 \<le> maxRetries" "n = Suc (length waits)"
    and "length logs \<le> maxLogs"
  shows "n \<le> maxRetries \<and> (success r \<longrightarrow> (\<exists>v. oper n = Inr v \<and> result_data r = Some v)) \<and>
    (\<not> success r \<longrightarrow> (\<exists>err. oper n = Inl err \<and> result_code r = Some (classifyError err) \<and>
       (n = maxRetries \<or> \<not> isRetryable (classifyError err) \<or> shouldStop (classifyError err)))) \<and>
    (\<forall>k. 1 \<le> k \<and> k < n \<longrightarrow> (\<exists>err. oper k = Inl err \<and> isRetryable (classifyError err) \<and> \<not> shouldStop (classifyError err) \<and>
       waits ! (k - 1) = getRetryDelay (clock k) (classifyError err) k (thrown_message err))) \<and>
    length logs' \<le> maxLogs"
  using attempt_loop_spec [OF assms(1) [unfolded withErrorHandling_def] assms(2), of n] assms(3)
    logs_bounded [OF assms(1) [unfolded withErrorHandling_def] assms(4)]
  unfolding ends_run_def by auto

definition flaky :: "nat \<Rightarrow> thrown + int" where
  "flaky k = (if k < 3 then Inl (Thrown_error ''Error'' ''socket timeout'') else Inr 7)"

lemma flaky_run:
  "\<exists>waits logs'. withErrorHandling ctx flaky clock stamp 3 [] =
     (\<lparr>success = True, result_data = Some 7, result_error = None, result_code = None\<rparr>, waits, logs') \<and> length waits = 2"
proof -
  have c: "classifyError (Thrown_error ''Error'' ''socket timeout'') = API_TIMEOUT" by code_simp
  have r: "isRetryable API_TIMEOUT" "\<not> shouldStop API_TIMEOUT" by (simp_all add: isRetryable_def shouldStop_def)
  show ?thesis
    by (simp add: withErrorHandling_def attempt_loop.simps [of ctx flaky clock stamp 3] flaky_def c r Let_def)
qed

theorem retry_discipline_witness:
  "\<exists>r waits logs'. withErrorHandling undefined flaky (\<lambda>_. 0) (\<lambda>_. []) 3 [] = (r, waits, logs') \<and> success r \<and> length waits < 3 \<and>
     flaky (Suc (length waits)) = Inr 7"
proof -
  obtain waits logs' where w: "withErrorHandling undefined flaky (\<lambda>_. 0) (\<lambda>_. []) 3 [] =
     (\<lparr>success = True, result_data = Some 7, result_error = None, result_code = None\<rparr>, waits, logs')"
    using flaky_run by blast
  from retry_discipline [OF w _ refl] show ?thesis using w by fastforce
qed

subsection \<open>Delays\<close>

lemma hint_bounds:
  assumes "parseBingXRetryAfter now msg = Some d"
  shows "js_le (num_of_int 1000) d \<and> js_le d (num_of_int 600000)"
proof -
  obtain x where d: "d = js_max (num_of_int 1000) (js_min (num_of_int 600000) x)" "x \<noteq> NaN"
  proof -
    obtain ds where ds: "js_parseInt ds \<noteq> NaN" "d = js_max (num_of_int 1000) (js_min (num_of_int 600000) (js_sub (js_parseInt ds) (num_of_int now)))"
      using assms by (auto simp: parseBingXRetryAfter_def Let_def split: if_splits option.splits)
    have "js_sub (js_parseInt ds) (num_of_int now) \<noteq> NaN" using ds(1) by (cases "js_parseInt ds") (auto simp: js_sub_def)
    with ds(2) show thesis by (rule that)
  qed
  have "js_le (js_min (num_of_int 600000) x) (num_of_int 600000)" "js_min (num_of_int 600000) x \<noteq> NaN"
    using js_min_le [of "num_of_int 600000" x] d(2) by auto
  then show ?thesis unfolding d(1)
    using js_max_ge [of "num_of_int 1000" "js_min (num_of_int 600000) x"] js_max_least [of "num_of_int 1000" "num_of_int 600000"] by simp
qed

lemma backoff:
  assumes "1 \<le> attempt" "attempt \<le> 30" "0 \<le> c" "c \<le> 5"
  shows "js_mul (js_mul (num_of_int 1000) (fl (2 powi (int attempt - 1)))) (num_of_int c) = num_of_int (1000 * 2 ^ (attempt - 1) * c)"
    "js_mul (num_of_int 1000) (fl (2 powi (int attempt - 1))) = num_of_int (1000 * 2 ^ (attempt - 1))"
proof -
  have e: "(2 :: rat) powi (int attempt - 1) = of_int (2 ^ (attempt - 1))"
    using assms(1) by (simp add: power_int_def nat_diff_distrib)
  have p: "(2 :: int) ^ (attempt - 1) \<le> 2 ^ 29" using assms(2) by (intro power_increasing) auto
  have f: "fl (2 powi (int attempt - 1)) = num_of_int (2 ^ (attempt - 1))" unfolding e by (rule fl_of_int) (use p in simp)
  show one: "js_mul (num_of_int 1000) (fl (2 powi (int attempt - 1))) = num_of_int (1000 * 2 ^ (attempt - 1))"
    unfolding f by (rule js_mul_int) (use p in simp)
  have "1000 * 2 ^ (attempt - 1) * c \<le> 1000 * 2 ^ 29 * 5" using p assms(3,4) by (intro mult_mono) auto
  then show "js_mul (js_mul (num_of_int 1000) (fl (2 powi (int attempt - 1)))) (num_of_int c) = num_of_int (1000 * 2 ^ (attempt - 1) * c)"
    unfolding one using assms(3) by (intro js_mul_int) simp
qed

text \<open>Every wait is at least a second and bounded: a wait that follows the venue's own retry hint
  lies between one and 500 seconds whatever timestamp the message carries, and every other wait is
  exactly a second doubled with each attempt times the factor of its error class.\<close>

theorem retry_delay_bounds:
  assumes "1 \<le> attempt" "attempt \<le> 30"
  shows "(case (if code = RATE_LIMITED then parseBingXRetryAfter now msg else None) of
      Some hint \<Rightarrow> js_le (num_of_int 1000) (getRetryDelay now code attempt msg) \<and> js_le (getRetryDelay now code attempt msg) (num_of_int 500000)
    | None \<Rightarrow> getRetryDelay now code attempt msg = num_of_int (1000 * 2 ^ (attempt - 1) *
        (case code of RATE_LIMITED \<Rightarrow> 5 | API_TIMEOUT \<Rightarrow> 2 | CONNECTION_FAILED \<Rightarrow> 3 | _ \<Rightarrow> 1)))"
proof (cases "code = RATE_LIMITED \<and> parseBingXRetryAfter now msg \<noteq> None")
  case True
  then obtain d where d: "parseBingXRetryAfter now msg = Some d" by blast
  then have m: "msg \<noteq> []" by (auto simp: parseBingXRetryAfter_def)
  have "js_le (num_of_int 1000) (js_min (num_of_int 500000) d)" "js_le (js_min (num_of_int 500000) d) (num_of_int 500000)"
    using hint_bounds [OF d] js_le_not_NaN [of d "num_of_int 600000"] js_min_greatest [of "num_of_int 1000" "num_of_int 500000" d] js_min_le [of "num_of_int 500000" d] by auto
  then show ?thesis using True d m by (simp add: getRetryDelay_def)
next
  case False
  have n: "(if msg \<noteq> [] then parseBingXRetryAfter now msg else None) = parseBingXRetryAfter now msg"
    by (simp add: parseBingXRetryAfter_def)
  show ?thesis using False backoff [OF assms, of 5] backoff [OF assms, of 2] backoff [OF assms, of 3]
    unfolding getRetryDelay_def Let_def n by (cases code) auto
qed

theorem retry_delay_bounds_witness: "getRetryDelay 0 API_TIMEOUT 3 ''timeout'' = num_of_int (1000 * 2 ^ (3 - 1) * 2)"
  using retry_delay_bounds [of 3, where code = API_TIMEOUT and now = 0 and msg = "''timeout''"] by simp

end
