(* ===== verification/ProtectionRange.thy ===== *)
theory ProtectionRange
  imports JsMath JsJson
begin

text \<open>
  Where a stop may lie: the system-wide minimum distances (\<open>lib/protection-floors.ts\<close>), the price the
  venue accepts for a stop loss between the mark and the liquidation price
  (\<open>lib/protection-allowed-range.ts\<close>) and the leverage at which the stop is reached before the
  liquidation (\<open>lib/liquidation-safe-leverage.ts\<close>).  A price that may be absent is an option, an
  untyped setting a \<open>js_value\<close>; a literal is the double nearest to it.
\<close>

subsection \<open>Floors\<close>

definition DEFAULT_MIN_STOP_LOSS_PCT :: jsnum where "DEFAULT_MIN_STOP_LOSS_PCT = fl (6 / 10)"
definition DEFAULT_MIN_TRAILING_STOP_DISTANCE_PCT :: jsnum where "DEFAULT_MIN_TRAILING_STOP_DISTANCE_PCT = fl (6 / 10)"
definition PROTECTION_FLOOR_MIN_PCT :: jsnum where "PROTECTION_FLOOR_MIN_PCT = fl (5 / 100)"
definition PROTECTION_FLOOR_MAX_PCT :: jsnum where "PROTECTION_FLOOR_MAX_PCT = num_of_int 10"

definition PROTECTION_FLOOR_KEYS :: "string list" where
  "PROTECTION_FLOOR_KEYS = [''minStopLossPct'', ''minTrailingStopDistancePct'']"

record ProtectionFloors =
  minStopLossPct :: jsnum
  minTrailingStopDistancePct :: jsnum

definition DEFAULT_PROTECTION_FLOORS :: ProtectionFloors where
  "DEFAULT_PROTECTION_FLOORS = \<lparr>minStopLossPct = DEFAULT_MIN_STOP_LOSS_PCT, minTrailingStopDistancePct = DEFAULT_MIN_TRAILING_STOP_DISTANCE_PCT\<rparr>"

definition normalizeProtectionFloorPct :: "js_value \<Rightarrow> jsnum \<Rightarrow> jsnum" where
  "normalizeProtectionFloorPct v fallback =
     (if v = VUndefined \<or> v = VNull \<or> v = VStr [] then fallback
      else let n = js_to_Number v
           in if \<not> js_isFinite n then fallback else js_max PROTECTION_FLOOR_MIN_PCT (js_min PROTECTION_FLOOR_MAX_PCT n))"

definition floor_input :: "js_value \<Rightarrow> jsnum" where
  "floor_input raw = (case raw of VStr s \<Rightarrow> if trim s = [] then NaN else js_to_Number raw | _ \<Rightarrow> js_to_Number raw)"

definition floor_error :: "string \<Rightarrow> string" where
  "floor_error key = key @ '' must be a number between '' @ string_of_num PROTECTION_FLOOR_MIN_PCT @ '' and '' @
     string_of_num PROTECTION_FLOOR_MAX_PCT @ '' (percent)''"

definition validateProtectionFloorInput :: "(string \<times> js_value) list option \<Rightarrow> string list" where
  "validateProtectionFloorInput input = (case input of
     None \<Rightarrow> []
   | Some obj \<Rightarrow> List.map_filter (\<lambda>key.
       case map_of obj key of
         None \<Rightarrow> None
       | Some raw \<Rightarrow>
           let n = floor_input raw
           in if \<not> js_isFinite n \<or> js_lt n PROTECTION_FLOOR_MIN_PCT \<or> js_gt n PROTECTION_FLOOR_MAX_PCT
              then Some (floor_error key) else None) PROTECTION_FLOOR_KEYS)"

definition resolveProtectionFloors :: "(string \<times> js_value) list option \<Rightarrow> ProtectionFloors" where
  "resolveProtectionFloors settings =
     (let raw = (case settings of Some obj \<Rightarrow> obj | None \<Rightarrow> [])
      in \<lparr>minStopLossPct = normalizeProtectionFloorPct (js_nullish (js_prop raw ''minStopLossPct'') (js_prop raw ''min_stop_loss_pct'')) DEFAULT_MIN_STOP_LOSS_PCT,
          minTrailingStopDistancePct = normalizeProtectionFloorPct
            (js_nullish (js_prop raw ''minTrailingStopDistancePct'') (js_prop raw ''min_trailing_stop_distance_pct'')) DEFAULT_MIN_TRAILING_STOP_DISTANCE_PCT\<rparr>)"

text \<open>The process-wide floors; None until the first call of \<open>setActiveProtectionFloors\<close>.\<close>

definition getActiveProtectionFloors :: "ProtectionFloors option \<Rightarrow> ProtectionFloors" where
  "getActiveProtectionFloors g = (case g of Some f \<Rightarrow> f | None \<Rightarrow> DEFAULT_PROTECTION_FLOORS)"

definition setActiveProtectionFloors :: "(string \<times> js_value) list option \<Rightarrow> ProtectionFloors option \<Rightarrow> ProtectionFloors \<times> ProtectionFloors option" where
  "setActiveProtectionFloors settings g = (let floors = resolveProtectionFloors settings in (floors, Some floors))"

definition applyStopLossFloorPct :: "jsnum \<Rightarrow> jsnum \<Rightarrow> jsnum" where
  "applyStopLossFloorPct stopLossPct floorPct = (if js_isFinite stopLossPct then js_max floorPct stopLossPct else floorPct)"

definition applyTrailingDistanceFloorPct :: "jsnum \<Rightarrow> jsnum \<Rightarrow> jsnum" where
  "applyTrailingDistanceFloorPct distancePct floorPct = (if js_isFinite distancePct then js_max floorPct distancePct else floorPct)"

definition applyTrailingDistanceFloorRatio :: "jsnum \<Rightarrow> jsnum \<Rightarrow> jsnum" where
  "applyTrailingDistanceFloorRatio distanceRatio floorPct =
     js_div (applyTrailingDistanceFloorPct (js_mul distanceRatio (num_of_int 100)) floorPct) (num_of_int 100)"

subsection \<open>The allowed range of a stop\<close>

datatype stop_direction = Long_stop | Short_stop

datatype AllowedStopReason = Within_range | Mark_distance | Liquidation | Crossed | Unsatisfiable | Invalid

record AllowedStopInput =
  stop_direction :: "stop_direction option"
  entryPrice :: jsnum
  in_stopPrice :: jsnum
  markPrice :: "jsnum option"
  liquidationPrice :: "jsnum option"
  priceTick :: "jsnum option"
  minMarkTicks :: "jsnum option"

record AllowedStopResult =
  stopPrice :: jsnum
  adjusted :: bool
  reason :: AllowedStopReason

definition positive_num :: "jsnum \<Rightarrow> jsnum" where
  "positive_num v = (if js_isFinite v \<and> js_gt v (Fin 0) then v else Fin 0)"

datatype tick_mode = Floor_mode | Ceil_mode

definition onTick :: "jsnum \<Rightarrow> jsnum \<Rightarrow> tick_mode \<Rightarrow> jsnum" where
  "onTick v tick mode =
     (if \<not> js_gt tick (Fin 0) then v
      else let units = js_div v tick;
               rounded = (case mode of Floor_mode \<Rightarrow> js_floor (js_add units (fl (1 / 10 ^ 9))) | Ceil_mode \<Rightarrow> js_ceil (js_sub units (fl (1 / 10 ^ 9))))
           in num_toPrecision 15 (js_mul rounded tick))"

text \<open>The two bounds, on the mark's and on the liquidation's side; NaN when there is none.\<close>

definition mark_bound :: "bool \<Rightarrow> jsnum \<Rightarrow> jsnum \<Rightarrow> jsnum" where
  "mark_bound long mark gap = (if js_gt mark (Fin 0) then if long then js_sub mark gap else js_add mark gap else NaN)"

definition liquidation_bound :: "bool \<Rightarrow> jsnum \<Rightarrow> jsnum \<Rightarrow> jsnum \<Rightarrow> jsnum" where
  "liquidation_bound long entry liquidation tick =
     (let valid = (js_gt liquidation (Fin 0) \<and> (if long then js_lt liquidation entry else js_gt liquidation entry));
          gap = (if valid then js_max (js_mul (num_of_int 2) tick) (js_mul (js_abs (js_sub entry liquidation)) (fl (1 / 10))) else Fin 0)
      in if valid then if long then js_add liquidation gap else js_sub liquidation gap else NaN)"

definition allowedStopLossPrice :: "AllowedStopInput \<Rightarrow> AllowedStopResult" where
  "allowedStopLossPrice i =
     (let stop = positive_num (in_stopPrice i); entry = positive_num (entryPrice i)
      in if \<not> truthy stop \<or> \<not> truthy entry \<or> stop_direction i = None
         then \<lparr>stopPrice = stop, adjusted = False, reason = Invalid\<rparr>
         else
           let long = (stop_direction i = Some Long_stop);
               tick = positive_num (opt_num (priceTick i)); mark = positive_num (opt_num (markPrice i));
               liquidation = positive_num (opt_num (liquidationPrice i));
               ticks = js_max (num_of_int 1) (js_floor (num_or (opt_num (minMarkTicks i)) (num_of_int 2)));
               markGap = (if js_gt tick (Fin 0) then js_mul ticks tick else js_mul (js_mul (num_or mark entry) (fl (2 / 10000))) ticks)
           in if js_gt mark (Fin 0) \<and> (if long then js_ge stop mark else js_le stop mark)
              then \<lparr>stopPrice = stop, adjusted = False, reason = Crossed\<rparr>
              else
                let mb = mark_bound long mark markGap; lb = liquidation_bound long entry liquidation tick;
                    too_near = (js_isFinite mb \<and> (if long then js_gt stop mb else js_lt stop mb));
                    next1 = (if too_near then mb else stop);
                    too_far = (js_isFinite lb \<and> (if long then js_lt next1 lb else js_gt next1 lb));
                    next2 = (if too_far then lb else next1);
                    why = (if too_far then Liquidation else if too_near then Mark_distance else Within_range)
                in if js_isFinite mb \<and> js_isFinite lb \<and> (if long then js_gt lb mb else js_lt lb mb)
                   then \<lparr>stopPrice = stop, adjusted = False, reason = Unsatisfiable\<rparr>
                   else if why = Within_range then \<lparr>stopPrice = stop, adjusted = False, reason = Within_range\<rparr>
                   else
                     let r0 = onTick next2 tick (if long then Floor_mode else Ceil_mode);
                         r1 = (if js_isFinite lb \<and> (if long then js_lt r0 lb else js_gt r0 lb)
                               then onTick next2 tick (if long then Ceil_mode else Floor_mode) else r0)
                     in if \<not> js_gt r1 (Fin 0) then \<lparr>stopPrice = stop, adjusted = False, reason = Invalid\<rparr>
                        else \<lparr>stopPrice = r1, adjusted = js_gt (js_abs (js_sub r1 stop)) (fl (1 / 10 ^ 12)), reason = why\<rparr>)"

subsection \<open>Leverage\<close>

definition LIQUIDATION_SAFETY_FACTOR_DEFAULT :: jsnum where "LIQUIDATION_SAFETY_FACTOR_DEFAULT = num_of_int 2"

definition liquidationSafetyFactor :: "string option \<Rightarrow> jsnum" where
  "liquidationSafetyFactor raw = (case raw of
     None \<Rightarrow> LIQUIDATION_SAFETY_FACTOR_DEFAULT
   | Some s \<Rightarrow> if s = [] then LIQUIDATION_SAFETY_FACTOR_DEFAULT
               else let v = js_Number s in if js_isFinite v \<and> js_ge v (Fin 0) then v else LIQUIDATION_SAFETY_FACTOR_DEFAULT)"

definition maxLeverageForStop :: "jsnum \<Rightarrow> jsnum \<Rightarrow> jsnum" where
  "maxLeverageForStop stopLossPct factor =
     (if \<not> js_gt factor (Fin 0) \<or> \<not> js_isFinite stopLossPct \<or> \<not> js_gt stopLossPct (Fin 0) then Fin 0
      else js_max (num_of_int 1) (js_floor (js_div (num_of_int 100) (js_mul stopLossPct factor))))"

definition effectiveLeverageCap :: "jsnum \<Rightarrow> jsnum \<Rightarrow> jsnum \<Rightarrow> jsnum" where
  "effectiveLeverageCap connectionCap stopLossPct factor =
     (let caps = filter (\<lambda>c. js_gt c (Fin 0)) [js_floor (num_or connectionCap (Fin 0)), maxLeverageForStop stopLossPct factor]
      in if caps \<noteq> [] then js_min_list caps else Fin 0)"

definition STOP_LOSS_PERCENT_CEILING :: jsnum where "STOP_LOSS_PERCENT_CEILING = num_of_int 25"

record leverage_input =
  lev_entryPrice :: js_value
  lev_stopLossPrice :: js_value
  lev_stopLoss :: js_value
  lev_assignedStopLoss :: js_value

definition plausible_percent :: "jsnum \<Rightarrow> bool" where
  "plausible_percent v = (js_isFinite v \<and> js_gt v (Fin 0) \<and> js_le v STOP_LOSS_PERCENT_CEILING)"

definition stopLossPercentForLeverage :: "leverage_input \<Rightarrow> jsnum" where
  "stopLossPercentForLeverage i =
     (let entry = js_to_Number (lev_entryPrice i); stop = js_to_Number (lev_stopLossPrice i);
          pct = js_mul (js_div (js_abs (js_sub entry stop)) entry) (num_of_int 100);
          rest = (case filter plausible_percent [js_to_Number (lev_stopLoss i), js_to_Number (lev_assignedStopLoss i)] of
                    v # _ \<Rightarrow> v | [] \<Rightarrow> Fin 0)
      in if js_isFinite entry \<and> js_gt entry (Fin 0) \<and> js_isFinite stop \<and> js_gt stop (Fin 0) \<and> js_gt pct (Fin 0) \<and> js_le pct STOP_LOSS_PERCENT_CEILING
         then pct else rest)"

subsection \<open>Floors only raise\<close>

lemma floor_range: "js_le PROTECTION_FLOOR_MIN_PCT PROTECTION_FLOOR_MAX_PCT"
  using fl_mono [of "5 / 100" 10] fl_of_int [of 10] by (simp add: PROTECTION_FLOOR_MIN_PCT_def PROTECTION_FLOOR_MAX_PCT_def)

lemma default_range:
  "js_le PROTECTION_FLOOR_MIN_PCT DEFAULT_MIN_STOP_LOSS_PCT" "js_le DEFAULT_MIN_STOP_LOSS_PCT PROTECTION_FLOOR_MAX_PCT"
  "DEFAULT_MIN_TRAILING_STOP_DISTANCE_PCT = DEFAULT_MIN_STOP_LOSS_PCT"
  using fl_mono [of "5 / 100" "6 / 10"] fl_mono [of "6 / 10" 10] fl_of_int [of 10]
  by (simp_all add: PROTECTION_FLOOR_MIN_PCT_def PROTECTION_FLOOR_MAX_PCT_def DEFAULT_MIN_STOP_LOSS_PCT_def DEFAULT_MIN_TRAILING_STOP_DISTANCE_PCT_def)

lemma clamp_range:
  assumes "js_isFinite n"
  shows "js_le PROTECTION_FLOOR_MIN_PCT (js_max PROTECTION_FLOOR_MIN_PCT (js_min PROTECTION_FLOOR_MAX_PCT n)) \<and>
    js_le (js_max PROTECTION_FLOOR_MIN_PCT (js_min PROTECTION_FLOOR_MAX_PCT n)) PROTECTION_FLOOR_MAX_PCT"
proof -
  have n: "n \<noteq> NaN" "PROTECTION_FLOOR_MIN_PCT \<noteq> NaN" "PROTECTION_FLOOR_MAX_PCT \<noteq> NaN"
    using assms js_le_not_NaN [OF floor_range] by (auto simp: js_isFinite_def)
  then show ?thesis
    using js_min_le [of PROTECTION_FLOOR_MAX_PCT n] js_max_ge [of PROTECTION_FLOOR_MIN_PCT "js_min PROTECTION_FLOOR_MAX_PCT n"]
      js_max_least [OF floor_range, of "js_min PROTECTION_FLOOR_MAX_PCT n"] by simp
qed

lemma normalize_range:
  assumes "js_le PROTECTION_FLOOR_MIN_PCT d" "js_le d PROTECTION_FLOOR_MAX_PCT"
  shows "js_le PROTECTION_FLOOR_MIN_PCT (normalizeProtectionFloorPct v d) \<and> js_le (normalizeProtectionFloorPct v d) PROTECTION_FLOOR_MAX_PCT"
  using assms clamp_range by (auto simp: normalizeProtectionFloorPct_def Let_def)

lemma js_clamp_id: "js_le lo n \<Longrightarrow> js_le n hi \<Longrightarrow> js_max lo (js_min hi n) = n"
  by (cases lo; cases hi; cases n) (auto simp: js_max_def js_min_def js_le_def js_eq_def)

lemma clamp_id:
  assumes "js_isFinite n" "\<not> js_lt n PROTECTION_FLOOR_MIN_PCT" "\<not> js_gt n PROTECTION_FLOOR_MAX_PCT"
  shows "js_max PROTECTION_FLOOR_MIN_PCT (js_min PROTECTION_FLOOR_MAX_PCT n) = n"
proof -
  have "n \<noteq> NaN" "PROTECTION_FLOOR_MIN_PCT \<noteq> NaN" "PROTECTION_FLOOR_MAX_PCT \<noteq> NaN"
    using assms(1) js_le_not_NaN [OF floor_range] by (auto simp: js_isFinite_def)
  then show ?thesis
    using assms js_not_lt [of n PROTECTION_FLOOR_MIN_PCT] js_not_lt [of PROTECTION_FLOOR_MAX_PCT n] by (intro js_clamp_id) auto
qed

lemma valid_floor_used:
  assumes "key \<in> set PROTECTION_FLOOR_KEYS" "validateProtectionFloorInput (Some obj) = []" "map_of obj key = Some v"
  shows "js_prop obj key = v \<and> v \<noteq> VUndefined \<and> v \<noteq> VNull \<and> normalizeProtectionFloorPct v d = js_to_Number v"
proof -
  have n: "js_isFinite (floor_input v)" "\<not> js_lt (floor_input v) PROTECTION_FLOOR_MIN_PCT" "\<not> js_gt (floor_input v) PROTECTION_FLOOR_MAX_PCT"
    using assms by (auto simp: validateProtectionFloorInput_def List.map_filter_def filter_empty_conv Let_def split: if_splits)
  have z: "js_lt (Fin 0) PROTECTION_FLOOR_MIN_PCT"
  proof -
    have "is_dbl (Fin (1 / 64))" "is_dbl (Fin 1)"
      using fl_rat_exact [of 1 "- 6"] is_dbl_int [of 1] by (simp_all add: is_dbl_def power_int_minus)
    then show ?thesis using fl_between [of "1 / 64" 1 "5 / 100"] by (auto simp: PROTECTION_FLOOR_MIN_PCT_def)
  qed
  have v: "floor_input v = js_to_Number v" "v \<noteq> VUndefined" "v \<noteq> VNull" "v \<noteq> VStr []"
    using n z by (auto simp: floor_input_def js_isFinite_def js_to_Number_def trim_def split: js_value.splits if_splits)
  show ?thesis using v n clamp_id [of "js_to_Number v"] assms(3) by (simp add: normalizeProtectionFloorPct_def Let_def js_prop_def)
qed

text \<open>The protection floors always lie between 0.05 and 10 percent whatever the settings hold, a
  setting that passes the validation is used exactly as given, and applying a floor only ever raises
  a stop distance: the result is at least the floor and at least the distance asked for.\<close>

theorem protection_floors_sound:
  assumes "floors = resolveProtectionFloors (Some obj)"
  shows "(\<forall>f \<in> {minStopLossPct floors, minTrailingStopDistancePct floors}. js_le PROTECTION_FLOOR_MIN_PCT f \<and> js_le f PROTECTION_FLOOR_MAX_PCT \<and>
      js_le f (applyStopLossFloorPct pct f) \<and> (js_isFinite pct \<longrightarrow> js_le pct (applyStopLossFloorPct pct f))) \<and>
    (validateProtectionFloorInput (Some obj) = [] \<longrightarrow>
      (\<forall>v. map_of obj ''minStopLossPct'' = Some v \<longrightarrow> minStopLossPct floors = js_to_Number v) \<and>
      (\<forall>v. map_of obj ''minTrailingStopDistancePct'' = Some v \<longrightarrow> minTrailingStopDistancePct floors = js_to_Number v))"
proof -
  have r: "js_le PROTECTION_FLOOR_MIN_PCT f \<and> js_le f PROTECTION_FLOOR_MAX_PCT" if "f \<in> {minStopLossPct floors, minTrailingStopDistancePct floors}" for f
    using that normalize_range default_range unfolding assms resolveProtectionFloors_def by auto
  have a: "js_le f (applyStopLossFloorPct pct f) \<and> (js_isFinite pct \<longrightarrow> js_le pct (applyStopLossFloorPct pct f))"
    if "f \<in> {minStopLossPct floors, minTrailingStopDistancePct floors}" for f
    using r [OF that] js_le_not_NaN [of f] js_max_ge [of f pct] by (auto simp: applyStopLossFloorPct_def js_isFinite_def split: jsnum.splits)
  have "minStopLossPct floors = js_to_Number v" if "validateProtectionFloorInput (Some obj) = []" "map_of obj ''minStopLossPct'' = Some v" for v
    using valid_floor_used [OF _ that, of DEFAULT_MIN_STOP_LOSS_PCT] unfolding assms resolveProtectionFloors_def
    by (auto simp: PROTECTION_FLOOR_KEYS_def js_nullish_def split: js_value.splits)
  moreover have "minTrailingStopDistancePct floors = js_to_Number v"
    if "validateProtectionFloorInput (Some obj) = []" "map_of obj ''minTrailingStopDistancePct'' = Some v" for v
    using valid_floor_used [OF _ that, of DEFAULT_MIN_TRAILING_STOP_DISTANCE_PCT] unfolding assms resolveProtectionFloors_def
    by (auto simp: PROTECTION_FLOOR_KEYS_def js_nullish_def split: js_value.splits)
  ultimately show ?thesis using r a by blast
qed

theorem protection_floors_sound_witness:
  "js_le PROTECTION_FLOOR_MIN_PCT (minStopLossPct (resolveProtectionFloors (Some [(''minStopLossPct'', VNum (num_of_int 2))])))"
  using protection_floors_sound [OF refl, of "[(''minStopLossPct'', VNum (num_of_int 2))]"] by auto

subsection \<open>Leverage keeps the liquidation behind the stop\<close>

lemma leverage_margin:
  assumes "maxLeverageForStop (Fin s) (Fin f) = Fin m" "0 < s" "0 < f" "1 < m" "js_mul (Fin s) (Fin f) = Fin p" "0 < p"
  shows "m * p \<le> 100 * (1 + 2 powi (- 53))"
proof -
  have "js_max (num_of_int 1) (js_floor (fl (100 / p))) = Fin m" using assms(1,2,3,5,6) by (simp add: maxLeverageForStop_def js_isFinite_def)
  then obtain q where q: "fl (100 / p) = Fin q" "m = of_int \<lfloor>q\<rfloor>"
    using assms(4) by (cases "fl (100 / p)") (auto simp: js_max_def max_def split: if_splits)
  have r: "q = fl_rat (100 / p)" using q(1) by (auto simp: fl_def Let_def split: if_splits)
  have "m \<le> q" unfolding q(2) by simp
  have "1 \<le> 100 / p"
  proof (rule ccontr)
    assume "\<not> 1 \<le> 100 / p"
    then have "fl_rat (100 / p) \<le> fl_rat 1" by (intro fl_rat_mono) simp
    then show False using fl_rat_of_int [of 1] r \<open>m \<le> q\<close> assms(4) by simp
  qed
  then have "q \<le> 100 / p * (1 + 2 powi (- 53))" unfolding r by (rule fl_rat_rel_err)
  then have "m \<le> 100 / p * (1 + 2 powi (- 53))" using \<open>m \<le> q\<close> by simp
  then have "m * p \<le> 100 / p * (1 + 2 powi (- 53)) * p" using assms(6) by (intro mult_right_mono) simp_all
  then show ?thesis using assms(6) by simp
qed

text \<open>C23. A leverage cap above one keeps the liquidation behind the stop: when the ceiling granted for a positive stop and
  safety factor is more than one, it is at most the connection's own cap if it has one, and leverage times stop
  distance times safety factor stays within a hundred percent up to one rounding, so that the distance to the liquidation
  is at least the safety factor times the stop.  A ceiling of one is the lowest the code grants and carries no
  such guarantee: for a stop of sixty percent and factor two the distance is a hundred percent, not a hundred and twenty.\<close>

theorem leverage_cap_safe:
  assumes "effectiveLeverageCap cap (Fin s) (Fin f) = Fin l" "0 < s" "0 < f" "1 < l" "js_mul (Fin s) (Fin f) = Fin p" "2 powi (- 1000) \<le> p"
  shows "l * p \<le> 100 * (1 + 2 powi (- 53)) \<and> (js_gt (js_floor (num_or cap (Fin 0))) (Fin 0) \<longrightarrow> js_le (Fin l) (js_floor (num_or cap (Fin 0))))"
proof -
  define m where "m = maxLeverageForStop (Fin s) (Fin f)"
  define c where "c = js_floor (num_or cap (Fin 0))"
  have p: "0 < p" using assms(6) pow2_pos by (rule order.strict_trans2 [rotated])
  have "\<bar>100 / p\<bar> \<le> 2 powi 1007"
  proof -
    have "(2 :: rat) powi 1007 * 2 powi (- 1000) = 128" using pow2_add [of 1007 "- 1000"] by simp
    then have "100 \<le> 2 powi 1007 * p" using mult_left_mono [OF assms(6), of "2 powi 1007"] pow2_pos [of 1007] by linarith
    then show ?thesis using p by (simp only: abs_of_pos divide_pos_pos zero_less_numeral pos_divide_le_eq)
  qed
  then have "fl (100 / p) = Fin (fl_rat (100 / p))" by (rule fl_bounded) simp_all
  then obtain x where x: "m = Fin x" "1 \<le> x"
    using assms(2,3,5) p by (auto simp: m_def maxLeverageForStop_def js_isFinite_def)
  have le: "l \<le> x \<and> (js_gt c (Fin 0) \<longrightarrow> js_le (Fin l) c)"
    using assms(1) x(2) unfolding effectiveLeverageCap_def Let_def c_def [symmetric] m_def [symmetric] x(1)
    by (cases c) (auto simp: js_min_list_def js_min_def split: if_splits)
  have "x * p \<le> 100 * (1 + 2 powi (- 53))"
    using leverage_margin [of s f x p] x(1) assms(2-5) p le unfolding m_def by simp
  moreover have "l * p \<le> x * p" using mult_right_mono [of l x p] le p by simp
  ultimately show ?thesis using le by (simp add: c_def)
qed

theorem leverage_cap_safe_witness:
  "\<exists>l p. effectiveLeverageCap (num_of_int 20) (Fin (1 / 2)) (Fin 2) = Fin l \<and> l = 20 \<and> l * p \<le> 100 * (1 + 2 powi (- 53)) \<and> p = 1"
proof -
  have p: "js_mul (Fin (1 / 2)) (Fin 2) = Fin 1" using fl_of_int [of 1] by simp
  have "maxLeverageForStop (Fin (1 / 2)) (Fin 2) = Fin 100"
    using p fl_of_int [of 100] by (simp add: maxLeverageForStop_def js_isFinite_def)
  then have e: "effectiveLeverageCap (num_of_int 20) (Fin (1 / 2)) (Fin 2) = Fin 20"
    by (simp add: effectiveLeverageCap_def num_or_def truthy_def js_min_list_def js_min_def)
  have "(2 :: rat) powi (- 1000) \<le> 1" using pow2_mono [of "- 1000" 0] by simp
  from leverage_cap_safe [OF e _ _ _ p this] e show ?thesis by simp
qed

subsection \<open>An accepted stop lies between its bounds\<close>

lemma onTick_free: "\<not> js_gt tick (Fin 0) \<Longrightarrow> onTick v tick mode = v"
  by (simp add: onTick_def)

text \<open>The clamping of a stop into its two bounds, without rounding to a tick.\<close>

definition clamp_stop :: "bool \<Rightarrow> jsnum \<Rightarrow> jsnum \<Rightarrow> jsnum \<Rightarrow> jsnum \<times> AllowedStopReason" where
  "clamp_stop long stop mb lb =
     (let too_near = (js_isFinite mb \<and> (if long then js_gt stop mb else js_lt stop mb)); next1 = (if too_near then mb else stop);
          too_far = (js_isFinite lb \<and> (if long then js_lt next1 lb else js_gt next1 lb))
      in (if too_far then lb else next1, if too_far then Liquidation else if too_near then Mark_distance else Within_range))"

lemma clamp_stop_range:
  assumes "js_isFinite stop" "\<not> (js_isFinite mb \<and> js_isFinite lb \<and> (if long then js_gt lb mb else js_lt lb mb))"
  shows "(js_isFinite mb \<longrightarrow> (if long then js_le (fst (clamp_stop long stop mb lb)) mb else js_le mb (fst (clamp_stop long stop mb lb)))) \<and>
    (js_isFinite lb \<longrightarrow> (if long then js_le lb (fst (clamp_stop long stop mb lb)) else js_le (fst (clamp_stop long stop mb lb)) lb))"
  using assms by (cases long; cases stop; cases mb; cases lb) (auto simp: clamp_stop_def js_isFinite_def Let_def)

lemma clamp_stop_within: "snd (clamp_stop long stop mb lb) = Within_range \<Longrightarrow> fst (clamp_stop long stop mb lb) = stop"
  by (auto simp: clamp_stop_def Let_def split: if_splits)

lemma clamp_stop_reason: "snd (clamp_stop long stop mb lb) \<in> {Within_range, Mark_distance, Liquidation}"
  by (simp add: clamp_stop_def Let_def)

lemma allowed_stop_untick:
  assumes "stop_direction i = Some dir" "priceTick i = None"
    and "stop = positive_num (in_stopPrice i)" "mark = positive_num (opt_num (markPrice i))" "entry = positive_num (entryPrice i)"
    and "ticks = js_max (num_of_int 1) (js_floor (num_or (opt_num (minMarkTicks i)) (num_of_int 2)))"
    and "mb = mark_bound (dir = Long_stop) mark (js_mul (js_mul (num_or mark entry) (fl (2 / 10000))) ticks)"
    and "lb = liquidation_bound (dir = Long_stop) entry (positive_num (opt_num (liquidationPrice i))) (Fin 0)"
    and "c = clamp_stop (dir = Long_stop) stop mb lb"
  shows "allowedStopLossPrice i =
    (if \<not> truthy stop \<or> \<not> truthy entry then \<lparr>stopPrice = stop, adjusted = False, reason = Invalid\<rparr>
     else if js_gt mark (Fin 0) \<and> (if dir = Long_stop then js_ge stop mark else js_le stop mark) then \<lparr>stopPrice = stop, adjusted = False, reason = Crossed\<rparr>
     else if js_isFinite mb \<and> js_isFinite lb \<and> (if dir = Long_stop then js_gt lb mb else js_lt lb mb)
     then \<lparr>stopPrice = stop, adjusted = False, reason = Unsatisfiable\<rparr>
     else if snd c = Within_range then \<lparr>stopPrice = stop, adjusted = False, reason = Within_range\<rparr>
     else if \<not> js_gt (fst c) (Fin 0) then \<lparr>stopPrice = stop, adjusted = False, reason = Invalid\<rparr>
     else \<lparr>stopPrice = fst c, adjusted = js_gt (js_abs (js_sub (fst c) stop)) (fl (1 / 10 ^ 12)), reason = snd c\<rparr>)"
proof -
  have t: "positive_num (opt_num (priceTick i)) = Fin 0" using assms(2) by (simp add: positive_num_def opt_num_def js_isFinite_def)
  have z: "\<not> js_gt (Fin 0) (Fin 0)" by simp
  have d: "(stop_direction i = Some Long_stop) = (dir = Long_stop)" "stop_direction i \<noteq> None" using assms(1) by auto
  show ?thesis
    unfolding allowedStopLossPrice_def Let_def t onTick_free [OF z] d(1) assms(3) [symmetric] assms(4) [symmetric] assms(5) [symmetric] assms(6) [symmetric]
    unfolding if_not_P [OF z] assms(7) [symmetric] assms(8) [symmetric] assms(9) clamp_stop_def Let_def if_cancel fst_conv snd_conv
    using d(2) by (simp only: not_False_eq_True simp_thms if_False if_True)
qed

text \<open>C36. What the stop adjustment promises where the venue publishes no price tick: a stop it accepts
  or moves lies on the safe side of the mark bound and inside the liquidation bound, and in every
  other case it hands the given stop back unchanged and says so.\<close>

theorem allowed_stop_in_range:
  assumes "res = allowedStopLossPrice i" "stop_direction i = Some dir" "priceTick i = None"
    and "mark = positive_num (opt_num (markPrice i))" "entry = positive_num (entryPrice i)"
    and "ticks = js_max (num_of_int 1) (js_floor (num_or (opt_num (minMarkTicks i)) (num_of_int 2)))"
    and "mb = mark_bound (dir = Long_stop) mark (js_mul (js_mul (num_or mark entry) (fl (2 / 10000))) ticks)"
    and "lb = liquidation_bound (dir = Long_stop) entry (positive_num (opt_num (liquidationPrice i))) (Fin 0)"
  shows "if reason res \<in> {Within_range, Mark_distance, Liquidation}
    then js_gt (stopPrice res) (Fin 0) \<and>
      (js_isFinite mb \<longrightarrow> (if dir = Long_stop then js_le (stopPrice res) mb else js_le mb (stopPrice res))) \<and>
      (js_isFinite lb \<longrightarrow> (if dir = Long_stop then js_le lb (stopPrice res) else js_le (stopPrice res) lb))
    else stopPrice res = positive_num (in_stopPrice i) \<and> \<not> adjusted res"
proof -
  define stop where "stop = positive_num (in_stopPrice i)"
  define c where "c = clamp_stop (dir = Long_stop) stop mb lb"
  have fin: "js_isFinite stop" by (simp add: stop_def positive_num_def js_isFinite_def)
  have pos: "js_gt stop (Fin 0)" if "truthy stop" using that by (auto simp: stop_def positive_num_def truthy_def split: if_splits)
  note eq = allowed_stop_untick [OF assms(2,3) stop_def assms(4-8) c_def]
  note range = clamp_stop_range [OF fin, of mb lb "dir = Long_stop", folded c_def]
  have w: "snd c = Within_range \<Longrightarrow> fst c = stop" unfolding c_def by (rule clamp_stop_within)
  have why: "snd c \<in> {Within_range, Mark_distance, Liquidation}" unfolding c_def by (rule clamp_stop_reason)
  show ?thesis unfolding assms(1) eq stop_def [symmetric] using range w pos why
    by (simp split del: if_split split: if_split_asm) (auto split: if_splits)
qed

definition sample_stop :: AllowedStopInput where
  "sample_stop = \<lparr>stop_direction = Some Long_stop, entryPrice = num_of_int 100, in_stopPrice = num_of_int 95, markPrice = None,
     liquidationPrice = None, priceTick = None, minMarkTicks = None\<rparr>"

theorem allowed_stop_in_range_witness:
  "reason (allowedStopLossPrice sample_stop) = Within_range \<and> js_gt (stopPrice (allowedStopLossPrice sample_stop)) (Fin 0)"
proof -
  have r: "reason (allowedStopLossPrice sample_stop) = Within_range"
    by (simp add: sample_stop_def allowedStopLossPrice_def positive_num_def js_isFinite_def truthy_def opt_num_def mark_bound_def
        liquidation_bound_def Let_def)
  have "stop_direction sample_stop = Some Long_stop" "priceTick sample_stop = None" by (simp_all add: sample_stop_def)
  from allowed_stop_in_range [OF refl this refl refl refl refl refl] r show ?thesis by simp
qed

end
