(* ===== verification/RecoveryLevels.thy ===== *)
theory RecoveryLevels
  imports JsMath JsJson
begin

text \<open>
  The recovery levels the Block and the averaging lanes share (\<open>lib/block-volume-ratio.cjs\<close>): the
  normalised number of levels, the level in effect, the volume multiplier of a level and the
  lifecycle that raises the level after a block of losses and resets it after a win.
\<close>

subsection \<open>Recovery levels\<close>

definition BLOCK_INCREMENT_STEPS_DEFAULT :: jsnum where "BLOCK_INCREMENT_STEPS_DEFAULT = num_of_int 3"
definition BLOCK_INCREMENT_STEPS_MIN :: jsnum where "BLOCK_INCREMENT_STEPS_MIN = num_of_int 1"
definition BLOCK_INCREMENT_STEPS_MAX :: jsnum where "BLOCK_INCREMENT_STEPS_MAX = num_of_int 6"

definition normalizeBlockIncrementSteps :: "js_value \<Rightarrow> jsnum \<Rightarrow> jsnum" where
  "normalizeBlockIncrementSteps v fallback =
     (let n = js_to_Number v
      in js_max BLOCK_INCREMENT_STEPS_MIN (js_min BLOCK_INCREMENT_STEPS_MAX
           (js_floor (if js_isFinite n then n else if js_isFinite fallback then fallback else BLOCK_INCREMENT_STEPS_DEFAULT))))"

definition blockEffectiveIncrementStep :: "jsnum \<Rightarrow> js_value \<Rightarrow> jsnum \<Rightarrow> jsnum" where
  "blockEffectiveIncrementStep cnt steps requestedStep =
     (if \<not> js_isFinite cnt \<or> js_le cnt (Fin 0) then Fin 0
      else js_min (js_max (num_of_int 1) (js_floor (num_or requestedStep (num_of_int 1)))) (normalizeBlockIncrementSteps steps BLOCK_INCREMENT_STEPS_DEFAULT))"

definition blockVolumeMultiplier :: "jsnum \<Rightarrow> jsnum \<Rightarrow> js_value \<Rightarrow> jsnum \<Rightarrow> jsnum" where
  "blockVolumeMultiplier cnt ratio steps requestedStep =
     (if \<not> (js_isFinite cnt \<and> js_gt cnt (Fin 0) \<and> js_isFinite ratio \<and> js_gt ratio (Fin 0)) then Fin 0
      else num_toFixed 12 (js_add (num_of_int 1) (js_mul (js_mul (js_floor cnt) ratio) (blockEffectiveIncrementStep cnt steps requestedStep))))"

text \<open>The identity of the lane is copied from the outcome into the state.\<close>

record block_lane =
  bl_setKey :: string
  bl_symbol :: string
  bl_direction :: string
  bl_sourceKey :: string
  bl_blockCount :: jsnum
  bl_pauseCount :: jsnum
  bl_updatedAt :: jsnum

record block_count_state = block_lane +
  incrementSteps :: jsnum
  incrementStep :: jsnum
  nonPositiveCount :: jsnum
  recovering :: bool
  remaining :: jsnum

record block_outcome = block_lane +
  in_incrementSteps :: js_value
  executedIncrementStep :: jsnum
  netPnl :: jsnum

text \<open>The state before an outcome is whatever was read from the store, so any value.\<close>

definition prev_num :: "js_value \<Rightarrow> string \<Rightarrow> int \<Rightarrow> jsnum" where
  "prev_num previous name d = js_to_Number (js_or (js_get previous name) (VNum (num_of_int d)))"

definition advanceBlockCountLifecycle :: "js_value \<Rightarrow> block_outcome \<Rightarrow> block_count_state" where
  "advanceBlockCountLifecycle previous i =
     (let steps = normalizeBlockIncrementSteps (in_incrementSteps i) BLOCK_INCREMENT_STEPS_DEFAULT;
          cnt = js_max (num_of_int 1) (js_floor (bl_blockCount i));
          curr = blockEffectiveIncrementStep cnt (VNum steps)
                   (js_max (prev_num previous ''incrementStep'' 1) (num_or (executedIncrementStep i) (num_of_int 1)));
          positive = js_gt (netPnl i) (Fin 0);
          nonPositive = (if positive then Fin 0 else js_add (prev_num previous ''nonPositiveCount'' 0) (num_of_int 1));
          advance = (\<not> positive \<and> js_ge nonPositive cnt \<and> js_lt curr steps)
      in \<lparr>bl_setKey = bl_setKey i, bl_symbol = bl_symbol i, bl_direction = bl_direction i, bl_sourceKey = bl_sourceKey i,
          bl_blockCount = cnt, bl_pauseCount = bl_pauseCount i, bl_updatedAt = bl_updatedAt i, incrementSteps = steps,
          incrementStep = (if positive then num_of_int 1 else js_min steps (js_add curr (if advance then num_of_int 1 else Fin 0))),
          nonPositiveCount = (if positive \<or> advance then Fin 0 else js_min cnt nonPositive), recovering = (\<not> positive),
          remaining = (if positive then js_max (num_of_int 1) (js_floor (bl_pauseCount i)) else Fin 0)\<rparr>)"

text \<open>The state as an object, in the order the code builds it.\<close>

definition lifecycle_object :: "block_count_state \<Rightarrow> js_value" where
  "lifecycle_object st = VObj [(''setKey'', VStr (bl_setKey st)), (''symbol'', VStr (bl_symbol st)), (''direction'', VStr (bl_direction st)),
     (''sourceKey'', VStr (bl_sourceKey st)), (''blockCount'', VNum (bl_blockCount st)), (''incrementSteps'', VNum (incrementSteps st)),
     (''incrementStep'', VNum (incrementStep st)), (''nonPositiveCount'', VNum (nonPositiveCount st)), (''recovering'', VBool (recovering st)),
     (''remaining'', VNum (remaining st)), (''pauseCount'', VNum (bl_pauseCount st)), (''updatedAt'', VNum (bl_updatedAt st))]"

section \<open>Recovery\<close>

lemma increment_steps_range:
  "\<exists>s. normalizeBlockIncrementSteps v d = num_of_int s \<and> 1 \<le> s \<and> s \<le> 6"
proof -
  let ?n = "if js_isFinite (js_to_Number v) then js_to_Number v else if js_isFinite d then d else BLOCK_INCREMENT_STEPS_DEFAULT"
  obtain x where x: "?n = Fin x" by (cases "js_to_Number v"; cases d) (auto simp: js_isFinite_def BLOCK_INCREMENT_STEPS_DEFAULT_def)
  show ?thesis
    using x by (intro exI [of _ "max 1 (min 6 \<lfloor>x\<rfloor>)"])
      (simp add: normalizeBlockIncrementSteps_def Let_def BLOCK_INCREMENT_STEPS_MIN_def BLOCK_INCREMENT_STEPS_MAX_def of_int_max of_int_min del: of_int_1)
qed

lemma increment_steps_int: "1 \<le> s \<Longrightarrow> s \<le> 6 \<Longrightarrow> normalizeBlockIncrementSteps (VNum (num_of_int s)) d = num_of_int s"
  by (simp add: normalizeBlockIncrementSteps_def Let_def js_isFinite_def js_to_Number_def BLOCK_INCREMENT_STEPS_MIN_def BLOCK_INCREMENT_STEPS_MAX_def min_def max_def)

lemma effective_step_int:
  assumes "1 \<le> c" "1 \<le> s" "s \<le> 6"
  shows "blockEffectiveIncrementStep (num_of_int c) (VNum (num_of_int s)) (num_of_int k) = num_of_int (min (max 1 k) s)"
  using assms by (simp add: blockEffectiveIncrementStep_def js_isFinite_def increment_steps_int num_or_def truthy_def max_def min_def)

lemma effective_step_range:
  assumes "js_isFinite c" "js_gt c (Fin 0)" "1 \<le> s" "s \<le> 6"
  shows "\<exists>m. blockEffectiveIncrementStep c (VNum (num_of_int s)) k = num_of_int m \<and> 1 \<le> m \<and> m \<le> s"
proof -
  have "\<not> js_le c (Fin 0)" using assms(1,2) by (cases c) (auto simp: js_isFinite_def)
  moreover have "\<exists>m. js_min (js_max (num_of_int 1) (js_floor k')) (num_of_int s) = num_of_int m \<and> 1 \<le> m \<and> m \<le> s" if "k' \<noteq> NaN" for k'
  proof (cases k')
    case (Fin x)
    then show ?thesis using assms(3)
      by (intro exI [of _ "min (max 1 \<lfloor>x\<rfloor>) s"]) (simp add: of_int_max of_int_min del: of_int_1)
  qed (use assms that in \<open>auto simp: js_max_def js_min_def intro: exI [of _ s] exI [of _ 1]\<close>)
  moreover have "num_or k (num_of_int 1) \<noteq> NaN" by (simp del: of_int_1)
  ultimately show ?thesis
    using assms by (simp add: blockEffectiveIncrementStep_def increment_steps_int del: of_int_1)
qed

text \<open>Whatever was stored before, one outcome leaves a recovery level between one and the normalised
  number of levels, which is between one and six; a winning outcome resets the level to one, clears the count
  of losses and ends the recovery.
\<close>

theorem recovery_level_invariant:
  assumes "js_isFinite (bl_blockCount i)"
  shows "\<exists>k s. incrementStep (advanceBlockCountLifecycle st i) = num_of_int k \<and> incrementSteps (advanceBlockCountLifecycle st i) = num_of_int s \<and>
    1 \<le> k \<and> k \<le> s \<and> s \<le> 6 \<and>
    (js_gt (netPnl i) (Fin 0) \<longrightarrow> k = 1 \<and> nonPositiveCount (advanceBlockCountLifecycle st i) = Fin 0 \<and> \<not> recovering (advanceBlockCountLifecycle st i))"
proof -
  obtain x where x: "bl_blockCount i = Fin x" using assms by (cases "bl_blockCount i") (auto simp: js_isFinite_def)
  obtain s where s: "normalizeBlockIncrementSteps (in_incrementSteps i) BLOCK_INCREMENT_STEPS_DEFAULT = num_of_int s" "1 \<le> s" "s \<le> 6"
    using increment_steps_range by blast
  let ?c = "js_max (num_of_int 1) (js_floor (bl_blockCount i))"
  let ?k = "js_max (prev_num st ''incrementStep'' 1) (num_or (executedIncrementStep i) (num_of_int 1))"
  have "js_isFinite ?c" "js_gt ?c (Fin 0)" by (auto simp: x js_isFinite_def)
  then obtain m where m: "blockEffectiveIncrementStep ?c (VNum (num_of_int s)) ?k = num_of_int m" "1 \<le> m" "m \<le> s"
    using effective_step_range s by meson
  have add: "js_add (num_of_int m) (num_of_int b) = num_of_int (m + b)" if "b = 0 \<or> b = 1" for b
    using that m s by (intro js_add_int) auto
  have "js_min (num_of_int s) (js_add (num_of_int m) (Fin 0)) = num_of_int m" using add [of 0] m by simp
  moreover have "js_min (num_of_int s) (js_add (num_of_int m) (Fin 1)) = num_of_int (min s (m + 1))" using add [of 1] by (simp add: of_int_min)
  moreover have "\<exists>k. rat_of_int m + 1 = rat_of_int k \<and> 1 \<le> k \<and> k \<le> s" if "m < s"
    using that m by (intro exI [of _ "m + 1"]) simp
  ultimately show ?thesis
    using s m by (auto simp: advanceBlockCountLifecycle_def Let_def)
qed

text \<open>The level after \<open>n\<close> losses in a row, and how many losses count towards the next one.\<close>

definition ladder_level :: "int \<Rightarrow> int \<Rightarrow> nat \<Rightarrow> int" where
  "ladder_level c s n = min s (1 + int n div c)"

definition ladder_losses :: "int \<Rightarrow> int \<Rightarrow> nat \<Rightarrow> int" where
  "ladder_losses c s n = (if int n < c * (s - 1) then int n mod c else min c (int n - c * (s - 1)))"

text \<open>
  A close without a profit of a lane of \<open>c\<close> positions and \<open>s\<close> levels, executed at a whole level up to \<open>k\<close>
  (the callers pass the level the position was opened at).
\<close>

definition is_loss :: "int \<Rightarrow> int \<Rightarrow> int \<Rightarrow> block_outcome \<Rightarrow> bool" where
  "is_loss c s k i \<longleftrightarrow> bl_blockCount i = num_of_int c \<and> in_incrementSteps i = VNum (num_of_int s) \<and>
     (case executedIncrementStep i of Fin e \<Rightarrow> e = of_int \<lfloor>e\<rfloor> \<and> e \<le> of_int k | _ \<Rightarrow> False) \<and> js_le (netPnl i) (Fin 0)"

definition at_level :: "int \<Rightarrow> int \<Rightarrow> js_value \<Rightarrow> bool" where
  "at_level k l st \<longleftrightarrow> prev_num st ''incrementStep'' 1 = num_of_int k \<and> prev_num st ''nonPositiveCount'' 0 = num_of_int l"

lemma executed_up_to:
  assumes "is_loss c s k i" "1 \<le> k"
  shows "js_max (num_of_int k) (num_or (executedIncrementStep i) (num_of_int 1)) = num_of_int k"
proof -
  obtain x where x: "executedIncrementStep i = Fin x" "x \<le> of_int k" using assms(1) by (auto simp: is_loss_def split: jsnum.splits)
  then show ?thesis using assms(2) by (simp add: num_or_def truthy_def)
qed

lemma loss_step:
  assumes "1 \<le> c" "c \<le> 2 ^ 50" "1 \<le> s" "s \<le> 6" "is_loss c s k i" "at_level k l st" "1 \<le> k" "k \<le> s" "0 \<le> l" "l \<le> c"
  shows "at_level (if c \<le> l + 1 \<and> k < s then k + 1 else k) (if c \<le> l + 1 \<and> k < s then 0 else min c (l + 1)) (lifecycle_object (advanceBlockCountLifecycle st i))"
proof -
  have np: "\<not> js_gt (netPnl i) (Fin 0)" using assms(5) by (cases "netPnl i") (auto simp: is_loss_def)
  have cnt: "js_max (num_of_int 1) (js_floor (bl_blockCount i)) = num_of_int c" using assms(1,5) by (simp add: is_loss_def)
  note executed_up_to [OF assms(5,7)]
  then have curr: "blockEffectiveIncrementStep (num_of_int c) (VNum (num_of_int s)) (js_max (num_of_int k) (num_or (executedIncrementStep i) (num_of_int 1))) = num_of_int k"
    using assms effective_step_int [of c s k] by (simp del: of_int_1)
  have "js_add (num_of_int l) (num_of_int 1) = num_of_int (l + 1)" "js_add (num_of_int k) (num_of_int 1) = num_of_int (k + 1)"
    "js_add (num_of_int k) (num_of_int 0) = num_of_int (k + 0)" using assms by (intro js_add_int; simp)+
  note add = this
  have steps: "normalizeBlockIncrementSteps (in_incrementSteps i) BLOCK_INCREMENT_STEPS_DEFAULT = num_of_int s"
    using assms increment_steps_int by (simp add: is_loss_def)
  let ?a = "advanceBlockCountLifecycle st i" and ?adv = "c \<le> l + 1 \<and> k < s"
  have "incrementStep ?a = num_of_int (if ?adv then k + 1 else k)" "nonPositiveCount ?a = num_of_int (if ?adv then 0 else min c (l + 1))"
    using assms np cnt curr add steps by (auto simp: advanceBlockCountLifecycle_def Let_def at_level_def)
  then show ?thesis using assms
    by (auto simp: at_level_def prev_num_def js_get_def js_prop_def lifecycle_object_def js_or_def js_truthy_def js_to_Number_def truthy_def)
qed

lemma ladder_Suc:
  assumes "1 \<le> c" "1 \<le> s"
  shows "1 \<le> ladder_level c s n" "ladder_level c s n \<le> s" "0 \<le> ladder_losses c s n" "ladder_losses c s n \<le> c"
    "ladder_level c s (Suc n) = (if c \<le> ladder_losses c s n + 1 \<and> ladder_level c s n < s then ladder_level c s n + 1 else ladder_level c s n)"
    "ladder_losses c s (Suc n) = (if c \<le> ladder_losses c s n + 1 \<and> ladder_level c s n < s then 0 else min c (ladder_losses c s n + 1))"
proof -
  have lt: "int m < c * (s - 1) \<longleftrightarrow> 1 + int m div c < s" for m
  proof
    let ?q = "int m div c" and ?r = "int m mod c"
    have m: "int m = c * ?q + ?r" "0 \<le> ?r" "?r < c" using assms(1) by simp_all
    show "1 + ?q < s" if "int m < c * (s - 1)"
      using that m assms(1) mult_left_mono [of "s - 1" ?q c] by linarith
    show "int m < c * (s - 1)" if "1 + ?q < s"
    proof -
      have "c * ?q + c \<le> c * (s - 1)" using that assms(1) mult_left_mono [of "?q + 1" "s - 1" c] by (simp add: distrib_left)
      with m show ?thesis by linarith
    qed
  qed
  have q: "int (Suc n) div c = int n div c + (if int n mod c + 1 = c then 1 else 0)"
    "int (Suc n) mod c = (if int n mod c + 1 = c then 0 else int n mod c + 1)"
  proof -
    let ?e = "int n mod c + 1 = c"
    have "int (Suc n) = c * (int n div c + (if ?e then 1 else 0)) + (if ?e then 0 else int n mod c + 1)"
      using mult_div_mod_eq [of c "int n"] distrib_left [of c "int n div c" 1] by (smt (verit) of_nat_Suc)
    moreover have "0 \<le> (if ?e then 0 else int n mod c + 1)" "(if ?e then 0 else int n mod c + 1) < c"
      using assms(1) pos_mod_bound [of c "int n"] pos_mod_sign [of c "int n"] by (smt (verit))+
    ultimately show "int (Suc n) div c = int n div c + (if ?e then 1 else 0)" "int (Suc n) mod c = (if ?e then 0 else int n mod c + 1)"
      by (rule int_div_pos_eq, rule int_mod_pos_eq)
  qed
  have last: "int (Suc n) = c * (s - 1)" if "int n < c * (s - 1)" "c * (s - 1) \<le> int (Suc n)"
    using that by simp
  show "1 \<le> ladder_level c s n" "ladder_level c s n \<le> s" "0 \<le> ladder_losses c s n" "ladder_losses c s n \<le> c"
    using assms by (auto simp: ladder_level_def ladder_losses_def pos_imp_zdiv_nonneg_iff intro: less_imp_le)
  show "ladder_level c s (Suc n) = (if c \<le> ladder_losses c s n + 1 \<and> ladder_level c s n < s then ladder_level c s n + 1 else ladder_level c s n)"
    using lt [of n] q assms pos_mod_bound [of c "int n"] unfolding ladder_level_def ladder_losses_def by (smt (verit))
  show "ladder_losses c s (Suc n) = (if c \<le> ladder_losses c s n + 1 \<and> ladder_level c s n < s then 0 else min c (ladder_losses c s n + 1))"
    using lt [of n] lt [of "Suc n"] q assms pos_mod_bound [of c "int n"] last unfolding ladder_level_def ladder_losses_def by (smt (verit) of_nat_Suc)
qed

text \<open>C28. A losing streak climbs the ladder one level per block: from a fresh or reset state (level one, no loss
  counted), after \<open>n\<close> closes without a profit, each executed at a whole level no higher than the lane had
  reached at that close, with block count \<open>c\<close> and \<open>s\<close> levels (one to six), the level is \<open>1 + n div c\<close>, at
  most \<open>s\<close>, and the losses counted towards the next one are \<open>n mod c\<close> below the last level.
\<close>

theorem recovery_ladder:
  assumes "1 \<le> c" "c \<le> 2 ^ 50" "1 \<le> s" "s \<le> 6" "\<forall>j < length os. is_loss c s (ladder_level c s j) (os ! j)" "at_level 1 0 st"
  shows "at_level (ladder_level c s (length os)) (ladder_losses c s (length os)) (foldl (\<lambda>st i. lifecycle_object (advanceBlockCountLifecycle st i)) st os)"
    (is "?P os")
  using assms(5)
proof (induction os rule: rev_induct)
  case Nil
  have "ladder_level c s 0 = 1" "ladder_losses c s 0 = 0" using assms by (cases "s = 1"; simp add: ladder_level_def ladder_losses_def)+
  then show ?case using assms(6) by simp
next
  case (snoc i os)
  note L = ladder_Suc [OF assms(1,3), of "length os"]
  have "?P os" using snoc by (metis length_append_singleton less_Suc_eq nth_append)
  moreover have "is_loss c s (ladder_level c s (length os)) i" using snoc.prems by (metis length_append_singleton lessI nth_append_length)
  ultimately show ?case using loss_step [OF assms(1-4) _ _ L(1-4)] L(5,6) by simp
qed

definition sample_outcome :: "jsnum \<Rightarrow> block_outcome" where
  "sample_outcome pnl = \<lparr>bl_setKey = ''s'', bl_symbol = ''BTCUSDT'', bl_direction = ''long'', bl_sourceKey = ''live'', bl_blockCount = num_of_int 2,
     bl_pauseCount = num_of_int 3, bl_updatedAt = Fin 0, in_incrementSteps = VNum (num_of_int 3), executedIncrementStep = num_of_int 1, netPnl = pnl\<rparr>"

theorem recovery_ladder_witness:
  "at_level 2 1 (foldl (\<lambda>st i. lifecycle_object (advanceBlockCountLifecycle st i)) VUndefined
     [sample_outcome (Fin (- 1)), sample_outcome (Fin 0), sample_outcome (Fin (- 2)) \<lparr>executedIncrementStep := num_of_int 2\<rparr>])"
proof -
  let ?os = "[sample_outcome (Fin (- 1)), sample_outcome (Fin 0), sample_outcome (Fin (- 2)) \<lparr>executedIncrementStep := num_of_int 2\<rparr>]"
  have "ladder_level 2 3 3 = 2" "ladder_losses 2 3 3 = 1" by (simp_all add: ladder_level_def ladder_losses_def)
  moreover have "\<forall>j < length ?os. is_loss 2 3 (ladder_level 2 3 j) (?os ! j)"
    by (simp add: is_loss_def sample_outcome_def ladder_level_def All_less_Suc numeral_eq_Suc)
  moreover have "at_level 1 0 VUndefined" by (simp add: at_level_def prev_num_def js_get_def js_or_def js_truthy_def js_to_Number_def)
  ultimately show ?thesis using recovery_ladder [of 2 3 ?os VUndefined] by (simp del: foldl.simps add: numeral_eq_Suc)
qed

theorem recovery_level_invariant_witness:
  "\<exists>k s. incrementStep (advanceBlockCountLifecycle VUndefined (sample_outcome (Fin 1))) = num_of_int k \<and>
     incrementSteps (advanceBlockCountLifecycle VUndefined (sample_outcome (Fin 1))) = num_of_int s \<and> k = 1 \<and> s \<le> 6"
proof -
  have "js_isFinite (bl_blockCount (sample_outcome (Fin 1)))" "js_gt (netPnl (sample_outcome (Fin 1))) (Fin 0)"
    by (simp_all add: sample_outcome_def js_isFinite_def)
  with recovery_level_invariant [of "sample_outcome (Fin 1)" VUndefined] show ?thesis by blast
qed

end
