(* ===== verification/DcaStrategy.thy ===== *)
theory DcaStrategy
  imports RecoveryLevels
begin

text \<open>
  The averaging-down lane (\<open>lib/dca-strategy.ts\<close>): normalisation of a profile from nested, flat, JSON and
  per-step settings, merging of setting layers, the choice of the next step, the quantity of a step,
  the ledger of filled legs and the take-profit price.  Settings are \<open>js_value\<close>s, numbers doubles.
\<close>

subsection \<open>Profiles\<close>

datatype DcaTakeProfitMode = Average | First_entry | Breakeven_plus

definition MAX_DCA_POSITION_VOLUME_RATIO :: jsnum where "MAX_DCA_POSITION_VOLUME_RATIO = num_of_int 5"
definition MIN_DCA_POSITION_VOLUME_RATIO :: jsnum where "MIN_DCA_POSITION_VOLUME_RATIO = fl (14 / 10)"

record DcaProfile =
  maxSteps :: jsnum
  stepVolumeMultipliers :: "jsnum list"
  stepDistancesPct :: "jsnum list"
  takeProfitMode :: DcaTakeProfitMode
  breakevenProfitPct :: jsnum
  cooldownSeconds :: jsnum
  maxPositionVolumeRatio :: jsnum
  dca_incrementSteps :: jsnum

definition normalizeDcaIncrementSteps :: "js_value \<Rightarrow> jsnum \<Rightarrow> jsnum" where
  "normalizeDcaIncrementSteps v fallback = normalizeBlockIncrementSteps v fallback"

definition calculateDcaStepVolumeRatio :: "jsnum \<Rightarrow> jsnum \<Rightarrow> js_value \<Rightarrow> jsnum" where
  "calculateDcaStepVolumeRatio stepRatio recoveryLevel steps =
     (if \<not> js_isFinite stepRatio \<or> js_le stepRatio (Fin 0) then Fin 0
      else num_toFixed 12 (js_mul stepRatio (blockEffectiveIncrementStep (num_of_int 1) steps recoveryLevel)))"

definition DEFAULT_DCA_PROFILE :: DcaProfile where
  "DEFAULT_DCA_PROFILE = \<lparr>maxSteps = num_of_int 4, stepVolumeMultipliers = [num_of_int 1, num_of_int 1, num_of_int 1, num_of_int 1],
     stepDistancesPct = [fl (3 / 10), fl (6 / 10), num_of_int 1, fl (16 / 10)], takeProfitMode = Average, breakevenProfitPct = fl (2 / 10),
     cooldownSeconds = num_of_int 30, maxPositionVolumeRatio = MAX_DCA_POSITION_VOLUME_RATIO, dca_incrementSteps = BLOCK_INCREMENT_STEPS_DEFAULT\<rparr>"

text \<open>\<open>s.split(/[p]+/).filter(Boolean)\<close>.\<close>

function words_by :: "(char \<Rightarrow> bool) \<Rightarrow> string \<Rightarrow> string list" where
  "words_by p s = (let t = dropWhile p s in if t = [] then [] else takeWhile (\<lambda>c. \<not> p c) t # words_by p (dropWhile (\<lambda>c. \<not> p c) t))"
  by pat_completeness auto
termination
proof (relation "measure (\<lambda>(p, s). length s)")
  fix p :: "char \<Rightarrow> bool" and s t
  assume t: "t = dropWhile p s" "t \<noteq> []"
  then obtain c r where c: "t = c # r" "\<not> p c" by (metis hd_dropWhile list.collapse)
  have "length (dropWhile (\<lambda>c. \<not> p c) t) \<le> length r" using c length_dropWhile_le [of "\<lambda>c. \<not> p c" r] by simp
  also have "\<dots> < length t" using c by simp
  also have "\<dots> \<le> length s" unfolding t(1) by (rule length_dropWhile_le)
  finally show "((p, dropWhile (\<lambda>c. \<not> p c) t), p, s) \<in> measure (\<lambda>(p, s). length s)" by simp
qed simp

declare words_by.simps [simp del]

definition parseArray :: "js_value \<Rightarrow> js_value list" where
  "parseArray raw = (case raw of
     VArr xs \<Rightarrow> xs
   | VStr s \<Rightarrow>
       let trimmed = trim s
       in if trimmed = [] then []
          else if starts_with ''['' trimmed then (case json_parse trimmed of Some (VArr xs) \<Rightarrow> xs | _ \<Rightarrow> [])
          else map VStr (words_by (\<lambda>c. is_space c \<or> c = CHR '','' \<or> c = CHR ''|'') trimmed)
   | _ \<Rightarrow> [])"

definition finiteInRange :: "js_value \<Rightarrow> jsnum \<Rightarrow> jsnum \<Rightarrow> jsnum \<Rightarrow> jsnum" where
  "finiteInRange raw fallback lo hi = (let v = js_to_Number raw in if js_isFinite v then js_max lo (js_min hi v) else fallback)"

definition list_item :: "js_value list \<Rightarrow> nat \<Rightarrow> js_value" where
  "list_item xs i = (if i < length xs then xs ! i else VUndefined)"

definition resolveStepArray :: "js_value \<Rightarrow> (string \<times> js_value) list \<Rightarrow> string \<Rightarrow> jsnum list \<Rightarrow> jsnum \<Rightarrow> jsnum \<Rightarrow> jsnum list" where
  "resolveStepArray rawArray source legacyPrefix defaults lo hi =
     map (\<lambda>i. finiteInRange (js_nullish (list_item (parseArray rawArray) i) (js_prop source (legacyPrefix @ string_of_int (int i + 1)))) (defaults ! i) lo hi) [0..<4]"

text \<open>The ladder: each step is clipped against what the earlier ones left, then kept to six decimals.\<close>

fun clip_ladder :: "jsnum \<Rightarrow> jsnum list \<Rightarrow> jsnum list" where
  "clip_ladder rest [] = []"
| "clip_ladder rest (v # vs) =
     (let bounded = js_max (Fin 0) (js_min v rest)
      in js_div (js_round (js_mul bounded (num_of_int 1000000))) (num_of_int 1000000) # clip_ladder (js_max (Fin 0) (js_sub rest bounded)) vs)"

definition last_executable :: "jsnum list \<Rightarrow> nat" where
  "last_executable vs = foldl (\<lambda>lst (v, i). if js_gt v (Fin 0) then Suc i else lst) 0 (zip vs [0..<length vs])"

fun running_max :: "jsnum list \<Rightarrow> jsnum list \<Rightarrow> jsnum list" where
  "running_max acc [] = acc"
| "running_max acc (v # vs) = running_max (acc @ [if acc = [] then v else js_max v (last acc)]) vs"

definition source_object :: "js_value \<Rightarrow> (string \<times> js_value) list" where
  "source_object raw = (case raw of VObj kvs \<Rightarrow> kvs | _ \<Rightarrow> [])"

definition normalizeDcaProfile :: "js_value \<Rightarrow> DcaProfile" where
  "normalizeDcaProfile raw =
     (let source = source_object raw; field = js_prop source;
          steps = js_floor (finiteInRange (js_nullish (field ''maxSteps'') (field ''dcaMaxSteps'')) (maxSteps DEFAULT_DCA_PROFILE) (num_of_int 1) (num_of_int 4));
          incr = normalizeDcaIncrementSteps (js_nullish (field ''incrementSteps'') (field ''dcaIncrementSteps'')) (dca_incrementSteps DEFAULT_DCA_PROFILE);
          ratio = finiteInRange (js_nullish (field ''maxPositionVolumeRatio'') (js_nullish (field ''dcaMaxPositionVolumeRatio'') (field ''dcaMaxVolumeRatio'')))
                    (maxPositionVolumeRatio DEFAULT_DCA_PROFILE) MIN_DCA_POSITION_VOLUME_RATIO MAX_DCA_POSITION_VOLUME_RATIO;
          requested = resolveStepArray (js_nullish (field ''stepVolumeMultipliers'') (field ''dcaStepVolumeMultipliers'')) source ''dcaStepVolume''
                        (stepVolumeMultipliers DEFAULT_DCA_PROFILE) (fl (1 / 10)) (fl (25 / 10));
          multipliers = clip_ladder (js_max (Fin 0) (js_sub ratio (num_of_int 1))) requested;
          lastStep = last_executable multipliers;
          executable = js_max (num_of_int 1) (js_min steps (num_of_int (if lastStep = 0 then 1 else int lastStep)));
          distances = running_max [] (resolveStepArray (js_nullish (field ''stepDistancesPct'') (field ''dcaStepDistancesPct'')) source ''dcaStepDistance''
                        (stepDistancesPct DEFAULT_DCA_PROFILE) (fl (1 / 10)) (num_of_int 20));
          mode = js_String (js_nullish (field ''takeProfitMode'') (js_nullish (field ''dcaTakeProfitMode'')
                   (js_nullish (field ''dcaTakeProfitAdjustment'') (VStr ''average''))))
      in \<lparr>maxSteps = executable, stepVolumeMultipliers = multipliers, stepDistancesPct = distances,
          takeProfitMode = (if mode = ''first_entry'' then First_entry else if mode = ''breakeven_plus'' then Breakeven_plus else Average),
          breakevenProfitPct = finiteInRange (js_nullish (field ''breakevenProfitPct'') (field ''dcaBreakevenProfitPct''))
            (breakevenProfitPct DEFAULT_DCA_PROFILE) (fl (5 / 100)) (num_of_int 5),
          cooldownSeconds = js_round (finiteInRange (js_nullish (field ''cooldownSeconds'') (field ''dcaCooldownSeconds''))
            (cooldownSeconds DEFAULT_DCA_PROFILE) (Fin 0) (num_of_int 3600)),
          maxPositionVolumeRatio = ratio, dca_incrementSteps = incr\<rparr>)"

subsection \<open>Layers\<close>

definition hasOwn :: "(string \<times> js_value) list \<Rightarrow> string \<Rightarrow> bool" where
  "hasOwn source key = (map_of source key \<noteq> None)"

definition merge_field :: "string list \<Rightarrow> (string \<times> js_value) list \<Rightarrow> (string \<times> js_value) list \<Rightarrow> (string \<times> js_value) list" where
  "merge_field names source merged =
     (if list_ex (hasOwn source) names
      then AList.update (hd names) (foldr (\<lambda>n v. js_nullish (js_prop source n) v) (butlast names) (js_prop source (last names))) merged
      else merged)"

definition merge_steps :: "string list \<Rightarrow> string \<Rightarrow> jsnum list \<Rightarrow> (string \<times> js_value) list \<Rightarrow> (string \<times> js_value) list \<Rightarrow> (string \<times> js_value) list" where
  "merge_steps names pre vals source merged =
     (if list_ex (hasOwn source) names then merge_field names source merged
      else if list_ex (\<lambda>i. hasOwn source (pre @ string_of_int (int i + 1))) [0..<4]
      then AList.update (hd names)
             (VArr (map (\<lambda>i. if hasOwn source (pre @ string_of_int (int i + 1)) then js_prop source (pre @ string_of_int (int i + 1))
                            else VNum (vals ! i)) [0..<4])) merged
      else merged)"

definition merge_layer :: "js_value \<Rightarrow> (string \<times> js_value) list \<Rightarrow> (string \<times> js_value) list" where
  "merge_layer raw merged = (case raw of
     VObj source \<Rightarrow>
       let curr = normalizeDcaProfile (VObj merged)
       in (merge_field [''maxPositionVolumeRatio'', ''dcaMaxPositionVolumeRatio'', ''dcaMaxVolumeRatio''] source \<circ>
           merge_field [''cooldownSeconds'', ''dcaCooldownSeconds''] source \<circ>
           merge_field [''breakevenProfitPct'', ''dcaBreakevenProfitPct''] source \<circ>
           merge_field [''takeProfitMode'', ''dcaTakeProfitMode'', ''dcaTakeProfitAdjustment''] source \<circ>
           merge_steps [''stepDistancesPct'', ''dcaStepDistancesPct''] ''dcaStepDistance'' (stepDistancesPct curr) source \<circ>
           merge_steps [''stepVolumeMultipliers'', ''dcaStepVolumeMultipliers''] ''dcaStepVolume'' (stepVolumeMultipliers curr) source \<circ>
           merge_field [''maxSteps'', ''dcaMaxSteps''] source) (js_spread merged source)
   | _ \<Rightarrow> merged)"

definition mergeDcaProfileSources :: "js_value list \<Rightarrow> DcaProfile" where
  "mergeDcaProfileSources sources = normalizeDcaProfile (VObj (fold merge_layer sources []))"

subsection \<open>Steps of a position\<close>

datatype dca_direction = Dca_long | Dca_short

record DcaLegState =
  setKey :: string
  leg_step :: jsnum
  baseQuantity :: jsnum
  volumeMultiplier :: jsnum
  triggerDistancePct :: jsnum
  requestedQuantity :: jsnum
  leg_quantity :: jsnum
  targetQuantity :: "jsnum option"
  targetSatisfied :: "bool option"
  referencePrice :: jsnum
  positionQuantityAfter :: "jsnum option"
  clientOrderId :: "string option"
  leg_orderId :: "string option"
  filledPrice :: "jsnum option"
  filledAt :: "jsnum option"

text \<open>\<open>s.replace(/#step:\d+$/i, "")\<close>: the digits at the end, when the marker stands before them.\<close>

definition strip_step :: "string \<Rightarrow> string" where
  "strip_step s =
     (let ds = takeWhile is_digit (rev s); pre = rev (drop (length ds) (rev s)); n = length pre - 6
      in if ds \<noteq> [] \<and> 6 \<le> length pre \<and> toLowerCase (drop n pre) = ''#step:'' then take n pre else s)"

definition buildDcaStepSetKey :: "string \<Rightarrow> jsnum \<Rightarrow> string" where
  "buildDcaStepSetKey key stp =
     (let base = strip_step (trim key);
          normalizedStep = js_max (num_of_int 1) (js_min (num_of_int 4) (js_floor (num_or stp (num_of_int 1))))
      in (if base \<noteq> [] then base else ''dca'') @ ''#step:'' @ string_of_num normalizedStep)"

definition adverseMovePct :: "dca_direction \<Rightarrow> jsnum \<Rightarrow> jsnum \<Rightarrow> jsnum" where
  "adverseMovePct dir ref cur =
     (if \<not> js_isFinite ref \<or> js_le ref (Fin 0) then Fin 0
      else if \<not> js_isFinite cur \<or> js_le cur (Fin 0) then Fin 0
      else js_max (Fin 0) (js_mul (case dir of Dca_short \<Rightarrow> js_div (js_sub cur ref) ref | Dca_long \<Rightarrow> js_div (js_sub ref cur) ref) (num_of_int 100)))"

record dca_args =
  arg_direction :: dca_direction
  arg_referencePrice :: jsnum
  arg_currentPrice :: jsnum
  arg_profile :: DcaProfile
  arg_legs :: "DcaLegState list option"
  arg_pendingStep :: "jsnum option"
  arg_now :: jsnum

record dca_step =
  next_step :: jsnum
  next_volumeMultiplier :: jsnum
  next_triggerDistancePct :: jsnum
  next_adverseMovePct :: jsnum

definition num_item :: "jsnum list \<Rightarrow> nat \<Rightarrow> jsnum" where
  "num_item xs i = (if i < length xs then xs ! i else NaN)"

definition completed_steps :: "DcaLegState list \<Rightarrow> jsnum list" where
  "completed_steps legs = map (\<lambda>l. js_floor (leg_step l)) (filter (\<lambda>l. js_gt (leg_quantity l) (Fin 0) \<and> targetSatisfied l \<noteq> Some False) legs)"

definition last_filled_at :: "DcaLegState list \<Rightarrow> jsnum" where
  "last_filled_at legs = foldl (\<lambda>latest l. js_max latest (num_or (opt_num (filledAt l)) (Fin 0))) (Fin 0) legs"

text \<open>
  The loop over the steps.  It skips only completed steps, so it leaves its list of as many candidates
  as there are completed steps, and one more, before the list ends.
\<close>

fun next_step_loop :: "DcaProfile \<Rightarrow> jsnum list \<Rightarrow> jsnum \<Rightarrow> nat list \<Rightarrow> dca_step option" where
  "next_step_loop p done adverse [] = None"
| "next_step_loop p done adverse (k # ks) =
     (if \<not> js_le (num_of_int (int k)) (maxSteps p) then None
      else if num_of_int (int k) \<in> set done then next_step_loop p done adverse ks
      else if js_lt (js_add adverse (fl (1 / 10 ^ 12))) (num_item (stepDistancesPct p) (k - 1)) then None
      else Some \<lparr>next_step = num_of_int (int k), next_volumeMultiplier = num_item (stepVolumeMultipliers p) (k - 1),
                 next_triggerDistancePct = num_item (stepDistancesPct p) (k - 1), next_adverseMovePct = adverse\<rparr>)"

definition resolveNextDcaStep :: "dca_args \<Rightarrow> dca_step option" where
  "resolveNextDcaStep a =
     (if truthy (opt_num (arg_pendingStep a)) \<and> js_gt (opt_num (arg_pendingStep a)) (Fin 0) then None
      else let legs = (case arg_legs a of Some ls \<Rightarrow> ls | None \<Rightarrow> []); done = completed_steps legs; lastFilledAt = last_filled_at legs
           in if js_gt lastFilledAt (Fin 0) \<and> js_lt (js_sub (arg_now a) lastFilledAt) (js_mul (cooldownSeconds (arg_profile a)) (num_of_int 1000)) then None
              else next_step_loop (arg_profile a) done (adverseMovePct (arg_direction a) (arg_referencePrice a) (arg_currentPrice a)) [1..<length done + 2])"

definition calculateDcaAddQuantity :: "jsnum \<Rightarrow> jsnum \<Rightarrow> jsnum \<Rightarrow> jsnum \<Rightarrow> jsnum" where
  "calculateDcaAddQuantity base multiplier curq maxRatio =
     (if \<not> js_isFinite base \<or> js_le base (Fin 0) then Fin 0
      else if \<not> js_isFinite multiplier \<or> js_le multiplier (Fin 0) then Fin 0
      else let requested = js_mul base multiplier;
               boundedMaxRatio = finiteInRange (VNum maxRatio) MAX_DCA_POSITION_VOLUME_RATIO MIN_DCA_POSITION_VOLUME_RATIO MAX_DCA_POSITION_VOLUME_RATIO;
               curr = (if js_isFinite curq \<and> js_gt curq (Fin 0) then curq else base);
               rest = js_max (Fin 0) (js_sub (js_mul base boundedMaxRatio) curr)
           in js_max (Fin 0) (js_min requested rest))"

definition calculateDcaPositionVolumeRatio :: "jsnum \<Rightarrow> jsnum \<Rightarrow> jsnum" where
  "calculateDcaPositionVolumeRatio base curq =
     (if \<not> js_isFinite base \<or> js_le base (Fin 0) then Fin 0
      else js_div (if js_isFinite curq then js_max (Fin 0) curq else Fin 0) base)"

text \<open>\<open>{...old, ...next}\<close>: an optional field the new leg does not have keeps its old value.\<close>

definition merge_leg :: "DcaLegState \<Rightarrow> DcaLegState \<Rightarrow> DcaLegState" where
  "merge_leg old new = new\<lparr>
     targetQuantity := (if targetQuantity new = None then targetQuantity old else targetQuantity new),
     targetSatisfied := (if targetSatisfied new = None then targetSatisfied old else targetSatisfied new),
     positionQuantityAfter := (if positionQuantityAfter new = None then positionQuantityAfter old else positionQuantityAfter new),
     clientOrderId := (if clientOrderId new = None then clientOrderId old else clientOrderId new),
     leg_orderId := (if leg_orderId new = None then leg_orderId old else leg_orderId new),
     filledPrice := (if filledPrice new = None then filledPrice old else filledPrice new),
     filledAt := (if filledAt new = None then filledAt old else filledAt new)\<rparr>"

definition same_leg :: "DcaLegState \<Rightarrow> DcaLegState \<Rightarrow> bool" where
  "same_leg a b \<longleftrightarrow> js_eq (leg_step a) (leg_step b) \<and> setKey a = setKey b"

fun put_leg :: "DcaLegState \<Rightarrow> DcaLegState list \<Rightarrow> DcaLegState list" where
  "put_leg new [] = [new]"
| "put_leg new (l # ls) = (if same_leg l new then merge_leg l new # ls else l # put_leg new ls)"

definition upsertDcaLeg :: "DcaLegState list option \<Rightarrow> DcaLegState \<Rightarrow> DcaLegState list" where
  "upsertDcaLeg legs new =
     (let out = put_leg new (case legs of Some ls \<Rightarrow> ls | None \<Rightarrow> []);
          sorted = stable_sort (\<lambda>a b. js_lt (js_sub (leg_step a) (leg_step b)) (Fin 0)) out
      in drop (length sorted - 4) sorted)"

definition calculateDcaTakeProfitPrice :: "dca_direction \<Rightarrow> DcaProfile \<Rightarrow> jsnum \<Rightarrow> jsnum \<Rightarrow> jsnum \<Rightarrow> jsnum" where
  "calculateDcaTakeProfitPrice dir p initial average takeProfitPct =
     (if \<not> js_isFinite average \<or> js_le average (Fin 0) then Fin 0
      else let ref = (if takeProfitMode p = First_entry \<and> js_gt initial (Fin 0) then initial else average);
               targetPct = (if takeProfitMode p = Breakeven_plus then breakevenProfitPct p else js_max (Fin 0) (num_or takeProfitPct (Fin 0)))
           in if js_le targetPct (Fin 0) then Fin 0
              else case dir of
                Dca_short \<Rightarrow> js_mul ref (js_sub (num_of_int 1) (js_div targetPct (num_of_int 100)))
              | Dca_long \<Rightarrow> js_mul ref (js_add (num_of_int 1) (js_div targetPct (num_of_int 100))))"

section \<open>The next step\<close>

lemma next_step_loop_Some:
  "next_step_loop p don adv [i..<n] = Some r \<longleftrightarrow>
   (\<exists>k. i \<le> k \<and> k < n \<and> num_of_int (int k) \<notin> set don \<and> (\<forall>j. i \<le> j \<and> j < k \<longrightarrow> num_of_int (int j) \<in> set don) \<and>
        js_le (num_of_int (int k)) (maxSteps p) \<and> \<not> js_lt (js_add adv (fl (1 / 10 ^ 12))) (num_item (stepDistancesPct p) (k - 1)) \<and>
        r = \<lparr>next_step = num_of_int (int k), next_volumeMultiplier = num_item (stepVolumeMultipliers p) (k - 1),
             next_triggerDistancePct = num_item (stepDistancesPct p) (k - 1), next_adverseMovePct = adv\<rparr>)"
  (is "?L i = _ \<longleftrightarrow> (\<exists>k. ?P i k)")
proof (induction "n - i" arbitrary: i)
  case (Suc m)
  then have i: "i < n" by simp
  have IH: "?L (Suc i) = Some r \<longleftrightarrow> (\<exists>k. ?P (Suc i) k)" using Suc by simp
  have unfold: "[i..<n] = i # [Suc i..<n]" using i by (rule upt_conv_Cons)
  have mono: "js_le (num_of_int (int i)) (maxSteps p)" if "i \<le> k" "js_le (num_of_int (int k)) (maxSteps p)" for k
    using that(2) by (rule js_le_trans [rotated]) (use that(1) in simp)
  show ?case
  proof (cases "num_of_int (int i) \<in> set don")
    case True
    have "?P i k \<longleftrightarrow> ?P (Suc i) k" for k
      using True i by (smt (verit) Suc_leD Suc_leI le_neq_implies_less)
    then show ?thesis unfolding unfold using True IH mono by (auto simp del: upt_Suc)
  next
    case False
    have "?P i k \<Longrightarrow> k = i" for k using False by (metis le_neq_implies_less order_refl)
    then show ?thesis unfolding unfold using False i by (auto simp del: upt_Suc)
  qed
qed auto

lemma first_open_bound:
  assumes "\<forall>j. 1 \<le> j \<and> j < k \<longrightarrow> num_of_int (int j) \<in> set don"
  shows "k < length don + 2"
proof -
  have "card ((\<lambda>j. num_of_int (int j)) ` {1..<k}) = k - 1" by (subst card_image) (auto simp: inj_on_def)
  moreover have "card ((\<lambda>j. num_of_int (int j)) ` {1..<k}) \<le> card (set don)" using assms by (intro card_mono) auto
  ultimately show ?thesis using card_length [of don] by linarith
qed
lemma open_step_exact:
  "next_step_loop p don adv [1..<length don + 2] = Some r \<longleftrightarrow>
   (\<exists>k \<ge> 1. num_of_int (int k) \<notin> set don \<and> (\<forall>j. 1 \<le> j \<and> j < k \<longrightarrow> num_of_int (int j) \<in> set don) \<and>
        js_le (num_of_int (int k)) (maxSteps p) \<and> \<not> js_lt (js_add adv (fl (1 / 10 ^ 12))) (num_item (stepDistancesPct p) (k - 1)) \<and>
        r = \<lparr>next_step = num_of_int (int k), next_volumeMultiplier = num_item (stepVolumeMultipliers p) (k - 1),
             next_triggerDistancePct = num_item (stepDistancesPct p) (k - 1), next_adverseMovePct = adv\<rparr>)"
  unfolding next_step_loop_Some using first_open_bound by (intro iff_exI iffI conjI; elim conjE) blast+

text \<open>C13. The next averaging step is the least step no satisfied leg covers: it is offered exactly when no
  step is pending, the cooldown since the last fill has passed, the step is within the profile's
  number of steps and the adverse move has reached its trigger; otherwise there is none.
\<close>

theorem dca_next_step_exact:
  "resolveNextDcaStep a = Some r \<longleftrightarrow>
     (let p = arg_profile a; legs = (case arg_legs a of Some ls \<Rightarrow> ls | None \<Rightarrow> []);
          adverse = adverseMovePct (arg_direction a) (arg_referencePrice a) (arg_currentPrice a)
      in \<not> js_gt (opt_num (arg_pendingStep a)) (Fin 0) \<and>
         (js_gt (last_filled_at legs) (Fin 0) \<longrightarrow> \<not> js_lt (js_sub (arg_now a) (last_filled_at legs)) (js_mul (cooldownSeconds p) (num_of_int 1000))) \<and>
         (\<exists>k \<ge> 1. num_of_int (int k) \<notin> set (completed_steps legs) \<and> (\<forall>j. 1 \<le> j \<and> j < k \<longrightarrow> num_of_int (int j) \<in> set (completed_steps legs)) \<and>
            js_le (num_of_int (int k)) (maxSteps p) \<and> \<not> js_lt (js_add adverse (fl (1 / 10 ^ 12))) (num_item (stepDistancesPct p) (k - 1)) \<and>
            r = \<lparr>next_step = num_of_int (int k), next_volumeMultiplier = num_item (stepVolumeMultipliers p) (k - 1),
                 next_triggerDistancePct = num_item (stepDistancesPct p) (k - 1), next_adverseMovePct = adverse\<rparr>))"
proof -
  have pending: "truthy (opt_num x) \<and> js_gt (opt_num x) (Fin 0) \<longleftrightarrow> js_gt (opt_num x) (Fin 0)" for x
    by (cases "opt_num x") (auto simp: truthy_def)
  show ?thesis unfolding resolveNextDcaStep_def Let_def pending by (simp only: open_step_exact [symmetric] split: if_split) blast
qed

definition sample_leg :: DcaLegState where
  "sample_leg = \<lparr>setKey = ''s#dca'', leg_step = Fin 1, baseQuantity = Fin 1, volumeMultiplier = Fin 1, triggerDistancePct = Fin 1, requestedQuantity = Fin 1,
     leg_quantity = Fin 1, targetQuantity = None, targetSatisfied = None, referencePrice = Fin 100, positionQuantityAfter = None, clientOrderId = None,
     leg_orderId = None, filledPrice = None, filledAt = Some (Fin 1000)\<rparr>"

definition sample_args :: dca_args where
  "sample_args = \<lparr>arg_direction = Dca_short, arg_referencePrice = Fin 64, arg_currentPrice = Fin 128, arg_profile = DEFAULT_DCA_PROFILE\<lparr>stepDistancesPct := [Fin 1, Fin 2, Fin 4, Fin 8]\<rparr>,
     arg_legs = Some [sample_leg], arg_pendingStep = None, arg_now = Fin 100000\<rparr>"

theorem dca_next_step_exact_witness:
  "\<exists>r. resolveNextDcaStep sample_args = Some r \<and> next_step r = num_of_int 2"
proof -
  have "js_sub (Fin 128) (Fin 64) = Fin 64" using js_sub_int [of 128 64] by simp
  then have adv: "adverseMovePct Dca_short (Fin 64) (Fin 128) = Fin 100"
    using fl_of_int [of 1] fl_of_int [of 100] by (simp add: adverseMovePct_def js_isFinite_def)
  have "js_le (js_add (Fin 100) (Fin 0)) (js_add (Fin 100) (fl (1 / 10 ^ 12)))"
    using fl_mono [of 0 "1 / 10 ^ 12"] by (intro js_add_mono_left) simp
  moreover have "js_add (Fin 100) (Fin 0) = Fin 100" using fl_of_int [of 100] by simp
  ultimately have "\<not> js_lt (js_add (Fin 100) (fl (1 / 10 ^ 12))) (Fin 2)"
    by (cases "js_add (Fin 100) (fl (1 / 10 ^ 12))") auto
  moreover have "js_sub (Fin 100000) (Fin 1000) = num_of_int 99000" "js_mul (Fin 30) (Fin 1000) = num_of_int 30000"
    using js_sub_int [of 100000 1000] js_mul_int [of 30 1000] by simp_all
  ultimately have "resolveNextDcaStep sample_args \<noteq> None"
    using adv by (simp add: resolveNextDcaStep_def sample_args_def sample_leg_def opt_num_def truthy_def completed_steps_def last_filled_at_def num_or_def
        Let_def DEFAULT_DCA_PROFILE_def num_item_def upt_rec)
  then obtain r where r: "resolveNextDcaStep sample_args = Some r" by blast
  then have "next_step r = num_of_int 2"
  proof -
    have d: "completed_steps [sample_leg] = [num_of_int 1]" by (simp add: completed_steps_def sample_leg_def)
    from r [unfolded dca_next_step_exact] obtain k where k: "1 \<le> k" "num_of_int (int k) \<notin> set (completed_steps [sample_leg])"
        "\<forall>j. 1 \<le> j \<and> j < k \<longrightarrow> num_of_int (int j) \<in> set (completed_steps [sample_leg])" "next_step r = num_of_int (int k)"
      by (auto simp: Let_def sample_args_def)
    have "\<not> 2 < k" using k(3) [rule_format, of 2] unfolding d by auto
    then have "k = 2" using k(1,2) unfolding d by (cases "k = 1") auto
    then show ?thesis using k(4) by simp
  qed
  with r show ?thesis by blast
qed

section \<open>The quantity of a step\<close>

lemma finiteInRange_bounds:
  assumes "lo \<le> hi" "lo \<le> d" "d \<le> hi"
  shows "\<exists>x. finiteInRange v (Fin d) (Fin lo) (Fin hi) = Fin x \<and> lo \<le> x \<and> x \<le> hi"
  using assms by (cases "js_to_Number v") (auto simp: finiteInRange_def js_isFinite_def Let_def)

lemma fl_above:
  assumes "is_dbl (Fin lo)" "lo \<le> x" "x \<le> of_int h" "\<bar>h\<bar> \<le> 2 ^ 53"
  shows "\<exists>y. fl x = Fin y \<and> lo \<le> y \<and> y \<le> of_int h"
  using fl_between [OF assms(1) is_dbl_int [OF assms(4)] assms(2,3)] by blast

lemma position_ratio_open:
  "\<exists>x. finiteInRange v MAX_DCA_POSITION_VOLUME_RATIO MIN_DCA_POSITION_VOLUME_RATIO MAX_DCA_POSITION_VOLUME_RATIO = Fin x \<and> 5 / 4 \<le> x \<and> x \<le> 5"
proof -
  have "is_dbl (Fin (5 / 4))" using fl_rat_exact [of 5 "- 2"] by (simp add: is_dbl_def power_int_def power_one_over)
  then obtain y where "fl (14 / 10) = Fin y" "5 / 4 \<le> y" "y \<le> 5" using fl_above [of "5 / 4" "14 / 10" 5] by auto
  then show ?thesis using finiteInRange_bounds [of y 5 5 v] by (auto simp: MAX_DCA_POSITION_VOLUME_RATIO_def MIN_DCA_POSITION_VOLUME_RATIO_def)
qed

lemma scaled_quantity:
  assumes "0 < b" "b \<le> 2 ^ 1000" "0 \<le> x" "x \<le> 2 ^ 10"
  shows "js_mul (Fin b) (Fin x) = Fin (fl_rat (b * x))" "0 \<le> fl_rat (b * x)" "fl_rat (b * x) \<le> 2 powi 1010"
proof -
  have "b * x \<le> 2 ^ 1000 * 2 ^ 10" using assms by (intro mult_mono) simp_all
  then have "\<bar>b * x\<bar> \<le> 2 powi 1010" using assms(1,3) by (simp add: power_int_def abs_mult flip: power_add)
  then show "js_mul (Fin b) (Fin x) = Fin (fl_rat (b * x))" "fl_rat (b * x) \<le> 2 powi 1010"
    using fl_bounded [of "b * x" 1010] fl_rat_abs_le_pow2 [of "b * x" 1010] by simp_all
  show "0 \<le> fl_rat (b * x)" using assms by (simp add: fl_rat_nonneg)
qed

lemma room_below:
  assumes "B \<le> 2 powi 1010" "0 < c"
  shows "js_max (Fin 0) (js_sub (Fin B) (Fin c)) = Fin (if B \<le> c then 0 else fl_rat (B - c))" "0 \<le> (if B \<le> c then 0 else fl_rat (B - c))"
proof -
  show "js_max (Fin 0) (js_sub (Fin B) (Fin c)) = Fin (if B \<le> c then 0 else fl_rat (B - c))"
  proof (cases "B \<le> c")
    case True
    then have "js_le (fl (B - c)) (Fin 0)" using fl_mono [of "B - c" 0] by simp
    then show ?thesis using True by (cases "fl (B - c)") (auto simp: js_sub_def js_max_def)
  next
    case False
    then have "\<bar>B - c\<bar> \<le> 2 powi 1010" using assms by linarith
    then have "fl (B - c) = Fin (fl_rat (B - c))" by (rule fl_bounded) simp_all
    then show ?thesis using False fl_rat_nonneg [of "B - c"] by (simp add: js_sub_def max_def)
  qed
qed (simp add: fl_rat_nonneg)

lemma room_rounding:
  assumes "is_dbl (Fin c)" "0 < c" "fl_rat B = B" "c < B"
  shows "c + fl_rat (B - c) \<le> B * (1 + 2 powi (- 53))"
proof -
  have "fl_rat c = c" using assms(1) by (simp add: is_dbl_def)
  then have "fl_rat (B - c) \<le> (B - c) * (1 + 2 powi (- 53))" using assms by (intro fl_rat_diff_rel_err) simp_all
  moreover have "c * 1 \<le> c * (1 + 2 powi (- 53))" using assms(2) by (intro mult_left_mono) simp_all
  ultimately show ?thesis unfolding left_diff_distrib by linarith
qed

text \<open>C7. An averaging order never takes the position past its ceiling: the added quantity is at most what
  was requested and, up to one rounding, at most what is left below the ceiling, which is the first
  fill times a ratio of at most five; at or above the ceiling nothing is added.
\<close>

theorem dca_add_within_ceiling:
  assumes "0 < b" "b \<le> 2 ^ 1000" "is_dbl (Fin c)" "0 < c" "0 < m" "m \<le> 2 ^ 10"
  shows "\<exists>q ceiling. calculateDcaAddQuantity (Fin b) (Fin m) (Fin c) maxRatio = Fin q \<and> 0 \<le> q \<and> js_le (Fin q) (js_mul (Fin b) (Fin m)) \<and>
     js_mul (Fin b) (finiteInRange (VNum maxRatio) MAX_DCA_POSITION_VOLUME_RATIO MIN_DCA_POSITION_VOLUME_RATIO MAX_DCA_POSITION_VOLUME_RATIO) = Fin ceiling \<and>
     js_le (Fin ceiling) (js_mul (Fin b) (num_of_int 5)) \<and>
     (if ceiling \<le> c then q = 0 else c + q \<le> ceiling * (1 + 2 powi (- 53)))"
proof -
  obtain r where r: "finiteInRange (VNum maxRatio) MAX_DCA_POSITION_VOLUME_RATIO MIN_DCA_POSITION_VOLUME_RATIO MAX_DCA_POSITION_VOLUME_RATIO = Fin r" "5 / 4 \<le> r" "r \<le> 5"
    using position_ratio_open by blast
  let ?B = "fl_rat (b * r)"
  have B: "js_mul (Fin b) (Fin r) = Fin ?B" "?B \<le> 2 powi 1010" using scaled_quantity [OF assms(1,2), of r] r by simp_all
  have five: "js_le (Fin ?B) (js_mul (Fin b) (num_of_int 5))"
    using fl_mono [of "b * r" "b * 5"] B(1) r assms(1) by simp
  let ?d = "if ?B \<le> c then 0 else fl_rat (?B - c)"
  note d = room_below [OF B(2) assms(4)]
  let ?q = "min (fl_rat (b * m)) ?d"
  have M: "js_mul (Fin b) (Fin m) = Fin (fl_rat (b * m))" "0 \<le> fl_rat (b * m)" using scaled_quantity [OF assms(1,2), of m] assms by simp_all
  have q: "calculateDcaAddQuantity (Fin b) (Fin m) (Fin c) maxRatio = Fin ?q"
    using assms r(1) B(1) d M by (simp add: calculateDcaAddQuantity_def js_isFinite_def Let_def max_def del: js_mul.simps)
  have "c + ?q \<le> ?B * (1 + 2 powi (- 53))" if "\<not> ?B \<le> c"
    using room_rounding [OF assms(3,4), of ?B] that by simp
  then show ?thesis using q d M r B five by (intro exI [of _ ?q] exI [of _ ?B]) auto
qed

theorem dca_add_within_ceiling_witness:
  "\<exists>q ceiling. calculateDcaAddQuantity (Fin 1) (Fin 2) (Fin 3) (Fin 4) = Fin q \<and> 0 \<le> q \<and> js_le (Fin q) (js_mul (Fin 1) (Fin 2)) \<and>
     js_mul (Fin 1) (finiteInRange (VNum (Fin 4)) MAX_DCA_POSITION_VOLUME_RATIO MIN_DCA_POSITION_VOLUME_RATIO MAX_DCA_POSITION_VOLUME_RATIO) = Fin ceiling \<and>
     js_le (Fin ceiling) (js_mul (Fin 1) (num_of_int 5)) \<and> (if ceiling \<le> 3 then q = 0 else 3 + q \<le> ceiling * (1 + 2 powi (- 53)))"
  using is_dbl_int [of 3] by (intro dca_add_within_ceiling) simp_all

subsection \<open>Every profile is executable\<close>

lemma length_resolveStepArray [simp]: "length (resolveStepArray v source pre ds lo hi) = 4"
  by (simp add: resolveStepArray_def)

lemma resolveStepArray_bounds:
  assumes "lo \<le> hi" "length ds = 4" "\<forall>d \<in> set ds. \<exists>x. d = Fin x \<and> lo \<le> x \<and> x \<le> hi" "v \<in> set (resolveStepArray raw source pre ds (Fin lo) (Fin hi))"
  shows "\<exists>x. v = Fin x \<and> lo \<le> x \<and> x \<le> hi"
proof -
  from assms(4) obtain i u where i: "i < 4" "v = finiteInRange u (ds ! i) (Fin lo) (Fin hi)" by (auto simp: resolveStepArray_def)
  then obtain d where "ds ! i = Fin d" "lo \<le> d" "d \<le> hi" using assms(2,3) by (metis nth_mem)
  then show ?thesis using i finiteInRange_bounds [OF assms(1)] by simp
qed

lemma length_clip_ladder [simp]: "length (clip_ladder rest vs) = length vs"
  by (induction vs arbitrary: rest) (simp_all add: Let_def)

lemma running_max_sorted:
  assumes "sorted_wrt js_le acc" "\<forall>x \<in> set acc. x \<noteq> NaN" "\<forall>x \<in> set vs. x \<noteq> NaN"
  shows "sorted_wrt js_le (running_max acc vs) \<and> length (running_max acc vs) = length acc + length vs \<and>
    set (running_max acc vs) \<subseteq> set acc \<union> set vs"
  using assms
proof (induction vs arbitrary: acc)
  case (Cons v vs)
  let ?w = "if acc = [] then v else js_max v (last acc)"
  have w: "?w \<noteq> NaN" "?w \<in> set acc \<union> {v}" using Cons.prems by (auto simp: js_max_def)
  have "js_le x ?w" if "x \<in> set acc" for x
  proof -
    from that obtain ys where acc: "acc = ys @ [last acc]" by (metis append_butlast_last_id empty_iff empty_set)
    then have "js_le x (last acc)"
      using that Cons.prems(1,2) by (metis (no_types, lifting) Un_iff append_Nil insert_iff js_le_refl list.set_intros(1) list.simps(15) set_append sorted_wrt_append)
    moreover have "js_le (last acc) ?w" using that Cons.prems js_max_ge [of v "last acc"] by auto
    ultimately show ?thesis by (rule js_le_trans)
  qed
  then have "sorted_wrt js_le (acc @ [?w])" using Cons.prems(1) by (simp add: sorted_wrt_append)
  then have "sorted_wrt js_le (running_max (acc @ [?w]) vs) \<and> length (running_max (acc @ [?w]) vs) = length (acc @ [?w]) + length vs \<and>
      set (running_max (acc @ [?w]) vs) \<subseteq> set (acc @ [?w]) \<union> set vs"
    using Cons.prems w by (intro Cons.IH) auto
  then show ?case using w(2) by (auto simp del: set_append) auto
qed simp

abbreviation micro_round :: "rat \<Rightarrow> jsnum" where
  "micro_round b \<equiv> js_div (js_round (js_mul (Fin b) (num_of_int 1000000))) (num_of_int 1000000)"

lemma fl_rat_literals: "fl_rat (1 / 16) = 1 / 16" "fl_rat (5 / 2) = 5 / 2"
  using fl_rat_exact [of 1 "- 4"] fl_rat_exact [of 5 "- 1"] by (simp_all add: power_int_def power_one_over)

lemma micro_round_bounds:
  assumes "0 \<le> b" "b \<le> 5 / 2"
  shows "\<exists>y. micro_round b = Fin y \<and> 0 \<le> y \<and> y \<le> 5 / 2 \<and> (1 / 16 \<le> b \<longrightarrow> 1 / 16 \<le> y) \<and> (b = 0 \<longrightarrow> y = 0)"
proof -
  let ?m = "fl_rat (b * 1000000)" and ?n = "\<lfloor>fl_rat (b * 1000000) + 1 / 2\<rfloor>"
  have b: "0 \<le> b * 1000000" "b * 1000000 \<le> 2500000" using assms by simp_all
  have f: "fl (b * 1000000) = Fin ?m" using b by (intro fl_bounded [of _ 22]) (simp_all add: power_int_def)
  have "0 \<le> ?m" using b by (intro fl_rat_nonneg)
  have "?m \<le> 2500000" using fl_rat_mono [OF b(2)] fl_rat_of_int [of 2500000] by simp
  have n: "0 \<le> ?n" "?n \<le> 2500000" using \<open>0 \<le> ?m\<close> \<open>?m \<le> 2500000\<close> by linarith+
  have big: "62500 \<le> ?n" if "1 / 16 \<le> b"
  proof -
    have "fl_rat 62500 \<le> ?m" using that by (intro fl_rat_mono) simp
    then show ?thesis using fl_rat_of_int [of 62500] by (simp add: le_floor_iff)
  qed
  let ?y = "fl_rat (of_int ?n / 1000000)"
  have "of_int ?n \<le> (2500000 :: rat)" "0 \<le> (of_int ?n :: rat)" using n by linarith+
  then have g: "fl (of_int ?n / 1000000) = Fin ?y" and y: "0 \<le> ?y" "?y \<le> 5 / 2"
    using fl_rat_mono [of "of_int ?n / 1000000" "5 / 2"] fl_rat_literals by (auto intro!: fl_bounded [of _ 2] fl_rat_nonneg simp: power_int_def)
  have "1 / 16 \<le> ?y" if "1 / 16 \<le> b"
  proof -
    have "(62500 :: rat) \<le> of_int ?n" using big [OF that] by linarith
    then have "1 / 16 \<le> (of_int ?n / 1000000 :: rat)" by simp
    then show ?thesis using fl_rat_mono fl_rat_literals(1) by fastforce
  qed
  moreover have "?y = 0" if "b = 0"
  proof -
    have "?n = 0" using that by (simp add: floor_eq_iff)
    then show ?thesis by simp
  qed
  ultimately show ?thesis using f g y by (intro exI [of _ ?y]) simp
qed

lemma clip_ladder_0: "\<forall>v \<in> set vs. \<exists>x. v = Fin x \<and> 0 \<le> x \<Longrightarrow> clip_ladder (Fin 0) vs = replicate (length vs) (Fin 0)"
proof (induction vs)
  case (Cons v vs)
  then obtain x where x: "v = Fin x" "0 \<le> x" by auto
  have "js_sub (Fin 0) (Fin 0) = Fin 0" by (simp add: js_sub_def)
  then show ?case using Cons x micro_round_bounds [of 0] by (simp add: min_def Let_def)
qed simp

lemma clip_ladder_shape:
  assumes "\<forall>v \<in> set vs. \<exists>x. v = Fin x \<and> 1 / 16 \<le> x \<and> x \<le> 5 / 2" "0 \<le> r" "r \<le> 8"
  shows "\<exists>ps n. clip_ladder (Fin r) vs = map Fin ps @ replicate n (Fin 0) \<and> (\<forall>p \<in> set ps. 0 < p \<and> p \<le> 5 / 2) \<and> (1 / 16 \<le> r \<and> vs \<noteq> [] \<longrightarrow> ps \<noteq> [])"
  using assms
proof (induction vs arbitrary: r)
  case (Cons v vs)
  then obtain x where x: "v = Fin x" "1 / 16 \<le> x" "x \<le> 5 / 2" by auto
  let ?b = "min x r"
  obtain y where y: "micro_round ?b = Fin y" "0 \<le> y" "y \<le> 5 / 2" "1 / 16 \<le> ?b \<longrightarrow> 1 / 16 \<le> y"
  proof -
    have "0 \<le> ?b" "?b \<le> 5 / 2" using x Cons.prems by auto
    from micro_round_bounds [OF this] show ?thesis using that by blast
  qed
  have b: "js_max (Fin 0) (js_min v (Fin r)) = Fin ?b" using x Cons.prems by simp
  show ?case
  proof (cases "x \<le> r")
    case True
    let ?r = "fl_rat (r - x)"
    have "r - x \<le> 8" "0 \<le> r - x" using True x Cons.prems by simp_all
    then have r: "0 \<le> ?r" "?r \<le> 8" using fl_rat_mono [of "r - x" 8] fl_rat_of_int [of 8] fl_rat_nonneg by simp_all
    have "fl (r - x) = Fin ?r" using \<open>r - x \<le> 8\<close> \<open>0 \<le> r - x\<close> by (intro fl_bounded [of _ 3]) (simp_all add: power_int_def)
    then have rest: "js_max (Fin 0) (js_sub (Fin r) (Fin ?b)) = Fin ?r" using True r by (simp add: js_sub_def)
    obtain ps n where IH: "clip_ladder (Fin ?r) vs = map Fin ps @ replicate n (Fin 0)" "\<forall>p \<in> set ps. 0 < p \<and> p \<le> 5 / 2"
      using Cons.IH [of ?r] Cons.prems r by auto
    have "0 < y" using y(4) True x by simp
    then show ?thesis using IH y b rest by (intro exI [of _ "y # ps"] exI [of _ n]) (simp add: Let_def del: js_mul.simps js_div.simps)
  next
    case False
    then have rest: "js_max (Fin 0) (js_sub (Fin r) (Fin ?b)) = Fin 0" by (simp add: js_sub_def)
    have "clip_ladder (Fin 0) vs = replicate (length vs) (Fin 0)" using Cons.prems(1) by (intro clip_ladder_0) force
    then have t: "clip_ladder (Fin r) (v # vs) = Fin y # replicate (length vs) (Fin 0)"
      using y b rest by (simp add: Let_def del: js_mul.simps js_div.simps)
    show ?thesis
    proof (cases "0 < y")
      case True
      then show ?thesis using t y by (intro exI [of _ "[y]"] exI [of _ "length vs"]) simp
    next
      case F: False
      then have "y = 0" using y(2) by simp
      then show ?thesis using t F y(4) x by (intro exI [of _ "[]"] exI [of _ "Suc (length vs)"]) auto
    qed
  qed
qed auto

lemma last_executable_shape:
  assumes "\<forall>p \<in> set ps. 0 < p"
  shows "last_executable (map Fin ps @ replicate n (Fin 0)) = length ps"
proof -
  have "foldl (\<lambda>lst (v, i). if js_gt v (Fin 0) then Suc i else lst) z (zip (replicate n (Fin 0)) is') = z" for z is'
    by (induction n arbitrary: is' z) (auto simp: zip_Cons1 split: list.splits)
  moreover have "foldl (\<lambda>lst (v, i). if js_gt v (Fin 0) then Suc i else lst) k (zip (map Fin ps) [k..<k + length ps]) = k + length ps" for k
    using assms
  proof (induction ps arbitrary: k)
    case (Cons p ps)
    then show ?case using Cons.IH [of "Suc k"] by (simp add: upt_rec)
  qed simp
  from this [of 0] have "foldl (\<lambda>lst (v, i). if js_gt v (Fin 0) then Suc i else lst) 0 (zip (map Fin ps) [0..<length ps]) = length ps" by simp
  ultimately show ?thesis by (simp add: last_executable_def zip_append1 upt_add_eq_append [of 0 "length ps" n, simplified] take_upt)
qed

definition in_range :: "rat \<Rightarrow> rat \<Rightarrow> jsnum \<Rightarrow> bool" where
  "in_range lo hi v \<longleftrightarrow> (\<exists>x. v = Fin x \<and> lo \<le> x \<and> x \<le> hi)"

text \<open>What the executor relies on: bounded integers, four steps, non-decreasing distances and a positive volume for every executable step.\<close>

definition executable_profile :: "DcaProfile \<Rightarrow> bool" where
  "executable_profile p \<longleftrightarrow>
     (\<exists>k \<in> {1..4}. maxSteps p = num_of_int (int k) \<and> (\<forall>i < k. js_gt (stepVolumeMultipliers p ! i) (Fin 0))) \<and>
     length (stepVolumeMultipliers p) = 4 \<and> (\<forall>v \<in> set (stepVolumeMultipliers p). in_range 0 (5 / 2) v) \<and>
     length (stepDistancesPct p) = 4 \<and> (\<forall>v \<in> set (stepDistancesPct p). in_range (1 / 16) 20 v) \<and> sorted_wrt js_le (stepDistancesPct p) \<and>
     in_range (1 / 32) 5 (breakevenProfitPct p) \<and> (\<exists>n \<in> {0..3600}. cooldownSeconds p = num_of_int n) \<and>
     in_range 1 5 (maxPositionVolumeRatio p) \<and> (\<exists>s \<in> {1..6}. dca_incrementSteps p = num_of_int s)"

lemma is_dbl_dyadic: "is_dbl (Fin (1 / 16))" "is_dbl (Fin (1 / 32))" "is_dbl (Fin (5 / 2))"
  using fl_rat_exact [of 1 "- 4"] fl_rat_exact [of 1 "- 5"] fl_rat_exact [of 5 "- 1"] by (simp_all add: is_dbl_def power_int_def power_one_over)

lemma default_distances:
  obtains a where "fl (1 / 10) = Fin a" "1 / 16 \<le> a" "a \<le> 1"
    "\<forall>d \<in> set (stepDistancesPct DEFAULT_DCA_PROFILE). \<exists>x. d = Fin x \<and> a \<le> x \<and> x \<le> 20"
    "\<forall>d \<in> set (stepVolumeMultipliers DEFAULT_DCA_PROFILE). \<exists>x. d = Fin x \<and> a \<le> x \<and> x \<le> 5 / 2"
proof -
  obtain a where a: "fl (1 / 10) = Fin a" "1 / 16 \<le> a" "a \<le> 1"
    using fl_above [OF is_dbl_dyadic(1), of "1 / 10" 1] by auto
  have "\<exists>y. fl x = Fin y \<and> a \<le> y \<and> y \<le> 20" if "1 / 10 \<le> x" "x \<le> 20" for x
    using fl_mono [OF that(1)] fl_above [OF is_dbl_dyadic(1), of x 20] that a(1) by auto
  note d = this
  have "\<forall>v \<in> set (stepDistancesPct DEFAULT_DCA_PROFILE). \<exists>x. v = Fin x \<and> a \<le> x \<and> x \<le> 20"
    using d [of "3 / 10"] d [of "6 / 10"] d [of "16 / 10"] a by (auto simp: DEFAULT_DCA_PROFILE_def)
  moreover have "\<forall>v \<in> set (stepVolumeMultipliers DEFAULT_DCA_PROFILE). \<exists>x. v = Fin x \<and> a \<le> x \<and> x \<le> 5 / 2"
    using a by (auto simp: DEFAULT_DCA_PROFILE_def)
  ultimately show ?thesis using that a by blast
qed

lemma js_round_range: "in_range (of_int a) (of_int b) v \<Longrightarrow> \<exists>n \<in> {a..b}. js_round v = num_of_int n"
proof -
  assume "in_range (of_int a) (of_int b) v"
  then obtain x where x: "v = Fin x" "of_int a \<le> x" "x \<le> of_int b" by (auto simp: in_range_def)
  then have "a \<le> \<lfloor>x + 1 / 2\<rfloor>" "\<lfloor>x + 1 / 2\<rfloor> \<le> b" by linarith+
  then show ?thesis using x by auto
qed

lemma profile_steps:
  "\<exists>m. js_floor (finiteInRange v (maxSteps DEFAULT_DCA_PROFILE) (num_of_int 1) (num_of_int 4)) = num_of_int m \<and> 1 \<le> m \<and> m \<le> 4"
proof -
  obtain x where "finiteInRange v (Fin 4) (Fin 1) (Fin 4) = Fin x" "1 \<le> x" "x \<le> 4" using finiteInRange_bounds [of 1 4 4 v] by auto
  then show ?thesis by (intro exI [of _ "\<lfloor>x\<rfloor>"]) (simp add: DEFAULT_DCA_PROFILE_def le_floor_iff floor_le_iff)
qed

lemma profile_multipliers:
  assumes "1 + 1 / 16 \<le> r" "r \<le> 5"
  obtains ps n where "clip_ladder (js_max (Fin 0) (js_sub (Fin r) (num_of_int 1))) (resolveStepArray raw source pre (stepVolumeMultipliers DEFAULT_DCA_PROFILE) (fl (1 / 10)) (fl (25 / 10)))
      = map Fin ps @ replicate n (Fin 0)" "\<forall>p \<in> set ps. 0 < p \<and> p \<le> 5 / 2" "ps \<noteq> []" "length ps + n = 4"
proof -
  obtain a where a: "fl (1 / 10) = Fin a" "1 / 16 \<le> a" "a \<le> 1"
    "\<forall>d \<in> set (stepVolumeMultipliers DEFAULT_DCA_PROFILE). \<exists>x. d = Fin x \<and> a \<le> x \<and> x \<le> 5 / 2" using default_distances by metis
  let ?vs = "resolveStepArray raw source pre (stepVolumeMultipliers DEFAULT_DCA_PROFILE) (fl (1 / 10)) (fl (25 / 10))"
  have "fl (25 / 10) = Fin (5 / 2)" using fl_dbl [OF is_dbl_dyadic(3)] by simp
  then have vs: "\<forall>v \<in> set ?vs. \<exists>x. v = Fin x \<and> 1 / 16 \<le> x \<and> x \<le> 5 / 2"
    using resolveStepArray_bounds [of a "5 / 2" "stepVolumeMultipliers DEFAULT_DCA_PROFILE"] a by (force simp: DEFAULT_DCA_PROFILE_def)
  obtain q where q: "fl (r - 1) = Fin q" "1 / 16 \<le> q" "q \<le> 4" using fl_above [OF is_dbl_dyadic(1), of "r - 1" 4] assms by auto
  then have rest: "js_max (Fin 0) (js_sub (Fin r) (num_of_int 1)) = Fin q" by (simp add: js_sub_def)
  have "?vs \<noteq> []" by (metis length_0_conv length_resolveStepArray zero_neq_numeral)
  then obtain ps n where ps: "clip_ladder (Fin q) ?vs = map Fin ps @ replicate n (Fin 0)" "\<forall>p \<in> set ps. 0 < p \<and> p \<le> 5 / 2" "ps \<noteq> []"
    using clip_ladder_shape [OF vs, of q] q by auto
  have "length ps + n = 4" using arg_cong [OF ps(1), of length] by simp
  then show ?thesis using that ps rest by simp
qed

lemma profile_distances:
  "sorted_wrt js_le (running_max [] (resolveStepArray raw source pre (stepDistancesPct DEFAULT_DCA_PROFILE) (fl (1 / 10)) (num_of_int 20))) \<and>
   length (running_max [] (resolveStepArray raw source pre (stepDistancesPct DEFAULT_DCA_PROFILE) (fl (1 / 10)) (num_of_int 20))) = 4 \<and>
   (\<forall>v \<in> set (running_max [] (resolveStepArray raw source pre (stepDistancesPct DEFAULT_DCA_PROFILE) (fl (1 / 10)) (num_of_int 20))). in_range (1 / 16) 20 v)"
proof -
  obtain a where a: "fl (1 / 10) = Fin a" "1 / 16 \<le> a" "a \<le> 1"
    "\<forall>d \<in> set (stepDistancesPct DEFAULT_DCA_PROFILE). \<exists>x. d = Fin x \<and> a \<le> x \<and> x \<le> 20" using default_distances by metis
  let ?vs = "resolveStepArray raw source pre (stepDistancesPct DEFAULT_DCA_PROFILE) (fl (1 / 10)) (num_of_int 20)"
  have vs: "\<forall>v \<in> set ?vs. in_range (1 / 16) 20 v"
    using resolveStepArray_bounds [of a 20 "stepDistancesPct DEFAULT_DCA_PROFILE"] a by (force simp: DEFAULT_DCA_PROFILE_def in_range_def)
  have "\<forall>v \<in> set ?vs. v \<noteq> NaN" using vs by (auto simp: in_range_def)
  then have "sorted_wrt js_le (running_max [] ?vs) \<and> length (running_max [] ?vs) = 4 \<and> set (running_max [] ?vs) \<subseteq> set ?vs"
    using running_max_sorted [of "[]" ?vs] by simp
  then show ?thesis using vs by blast
qed

lemma executable_steps:
  assumes "1 \<le> m" "m \<le> 4" "ps \<noteq> []" "length ps + n = 4" "\<forall>p \<in> set ps. (0 :: rat) < p"
  shows "\<exists>k \<in> {1..4}. js_max (num_of_int 1) (js_min (num_of_int m) (num_of_int (if length ps = 0 then 1 else int (length ps)))) = num_of_int (int k) \<and>
    (\<forall>i < k. js_gt ((map Fin ps @ replicate n (Fin 0)) ! i) (Fin 0))"
proof -
  let ?k = "min (nat m) (length ps)"
  have l: "0 < length ps" using assms(3) by simp
  have "js_max (num_of_int 1) (js_min (num_of_int m) (num_of_int (int (length ps)))) = num_of_int (int ?k)"
  proof -
    have "max 1 (min m (int (length ps))) = int ?k" using assms(1) l by linarith
    then show ?thesis by (simp only: js_min_Fin js_max_Fin flip: of_int_max of_int_min)
  qed
  moreover have "js_gt ((map Fin ps @ replicate n (Fin 0)) ! i) (Fin 0)" if "i < ?k" for i using that assms(5) by (simp add: nth_append)
  moreover have "?k \<in> {1..4}" unfolding atLeastAtMost_iff using assms(1,4) l by linarith
  ultimately show ?thesis using l by (intro bexI [of _ ?k]) auto
qed

text \<open>C26. Whatever settings are stored, the normalised profile can be executed: between one and four
  steps, each with a positive volume and with distances that never decrease, every number within its
  documented range and the counts whole numbers.
\<close>

theorem dca_profile_executable: "executable_profile (normalizeDcaProfile raw) \<and> executable_profile (mergeDcaProfileSources layers)"
proof -
  have "executable_profile (normalizeDcaProfile raw)" for raw
  proof -
    let ?f = "js_prop (source_object raw)"
    obtain m where m: "js_floor (finiteInRange (js_nullish (?f ''maxSteps'') (?f ''dcaMaxSteps'')) (maxSteps DEFAULT_DCA_PROFILE) (num_of_int 1) (num_of_int 4)) = num_of_int m"
        "1 \<le> m" "m \<le> 4" using profile_steps by blast
    obtain r where r: "finiteInRange (js_nullish (?f ''maxPositionVolumeRatio'') (js_nullish (?f ''dcaMaxPositionVolumeRatio'') (?f ''dcaMaxVolumeRatio'')))
        (maxPositionVolumeRatio DEFAULT_DCA_PROFILE) MIN_DCA_POSITION_VOLUME_RATIO MAX_DCA_POSITION_VOLUME_RATIO = Fin r" "5 / 4 \<le> r" "r \<le> 5"
      using position_ratio_open unfolding DEFAULT_DCA_PROFILE_def by auto
    have "1 + 1 / 16 \<le> r" using r(2) by simp
    from profile_multipliers [OF this r(3), of "js_nullish (?f ''stepVolumeMultipliers'') (?f ''dcaStepVolumeMultipliers'')" "source_object raw" "''dcaStepVolume''"]
    obtain ps n where ps: "clip_ladder (js_max (Fin 0) (js_sub (Fin r) (num_of_int 1))) (resolveStepArray (js_nullish (?f ''stepVolumeMultipliers'') (?f ''dcaStepVolumeMultipliers''))
        (source_object raw) ''dcaStepVolume'' (stepVolumeMultipliers DEFAULT_DCA_PROFILE) (fl (1 / 10)) (fl (25 / 10))) = map Fin ps @ replicate n (Fin 0)"
        "\<forall>p \<in> set ps. 0 < p \<and> p \<le> 5 / 2" "ps \<noteq> []" "length ps + n = 4" by metis
    have le: "last_executable (map Fin ps @ replicate n (Fin 0)) = length ps" using ps(2) by (intro last_executable_shape) blast
    have mult: "\<forall>v \<in> set (map Fin ps @ replicate n (Fin 0)). in_range 0 (5 / 2) v" using ps(2) by (auto simp: in_range_def intro: less_imp_le)
    obtain b where b: "fl (5 / 100) = Fin b" "1 / 32 \<le> b" "b \<le> 1" using fl_above [OF is_dbl_dyadic(2), of "5 / 100" 1] by auto
    obtain d where d: "fl (2 / 10) = Fin d" "b \<le> d" "d \<le> 1"
      using fl_above [OF is_dbl_dyadic(1), of "2 / 10" 1] fl_mono [of "5 / 100" "2 / 10"] b(1) by auto
    have be: "in_range (1 / 32) 5 (finiteInRange v (breakevenProfitPct DEFAULT_DCA_PROFILE) (fl (5 / 100)) (num_of_int 5))" for v
      using finiteInRange_bounds [of b 5 d v] b d by (force simp: DEFAULT_DCA_PROFILE_def in_range_def)
    have "in_range (of_int 0) (of_int 3600) (finiteInRange v (cooldownSeconds DEFAULT_DCA_PROFILE) (Fin 0) (num_of_int 3600))" for v
      using finiteInRange_bounds [of 0 3600 30 v] by (simp add: DEFAULT_DCA_PROFILE_def in_range_def)
    note cool = js_round_range [OF this]
    have inc: "\<exists>s \<in> {1..6}. normalizeDcaIncrementSteps v d = num_of_int s" for v d
      using increment_steps_range unfolding normalizeDcaIncrementSteps_def by (metis atLeastAtMost_iff)
    have ratio: "in_range 1 5 (Fin r)" using r by (simp add: in_range_def)
    note steps = executable_steps [OF m(2,3) ps(3,4)]
    show ?thesis
      unfolding executable_profile_def normalizeDcaProfile_def Let_def m(1) r(1) ps(1) le DcaProfile.simps
      using steps mult be cool inc ratio ps(2,4) profile_distances by (intro conjI) (simp_all only: length_append length_map length_replicate, blast+)
  qed
  then show ?thesis unfolding mergeDcaProfileSources_def by blast
qed

section \<open>The ledger of legs\<close>

definition step_done :: "DcaLegState \<Rightarrow> bool" where
  "step_done l \<longleftrightarrow> js_gt (leg_quantity l) (Fin 0) \<and> targetSatisfied l \<noteq> Some False"

text \<open>
  The ledger of one averaging candidate: distinct steps between one and four, each leg under the key that
  \<open>buildDcaStepSetKey\<close> gives its step, as the live stage records them.
\<close>

definition step_leg :: "string \<Rightarrow> DcaLegState \<Rightarrow> bool" where
  "step_leg key l \<longleftrightarrow> setKey l = buildDcaStepSetKey key (leg_step l) \<and> leg_step l \<in> num_of_int ` {1..4}"

definition leg_ledger :: "string \<Rightarrow> DcaLegState list \<Rightarrow> bool" where
  "leg_ledger key ls \<longleftrightarrow> distinct (map leg_step ls) \<and> list_all (step_leg key) ls"

lemma completed_steps_alt: "completed_steps ls = map (\<lambda>l. js_floor (leg_step l)) (filter step_done ls)"
  by (simp add: completed_steps_def step_done_def [abs_def])

lemma merge_leg_fields [simp]:
  "leg_step (merge_leg a b) = leg_step b" "setKey (merge_leg a b) = setKey b" "leg_quantity (merge_leg a b) = leg_quantity b"
  "targetSatisfied b = Some s \<Longrightarrow> targetSatisfied (merge_leg a b) = Some s"
  by (simp_all add: merge_leg_def)

definition own_leg :: "DcaLegState \<Rightarrow> DcaLegState \<Rightarrow> bool" where
  "own_leg new l \<longleftrightarrow> (leg_step l = leg_step new \<longrightarrow> setKey l = setKey new) \<and> leg_step l \<noteq> NaN"

lemma same_leg_step: "own_leg new l \<Longrightarrow> same_leg l new \<longleftrightarrow> leg_step l = leg_step new"
  by (auto simp: same_leg_def own_leg_def js_eq_def)

lemma put_leg_steps:
  assumes "list_all (own_leg new) ls"
  shows "map leg_step (put_leg new ls) = (if leg_step new \<in> set (map leg_step ls) then map leg_step ls else map leg_step ls @ [leg_step new])"
  using assms
proof (induction ls)
  case (Cons l ls)
  then have "same_leg l new \<longleftrightarrow> leg_step l = leg_step new" by (simp add: same_leg_step)
  then show ?case using Cons by simp
qed simp

lemma put_leg_keys: "list_all (step_leg key) ls \<Longrightarrow> step_leg key new \<Longrightarrow> list_all (step_leg key) (put_leg new ls)"
  by (induction ls) (auto simp: step_leg_def)

lemma ledger_own: "leg_ledger key ls \<Longrightarrow> step_leg key new \<Longrightarrow> list_all (own_leg new) ls"
  by (auto simp: leg_ledger_def step_leg_def own_leg_def list_all_iff)

lemma offered_open:
  assumes "resolveNextDcaStep a = Some r" "arg_legs a = Some ls"
  shows "next_step r \<notin> set (completed_steps ls)"
proof -
  have "next_step_loop (arg_profile a) (completed_steps ls) (adverseMovePct (arg_direction a) (arg_referencePrice a) (arg_currentPrice a))
      [1..<length (completed_steps ls) + 2] = Some r"
    using assms(1) unfolding resolveNextDcaStep_def Let_def assms(2) by (simp only: option.case option.distinct split: if_split_asm)
  then show ?thesis unfolding open_step_exact by auto
qed

lemma put_leg_done:
  assumes "list_all (own_leg new) ls" "step_done new" "targetSatisfied new = Some True"
  shows "leg_step ` {l \<in> set (put_leg new ls). step_done l} = insert (leg_step new) (leg_step ` {l \<in> set ls. step_done l})"
  using assms
proof (induction ls)
  case (Cons l ls)
  have "step_done (merge_leg l new)" using Cons.prems by (simp add: step_done_def)
  moreover have "same_leg l new \<longleftrightarrow> leg_step l = leg_step new" using Cons.prems(1) by (simp add: same_leg_step)
  moreover have set_if: "{x \<in> set (y # ys). step_done x} = (if step_done y then {y} else {}) \<union> {x \<in> set ys. step_done x}" for y ys by auto
  moreover have "leg_step ` {l \<in> set (put_leg new ls). step_done l} = insert (leg_step new) (leg_step ` {l \<in> set ls. step_done l})"
    using Cons by simp
  ultimately show ?case by (simp add: image_Un insert_commute del: list.set)
next
  case Nil
  have "{l \<in> {new}. step_done l} = {new}" using Nil by auto
  then show ?case by simp
qed

lemma put_leg_ledger:
  assumes "leg_ledger key ls" "step_leg key new"
  shows "leg_ledger key (put_leg new ls)" "length (put_leg new ls) \<le> 4"
proof -
  note P = put_leg_steps [OF ledger_own [OF assms]]
  have "distinct (map leg_step (put_leg new ls))" unfolding P using assms(1) by (auto simp: leg_ledger_def)
  then show L: "leg_ledger key (put_leg new ls)" using put_leg_keys assms by (simp add: leg_ledger_def)
  then have "card (set (map leg_step (put_leg new ls))) = length (put_leg new ls)" unfolding leg_ledger_def by (metis distinct_card length_map)
  moreover have "card (set (map leg_step (put_leg new ls))) \<le> card (num_of_int ` {1..4 :: int})"
    using L by (intro card_mono) (auto simp: leg_ledger_def step_leg_def list_all_iff)
  moreover have "card (num_of_int ` {1..4 :: int}) \<le> 4" using card_image_le [of "{1..4 :: int}" num_of_int] by simp
  ultimately show "length (put_leg new ls) \<le> 4" by simp
qed

text \<open>C22. A satisfied leg closes exactly its own step: in the ledger of one averaging candidate, whose legs
  carry the key \<open>buildDcaStepSetKey\<close> gives the candidate's key and their step, recording a filled and satisfied
  leg keeps the ledger well formed, loses no completed step, and adds the leg's step, so that step is never
  offered again, whatever the prices.
\<close>

theorem dca_step_never_repeated:
  assumes "leg_ledger key ls" "setKey new = buildDcaStepSetKey key (num_of_int k)" "leg_step new = num_of_int k" "1 \<le> k" "k \<le> 4"
    "js_gt (leg_quantity new) (Fin 0)" "targetSatisfied new = Some True"
  shows "leg_ledger key (upsertDcaLeg (Some ls) new) \<and>
    set (completed_steps (upsertDcaLeg (Some ls) new)) = insert (num_of_int k) (set (completed_steps ls)) \<and>
    (\<forall>a r. resolveNextDcaStep (a\<lparr>arg_legs := Some (upsertDcaLeg (Some ls) new)\<rparr>) = Some r \<longrightarrow> next_step r \<noteq> num_of_int k)"
proof -
  have k: "step_leg key new" using assms(2-5) by (auto simp: step_leg_def)
  note L = put_leg_ledger [OF assms(1) k]
  have u: "upsertDcaLeg (Some ls) new = stable_sort (\<lambda>a b. js_lt (js_sub (leg_step a) (leg_step b)) (Fin 0)) (put_leg new ls)"
    using L(2) by (simp add: upsertDcaLeg_def Let_def)
  have G: "leg_ledger key (upsertDcaLeg (Some ls) new)"
    using L(1) unfolding u leg_ledger_def by (simp add: distinct_map_stable_sort list_all_iff)
  have fl: "js_floor (leg_step l) = leg_step l" if "leg_step l \<in> num_of_int ` {1..4}" for l using that by auto
  have C: "set (completed_steps xs) = leg_step ` {l \<in> set xs. step_done l}" if "leg_ledger key xs" for xs
    using that unfolding completed_steps_alt leg_ledger_def step_leg_def list_all_iff by (force simp: fl image_iff)
  have "step_done new" using assms(6,7) by (simp add: step_done_def)
  from put_leg_done [OF ledger_own [OF assms(1) k] this assms(7)] have S: "set (completed_steps (upsertDcaLeg (Some ls) new)) = insert (num_of_int k) (set (completed_steps ls))"
    unfolding C [OF G] C [OF assms(1)] unfolding u assms(3) by simp
  have "next_step r \<noteq> num_of_int k" if "resolveNextDcaStep (a\<lparr>arg_legs := Some (upsertDcaLeg (Some ls) new)\<rparr>) = Some r" for a r
    using offered_open [OF that] S by auto
  with G S show ?thesis by blast
qed

text \<open>Step two after step one, each under its own key.\<close>

theorem dca_step_never_repeated_witness:
  "set (completed_steps (upsertDcaLeg (Some [sample_leg\<lparr>setKey := buildDcaStepSetKey ''ema#dca'' (num_of_int 1)\<rparr>])
     (sample_leg\<lparr>setKey := buildDcaStepSetKey ''ema#dca'' (num_of_int 2), leg_step := Fin 2, targetSatisfied := Some True\<rparr>))) = {num_of_int 1, num_of_int 2}"
proof -
  have "leg_ledger ''ema#dca'' [sample_leg\<lparr>setKey := buildDcaStepSetKey ''ema#dca'' (num_of_int 1)\<rparr>]"
    by (auto simp: leg_ledger_def step_leg_def sample_leg_def image_iff intro: bexI [of _ 1])
  from dca_step_never_repeated [OF this, of "sample_leg\<lparr>setKey := buildDcaStepSetKey ''ema#dca'' (num_of_int 2), leg_step := Fin 2, targetSatisfied := Some True\<rparr>" 2]
  show ?thesis by (simp add: sample_leg_def completed_steps_def insert_commute)
qed

end
