(* ===== verification/DcaOutcomes.thy ===== *)
theory DcaOutcomes
  imports DcaStrategy RedisViews Settings
begin

text \<open>
  The stored recovery levels of the averaging lane (\<open>lib/dca-step-outcomes.ts\<close>).  When a position has
  closed, every step it filled moves its own level: the state is kept as JSON in one hash per
  connection, a marker per position makes the settlement happen once.  A position is an untyped row, a
  list of properties.  Modelled is the path of a client without scripts, the in-process store; the
  connection's queue makes the calls on one connection sequential, and the clock is read once per call.
\<close>

subsection \<open>Keys\<close>

definition is_symbol_char :: "char \<Rightarrow> bool" where
  "is_symbol_char c = (is_digit c \<or> CHR ''A'' \<le> c \<and> c \<le> CHR ''Z'')"

definition text_or_empty :: "js_value \<Rightarrow> string" where
  "text_or_empty v = js_String (js_or v (VStr []))"

definition symbolKey :: "js_value \<Rightarrow> string" where
  "symbolKey v = filter is_symbol_char (toUpperCase (text_or_empty v))"

definition parseState :: "string option \<Rightarrow> js_value" where
  "parseState v = (case json_parse (case v of Some s \<Rightarrow> s | None \<Rightarrow> ''undefined'') of Some x \<Rightarrow> x | None \<Rightarrow> VUndefined)"

text \<open>\<open>s.split(m)[0]\<close>.\<close>

fun before_marker :: "string \<Rightarrow> string \<Rightarrow> string" where
  "before_marker m [] = []"
| "before_marker m (c # cs) = (if starts_with m (c # cs) then [] else c # before_marker m cs)"

definition dcaLifecycleSourceKey :: "js_value \<Rightarrow> string" where
  "dcaLifecycleSourceKey key = before_marker ''#dca:'' (text_or_empty key)"

definition dcaStepStateKey :: "js_value \<Rightarrow> string" where
  "dcaStepStateKey connectionId = ''dca_step_recovery:'' @ text_or_empty connectionId"

definition dcaStepStateField :: "js_value \<Rightarrow> js_value \<Rightarrow> js_value \<Rightarrow> string" where
  "dcaStepStateField symbol sourceKey stp =
     symbolKey symbol @ ''|'' @ dcaLifecycleSourceKey sourceKey @ ''|step'' @
       string_of_num (js_max (num_of_int 1) (js_floor (num_or (js_to_Number stp) (Fin 0))))"

definition readDcaStepRecoveryLevel :: "string jsmap option \<Rightarrow> js_value \<Rightarrow> js_value \<Rightarrow> js_value \<Rightarrow> jsnum" where
  "readDcaStepRecoveryLevel stored symbol sourceKey stp =
     (let state = parseState (case stored of Some h \<Rightarrow> map_of h (dcaStepStateField symbol sourceKey stp) | None \<Rightarrow> None);
          level = js_to_Number (js_nullish (js_get state ''incrementStep'') (VNum (num_of_int 1)))
      in if js_isFinite level \<and> js_ge level (num_of_int 1) then js_floor level else num_of_int 1)"

subsection \<open>Settling a position\<close>

record dca_close =
  c_connectionId :: string
  c_positionId :: string
  c_symbol :: string
  c_direction :: string
  c_pnl :: jsnum
  c_legs :: "js_value list"
  c_incrementSteps :: jsnum

text \<open>The early returns: anything but a completely settled close with averaging legs.\<close>

definition dca_close_of :: "(string \<times> js_value) list \<Rightarrow> dca_close option" where
  "dca_close_of position =
     (let p = js_prop position;
          connectionId = js_String (js_or (p ''connectionId'') (js_or (p ''connection_id'') (VStr [])));
          positionId = text_or_empty (p ''id''); symbol = symbolKey (p ''symbol'');
          direction = toLowerCase (js_String (js_or (p ''direction'') (js_or (p ''side'') (VStr []))));
          pnl = js_to_Number (p ''realizedPnL'');
          legs = (case p ''dcaLegs'' of VArr ls \<Rightarrow> ls | _ \<Rightarrow> [])
      in if connectionId = [] \<or> positionId = [] \<or> symbol = [] \<or> direction \<notin> {''long'', ''short''} then None
         else if p ''status'' \<noteq> VStr ''closed'' \<or> p ''realizedPnlComplete'' = VBool False \<or>
                 p ''realizedPnL'' = VUndefined \<or> p ''realizedPnL'' = VNull \<or> \<not> js_isFinite pnl then None
         else if legs = [] then None
         else Some \<lparr>c_connectionId = connectionId, c_positionId = positionId, c_symbol = symbol, c_direction = direction, c_pnl = pnl, c_legs = legs,
                c_incrementSteps = normalizeDcaIncrementSteps (js_nullish (p ''dcaIncrementSteps'') (js_get (p ''dcaProfile'') ''incrementSteps''))
                  BLOCK_INCREMENT_STEPS_DEFAULT\<rparr>)"

text \<open>The result of one leg: from its own entry where it has one, else the position's.\<close>

definition exact_leg_pnl :: "(string \<times> js_value) list \<Rightarrow> dca_close \<Rightarrow> js_value \<Rightarrow> jsnum \<Rightarrow> jsnum" where
  "exact_leg_pnl position c leg quantity =
     (let p = js_prop position; num = (\<lambda>v. js_to_Number (js_or v (VNum (Fin 0))));
          entry = num (js_get leg ''entryPrice''); close = num (p ''closePrice'');
          totalq = js_to_Number (js_or (p ''totalExecutedQuantity'') (js_or (p ''quantity'') (VNum (Fin 0))))
      in if js_gt entry (Fin 0) \<and> js_gt close (Fin 0) \<and> js_gt totalq (Fin 0)
         then js_sub (js_mul (if c_direction c = ''long'' then js_sub close entry else js_sub entry close) quantity)
                (js_div (js_mul (js_max (Fin 0) (num (p ''tradingFees''))) quantity) totalq)
         else c_pnl c)"

definition leg_outcome :: "int \<Rightarrow> (string \<times> js_value) list \<Rightarrow> dca_close \<Rightarrow> js_value \<Rightarrow> (string \<times> block_outcome) option" where
  "leg_outcome now position c leg =
     (let stp = js_floor (num_or (js_to_Number (js_get leg ''step'')) (Fin 0));
          quantity = js_to_Number (js_or (js_get leg ''quantity'') (VNum (Fin 0)));
          sourceKey = dcaLifecycleSourceKey (js_or (js_get leg ''lifecycleKey'') (js_or (js_get leg ''setKey'') (js_prop position ''setKey'')))
      in if \<not> js_gt stp (Fin 0) then None
         else if \<not> js_gt quantity (Fin 0) then None
         else if sourceKey = [] then None
         else Some (dcaStepStateField (VStr (c_symbol c)) (VStr sourceKey) (VNum stp),
           \<lparr>bl_setKey = sourceKey @ ''#dca:'' @ string_of_num stp, bl_symbol = c_symbol c, bl_direction = c_direction c, bl_sourceKey = sourceKey,
            bl_blockCount = stp, bl_pauseCount = js_max (num_of_int 1) stp, bl_updatedAt = num_of_int now,
            in_incrementSteps = VNum (c_incrementSteps c),
            executedIncrementStep = js_max (num_of_int 1) (js_floor (js_to_Number
              (js_nullish (js_get leg ''recoveryLevel'') (js_nullish (js_get leg ''incrementStep'') (VNum (num_of_int 1)))))),
            netPnl = exact_leg_pnl position c leg quantity\<rparr>))"

definition dca_changes :: "int \<Rightarrow> (string \<times> js_value) list \<Rightarrow> dca_close \<Rightarrow> string jsmap \<Rightarrow> string jsmap" where
  "dca_changes now position c stored =
     foldl (\<lambda>changes leg. case leg_outcome now position c leg of
              None \<Rightarrow> changes
            | Some (field, i) \<Rightarrow>
                AList.update field (json_text (lifecycle_object (advanceBlockCountLifecycle (parseState (map_of stored field)) i))) changes) [] (c_legs c)"

definition processed_key :: "dca_close \<Rightarrow> string" where
  "processed_key c = ''dca_step_recovery_processed:'' @ c_connectionId c @ '':'' @ c_positionId c"

definition marker_seconds :: jsnum where "marker_seconds = num_of_int (30 * 24 * 60 * 60)"

definition next_version :: "string jsmap \<Rightarrow> string" where
  "next_version stored =
     string_of_num (js_add (js_to_Number (js_or (case map_of stored ''__version'' of Some s \<Rightarrow> VStr s | None \<Rightarrow> VUndefined) (VNum (Fin 0)))) (num_of_int 1))"

definition commit_changes :: "int \<Rightarrow> string \<Rightarrow> string \<Rightarrow> string jsmap \<Rightarrow> string jsmap \<Rightarrow> redis \<Rightarrow> redis" where
  "commit_changes now key processed stored changes r =
     (let r1 = foldl (\<lambda>r (field, v). snd (redis_hset now key (HsetField field (HStr v)) r)) r changes;
          r2 = snd (redis_hset now key (HsetField ''__version'' (HStr (next_version stored))) r1);
          r3 = snd (redis_set now processed (string_of_int now) no_options r2);
          r4 = snd (redis_expire now processed marker_seconds r3)
      in snd (redis_persist now key r4))"

definition updateDcaStepLifecycleForClose :: "int \<Rightarrow> (string \<times> js_value) list \<Rightarrow> redis \<Rightarrow> redis" where
  "updateDcaStepLifecycleForClose now position r =
     (case dca_close_of position of
        None \<Rightarrow> r
      | Some c \<Rightarrow>
          let key = dcaStepStateKey (VStr (c_connectionId c)); processed = processed_key c; (seen, r1) = redis_get now processed r
          in if seen \<noteq> None \<and> seen \<noteq> Some [] then r1
             else let (stored, r2) = redis_hgetall now key r1; changes = dca_changes now position c stored
                  in if changes = [] then r2 else commit_changes now key processed stored changes r2)"

subsection \<open>What a settlement writes\<close>

lemma hset_field:
  "hash_at (snd (redis_hset now key (HsetField f (HStr v)) r)) k = (if k = key then AList.update f v (hash_at r key) else hash_at r k)"
  "strings (snd (redis_hset now key (HsetField f (HStr v)) r)) = strings r" "ttl (snd (redis_hset now key (HsetField f (HStr v)) r)) = ttl r"
  by (auto simp: redis_hset_def Let_def hash_at_def markDirty_def trackOperation_def)

lemma hset_fields:
  "hash_at (foldl (\<lambda>r (f, v). snd (redis_hset now key (HsetField f (HStr v)) r)) r changes) k =
     (if k = key then js_spread (hash_at r key) changes else hash_at r k)"
  "strings (foldl (\<lambda>r (f, v). snd (redis_hset now key (HsetField f (HStr v)) r)) r changes) = strings r"
  "ttl (foldl (\<lambda>r (f, v). snd (redis_hset now key (HsetField f (HStr v)) r)) r changes) = ttl r"
  by (induction changes arbitrary: r) (auto simp: hset_field js_spread_def)

lemma persist_views [simp]:
  "hash_at (snd (redis_persist now key r)) = hash_at r" "strings (snd (redis_persist now key r)) = strings r"
  by (auto simp: redis_persist_def hash_at_def markDirty_def)

lemma persist_ttl: "map_of (ttl (snd (redis_persist now key r))) k = map_of (ttl r) k \<or> k = key \<and> map_of (ttl (snd (redis_persist now key r))) k = None"
  by (auto simp: redis_persist_def markDirty_def AList.delete_conv')

lemma set_plain_views:
  "hash_at (snd (redis_set now k v no_options r)) = hash_at r"
  "strings (snd (redis_set now k v no_options r)) = AList.update k v (strings r)" "ttl (snd (redis_set now k v no_options r)) = ttl r"
  by (auto simp: redis_set_def no_options_def Let_def hash_at_def markDirty_def trackOperation_def)

lemma commit_views:
  assumes "0 \<le> now" "now \<le> 2 ^ 52" "key \<noteq> processed" and r'_def: "r' = commit_changes now key processed stored changes r"
  shows "hash_at r' k = (if k = key then AList.update ''__version'' (next_version stored) (js_spread (hash_at r key) changes) else hash_at r k)"
    "strings r' = AList.update processed (string_of_int now) (strings r)"
    "map_of (ttl r') processed = Some (num_of_int (now + 2592000000))"
    "k \<noteq> processed \<Longrightarrow> map_of (ttl r') k = map_of (ttl r) k \<or> k = key \<and> map_of (ttl r') k = None"
proof -
  let ?r1 = "foldl (\<lambda>r (f, v). snd (redis_hset now key (HsetField f (HStr v)) r)) r changes"
  let ?r2 = "snd (redis_hset now key (HsetField ''__version'' (HStr (next_version stored))) ?r1)"
  let ?r3 = "snd (redis_set now processed (string_of_int now) no_options ?r2)"
  let ?r4 = "snd (redis_expire now processed marker_seconds ?r3)"
  have r': "r' = snd (redis_persist now key ?r4)" by (simp add: r'_def commit_changes_def Let_def)
  have data: "has_data ?r3 processed" by (simp add: has_data_def set_plain_views)
  then have r4: "?r4 = setKeyTTL now processed (num_of_int 2592000) ?r3" by (simp add: redis_expire_def marker_seconds_def)
  have "map_of (ttl ?r4) processed = Some (num_of_int (now + 2592000000))"
    unfolding r4 using assms ttl_setKeyTTL [of now 2592000 processed ?r3] by simp
  moreover have "map_of (ttl ?r4) k = map_of (ttl r) k" if "k \<noteq> processed"
    unfolding r4 using that by (simp add: setKeyTTL_def markDirty_def set_plain_views hset_field hset_fields)
  moreover note persist_ttl [of now key ?r4 processed] persist_ttl [of now key ?r4 k]
  ultimately show "map_of (ttl r') processed = Some (num_of_int (now + 2592000000))"
    "k \<noteq> processed \<Longrightarrow> map_of (ttl r') k = map_of (ttl r) k \<or> k = key \<and> map_of (ttl r') k = None"
    using assms(3) unfolding r' by metis+
  show "hash_at r' k = (if k = key then AList.update ''__version'' (next_version stored) (js_spread (hash_at r key) changes) else hash_at r k)"
    "strings r' = AList.update processed (string_of_int now) (strings r)"
    unfolding r' by (simp_all add: set_plain_views hset_field hset_fields)
qed

text \<open>What a commit of the changes leaves, whichever client made it.\<close>

definition committed :: "int \<Rightarrow> string \<Rightarrow> string \<Rightarrow> string jsmap \<Rightarrow> redis \<Rightarrow> redis \<Rightarrow> bool" where
  "committed now key processed changes r r' \<longleftrightarrow>
     (\<exists>v. \<forall>k. hash_at r' k = (if k = key then AList.update ''__version'' v (js_spread (hash_at r key) changes) else hash_at r k)) \<and>
     (\<exists>stamp. stamp \<noteq> [] \<and> strings r' = AList.update processed stamp (strings r)) \<and>
     map_of (ttl r') processed = Some (num_of_int (now + 2592000000)) \<and>
     (\<forall>k. k \<noteq> processed \<longrightarrow> map_of (ttl r') k = map_of (ttl r) k \<or> k = key \<and> map_of (ttl r') k = None)"

lemma commit_changes_committed:
  assumes "0 \<le> now" "now \<le> 2 ^ 52" "key \<noteq> processed"
  shows "committed now key processed changes r (commit_changes now key processed stored changes r)"
  unfolding committed_def
proof (intro conjI allI impI)
  show "\<exists>v. \<forall>k. hash_at (commit_changes now key processed stored changes r) k =
      (if k = key then AList.update ''__version'' v (js_spread (hash_at r key) changes) else hash_at r k)"
    using commit_views(1) [OF assms refl] by (intro exI [of _ "next_version stored"]) simp
  show "\<exists>stamp. stamp \<noteq> [] \<and> strings (commit_changes now key processed stored changes r) = AList.update processed stamp (strings r)"
    using commit_views(2) [OF assms refl] by (intro exI [of _ "string_of_int now"]) simp
qed (use commit_views(3,4) [OF assms refl] in auto)

lemma state_key_distinct: "dcaStepStateKey conn \<noteq> processed_key c"
  by (simp add: dcaStepStateKey_def processed_key_def)

lemma state_key_inject: "dcaStepStateKey (VStr a) = dcaStepStateKey (VStr b) \<longleftrightarrow> a = b"
  by (auto simp: dcaStepStateKey_def text_or_empty_def js_or_def js_truthy_def)

subsection \<open>The changes of a settlement\<close>

text \<open>The outcomes of one lane, in the order of the legs.\<close>

fun lane_of :: "string \<Rightarrow> (string \<times> block_outcome) option list \<Rightarrow> block_outcome list" where
  "lane_of field [] = []"
| "lane_of field (None # os) = lane_of field os"
| "lane_of field (Some (f, i) # os) = (if f = field then i # lane_of field os else lane_of field os)"

definition lane_results :: "string \<Rightarrow> int \<Rightarrow> (string \<times> js_value) list \<Rightarrow> dca_close \<Rightarrow> block_outcome list" where
  "lane_results field now position c = lane_of field (map (leg_outcome now position c) (c_legs c))"

definition settles :: "int \<Rightarrow> (string \<times> js_value) list \<Rightarrow> dca_close \<Rightarrow> bool" where
  "settles now position c \<longleftrightarrow> (\<exists>leg \<in> set (c_legs c). leg_outcome now position c leg \<noteq> None)"

text \<open>The changes as a fold over the outcomes: the last outcome of a lane counts.\<close>

fun put_outcomes :: "(string \<Rightarrow> block_outcome \<Rightarrow> string) \<Rightarrow> (string \<times> block_outcome) option list \<Rightarrow> string jsmap \<Rightarrow> string jsmap" where
  "put_outcomes g [] ch = ch"
| "put_outcomes g (None # os) ch = put_outcomes g os ch"
| "put_outcomes g (Some (f, i) # os) ch = put_outcomes g os (AList.update f (g f i) ch)"

lemma changes_put:
  "dca_changes now position c stored =
     put_outcomes (\<lambda>f i. json_text (lifecycle_object (advanceBlockCountLifecycle (parseState (map_of stored f)) i)))
       (map (leg_outcome now position c) (c_legs c)) []"
proof -
  have "foldl (\<lambda>ch leg. case h leg of None \<Rightarrow> ch | Some (f, i) \<Rightarrow> AList.update f (g f i) ch) ch legs = put_outcomes g (map h legs) ch" for h g legs ch
    by (induction legs arbitrary: ch) (auto split: option.splits)
  then show ?thesis by (simp add: dca_changes_def)
qed

lemma put_outcomes_lookup:
  "map_of (put_outcomes g os ch) field =
     (if lane_of field os = [] then map_of ch field else Some (g field (last (lane_of field os))))"
  by (induction g os ch rule: put_outcomes.induct) auto

lemma put_outcomes_wf: "jsmap_wf ch \<Longrightarrow> jsmap_wf (put_outcomes g os ch)"
  by (induction g os ch rule: put_outcomes.induct) (auto intro: jsmap_wf_update)

lemma put_outcomes_empty: "put_outcomes g os ch = [] \<longleftrightarrow> ch = [] \<and> (\<forall>x \<in> set os. x = None)"
  by (induction g os ch rule: put_outcomes.induct) auto

subsection \<open>The contract of a lane\<close>

text \<open>
  What the module promises for one lane, over whole numbers: the level with the losses counted towards
  the next one.  A position settles once; a win resets the lane, a loss holds the executed level or raises it.
\<close>

definition executed_level :: "jsnum \<Rightarrow> int" where
  "executed_level x = (case x of Fin q \<Rightarrow> \<lfloor>q\<rfloor> | PInf \<Rightarrow> 6 | _ \<Rightarrow> 1)"

definition level_limit :: "block_outcome \<Rightarrow> int" where
  "level_limit i = (case normalizeBlockIncrementSteps (in_incrementSteps i) BLOCK_INCREMENT_STEPS_DEFAULT of Fin q \<Rightarrow> \<lfloor>q\<rfloor> | _ \<Rightarrow> 1)"

definition lane_advance :: "int \<Rightarrow> block_outcome \<Rightarrow> int \<times> int \<Rightarrow> int \<times> int" where
  "lane_advance n i = (\<lambda>(k, l).
     if js_gt (netPnl i) (Fin 0) then (1, 0)
     else let held = min (level_limit i) (max k (executed_level (executedIncrementStep i)))
          in if n \<le> l + 1 \<and> held < level_limit i then (held + 1, 0) else (held, min n (l + 1)))"

type_synonym lane_spec = "string set \<times> int \<times> int"

definition lane_settle :: "string \<Rightarrow> string \<Rightarrow> int \<Rightarrow> lane_spec \<Rightarrow> int \<times> (string \<times> js_value) list \<Rightarrow> lane_spec" where
  "lane_settle conn field n = (\<lambda>(seen, lane) (now, position).
     case dca_close_of position of
       None \<Rightarrow> (seen, lane)
     | Some c \<Rightarrow>
         if processed_key c \<in> seen \<or> \<not> settles now position c then (seen, lane)
         else (insert (processed_key c) seen,
               if c_connectionId c = conn \<and> lane_results field now position c \<noteq> []
               then lane_advance n (last (lane_results field now position c)) lane else lane))"

text \<open>A stored state at a level.\<close>

definition lane_state :: "js_value \<Rightarrow> int \<times> int \<Rightarrow> bool" where
  "lane_state st = (\<lambda>(k, l). at_level k l st \<and> js_nullish (js_get st ''incrementStep'') (VNum (num_of_int 1)) = VNum (num_of_int k))"

abbreviation lane_range :: "int \<Rightarrow> int \<times> int \<Rightarrow> bool" where
  "lane_range n \<equiv> \<lambda>(k, l). 1 \<le> k \<and> k \<le> 6 \<and> 0 \<le> l \<and> l \<le> n"

lemma level_limit:
  "normalizeBlockIncrementSteps (in_incrementSteps i) BLOCK_INCREMENT_STEPS_DEFAULT = num_of_int (level_limit i)" "1 \<le> level_limit i" "level_limit i \<le> 6"
  using increment_steps_range [of "in_incrementSteps i" BLOCK_INCREMENT_STEPS_DEFAULT] by (auto simp: level_limit_def)

text \<open>The level a leg was executed at, as \<open>Math.max(1, Math.floor(Number(x)))\<close> leaves it.\<close>

definition executed_shape :: "jsnum \<Rightarrow> bool" where
  "executed_shape e \<longleftrightarrow> e = NaN \<or> e = PInf \<or> (\<exists>m \<ge> 1. e = num_of_int m)"

lemma executed_shape_max: "executed_shape (js_max (num_of_int 1) (js_floor x))"
proof (cases x)
  case (Fin q)
  then have "js_max (num_of_int 1) (js_floor x) = num_of_int (max 1 \<lfloor>q\<rfloor>)" by (simp add: of_int_max)
  then show ?thesis unfolding executed_shape_def by (metis max.cobounded1)
qed (auto simp: executed_shape_def js_max_def intro: exI [of _ 1])

lemma held_level:
  assumes "1 \<le> c" "1 \<le> s" "s \<le> 6" "1 \<le> k" "k \<le> 6" "executed_shape e"
  shows "blockEffectiveIncrementStep (num_of_int c) (VNum (num_of_int s)) (js_max (num_of_int k) (num_or e (num_of_int 1))) =
    num_of_int (min s (max k (executed_level e)))"
proof -
  consider "e = NaN" | "e = PInf" | m where "1 \<le> m" "e = num_of_int m" using assms(6) executed_shape_def by blast
  then show ?thesis
  proof cases
    case 1
    then have "js_max (num_of_int k) (num_or e (num_of_int 1)) = num_of_int k" using assms by (simp add: num_or_def truthy_def)
    then show ?thesis using 1 effective_step_int [OF assms(1-3), of k] assms by (simp add: executed_level_def min.commute max.absorb2)
  next
    case 2
    then have "js_max (num_of_int k) (num_or e (num_of_int 1)) = PInf" by (simp add: num_or_def truthy_def js_max_def)
    then show ?thesis using 2 assms increment_steps_int [OF assms(2,3)]
      by (simp add: blockEffectiveIncrementStep_def num_or_def truthy_def js_isFinite_def js_min_def js_max_def executed_level_def)
  next
    case (3 m)
    then have "js_max (num_of_int k) (num_or e (num_of_int 1)) = num_of_int (max k m)" by (simp add: num_or_def truthy_def of_int_max)
    then show ?thesis using 3 effective_step_int [OF assms(1-3), of "max k m"] assms by (simp add: executed_level_def min.commute max.absorb2)
  qed
qed

lemma lane_advance_range:
  assumes "1 \<le> n" "lane_range n lane"
  shows "lane_range n (lane_advance n i lane)"
  using assms level_limit(2,3) [of i] by (auto simp: lane_advance_def Let_def split: prod.splits)

lemma lane_advance_parts:
  assumes "1 \<le> n" "n \<le> 2 ^ 50" "lane_range n lane" "lane_state st lane" "bl_blockCount i = num_of_int n" "executed_shape (executedIncrementStep i)"
  shows "incrementStep (advanceBlockCountLifecycle st i) = num_of_int (fst (lane_advance n i lane)) \<and>
    nonPositiveCount (advanceBlockCountLifecycle st i) = num_of_int (snd (lane_advance n i lane))"
proof -
  obtain k l where lane: "lane = (k, l)" by fastforce
  have prev: "prev_num st ''incrementStep'' 1 = num_of_int k" "prev_num st ''nonPositiveCount'' 0 = num_of_int l" and kl: "1 \<le> k" "k \<le> 6" "0 \<le> l" "l \<le> n"
    using assms lane by (simp_all add: lane_state_def at_level_def)
  note lim = level_limit [of i]
  let ?s = "level_limit i"
  define h where "h = min ?s (max k (executed_level (executedIncrementStep i)))"
  have cnt: "js_max (num_of_int 1) (js_floor (bl_blockCount i)) = num_of_int n" using assms by simp
  have held: "blockEffectiveIncrementStep (num_of_int n) (VNum (num_of_int ?s)) (js_max (num_of_int k) (num_or (executedIncrementStep i) (num_of_int 1))) = num_of_int h"
    using held_level [OF assms(1) lim(2,3) kl(1,2) assms(6)] unfolding h_def .
  have h: "1 \<le> h" "h \<le> ?s" "h \<le> 6" using lim kl by (auto simp: h_def)
  have add: "js_add (num_of_int l) (num_of_int 1) = num_of_int (l + 1)" "js_add (num_of_int h) (num_of_int 1) = num_of_int (h + 1)"
    "js_add (num_of_int h) (num_of_int 0) = num_of_int (h + 0)" using assms(2) kl h by (intro js_add_int; simp)+
  let ?a = "advanceBlockCountLifecycle st i" and ?r = "lane_advance n i lane"
  show ?thesis
  proof (cases "js_gt (netPnl i) (Fin 0)")
    case True
    then show ?thesis by (simp add: advanceBlockCountLifecycle_def Let_def lane lane_advance_def)
  next
    case False
    let ?adv = "n \<le> l + 1 \<and> h < ?s"
    have r: "?r = (if ?adv then (h + 1, 0) else (h, min n (l + 1)))" using False by (simp add: lane lane_advance_def Let_def h_def)
    have "incrementStep ?a = js_min (num_of_int ?s) (js_add (num_of_int h) (if ?adv then num_of_int 1 else num_of_int 0))"
      "nonPositiveCount ?a = (if ?adv then Fin 0 else js_min (num_of_int n) (num_of_int (l + 1)))"
      unfolding advanceBlockCountLifecycle_def Let_def lim(1) prev cnt held add(1) using False by (simp_all del: of_int_add)
    then show ?thesis unfolding r using add h by (auto simp: min_def)
  qed
qed

lemma lane_advance_state:
  assumes "1 \<le> n" "n \<le> 2 ^ 50" "lane_range n lane" "lane_state st lane" "bl_blockCount i = num_of_int n" "executed_shape (executedIncrementStep i)"
  shows "lane_state (lifecycle_object (advanceBlockCountLifecycle st i)) (lane_advance n i lane)"
proof -
  let ?r = "lane_advance n i lane"
  have "1 \<le> fst ?r" "0 \<le> snd ?r" using lane_advance_range [OF assms(1,3), of i] by (auto split: prod.splits)
  then show ?thesis using lane_advance_parts [OF assms]
    by (auto simp: lane_state_def at_level_def prev_num_def js_get_def js_prop_def lifecycle_object_def js_or_def js_truthy_def js_to_Number_def truthy_def
        js_nullish_def split: prod.splits)
qed

lemma lane_of_mem: "i \<in> set (lane_of field os) \<longleftrightarrow> Some (field, i) \<in> set os"
  by (induction field os rule: lane_of.induct) auto

lemma lane_result:
  assumes "i \<in> set (lane_results field now position c)"
  shows "bl_pauseCount i = js_max (num_of_int 1) (bl_blockCount i)" "bl_updatedAt i = num_of_int now" "executed_shape (executedIncrementStep i)"
proof -
  obtain leg where "leg_outcome now position c leg = Some (field, i)" using assms by (auto simp: lane_results_def lane_of_mem)
  then show "bl_pauseCount i = js_max (num_of_int 1) (bl_blockCount i)" "bl_updatedAt i = num_of_int now" "executed_shape (executedIncrementStep i)"
    using executed_shape_max by (auto simp: leg_outcome_def Let_def simp del: of_int_1 split: if_splits)
qed

lemma lane_jsonable:
  assumes "1 \<le> n" "n \<le> 2 ^ 50" "lane_range n lane" "lane_state st lane" "bl_blockCount i = num_of_int n" "i \<in> set (lane_results field now position c)"
    "0 \<le> now" "now \<le> 2 ^ 52"
  shows "jsonable (lifecycle_object (advanceBlockCountLifecycle st i))"
proof -
  let ?a = "advanceBlockCountLifecycle st i"
  have whole: "jsonable (VNum (num_of_int x))" if "0 \<le> x" "x \<le> 2 ^ 53" for x :: int
    using that by simp
  note lr = lane_result [OF assms(6)]
  obtain k l where kl: "lane_advance n i lane = (k, l)" by fastforce
  have lk: "1 \<le> k" "k \<le> 6" "0 \<le> l" "l \<le> n" using lane_advance_range [OF assms(1,3), of i] kl by auto
  have "incrementStep ?a = num_of_int k" "nonPositiveCount ?a = num_of_int l" using lane_advance_parts [OF assms(1-5) lr(3)] kl by simp_all
  moreover have "bl_pauseCount ?a = num_of_int n" "bl_blockCount ?a = num_of_int n" "bl_updatedAt ?a = num_of_int now" "incrementSteps ?a = num_of_int (level_limit i)"
    "remaining ?a = num_of_int n \<or> remaining ?a = num_of_int 0"
    using assms(1,5) lr level_limit [of i] by (simp_all add: advanceBlockCountLifecycle_def Let_def)
  ultimately show ?thesis using lk assms(1,2,7,8) level_limit(2,3) [of i]
    unfolding lifecycle_object_def by (auto simp del: of_int_0)
qed

subsection \<open>The store keeps the contract\<close>

text \<open>
  The store and the contract agree: the markers of the settled positions are there and live through the
  thirty days after \<open>t0\<close>, no others are, and the lane's state is at the contract's level.
\<close>

abbreviation lane_field :: "redis \<Rightarrow> string \<Rightarrow> string \<Rightarrow> string option" where
  "lane_field r conn field \<equiv> map_of (hash_at r (dcaStepStateKey (VStr conn))) field"

definition lane_sim :: "int \<Rightarrow> string \<Rightarrow> string \<Rightarrow> int \<Rightarrow> redis \<Rightarrow> lane_spec \<Rightarrow> bool" where
  "lane_sim t0 conn field n r = (\<lambda>(seen, lane).
     (\<forall>p \<in> seen. \<exists>v u. map_of (strings r) p = Some v \<and> v \<noteq> [] \<and> map_of (ttl r) p = Some (num_of_int u) \<and> t0 + 2592000000 \<le> u) \<and>
     (\<forall>c. processed_key c \<notin> seen \<longrightarrow> map_of (strings r) (processed_key c) = None) \<and> seen \<subseteq> range processed_key \<and>
     map_of (ttl r) (dcaStepStateKey (VStr conn)) = None \<and> lane_range n lane \<and> lane_state (parseState (lane_field r conn field)) lane)"

lemma sim_seen:
  assumes "lane_sim t0 conn field n r (seen, lane)" "0 \<le> t0" "t < t0 + 2592000000"
  shows "(visible_string t r (processed_key c) \<noteq> None \<and> visible_string t r (processed_key c) \<noteq> Some []) \<longleftrightarrow> processed_key c \<in> seen"
proof (cases "processed_key c \<in> seen")
  case True
  then obtain v u where "map_of (strings r) (processed_key c) = Some v" "v \<noteq> []" "map_of (ttl r) (processed_key c) = Some (num_of_int u)" "t0 + 2592000000 \<le> u"
    using assms(1) by (auto simp: lane_sim_def)
  then show ?thesis using True assms by (simp add: visible_string_def isExpired_def)
next
  case False
  then have "map_of (strings r) (processed_key c) = None" using assms(1) by (simp add: lane_sim_def)
  then show ?thesis using False by (simp add: visible_string_def)
qed

lemma sim_track: "lane_sim t0 conn field n (trackOperation t r) s = lane_sim t0 conn field n r s"
  by (simp add: lane_sim_def)

lemma settles_changes: "dca_changes now position c stored = [] \<longleftrightarrow> \<not> settles now position c"
  by (simp add: changes_put put_outcomes_empty settles_def del: not_None_eq not_Some_eq)

lemma changes_lane:
  "jsmap_wf (dca_changes now position c stored)"
  "map_of (dca_changes now position c stored) field =
     (if lane_results field now position c = [] then None
      else Some (json_text (lifecycle_object (advanceBlockCountLifecycle (parseState (map_of stored field)) (last (lane_results field now position c))))))"
  by (simp_all add: changes_put put_outcomes_wf put_outcomes_lookup lane_results_def)

lemma sim_commit:
  assumes sim: "lane_sim t0 conn field n r (seen, lane)" and t: "0 \<le> t1" "t1 \<le> 2 ^ 52" "t0 \<le> t"
    and c: "processed_key c \<notin> seen" and n: "1 \<le> n" "n \<le> 2 ^ 50" and field: "field \<noteq> ''__version''"
    and steps: "\<forall>i \<in> set (lane_results field t1 position c). bl_blockCount i = num_of_int n"
    and com: "committed t key (processed_key c) (dca_changes t1 position c stored) r r'" and key: "key = dcaStepStateKey (VStr (c_connectionId c))"
    and stored: "c_connectionId c = conn \<Longrightarrow> stored = hash_at r key"
  shows "lane_sim t0 conn field n r' (insert (processed_key c) seen,
     if c_connectionId c = conn \<and> lane_results field t1 position c \<noteq> [] then lane_advance n (last (lane_results field t1 position c)) lane else lane)"
    (is "lane_sim _ _ _ _ _ (_, ?lane)")
proof -
  let ?is = "lane_results field t1 position c" and ?k = "dcaStepStateKey (VStr conn)" and ?ch = "dca_changes t1 position c stored"
  obtain ver stamp where views: "\<And>k. hash_at r' k = (if k = key then AList.update ''__version'' ver (js_spread (hash_at r key) ?ch) else hash_at r k)"
    "stamp \<noteq> []" "strings r' = AList.update (processed_key c) stamp (strings r)" "map_of (ttl r') (processed_key c) = Some (num_of_int (t + 2592000000))"
    "\<And>k. k \<noteq> processed_key c \<Longrightarrow> map_of (ttl r') k = map_of (ttl r) k \<or> k = key \<and> map_of (ttl r') k = None"
    using com unfolding committed_def by metis
  have lr: "lane_range n lane" and ls: "lane_state (parseState (lane_field r conn field)) lane" and nt: "map_of (ttl r) ?k = None"
    using sim by (auto simp: lane_sim_def)
  have same: "key = ?k \<longleftrightarrow> c_connectionId c = conn" unfolding key by (rule state_key_inject)
  have fieldv: "lane_field r' conn field = (if c_connectionId c = conn \<and> ?is \<noteq> []
      then Some (json_text (lifecycle_object (advanceBlockCountLifecycle (parseState (lane_field r conn field)) (last ?is)))) else lane_field r conn field)"
    using same field stored by (auto simp: views(1) update_conv' map_of_spread changes_lane)
  have "lane_state (parseState (lane_field r' conn field)) ?lane"
  proof (cases "c_connectionId c = conn \<and> ?is \<noteq> []")
    case True
    then have mem: "last ?is \<in> set ?is" by simp
    let ?o = "lifecycle_object (advanceBlockCountLifecycle (parseState (lane_field r conn field)) (last ?is))"
    have bc: "bl_blockCount (last ?is) = num_of_int n" using steps mem by blast
    have "jsonable ?o" using lane_jsonable [OF n lr ls bc mem t(1,2)] .
    then have "parseState (Some (json_text ?o)) = ?o" using json_roundtrip by (simp add: parseState_def)
    moreover have "lane_state ?o (lane_advance n (last ?is) lane)" using lane_advance_state [OF n lr ls bc] lane_result(3) [OF mem] by blast
    ultimately show ?thesis using True fieldv by simp
  qed (use fieldv ls in auto)
  moreover have "lane_range n ?lane" using lr lane_advance_range [OF n(1) lr] by simp
  moreover have "map_of (ttl r') ?k = None" using views(5) [of ?k] nt state_key_distinct by auto
  moreover have "\<exists>v u. map_of (strings r') p = Some v \<and> v \<noteq> [] \<and> map_of (ttl r') p = Some (num_of_int u) \<and> t0 + 2592000000 \<le> u"
    if p: "p \<in> insert (processed_key c) seen" for p
  proof (cases "p = processed_key c")
    case True
    then show ?thesis using views(2-4) t(3) by (intro exI [of _ stamp] exI [of _ "t + 2592000000"]) (simp add: update_conv')
  next
    case False
    then have "p \<in> seen" using p by simp
    then obtain v u where v: "map_of (strings r) p = Some v" "v \<noteq> []" "map_of (ttl r) p = Some (num_of_int u)" "t0 + 2592000000 \<le> u"
      and "p \<noteq> key" using sim state_key_distinct unfolding key lane_sim_def by fastforce
    then show ?thesis using False views(3) views(5) [of p] by (auto simp: update_conv')
  qed
  moreover have "map_of (strings r') (processed_key d) = None" if "processed_key d \<notin> insert (processed_key c) seen" for d
    using that sim views(3) by (simp add: update_conv' lane_sim_def)
  ultimately show ?thesis using sim unfolding lane_sim_def by auto
qed

lemma sim_step:
  assumes sim: "lane_sim t0 conn field n r s" and t: "0 \<le> t0" "t0 \<le> t" "t < t0 + 2592000000" "t \<le> 2 ^ 52"
    and n: "1 \<le> n" "n \<le> 2 ^ 50" "field \<noteq> ''__version''"
    and steps: "\<And>c. dca_close_of position = Some c \<Longrightarrow> \<forall>i \<in> set (lane_results field t position c). bl_blockCount i = num_of_int n"
  shows "lane_sim t0 conn field n (updateDcaStepLifecycleForClose t position r) (lane_settle conn field n s (t, position))"
proof (cases "dca_close_of position")
  case None
  then show ?thesis using sim by (cases s) (simp add: updateDcaStepLifecycleForClose_def lane_settle_def)
next
  case (Some c)
  obtain seen lane where s: "s = (seen, lane)" by (cases s)
  note seen = sim_seen [OF sim [unfolded s] t(1,3), of c]
  let ?r = "trackOperation t (trackOperation t r)" and ?key = "dcaStepStateKey (VStr (c_connectionId c))"
  consider "processed_key c \<in> seen" | "processed_key c \<notin> seen" "\<not> settles t position c" | "processed_key c \<notin> seen" "settles t position c" by blast
  then show ?thesis
  proof cases
    case 3
    have "lane_sim t0 conn field n ?r (seen, lane)" using sim s by (simp add: sim_track)
    note commit = sim_commit [OF this _ t(4,2) 3(1) n steps [OF Some] _ refl]
    have "updateDcaStepLifecycleForClose t position r = (let st = (if isExpired t ?r ?key then [] else hash_at ?r ?key)
        in commit_changes t ?key (processed_key c) st (dca_changes t position c st) ?r)"
      using Some 3 seen by (auto simp: updateDcaStepLifecycleForClose_def Let_def case_prod_unfold redis_hgetall_def settles_changes)
    moreover have "map_of (ttl r) (dcaStepStateKey (VStr conn)) = None" using sim s by (simp add: lane_sim_def)
    ultimately show ?thesis using commit [OF _ commit_changes_committed] t Some 3 state_key_distinct
      by (auto simp: Let_def s lane_settle_def isExpired_def)
  qed (use Some seen sim s in \<open>auto simp: updateDcaStepLifecycleForClose_def lane_settle_def Let_def case_prod_unfold redis_hgetall_def settles_changes sim_track\<close>)
qed

text \<open>The module's empty state for a lane: no marker, no state, no expiry on the connection's hash.\<close>

definition lane_fresh :: "redis \<Rightarrow> string \<Rightarrow> string \<Rightarrow> bool" where
  "lane_fresh r conn field \<longleftrightarrow> list_all (\<lambda>(k, v). \<not> starts_with ''dca_step_recovery_processed:'' k) (strings r) \<and>
     lane_field r conn field = None \<and> map_of (ttl r) (dcaStepStateKey (VStr conn)) = None"

lemma sim_fresh:
  assumes "lane_fresh r conn field" "1 \<le> n"
  shows "lane_sim t0 conn field n r ({}, 1, 0)"
proof -
  have "map_of (strings r) (processed_key c) = None" for c
  proof -
    have "processed_key c \<notin> fst ` set (strings r)"
      using assms(1) by (force simp: lane_fresh_def list_all_iff processed_key_def)
    then show ?thesis by (simp add: map_of_eq_None_iff)
  qed
  moreover have "parseState None = VUndefined" by code_simp
  ultimately show ?thesis using assms
    by (simp add: lane_sim_def lane_fresh_def lane_state_def at_level_def prev_num_def js_get_def js_or_def js_truthy_def js_to_Number_def js_nullish_def)
qed

lemma sim_read:
  assumes "lane_sim t0 conn (dcaStepStateField symbol source stp) n r (seen, k, l)"
  shows "readDcaStepRecoveryLevel (Some (fst (redis_hgetall t (dcaStepStateKey (VStr conn)) r))) symbol source stp = num_of_int k"
  using assms by (simp add: lane_sim_def readDcaStepRecoveryLevel_def redis_hgetall_def isExpired_def lane_state_def js_to_Number_def js_isFinite_def Let_def)

lemma state_field_no_version: "dcaStepStateField symbol source stp \<noteq> ''__version''"
proof
  assume "dcaStepStateField symbol source stp = ''__version''"
  moreover have "CHR ''|'' \<in> set (dcaStepStateField symbol source stp)" by (simp add: dcaStepStateField_def)
  ultimately show False by simp
qed

text \<open>Closes within thirty days of \<open>t0\<close>, the legs of the lane being of its step.\<close>

definition closes_within :: "int \<Rightarrow> string \<Rightarrow> int \<Rightarrow> (int \<times> (string \<times> js_value) list) list \<Rightarrow> bool" where
  "closes_within t0 field n = list_all (\<lambda>(t, position). t0 \<le> t \<and> t < t0 + 2592000000 \<and>
     (case dca_close_of position of None \<Rightarrow> True | Some c \<Rightarrow> list_all (\<lambda>i. bl_blockCount i = num_of_int n) (lane_results field t position c)))"

text \<open>C9. The stored recovery levels implement the contract of a lane: whatever closed positions are
  settled within thirty days, in any order, more than once and for any connections, the level read back for a
  step is the one reached by taking each settled position once, wins resetting the lane and losses holding or
  raising its level; the other steps, symbols, sources and connections do not matter.
\<close>

theorem dca_lane_refines:
  assumes "1 \<le> n" "n \<le> 2 ^ 50" "0 \<le> t0" "t0 \<le> 2 ^ 51" "lane_fresh r conn (dcaStepStateField symbol source stp)"
    "closes_within t0 (dcaStepStateField symbol source stp) n closes"
  shows "readDcaStepRecoveryLevel
      (Some (fst (redis_hgetall now (dcaStepStateKey (VStr conn)) (foldl (\<lambda>r (t, position). updateDcaStepLifecycleForClose t position r) r closes))))
      symbol source stp =
    num_of_int (fst (snd (foldl (lane_settle conn (dcaStepStateField symbol source stp) n) ({}, 1, 0) closes)))"
proof -
  let ?f = "dcaStepStateField symbol source stp"
  have "lane_sim t0 conn ?f n (foldl (\<lambda>r (t, position). updateDcaStepLifecycleForClose t position r) r closes) (foldl (lane_settle conn ?f n) ({}, 1, 0) closes)"
    using assms(6)
  proof (induction closes rule: rev_induct)
    case Nil
    then show ?case using sim_fresh [OF assms(5,1)] by simp
  next
    case (snoc e closes)
    obtain t position where e: "e = (t, position)" by fastforce
    show ?case using snoc assms(1-4) state_field_no_version e by (auto simp: closes_within_def list_all_iff intro!: sim_step)
  qed
  then show ?thesis using sim_read by (metis prod.collapse)
qed

text \<open>A losing close of one leg of step one.\<close>

definition sample_close :: "string \<Rightarrow> (string \<times> js_value) list" where
  "sample_close pid = [(''connectionId'', VStr ''c1''), (''id'', VStr pid), (''symbol'', VStr ''BTC-USDT''), (''direction'', VStr ''long''), (''status'', VStr ''closed''),
     (''realizedPnL'', VNum (num_of_int (- 1))),
     (''dcaLegs'', VArr [VObj [(''step'', VNum (num_of_int 1)), (''quantity'', VNum (num_of_int 2)), (''setKey'', VStr ''live#dca:1'')]])]"

theorem dca_lane_refines_witness:
  "readDcaStepRecoveryLevel
      (Some (fst (redis_hgetall 4000 (dcaStepStateKey (VStr ''c1'')) (foldl (\<lambda>r (t, position). updateDcaStepLifecycleForClose t position r) (redis_empty 0)
         [(1000, sample_close ''p1''), (2000, sample_close ''p1''), (3000, sample_close ''p2'')]))))
      (VStr ''BTCUSDT'') (VStr ''live'') (VNum (num_of_int 1)) = num_of_int 3"
proof -
  let ?f = "dcaStepStateField (VStr ''BTCUSDT'') (VStr ''live'') (VNum (num_of_int 1))"
  let ?cs = "[(1000, sample_close ''p1''), (2000, sample_close ''p1''), (3000, sample_close ''p2'')]"
  have "lane_fresh (redis_empty 0) ''c1'' ?f" by code_simp
  moreover have "closes_within 1000 ?f 1 ?cs" by code_simp
  moreover have "fst (snd (foldl (lane_settle ''c1'' ?f 1) ({}, 1, 0) ?cs)) = 3" by code_simp
  ultimately show ?thesis using dca_lane_refines [of 1 1000 "redis_empty 0" "''c1''" "VStr ''BTCUSDT''" "VStr ''live''" "VNum (num_of_int 1)" ?cs 4000]
    by (simp del: foldl.simps)
qed

end
