(* ===== verification/DcaConcurrency.thy ===== *)
theory DcaConcurrency
  imports DcaOutcomes
begin

text \<open>
  Settlements by several processes on a shared server (\<open>lib/dca-step-outcomes.ts\<close>).  There the
  commit is the script \<open>COMMIT_DCA_OUTCOME\<close>, guarded by the version of the connection's hash: each
  writer checks the marker, reads the hash, computes its changes and commits them only if nobody
  committed in between, at most thirty-two times.  Commands and scripts are atomic, everything else
  may interleave.
\<close>

subsection \<open>The script\<close>

text \<open>
  \<open>EXISTS\<close> on a marker, which is only ever a string; the changes arrive as they were sent.  The
  version is only written here, in decimal, so \<open>tonumber(version) + 1\<close> is the next number in decimal.
\<close>

definition commit_dca_outcome :: "int \<Rightarrow> string \<Rightarrow> string \<Rightarrow> string \<Rightarrow> string jsmap \<Rightarrow> string \<Rightarrow> redis \<Rightarrow> int \<times> redis" where
  "commit_dca_outcome now key processed expected changes stamp r =
     (if visible_string now r processed \<noteq> None then (2, r)
      else let version = (case redis_hget now r key ''__version'' of Some v \<Rightarrow> v | None \<Rightarrow> ''0'')
           in if version \<noteq> expected then (0, r)
              else let r1 = foldl (\<lambda>r (field, v). snd (redis_hset now key (HsetField field (HStr v)) r)) r changes;
                       r2 = snd (redis_hset now key (HsetField ''__version'' (HStr (string_of_int (int_of_digits version + 1)))) r1);
                       r3 = snd (redis_persist now key r2)
                   in (1, snd (redis_set now processed stamp (no_options\<lparr>opt_EX := Some (num_of_int 2592000)\<rparr>) r3)))"

text \<open>\<open>String(stored?.__version || "0")\<close>.\<close>

definition version_text :: "string jsmap \<Rightarrow> string" where
  "version_text stored = (case map_of stored ''__version'' of Some v \<Rightarrow> if v = [] then ''0'' else v | None \<Rightarrow> ''0'')"

subsection \<open>A writer\<close>

text \<open>
  Where a call of \<open>updateDcaStepLifecycleForClose\<close> stands: before attempt \<open>n\<close>, after its marker was
  found missing, with its changes computed, returned, or with the error thrown.
\<close>

datatype phase = Start nat | Checked nat | Computed nat int string "string jsmap" | Settled | Failed

type_synonym position = "(string \<times> js_value) list"

definition writer_step :: "int \<Rightarrow> position \<Rightarrow> phase \<Rightarrow> redis \<Rightarrow> phase \<times> redis \<times> (int \<times> position) list" where
  "writer_step now position ph r =
     (case dca_close_of position of
        None \<Rightarrow> (Settled, r, [])
      | Some c \<Rightarrow>
          let key = dcaStepStateKey (VStr (c_connectionId c)); processed = processed_key c
          in case ph of
               Start n \<Rightarrow>
                 if 32 \<le> n then (Failed, r, [])
                 else let (seen, r1) = redis_get now processed r
                      in (if seen \<noteq> None \<and> seen \<noteq> Some [] then Settled else Checked n, r1, [])
             | Checked n \<Rightarrow>
                 let (stored, r1) = redis_hgetall now key r; changes = dca_changes now position c stored
                 in (if changes = [] then Settled else Computed n now (version_text stored) changes, r1, [])
             | Computed n t expected changes \<Rightarrow>
                 let (done, r1) = commit_dca_outcome now key processed expected changes (string_of_int t) r
                 in (if done = 1 \<or> done = 2 then Settled else Start (Suc n), r1, if done = 1 then [(t, position)] else [])
             | Settled \<Rightarrow> (Settled, r, [])
             | Failed \<Rightarrow> (Failed, r, []))"

text \<open>The writers over one store, with the commits in the order they were made.\<close>

record dca_system =
  store :: redis
  writers :: "(position \<times> phase) list"
  commits :: "(int \<times> position) list"

definition system_step :: "dca_system \<Rightarrow> nat \<times> int \<Rightarrow> dca_system" where
  "system_step s = (\<lambda>(w, now).
     if w < length (writers s)
     then let (position, ph) = writers s ! w; (ph', r', new) = writer_step now position ph (store s)
          in \<lparr>store = r', writers = (writers s)[w := (position, ph')], commits = commits s @ new\<rparr>
     else s)"

definition run_writers :: "redis \<Rightarrow> position list \<Rightarrow> (nat \<times> int) list \<Rightarrow> dca_system" where
  "run_writers r positions schedule =
     foldl system_step \<lparr>store = r, writers = map (\<lambda>p. (p, Start 0)) positions, commits = []\<rparr> schedule"

subsection \<open>The version guard\<close>

lemma set_ex_views:
  "hash_at (snd (redis_set now k v (no_options\<lparr>opt_EX := Some (num_of_int 2592000)\<rparr>) r)) = hash_at r"
  "strings (snd (redis_set now k v (no_options\<lparr>opt_EX := Some (num_of_int 2592000)\<rparr>) r)) = AList.update k v (strings r)"
  "ttl (snd (redis_set now k v (no_options\<lparr>opt_EX := Some (num_of_int 2592000)\<rparr>) r)) = ttl (setKeyTTL now k (num_of_int 2592000) r)"
  by (auto simp: redis_set_def no_options_def Let_def hash_at_def markDirty_def trackOperation_def setKeyTTL_def truthy_def)

lemma lua_committed:
  assumes "0 \<le> now" "now \<le> 2 ^ 52" "key \<noteq> processed" "stamp \<noteq> []"
    and run: "commit_dca_outcome now key processed expected changes stamp r = (1, r')"
  shows "committed now key processed changes r r'"
    "hash_at r' key = AList.update ''__version'' (string_of_int (int_of_digits expected + 1)) (js_spread (hash_at r key) changes)"
proof -
  let ?r1 = "foldl (\<lambda>r (f, v). snd (redis_hset now key (HsetField f (HStr v)) r)) r changes"
  let ?r2 = "snd (redis_hset now key (HsetField ''__version'' (HStr (string_of_int (int_of_digits expected + 1)))) ?r1)"
  let ?r3 = "snd (redis_persist now key ?r2)"
  have r': "r' = snd (redis_set now processed stamp (no_options\<lparr>opt_EX := Some (num_of_int 2592000)\<rparr>) ?r3)"
    using run by (auto simp: commit_dca_outcome_def Let_def simp del: of_int_numeral split: if_splits)
  have hash: "hash_at r' k = (if k = key then AList.update ''__version'' (string_of_int (int_of_digits expected + 1)) (js_spread (hash_at r key) changes) else hash_at r k)" for k
    unfolding r' set_ex_views by (simp add: hset_field hset_fields)
  have "ttl r' = ttl (setKeyTTL now processed (num_of_int 2592000) ?r3)" unfolding r' by (rule set_ex_views)
  then have "map_of (ttl r') processed = Some (num_of_int (now + 2592000000))"
    "k \<noteq> processed \<Longrightarrow> map_of (ttl r') k = map_of (ttl ?r3) k" for k
    using assms ttl_setKeyTTL [of now 2592000 processed ?r3] by (simp_all add: setKeyTTL_def markDirty_def)
  moreover have "map_of (ttl ?r3) k = map_of (ttl r) k \<or> k = key \<and> map_of (ttl ?r3) k = None" for k
    using persist_ttl [of now key ?r2 k] by (simp add: hset_field hset_fields)
  moreover have "strings r' = AList.update processed stamp (strings r)" unfolding r' set_ex_views by (simp add: hset_field hset_fields)
  ultimately show "committed now key processed changes r r'"
    unfolding committed_def using hash assms(4) by auto
  show "hash_at r' key = AList.update ''__version'' (string_of_int (int_of_digits expected + 1)) (js_spread (hash_at r key) changes)" using hash by simp
qed

text \<open>The hash of a connection: no expiry, and its version a number in decimal.\<close>

definition version_num :: "redis \<Rightarrow> string \<Rightarrow> int" where
  "version_num r conn = int_of_digits (version_text (hash_at r (dcaStepStateKey (VStr conn))))"

definition hash_ok :: "redis \<Rightarrow> string \<Rightarrow> bool" where
  "hash_ok r conn \<longleftrightarrow> map_of (ttl r) (dcaStepStateKey (VStr conn)) = None \<and> 0 \<le> version_num r conn \<and>
     lane_field r conn ''__version'' \<in> {None, Some (string_of_int (version_num r conn))}"

lemma int_of_digits_zero [simp]: "int_of_digits ''0'' = 0"
  by code_simp

lemma string_of_int_zero: "string_of_int 0 = ''0''"
  by code_simp

lemma digits_string_of_int [simp]: "0 \<le> m \<Longrightarrow> int_of_digits (string_of_int m) = m"
  by (simp add: string_of_int_def)

lemma version_text_ok:
  assumes "hash_ok r conn"
  shows "version_text (hash_at r (dcaStepStateKey (VStr conn))) = string_of_int (version_num r conn)"
    "(case redis_hget now r (dcaStepStateKey (VStr conn)) ''__version'' of Some v \<Rightarrow> v | None \<Rightarrow> ''0'') = string_of_int (version_num r conn)"
proof -
  have get: "redis_hget now r (dcaStepStateKey (VStr conn)) ''__version'' = lane_field r conn ''__version''"
    using assms by (simp add: hash_ok_def redis_hget_def isExpired_def)
  consider "lane_field r conn ''__version'' = None" | "lane_field r conn ''__version'' = Some (string_of_int (version_num r conn))"
    using assms by (auto simp: hash_ok_def)
  then show "version_text (hash_at r (dcaStepStateKey (VStr conn))) = string_of_int (version_num r conn)"
    "(case redis_hget now r (dcaStepStateKey (VStr conn)) ''__version'' of Some v \<Rightarrow> v | None \<Rightarrow> ''0'') = string_of_int (version_num r conn)"
    unfolding get by (cases, simp add: version_text_def version_num_def string_of_int_zero, simp add: version_text_def)+
qed

text \<open>A successful commit: it saw the version it expected, and the version grows.\<close>

lemma commit_result:
  assumes ok: "\<And>cn. hash_ok r cn" and t: "0 \<le> now" "now \<le> 2 ^ 52" and e: "expected = string_of_int m" "0 \<le> m"
    and run: "commit_dca_outcome now (dcaStepStateKey (VStr conn)) processed expected changes stamp r = (a, r')"
    and pk: "processed = processed_key c" "stamp \<noteq> []"
  shows "a = 2 \<and> r' = r \<and> visible_string now r processed \<noteq> None \<or>
    a = 0 \<and> r' = r \<or>
    a = 1 \<and> visible_string now r processed = None \<and> m = version_num r conn \<and> committed now (dcaStepStateKey (VStr conn)) processed changes r r' \<and>
      (\<forall>cn. hash_ok r' cn \<and> (if cn = conn then version_num r' cn = m + 1 else hash_at r' (dcaStepStateKey (VStr cn)) = hash_at r (dcaStepStateKey (VStr cn))))"
proof -
  let ?key = "dcaStepStateKey (VStr conn)"
  consider "visible_string now r processed \<noteq> None" | "visible_string now r processed = None" "m \<noteq> version_num r conn" | "visible_string now r processed = None" "m = version_num r conn" by blast
  moreover have ver: "(case redis_hget now r ?key ''__version'' of Some v \<Rightarrow> v | None \<Rightarrow> ''0'') = string_of_int (version_num r conn)" "0 \<le> version_num r conn"
    using version_text_ok(2) [OF ok] ok [of conn] by (auto simp: hash_ok_def)
  moreover have guard: "string_of_int (version_num r conn) = expected \<longleftrightarrow> version_num r conn = m"
    using e ver(2) string_of_int_inj_nonneg by metis
  ultimately show ?thesis
  proof cases
    case 1
    then show ?thesis using run by (auto simp: commit_dca_outcome_def)
  next
    case 2
    then show ?thesis using run guard by (auto simp: commit_dca_outcome_def ver)
  next
    case 3
    then have a: "a = 1" using run guard by (auto simp: commit_dca_outcome_def ver Let_def)
    have kp: "?key \<noteq> processed" using pk state_key_distinct by metis
    note com = lua_committed [OF t kp pk(2) run [unfolded a]]
    have other: "hash_at r' (dcaStepStateKey (VStr cn)) = hash_at r (dcaStepStateKey (VStr cn))" if "cn \<noteq> conn" for cn
      using com(1) that state_key_inject [of cn conn] by (auto simp: committed_def)
    have nottl: "map_of (ttl r') (dcaStepStateKey (VStr cn)) = None" for cn
      using com(1) ok [of cn] pk state_key_distinct [of "VStr cn" c] unfolding committed_def hash_ok_def by metis
    have new: "lane_field r' conn ''__version'' = Some (string_of_int (m + 1))" using com(2) e by (simp add: update_conv')
    then have num: "version_num r' conn = m + 1" using e by (simp add: version_num_def version_text_def)
    have "hash_ok r' cn" for cn
    proof (cases "cn = conn")
      case True
      then show ?thesis using nottl new num e by (simp add: hash_ok_def)
    next
      case False
      then show ?thesis using other ok [of cn] nottl by (simp add: hash_ok_def version_num_def)
    qed
    then show ?thesis using a 3 com(1) other num by auto
  qed
qed

subsection \<open>Interleaved writers\<close>

text \<open>The marker of a committed position.\<close>

definition close_key :: "position \<Rightarrow> string" where
  "close_key position = (case dca_close_of position of Some c \<Rightarrow> processed_key c | None \<Rightarrow> [])"

abbreviation lane_of_commits :: "string \<Rightarrow> string \<Rightarrow> int \<Rightarrow> (int \<times> position) list \<Rightarrow> lane_spec" where
  "lane_of_commits conn field n hist \<equiv> foldl (lane_settle conn field n) ({}, 1, 0) hist"

definition store_inv :: "int \<Rightarrow> string \<Rightarrow> string \<Rightarrow> int \<Rightarrow> redis \<Rightarrow> (int \<times> position) list \<Rightarrow> bool" where
  "store_inv t0 conn field n r hist \<longleftrightarrow> lane_sim t0 conn field n r (lane_of_commits conn field n hist) \<and> (\<forall>cn. hash_ok r cn) \<and>
     fst (lane_of_commits conn field n hist) = (close_key \<circ> snd) ` set hist \<and> distinct (map (close_key \<circ> snd) hist)"

text \<open>A writer whose changes are computed has read a version that is not ahead; as long as nobody commits
  they are the changes to the present hash.  One that has returned has nothing left to settle.\<close>

definition writer_inv :: "int \<Rightarrow> redis \<Rightarrow> (int \<times> position) list \<Rightarrow> position \<times> phase \<Rightarrow> bool" where
  "writer_inv t0 r hist = (\<lambda>(position, ph). case dca_close_of position of None \<Rightarrow> True | Some c \<Rightarrow>
     (case ph of
        Computed n t v changes \<Rightarrow>
          t0 \<le> t \<and> t < t0 + 2592000000 \<and> settles t position c \<and> n < 32 \<and>
          (\<exists>m. 0 \<le> m \<and> v = string_of_int m \<and> m \<le> version_num r (c_connectionId c) \<and>
             (m = version_num r (c_connectionId c) \<longrightarrow>
                changes = dca_changes t position c (hash_at r (dcaStepStateKey (VStr (c_connectionId c))))))
      | Settled \<Rightarrow> settles t0 position c \<longrightarrow> processed_key c \<in> (close_key \<circ> snd) ` set hist
      | Failed \<Rightarrow> True | Checked n \<Rightarrow> n < 32 | Start n \<Rightarrow> n \<le> 32))"

lemma settles_time: "settles t position c = settles t' position c"
proof -
  have "leg_outcome t position c leg = None \<longleftrightarrow> leg_outcome t' position c leg = None" for leg by (simp add: leg_outcome_def Let_def)
  then show ?thesis by (simp add: settles_def del: not_None_eq)
qed

lemma inv_track:
  "store_inv t0 conn field n (trackOperation t r) hist = store_inv t0 conn field n r hist"
  "writer_inv t0 (trackOperation t r) hist w = writer_inv t0 r hist w"
proof -
  have v: "version_num (trackOperation t r) cn = version_num r cn" for cn by (simp add: version_num_def)
  show "store_inv t0 conn field n (trackOperation t r) hist = store_inv t0 conn field n r hist"
    "writer_inv t0 (trackOperation t r) hist w = writer_inv t0 r hist w"
    by (simp_all add: store_inv_def sim_track hash_ok_def writer_inv_def v split: prod.split option.split phase.split)
qed

text \<open>The legs of the lane are of its step, for a position settled at any time.\<close>

definition lane_steps :: "string \<Rightarrow> int \<Rightarrow> position \<Rightarrow> bool" where
  "lane_steps field n position \<longleftrightarrow>
     (case dca_close_of position of None \<Rightarrow> True | Some c \<Rightarrow> list_all (\<lambda>i. bl_blockCount i = num_of_int n) (lane_results field 0 position c))"

lemma leg_outcome_time:
  "leg_outcome t position c leg = map_option (\<lambda>(f, i). (f, i\<lparr>bl_updatedAt := num_of_int t\<rparr>)) (leg_outcome 0 position c leg)"
  by (simp add: leg_outcome_def Let_def)

lemma lane_of_map: "lane_of field (map (map_option (\<lambda>(f, i). (f, g i))) os) = map g (lane_of field os)"
  by (induction field os rule: lane_of.induct) auto

lemma lane_results_time: "lane_results field t position c = map (\<lambda>i. i\<lparr>bl_updatedAt := num_of_int t\<rparr>) (lane_results field 0 position c)"
proof -
  have "map (leg_outcome t position c) legs = map (map_option (\<lambda>(f, i). (f, i\<lparr>bl_updatedAt := num_of_int t\<rparr>))) (map (leg_outcome 0 position c) legs)" for legs
    using leg_outcome_time [of t position c] by simp
  then show ?thesis unfolding lane_results_def by (simp only: lane_of_map)
qed

lemma lane_steps_at:
  assumes "lane_steps field n position" "dca_close_of position = Some c"
  shows "\<forall>i \<in> set (lane_results field t position c). bl_blockCount i = num_of_int n"
  using assms by (subst lane_results_time) (auto simp: lane_steps_def list_all_iff)

lemma seen_keys:
  assumes "store_inv t0 conn field n r hist" "0 \<le> t0" "t < t0 + 2592000000"
  shows "(visible_string t r (processed_key c) \<noteq> None \<and> visible_string t r (processed_key c) \<noteq> Some []) \<longleftrightarrow> processed_key c \<in> (close_key \<circ> snd) ` set hist"
    "visible_string t r (processed_key c) \<noteq> Some []"
proof -
  obtain seen lane where s: "lane_of_commits conn field n hist = (seen, lane)" by (rule that [OF prod.collapse [symmetric]])
  then have sim: "lane_sim t0 conn field n r (seen, lane)" and keys: "seen = (close_key \<circ> snd) ` set hist" using assms(1) by (auto simp: store_inv_def)
  show "(visible_string t r (processed_key c) \<noteq> None \<and> visible_string t r (processed_key c) \<noteq> Some []) \<longleftrightarrow> processed_key c \<in> (close_key \<circ> snd) ` set hist"
    using sim_seen [OF sim assms(2,3)] keys by simp
  show "visible_string t r (processed_key c) \<noteq> Some []"
  proof (cases "processed_key c \<in> seen")
    case True
    then show ?thesis using sim_seen [OF sim assms(2,3)] by blast
  next
    case False
    then show ?thesis using sim by (auto simp: lane_sim_def visible_string_def)
  qed
qed

lemma commit_store_inv:
  assumes inv: "store_inv t0 conn field n r hist" and t: "0 \<le> t0" "t0 \<le> t" "t0 \<le> t1" "t1 \<le> 2 ^ 52" "t < t0 + 2592000000"
    and n: "1 \<le> n" "n \<le> 2 ^ 50" "field \<noteq> ''__version''" and c: "dca_close_of position = Some c" "settles t1 position c" "lane_steps field n position"
    and com: "committed t (dcaStepStateKey (VStr (c_connectionId c))) (processed_key c)
      (dca_changes t1 position c (hash_at r (dcaStepStateKey (VStr (c_connectionId c))))) r r'"
    and ok: "\<And>cn. hash_ok r' cn" and fresh: "visible_string t r (processed_key c) = None"
  shows "store_inv t0 conn field n r' (hist @ [(t1, position)])"
proof -
  obtain seen lane where s: "lane_of_commits conn field n hist = (seen, lane)" by (rule that [OF prod.collapse [symmetric]])
  then have sim: "lane_sim t0 conn field n r (seen, lane)" and keys: "seen = (close_key \<circ> snd) ` set hist" using inv by (auto simp: store_inv_def)
  have new: "processed_key c \<notin> seen" using sim_seen [OF sim t(1,5), of c] fresh by simp
  have key: "close_key position = processed_key c" using c by (simp add: close_key_def)
  have "0 \<le> t1" using t by simp
  note sim_commit [OF sim this t(4,2) new n lane_steps_at [OF c(3,1)] com refl refl]
  moreover have "lane_of_commits conn field n (hist @ [(t1, position)]) = (insert (processed_key c) seen,
     if c_connectionId c = conn \<and> lane_results field t1 position c \<noteq> [] then lane_advance n (last (lane_results field t1 position c)) lane else lane)"
    using s new c by (simp add: lane_settle_def)
  ultimately show ?thesis using inv ok new keys key by (auto simp: store_inv_def)
qed

lemma commit_other_writers:
  assumes "writer_inv t0 r hist w" "0 \<le> m" "m = version_num r conn"
    "\<And>cn. if cn = conn then version_num r' cn = m + 1 else hash_at r' (dcaStepStateKey (VStr cn)) = hash_at r (dcaStepStateKey (VStr cn))"
  shows "writer_inv t0 r' (hist @ new) w"
proof -
  have ver: "version_num r' cn = (if cn = conn then version_num r cn + 1 else version_num r cn)" for cn
    using assms(3) assms(4) [of cn] by (simp add: version_num_def split: if_splits)
  have same: "cn \<noteq> conn \<Longrightarrow> hash_at r' (dcaStepStateKey (VStr cn)) = hash_at r (dcaStepStateKey (VStr cn))" for cn
    using assms(4) [of cn] by simp
  show ?thesis
    using assms(1) by (fastforce simp: writer_inv_def ver same split: prod.splits option.splits phase.splits)
qed

lemma writer_inv_phase:
  assumes "dca_close_of position = Some c"
  shows "writer_inv t0 r hist (position, Start k) \<longleftrightarrow> k \<le> 32" "writer_inv t0 r hist (position, Checked k) \<longleftrightarrow> k < 32" "writer_inv t0 r hist (position, Failed)"
    "writer_inv t0 r hist (position, Settled) \<longleftrightarrow> (settles t0 position c \<longrightarrow> processed_key c \<in> (close_key \<circ> snd) ` set hist)"
    "writer_inv t0 r hist (position, Computed k t v changes) \<longleftrightarrow>
       t0 \<le> t \<and> t < t0 + 2592000000 \<and> settles t position c \<and> k < 32 \<and>
       (\<exists>m. 0 \<le> m \<and> v = string_of_int m \<and> m \<le> version_num r (c_connectionId c) \<and>
          (m = version_num r (c_connectionId c) \<longrightarrow> changes = dca_changes t position c (hash_at r (dcaStepStateKey (VStr (c_connectionId c))))))"
  using assms by (simp_all add: writer_inv_def)

text \<open>What a step of one writer keeps, of the store and of all writers.\<close>

definition step_ok :: "int \<Rightarrow> string \<Rightarrow> string \<Rightarrow> int \<Rightarrow> redis \<Rightarrow> (int \<times> position) list \<Rightarrow> position \<Rightarrow> phase \<times> redis \<times> (int \<times> position) list \<Rightarrow> bool" where
  "step_ok t0 conn field n r hist position = (\<lambda>(ph', r', new).
     store_inv t0 conn field n r' (hist @ new) \<and> writer_inv t0 r' (hist @ new) (position, ph') \<and>
     (\<forall>u. writer_inv t0 r hist u \<longrightarrow> writer_inv t0 r' (hist @ new) u) \<and> snd ` set new \<subseteq> {position})"

lemma step_ok_same:
  assumes "store_inv t0 conn field n r hist" "writer_inv t0 r hist (position, ph')"
  shows "step_ok t0 conn field n r hist position (ph', r, [])" "step_ok t0 conn field n r hist position (ph', trackOperation t r, [])"
  using assms by (auto simp: step_ok_def inv_track)

lemma step_computed:
  assumes inv: "store_inv t0 conn field n r hist" and w: "writer_inv t0 r hist (position, Computed k t1 v changes)" and c: "dca_close_of position = Some c"
    and t: "0 \<le> t0" "t0 \<le> 2 ^ 51" "t0 \<le> t" "t < t0 + 2592000000" and n: "1 \<le> n" "n \<le> 2 ^ 50" "field \<noteq> ''__version''" "lane_steps field n position"
  shows "step_ok t0 conn field n r hist position (writer_step t position (Computed k t1 v changes) r)"
proof -
  let ?key = "dcaStepStateKey (VStr (c_connectionId c))"
  have ok: "\<And>cn. hash_ok r cn" using inv by (simp add: store_inv_def)
  note seen = seen_keys [OF inv t(1,4), of c]
  obtain m where m: "t0 \<le> t1" "t1 < t0 + 2592000000" "settles t1 position c" "k < 32" "0 \<le> m" "v = string_of_int m"
    "m = version_num r (c_connectionId c) \<Longrightarrow> changes = dca_changes t1 position c (hash_at r ?key)"
    using w c by (auto simp: writer_inv_phase)
  obtain a r1 where com: "commit_dca_outcome t ?key (processed_key c) v changes (string_of_int t1) r = (a, r1)" by (rule prod.exhaust)
  have t': "0 \<le> t" "t \<le> 2 ^ 52" "t1 \<le> 2 ^ 52" using t m by auto
  have step: "writer_step t position (Computed k t1 v changes) r =
      (if a = 1 \<or> a = 2 then Settled else Start (Suc k), r1, if a = 1 then [(t1, position)] else [])"
    using c com by (simp add: writer_step_def)
  consider "a = 2" "r1 = r" "visible_string t r (processed_key c) \<noteq> None" | "a = 0" "r1 = r" |
    "a = 1" "visible_string t r (processed_key c) = None" "m = version_num r (c_connectionId c)" "committed t ?key (processed_key c) changes r r1"
      "\<forall>cn. hash_ok r1 cn \<and> (if cn = c_connectionId c then version_num r1 cn = m + 1 else hash_at r1 (dcaStepStateKey (VStr cn)) = hash_at r (dcaStepStateKey (VStr cn)))"
    using commit_result [OF ok t'(1,2) m(6,5) com refl string_of_int_ne] by (elim disjE conjE)
  then show ?thesis
  proof cases
    case 1
    then have "writer_inv t0 r hist (position, Settled)" using seen c by (simp add: writer_inv_phase)
    then show ?thesis using 1 step step_ok_same(1) [OF inv] by simp
  next
    case 2
    then have "writer_inv t0 r hist (position, Start (Suc k))" using m c by (simp add: writer_inv_phase)
    then show ?thesis using 2 step step_ok_same(1) [OF inv] by simp
  next
    case 3
    have "store_inv t0 conn field n r1 (hist @ [(t1, position)])"
      using commit_store_inv [OF inv t(1,3) m(1) t'(3) t(4) n(1-3) c m(3) n(4)] 3 m(7) by blast
    moreover have "\<forall>u. writer_inv t0 r hist u \<longrightarrow> writer_inv t0 r1 (hist @ [(t1, position)]) u"
      using commit_other_writers [OF _ m(5) 3(3)] 3(5) by blast
    moreover have "writer_inv t0 r1 (hist @ [(t1, position)]) (position, Settled)" using c by (simp add: writer_inv_phase close_key_def)
    ultimately show ?thesis using 3 step by (simp add: step_ok_def)
  qed
qed

lemma writer_step_ok:
  assumes inv: "store_inv t0 conn field n r hist" and w: "writer_inv t0 r hist (position, ph)"
    and t: "0 \<le> t0" "t0 \<le> 2 ^ 51" "t0 \<le> t" "t < t0 + 2592000000" and n: "1 \<le> n" "n \<le> 2 ^ 50" "field \<noteq> ''__version''" "lane_steps field n position"
  shows "step_ok t0 conn field n r hist position (writer_step t position ph r)"
proof (cases "dca_close_of position")
  case None
  then have "writer_inv t0 r hist (position, Settled)" by (simp add: writer_inv_def)
  then show ?thesis using None step_ok_same(1) [OF inv] by (simp add: writer_step_def)
next
  case (Some c)
  let ?key = "dcaStepStateKey (VStr (c_connectionId c))"
  have ok: "\<And>cn. hash_ok r cn" using inv by (simp add: store_inv_def)
  note seen = seen_keys [OF inv t(1,4), of c]
  show ?thesis
  proof (cases ph)
    case (Start k)
    then show ?thesis using Some w seen step_ok_same [OF inv]
      by (auto simp: writer_step_def Let_def case_prod_unfold writer_inv_phase)
  next
    case (Checked k)
    have "redis_hgetall t ?key r = (hash_at r ?key, trackOperation t r)"
      using ok [of "c_connectionId c"] by (simp add: redis_hgetall_def hash_ok_def isExpired_def)
    moreover have "version_text (hash_at r ?key) = string_of_int (version_num r (c_connectionId c))" "0 \<le> version_num r (c_connectionId c)"
      using version_text_ok(1) [OF ok] ok [of "c_connectionId c"] by (simp_all add: hash_ok_def)
    moreover have "k < 32" using w Some Checked by (simp add: writer_inv_phase)
    ultimately have "writer_inv t0 r hist (position, fst (writer_step t position ph r))"
      using Some Checked t settles_time [of t0 position c t] by (auto simp: writer_step_def Let_def writer_inv_phase settles_changes)
    moreover have "snd (writer_step t position ph r) = (trackOperation t r, [])"
      using Some Checked by (simp add: writer_step_def Let_def redis_hgetall_def)
    ultimately show ?thesis using step_ok_same(2) [OF inv, where t = t] by (metis prod.collapse)
  next
    case (Computed k t1 v changes)
    then show ?thesis using step_computed [OF inv _ Some t n] w by simp
  qed (use Some w step_ok_same(1) [OF inv] in \<open>auto simp: writer_step_def Let_def\<close>)
qed

subsection \<open>No lost escalation\<close>

definition system_inv :: "int \<Rightarrow> string \<Rightarrow> string \<Rightarrow> int \<Rightarrow> position list \<Rightarrow> dca_system \<Rightarrow> bool" where
  "system_inv t0 conn field n positions s \<longleftrightarrow> store_inv t0 conn field n (store s) (commits s) \<and>
     (\<forall>w \<in> set (writers s). writer_inv t0 (store s) (commits s) w) \<and> map fst (writers s) = positions \<and> snd ` set (commits s) \<subseteq> set positions"

lemma system_step_inv:
  assumes inv: "system_inv t0 conn field n positions s" and t: "0 \<le> t0" "t0 \<le> 2 ^ 51" "t0 \<le> t" "t < t0 + 2592000000"
    and n: "1 \<le> n" "n \<le> 2 ^ 50" "field \<noteq> ''__version''" "list_all (lane_steps field n) positions"
  shows "system_inv t0 conn field n positions (system_step s (w, t))"
proof (cases "w < length (writers s)")
  case True
  obtain position ph where w: "writers s ! w = (position, ph)" by fastforce
  obtain ph' r' new where step: "writer_step t position ph (store s) = (ph', r', new)" by (rule prod_cases3)
  have mem: "(position, ph) \<in> set (writers s)" using True w by (metis nth_mem)
  then have pos: "position \<in> set positions" using inv by (force simp: system_inv_def)
  then have "lane_steps field n position" using n(4) by (simp add: list_all_iff)
  then have "step_ok t0 conn field n (store s) (commits s) position (ph', r', new)"
    using writer_step_ok [OF _ _ t n(1-3)] inv mem step by (metis system_inv_def)
  moreover have "map fst ((writers s)[w := (position, ph')]) = map fst (writers s)"
    using True w by (metis fst_conv list_update_id map_update nth_map)
  ultimately show ?thesis
    using inv True w step pos set_update_subset_insert [of "writers s" w "(position, ph')"] by (auto simp: system_inv_def system_step_def step_ok_def)
qed (use inv in \<open>simp add: system_step_def\<close>)

text \<open>No entry of the module in the store yet.\<close>

definition dca_fresh :: "redis \<Rightarrow> bool" where
  "dca_fresh r \<longleftrightarrow> list_all (\<lambda>(k, v). \<not> starts_with ''dca_step_recovery_processed:'' k) (strings r) \<and>
     list_all (\<lambda>(k, v). \<not> starts_with ''dca_step_recovery:'' k) (hashes r) \<and> list_all (\<lambda>(k, v). \<not> starts_with ''dca_step_recovery:'' k) (ttl r)"

lemma dca_fresh_lane:
  assumes "dca_fresh r"
  shows "lane_fresh r conn field" "hash_ok r conn"
proof -
  have "map_of m (dcaStepStateKey (VStr conn)) = None" if "list_all (\<lambda>(k, v). \<not> starts_with ''dca_step_recovery:'' k) m" for m :: "'v jsmap"
    using that by (force simp: list_all_iff map_of_eq_None_iff dcaStepStateKey_def)
  then have "map_of (hashes r) (dcaStepStateKey (VStr conn)) = None" "map_of (ttl r) (dcaStepStateKey (VStr conn)) = None"
    using assms by (auto simp: dca_fresh_def)
  then show "lane_fresh r conn field" "hash_ok r conn"
    using assms by (auto simp: dca_fresh_def lane_fresh_def hash_ok_def version_num_def version_text_def hash_at_def)
qed

text \<open>C8. Concurrent writers lose no escalation: whatever way the commands of any number of settling
  calls interleave within thirty days, the level read back for a step is the one the contract gives for the
  commits in the order they were made; no position is committed twice, only given positions are committed, and a
  call that has returned leaves the close it was given committed.
\<close>

theorem dca_concurrent_commits:
  assumes "1 \<le> n" "n \<le> 2 ^ 50" "0 \<le> t0" "t0 \<le> 2 ^ 51" "dca_fresh r"
    "list_all (lane_steps (dcaStepStateField symbol source stp) n) positions" "list_all (\<lambda>(w, t). t0 \<le> t \<and> t < t0 + 2592000000) schedule"
  shows "readDcaStepRecoveryLevel (Some (fst (redis_hgetall now (dcaStepStateKey (VStr conn)) (store (run_writers r positions schedule))))) symbol source stp =
      num_of_int (fst (snd (foldl (lane_settle conn (dcaStepStateField symbol source stp) n) ({}, 1, 0) (commits (run_writers r positions schedule))))) \<and>
    distinct (map (close_key \<circ> snd) (commits (run_writers r positions schedule))) \<and>
    snd ` set (commits (run_writers r positions schedule)) \<subseteq> set positions \<and>
    (\<forall>position c. (position, Settled) \<in> set (writers (run_writers r positions schedule)) \<longrightarrow> dca_close_of position = Some c \<longrightarrow> settles t0 position c \<longrightarrow>
       close_key position \<in> (close_key \<circ> snd) ` set (commits (run_writers r positions schedule)))"
proof -
  let ?f = "dcaStepStateField symbol source stp" and ?s = "run_writers r positions schedule"
  let ?init = "\<lparr>store = r, writers = map (\<lambda>p. (p, Start 0)) positions, commits = []\<rparr>"
  have "system_inv t0 conn ?f n positions ?init"
    using sim_fresh [OF dca_fresh_lane(1) [OF assms(5)] assms(1)] dca_fresh_lane(2) [OF assms(5)]
    by (auto simp: system_inv_def store_inv_def writer_inv_def comp_def split: option.split)
  then have inv: "system_inv t0 conn ?f n positions ?s"
    unfolding run_writers_def using assms(7)
  proof (induction schedule rule: rev_induct)
    case (snoc e es)
    then show ?case using system_step_inv [OF _ assms(3,4) _ _ assms(1,2) state_field_no_version assms(6)] by (cases e) auto
  qed simp
  then have "lane_sim t0 conn ?f n (store ?s) (foldl (lane_settle conn ?f n) ({}, 1, 0) (commits ?s))" by (simp add: system_inv_def store_inv_def)
  then have "readDcaStepRecoveryLevel (Some (fst (redis_hgetall now (dcaStepStateKey (VStr conn)) (store ?s)))) symbol source stp =
      num_of_int (fst (snd (foldl (lane_settle conn ?f n) ({}, 1, 0) (commits ?s))))"
    using sim_read by (metis prod.collapse)
  moreover have "close_key position \<in> (close_key \<circ> snd) ` set (commits ?s)"
    if "(position, Settled) \<in> set (writers ?s)" "dca_close_of position = Some c" "settles t0 position c" for position c
    using that inv by (auto simp: system_inv_def writer_inv_phase close_key_def)
  ultimately show ?thesis using inv by (simp add: system_inv_def store_inv_def)
qed

text \<open>Two writers that read the same version: the second is refused and tries again.\<close>

definition sample_race :: "(nat \<times> int) list" where
  "sample_race = [(0, 1000), (1, 1000), (0, 1001), (1, 1001), (0, 1002), (1, 1003), (1, 1004), (1, 1005), (1, 1006)]"

theorem dca_concurrent_commits_witness:
  "readDcaStepRecoveryLevel (Some (fst (redis_hgetall 2000 (dcaStepStateKey (VStr ''c1''))
        (store (run_writers (redis_empty 0) [sample_close ''p1'', sample_close ''p2''] sample_race)))))
      (VStr ''BTCUSDT'') (VStr ''live'') (VNum (num_of_int 1)) =
    num_of_int (fst (snd (foldl (lane_settle ''c1'' (dcaStepStateField (VStr ''BTCUSDT'') (VStr ''live'') (VNum (num_of_int 1))) 1) ({}, 1, 0)
      (commits (run_writers (redis_empty 0) [sample_close ''p1'', sample_close ''p2''] sample_race)))))"
proof -
  let ?f = "dcaStepStateField (VStr ''BTCUSDT'') (VStr ''live'') (VNum (num_of_int 1))"
  have fresh: "dca_fresh (redis_empty 0)" by code_simp
  have steps: "list_all (lane_steps ?f 1) [sample_close ''p1'', sample_close ''p2'']" by code_simp
  have times: "list_all (\<lambda>(w, t). (1000::int) \<le> t \<and> t < 1000 + 2592000000) sample_race" by code_simp
  show ?thesis by (rule dca_concurrent_commits [OF _ _ _ _ fresh steps times, THEN conjunct1]) simp_all
qed

end
