(* ===== verification/JsPrint.thy ===== *)
theory JsPrint
  imports JsMath JsText
begin

text \<open>
  Printing a number and reading it back.  \<open>String(x)\<close> prints the shortest digits that round to \<open>x\<close>; at
  most seventeen are needed, so the printed decimal always rounds to \<open>x\<close> and \<open>Number(String(x)) = x\<close>.
  The printed form is given by its digits before and after the point and its exponent, for the code
  that takes the text apart.
\<close>

subsection \<open>Decimal exponents\<close>

lemma pow10_le_pow2:
  fixes a b :: nat
  assumes "103 * a \<le> 31 * b"
  shows "(10 :: rat) ^ a \<le> 2 ^ b"
proof -
  have "((10 :: rat) ^ a) ^ 103 = 10 ^ (103 * a)" unfolding power_mult [symmetric] by (simp only: mult.commute)
  also have "\<dots> \<le> 10 ^ (31 * b)" using assms by (intro power_increasing) simp_all
  also have "\<dots> = (10 ^ 31) ^ b" by (simp only: power_mult)
  also have "\<dots> \<le> (2 ^ 103) ^ b" by (intro power_mono) simp_all
  also have "\<dots> = (2 ^ b) ^ 103" unfolding power_mult [symmetric] by (simp only: mult.commute)
  finally show ?thesis by (subst (asm) power_mono_iff) simp_all
qed

lemma pow2_le_pow10:
  fixes a b :: nat
  assumes "28 * b \<le> 93 * a"
  shows "(2 :: rat) ^ b \<le> 10 ^ a"
proof -
  have "((2 :: rat) ^ b) ^ 93 = (2 ^ 93) ^ b" unfolding power_mult [symmetric] by (simp only: mult.commute)
  also have "\<dots> \<le> (10 ^ 28) ^ b" by (intro power_mono) simp_all
  also have "\<dots> = 10 ^ (28 * b)" by (simp only: power_mult)
  also have "\<dots> \<le> 10 ^ (93 * a)" using assms by (intro power_increasing) simp_all
  also have "\<dots> = (10 ^ a) ^ 93" unfolding power_mult [symmetric] by (simp only: mult.commute)
  finally show ?thesis by (subst (asm) power_mono_iff) simp_all
qed

lemma pow10_powi_le_pow2:
  assumes "103 * a \<le> 31 * b" "28 * a \<le> 0 \<longrightarrow> 93 * a \<le> 28 * b"
  shows "(10 :: rat) powi a \<le> 2 powi b"
proof (cases "0 \<le> a")
  case True
  then have "0 \<le> b" using assms(1) by linarith
  have "(10 :: rat) ^ nat a \<le> 2 ^ nat b" using True \<open>0 \<le> b\<close> assms(1) by (intro pow10_le_pow2) linarith
  then show ?thesis using True \<open>0 \<le> b\<close> by (simp add: power_int_def)
next
  case False
  show ?thesis
  proof (cases "0 \<le> b")
    case True
    have "(10 :: rat) powi a \<le> 10 powi 0" using False by (intro power_int_increasing) simp_all
    also have "\<dots> \<le> 2 powi b" using True by (simp add: power_int_def)
    finally show ?thesis .
  next
    case b: False
    have "(2 :: rat) ^ nat (- b) \<le> 10 ^ nat (- a)" using False b assms(2) by (intro pow2_le_pow10) linarith
    then show ?thesis using False b by (simp add: power_int_def power_inverse inverse_le_iff_le field_simps)
  qed
qed

lemma pow2_powi_le_pow10:
  assumes "28 * b \<le> 93 * a" "b \<le> 0 \<longrightarrow> 31 * b \<le> 103 * a"
  shows "(2 :: rat) powi b \<le> 10 powi a"
proof (cases "0 \<le> b")
  case True
  then have "0 \<le> a" using assms(1) by linarith
  have "(2 :: rat) ^ nat b \<le> 10 ^ nat a" using True \<open>0 \<le> a\<close> assms(1) by (intro pow2_le_pow10) linarith
  then show ?thesis using True \<open>0 \<le> a\<close> by (simp add: power_int_def)
next
  case False
  show ?thesis
  proof (cases "0 \<le> a")
    case True
    have "(2 :: rat) powi b \<le> 2 powi 0" using False by (intro power_int_increasing) simp_all
    also have "\<dots> \<le> 10 powi a" using True by (simp add: power_int_def)
    finally show ?thesis .
  next
    case a: False
    have "(10 :: rat) ^ nat (- a) \<le> 2 ^ nat (- b)" using False a assms(2) by (intro pow10_le_pow2) linarith
    then show ?thesis using False a by (simp add: power_int_def power_inverse inverse_le_iff_le field_simps)
  qed
qed

lemma log10_estimate:
  fixes e L :: int
  assumes "100000 * (e - 1) \<le> 30103 * L" "30103 * L < 100000 * e" "- 1100 \<le> L" "L \<le> 1100"
  shows "103 * (e - 2) \<le> 31 * L" "93 * (e - 2) \<le> 28 * L" "28 * (L + 1) \<le> 93 * (e + 1)" "31 * (L + 1) \<le> 103 * (e + 1)"
proof -
  have "10300000 * e - 10300000 \<le> 3100609 * L" using assms(1) by simp
  then have "10300000 * e - 20600000 \<le> 3100000 * L" using assms(4) by simp
  then show "103 * (e - 2) \<le> 31 * L" by simp
  have "9300000 * e - 9300000 \<le> 2799579 * L" using assms(1) by simp
  then have "9300000 * e - 18600000 \<le> 2800000 * L" using assms(3) by simp
  then show "93 * (e - 2) \<le> 28 * L" by simp
  have "2799579 * L \<le> 9300000 * e" using assms(2) by simp
  then have "2800000 * L + 2800000 \<le> 9300000 * e + 9300000" using assms(4) by simp
  then show "28 * (L + 1) \<le> 93 * (e + 1)" by simp
  have "3100609 * L \<le> 10300000 * e" using assms(2) by simp
  then have "3100000 * L + 3100000 \<le> 10300000 * e + 10300000" using assms(3) by simp
  then show "31 * (L + 1) \<le> 103 * (e + 1)" by simp
qed

lemma dec_exp_bounds:
  assumes "0 < x" "- 1100 \<le> ilog2 x" "ilog2 x \<le> 1100"
  shows "10 powi (dec_exp x - 1) \<le> x" "x < 10 powi (dec_exp x)"
proof -
  define L where "L = ilog2 x"
  define e where "e = L * 30103 div 100000 + 1"
  define r where "r = L * 30103 mod 100000"
  have "100000 * (e - 1) + r = L * 30103" "0 \<le> r" "r < 100000" by (simp_all add: e_def r_def)
  then have e: "100000 * (e - 1) \<le> 30103 * L" "30103 * L < 100000 * e" by (simp_all add: mult.commute)
  have L: "- 1100 \<le> L" "L \<le> 1100" using assms(2,3) by (simp_all add: L_def)
  note est = log10_estimate [OF e L]
  have "(10 :: rat) powi (e - 2) \<le> 2 powi L" using est(1,2) by (intro pow10_powi_le_pow2 impI)
  then have lo: "10 powi (e - 2) \<le> x" using ilog2_bounds(1) [OF assms(1)] by (simp add: L_def)
  have "(2 :: rat) powi (L + 1) \<le> 10 powi (e + 1)" using est(3,4) by (intro pow2_powi_le_pow10 impI)
  then have hi: "x < 10 powi (e + 1)" using ilog2_bounds(2) [OF assms(1)] by (simp add: L_def)
  have "dec_exp x = (if x < 10 powi (e - 1) then e - 1 else if 10 powi e \<le> x then e + 1 else e)"
    by (simp add: dec_exp_def Let_def L_def e_def)
  then show "10 powi (dec_exp x - 1) \<le> x" "x < 10 powi (dec_exp x)"
    using lo hi by (auto simp: not_le not_less)
qed

subsection \<open>A number close to a double rounds to it\<close>

lemma multiple_gap:
  fixes u :: rat
  assumes "0 < u" "\<bar>of_int a * u - of_int b * u\<bar> < u"
  shows "a = b"
proof -
  have "\<bar>of_int (a - b)\<bar> * u < 1 * u" using assms by (simp add: left_diff_distrib abs_mult flip: left_diff_distrib)
  then have "\<bar>of_int (a - b) :: rat\<bar> < 1" using assms(1) by (simp only: mult_less_cancel_right_pos)
  then show ?thesis by linarith
qed

lemma pow2_multiple: "e \<le> f \<Longrightarrow> (2 :: rat) powi f = of_int (2 ^ nat (f - e)) * 2 powi e"
  using pow2_add [of "f - e" e] by (simp add: power_int_def [of _ "f - e"])

lemma fl_rat_near:
  assumes "fl_rat x = x" "0 < x" "0 < y" "\<bar>y - x\<bar> < x * 2 powi (- 54)"
  shows "fl_rat y = x"
proof -
  let ?u = "(2 :: rat) powi (fexp x)" and ?v = "(2 :: rat) powi (fexp y)"
  have xm: "x = of_int (round_half_even (x / ?u)) * ?u" using assms(1,2) by (simp add: fl_rat_def)
  have ym: "fl_rat y = of_int (round_half_even (y / ?v)) * ?v" using assms(3) by (simp add: fl_rat_def)
  have xL: "x < 2 powi (ilog2 x + 1)" "2 powi (ilog2 x) \<le> x" using ilog2_bounds [OF assms(2)] by simp_all
  have fx: "ilog2 x - 52 \<le> fexp x" using assms(2) by (simp add: fexp_def)
  have "x * 2 powi (- 54) < 2 powi (ilog2 x + 1) * 2 powi (- 54)" using xL(1) by (intro mult_strict_right_mono) simp_all
  also have "\<dots> = 2 powi (ilog2 x + 1 + - 54)" by (simp only: pow2_add)
  also have "\<dots> \<le> 2 powi (fexp x + - 1)" using fx by (intro pow2_mono) linarith
  also have "\<dots> = ?u / 2" unfolding pow2_add by simp
  finally have small: "x * 2 powi (- 54) < ?u / 2" .
  have le: "fexp y \<le> fexp x"
  proof (rule ccontr)
    assume "\<not> fexp y \<le> fexp x"
    then have "ilog2 x < ilog2 y" using assms(2,3) by (simp add: fexp_def split: if_splits)
    then have "2 powi (ilog2 x + 1) \<le> (2 powi (ilog2 y) :: rat)" by (intro pow2_mono) simp
    then have y: "2 powi (ilog2 x + 1) \<le> y" using ilog2_bounds(1) [OF assms(3)] by linarith
    show False
    proof (cases "fexp x \<le> ilog2 x + 1")
      case True
      note p = pow2_multiple [OF True]
      have "of_int (round_half_even (x / ?u)) * ?u < of_int (2 ^ nat (ilog2 x + 1 - fexp x)) * ?u" using xL(1) xm p by linarith
      then have "round_half_even (x / ?u) + 1 \<le> 2 ^ nat (ilog2 x + 1 - fexp x)"
        unfolding mult_less_cancel_right_pos [OF pow2_pos] of_int_less_iff by simp
      then have "of_int (round_half_even (x / ?u) + 1) * ?u \<le> of_int (2 ^ nat (ilog2 x + 1 - fexp x)) * ?u"
        by (intro mult_right_mono) (simp_all only: of_int_le_iff less_imp_le [OF pow2_pos])
      then have "x + ?u \<le> 2 powi (ilog2 x + 1)" using xm p by (simp add: distrib_right)
      then show False using y small assms(4) pow2_pos [of "fexp x"] by linarith
    next
      case False
      then have "x < ?u" using xL(1) pow2_mono [of "ilog2 x + 1" "fexp x"] by simp
      then have "of_int (round_half_even (x / ?u)) * ?u < 1 * ?u" using xm by simp
      then have "round_half_even (x / ?u) < 1" unfolding mult_less_cancel_right_pos [OF pow2_pos] by simp
      then have "of_int (round_half_even (x / ?u)) * ?u \<le> 0" by (simp add: mult_le_0_iff)
      then show False using xm assms(2) by simp
    qed
  qed
  have half: "x * 2 powi (- 54) \<le> ?v / 2"
  proof (cases "fexp y = fexp x")
    case True
    then show ?thesis using small by simp
  next
    case False
    then have lt: "fexp y < fexp x" using le by simp
    then have fe: "fexp x = ilog2 x - 52" and ly: "ilog2 y < ilog2 x" using assms(2,3) by (auto simp: fexp_def max_def split: if_splits)
    have ge: "fexp x \<le> ilog2 x" using fe by simp
    then have u: "?u \<le> 2 powi (ilog2 x)" by (rule pow2_mono)
    have "y < 2 powi (ilog2 x)" using ilog2_bounds(2) [OF assms(3)] pow2_mono [of "ilog2 y + 1" "ilog2 x"] ly by simp
    then have "\<bar>x - 2 powi (ilog2 x)\<bar> < ?u" using assms(4) small xL(2) by linarith
    then have "\<bar>of_int (round_half_even (x / ?u)) * ?u - of_int (2 ^ nat (ilog2 x - fexp x)) * ?u\<bar> < ?u"
      unfolding xm [symmetric] pow2_multiple [OF ge, symmetric] .
    from multiple_gap [OF pow2_pos this] have x: "x = 2 powi (ilog2 x)" using xm pow2_multiple [OF ge] by metis
    have "2 powi (ilog2 x - 1) < y"
    proof -
      have "(2 :: rat) powi (ilog2 x - 1) = 2 powi (ilog2 x) / 2" using pow2_add [of "ilog2 x" "- 1"] by simp
      then show ?thesis using assms(4) small u x by linarith
    qed
    then have "(2 :: rat) powi (ilog2 x - 1) < 2 powi (ilog2 y + 1)" using ilog2_bounds(2) [OF assms(3)] by linarith
    then have "ilog2 x - 1 \<le> ilog2 y" unfolding pow2_less by simp
    then have "ilog2 x + - 53 \<le> fexp y" using assms(3) by (simp add: fexp_def)
    then have "(2 :: rat) powi (ilog2 x + - 53) \<le> ?v" by (rule pow2_mono)
    moreover have "x * 2 powi (- 54) = 2 powi (ilog2 x + - 53) / 2"
      unfolding pow2_add x [symmetric] using pow2_add [of "- 53" "- 1"] by simp
    ultimately show ?thesis by simp
  qed
  have d: "\<bar>fl_rat y - x\<bar> < ?v" using fl_rat_err [of y] assms(3,4) half by linarith
  have xv: "x = of_int (round_half_even (x / ?u) * 2 ^ nat (fexp x - fexp y)) * ?v"
    using xm pow2_multiple [OF le] by simp
  from d have "\<bar>of_int (round_half_even (y / ?v)) * ?v - of_int (round_half_even (x / ?u) * 2 ^ nat (fexp x - fexp y)) * ?v\<bar> < ?v"
    unfolding ym xv [symmetric] .
  from multiple_gap [OF pow2_pos this] show ?thesis using ym xv by metis
qed

subsection \<open>Shortest digits\<close>

lemma pow10_add: "(10 :: rat) powi (a + b) = 10 powi a * 10 powi b"
  by (rule power_int_add) simp

lemma decimal_cut:
  fixes x :: rat
  assumes "0 < x" "s = \<lfloor>x * 10 powi (k - n) + 1 / 2\<rfloor>"
  shows "\<bar>of_int s * 10 powi (n - k) - x\<bar> \<le> 10 powi (n - k) / 2"
proof -
  let ?p = "(10 :: rat) powi (n - k)"
  have p: "0 < ?p" "10 powi (k - n) * ?p = 1" using pow10_add [of "k - n" "n - k"] by simp_all
  have "\<bar>of_int s - x * 10 powi (k - n)\<bar> \<le> 1 / 2" unfolding assms(2) by linarith
  then have "\<bar>of_int s - x * 10 powi (k - n)\<bar> * ?p \<le> 1 / 2 * ?p" using p(1) by (intro mult_right_mono) simp_all
  moreover have "\<bar>of_int s - x * 10 powi (k - n)\<bar> * ?p = \<bar>(of_int s - x * 10 powi (k - n)) * ?p\<bar>" using p(1) by (simp add: abs_mult)
  moreover have "(of_int s - x * 10 powi (k - n)) * ?p = of_int s * ?p - x" using p(2) by (simp add: left_diff_distrib mult.assoc)
  ultimately show ?thesis by simp
qed

lemma seventeen_digits:
  assumes "fl_rat x = x" "10 powi (n - 1) \<le> x" "s = \<lfloor>x * 10 powi (17 - n) + 1 / 2\<rfloor>"
  shows "fl_rat (of_int s * 10 powi (n - 17)) = x"
proof -
  have x: "0 < x" using assms(2) by (rule order_less_le_trans [rotated]) simp
  have p: "(10 :: rat) powi (n - 17) = 10 powi (n - 1) / 10 ^ 16"
    using pow10_add [of "n - 1" "- 16"] by (simp add: power_int_def [of _ "- 16"] power_one_over)
  have "(10 :: rat) powi (n - 17) / 2 \<le> x / (2 * 10 ^ 16)" unfolding p using assms(2) by simp
  also have "\<dots> < x * 2 powi (- 54)" using x by (simp add: power_int_def power_one_over)
  finally have near: "(10 :: rat) powi (n - 17) / 2 < x * 2 powi (- 54)" .
  have d: "\<bar>of_int s * 10 powi (n - 17) - x\<bar> < x * 2 powi (- 54)"
    using decimal_cut [OF x assms(3)] near by linarith
  have "x * 2 powi (- 54) < x" using x by (simp add: power_int_def power_one_over)
  then have "0 < of_int s * (10 :: rat) powi (n - 17)" using d by linarith
  then show ?thesis using fl_rat_near [OF assms(1) x _ d] by simp
qed

lemma accepted_digits:
  assumes "10 powi (n - 1) \<le> x" "x < 10 powi n" "s = \<lfloor>x * 10 powi (k - n) + 1 / 2\<rfloor>" "1 \<le> k" "fl_rat (of_int s * 10 powi (n - k)) = x"
    and "(s', m) = (if s = 10 ^ nat k then (s div 10, n + 1) else (s, n))"
  shows "10 ^ nat (k - 1) \<le> s' \<and> s' < 10 ^ nat k \<and> fl_rat (of_int s' * 10 powi (m - k)) = x"
proof -
  let ?p = "(10 :: rat) powi (k - n)"
  have p: "0 < ?p" by simp
  have "10 powi (n - 1) * ?p = 10 powi (k - 1)" "10 powi n * ?p = 10 powi k" by (simp_all flip: pow10_add)
  then have "10 powi (k - 1) \<le> x * ?p" "x * ?p < 10 powi k"
    using mult_right_mono [OF assms(1), of ?p] mult_strict_right_mono [OF assms(2) p] p by simp_all
  then have b: "of_int (10 ^ nat (k - 1)) \<le> x * ?p" "x * ?p < of_int (10 ^ nat k)" using assms(4) by (simp_all add: power_int_def)
  then have s: "10 ^ nat (k - 1) \<le> s" "s \<le> 10 ^ nat k" unfolding assms(3) by linarith+
  have ten: "(10 :: int) ^ nat k = 10 * 10 ^ nat (k - 1)" using assms(4) by (simp add: nat_diff_distrib flip: power_Suc)
  show ?thesis
  proof (cases "s = 10 ^ nat k")
    case True
    then have s': "s' = 10 ^ nat (k - 1)" "m = n + 1" using assms(6) ten by simp_all
    have "of_int s' * (10 :: rat) powi (m - k) = of_int s * 10 powi (n - k)"
    proof -
      have "m - k = 1 + (n - k)" using s' by simp
      then have "(10 :: rat) powi (m - k) = 10 * 10 powi (n - k)" by (simp only: pow10_add power_int_1_right)
      moreover have "(of_int s :: rat) = of_int s' * 10" unfolding True ten s'(1) by simp
      ultimately show ?thesis by simp
    qed
    then show ?thesis using assms(5) s' ten by simp
  next
    case False
    then show ?thesis using assms(5,6) s by simp
  qed
qed

lemma shortest_digits_spec:
  assumes "fl_rat x = x" "10 powi (n - 1) \<le> x" "x < 10 powi n" "shortest_digits fuel x n k = (s, m)" "k + int fuel = 17" "1 \<le> k"
  shows "\<exists>j. 1 \<le> j \<and> j \<le> 17 \<and> 10 ^ nat (j - 1) \<le> s \<and> s < 10 ^ nat j \<and> fl_rat (of_int s * 10 powi (m - j)) = x"
  using assms(4-6)
proof (induction fuel arbitrary: k)
  case 0
  then have k: "k = 17" by simp
  let ?t = "\<lfloor>x * 10 powi (17 - n) + 1 / 2\<rfloor>"
  have "(s, m) = (if ?t = 10 ^ nat 17 then (?t div 10, n + 1) else (?t, n))"
    using 0(1) unfolding k by (subst (asm) shortest_digits.simps) (simp add: Let_def)
  from accepted_digits [OF assms(2,3) refl _ seventeen_digits [OF assms(1,2) refl] this] show ?case by (intro exI [of _ 17]) simp
next
  case (Suc fuel)
  let ?t = "\<lfloor>x * 10 powi (k - n) + 1 / 2\<rfloor>"
  show ?case
  proof (cases "fl_rat (of_int ?t * 10 powi (n - k)) = x")
    case True
    then have "(s, m) = (if ?t = 10 ^ nat k then (?t div 10, n + 1) else (?t, n))"
      using Suc.prems(1) by (subst (asm) shortest_digits.simps) (simp add: Let_def)
    from accepted_digits [OF assms(2,3) refl _ True this] show ?thesis using Suc.prems by (intro exI [of _ k]) simp
  next
    case False
    then have "shortest_digits fuel x n (k + 1) = (s, m)" using Suc.prems(1) by (subst (asm) shortest_digits.simps) (simp add: Let_def)
    then show ?thesis using Suc.IH [of "k + 1"] Suc.prems by simp
  qed
qed

lemma length_dec_digits:
  assumes "10 ^ k \<le> n" "n < 10 ^ Suc k"
  shows "length (dec_digits n) = Suc k"
  using assms
proof (induction k arbitrary: n)
  case 0
  then show ?case by (subst dec_digits.simps) simp
next
  case (Suc k)
  have "(10 :: int) ^ k * 10 \<le> n" "n < 10 ^ Suc k * 10" using Suc.prems by (simp_all add: mult.commute)
  moreover have "10 * (n div 10) + n mod 10 = n" "0 \<le> n mod 10" "n mod 10 < 10" by simp_all
  ultimately have "10 ^ k \<le> n div 10" "n div 10 < 10 ^ Suc k" by linarith+
  moreover have "\<not> n < 10"
  proof -
    have "(1 :: int) \<le> 10 ^ k" by simp
    then show ?thesis using Suc.prems(1) unfolding power_Suc by linarith
  qed
  ultimately show ?case using Suc.IH by (subst dec_digits.simps) simp
qed

text \<open>The decimal a positive double prints: its digits, their number and the position of the point.\<close>

lemma printed_decimal:
  assumes "is_dbl (Fin x)" "0 < x" "shortest_digits 16 x (dec_exp x) 1 = (s, n)"
  shows "0 < s" "length (dec_digits s) \<le> 17" "fl_rat (of_int s * 10 powi (n - int (length (dec_digits s)))) = x"
proof -
  have x: "fl_rat x = x" "x < 2 ^ 1024" using assms(1,2) by (simp_all add: is_dbl_def)
  obtain m where m: "x = of_int m * 2 powi (- 1074)" using x(1) by (rule dbl_multiple)
  then have "0 < m" using assms(2) by (simp add: zero_less_mult_iff)
  then have "1 * 2 powi (- 1074) \<le> x" unfolding m by (intro mult_right_mono) simp_all
  then have "(2 :: rat) powi (- 1074) < 2 powi (ilog2 x + 1)" using ilog2_bounds(2) [OF assms(2)] by linarith
  then have lo: "- 1074 \<le> ilog2 x" unfolding pow2_less by simp
  have hi: "ilog2 x < 1024" using x(2) assms(2) by (intro ilog2_less) (simp_all add: power_int_def)
  have "10 powi (dec_exp x - 1) \<le> x" "x < 10 powi (dec_exp x)" using dec_exp_bounds [OF assms(2)] lo hi by simp_all
  from shortest_digits_spec [OF x(1) this assms(3)] obtain j where j: "1 \<le> j" "j \<le> 17" "10 ^ nat (j - 1) \<le> s" "s < 10 ^ nat j" "fl_rat (of_int s * 10 powi (n - j)) = x"
    by auto
  have "Suc (nat (j - 1)) = nat j" using j(1) by simp
  then have "length (dec_digits s) = nat j" using length_dec_digits [of "nat (j - 1)" s] j(3,4) by simp
  then show "length (dec_digits s) \<le> 17" "fl_rat (of_int s * 10 powi (n - int (length (dec_digits s)))) = x" using j by simp_all
  show "0 < s" using j(3) zero_less_power [of "10 :: int" "nat (j - 1)"] by linarith
qed

subsection \<open>Reading a printed number as a decimal\<close>

text \<open>\<open>s.split(c)\<close> for a one-character separator.\<close>

function js_split :: "char \<Rightarrow> string \<Rightarrow> string list" where
  "js_split c s = (let a = takeWhile (\<lambda>x. x \<noteq> c) s; b = dropWhile (\<lambda>x. x \<noteq> c) s in if b = [] then [a] else a # js_split c (tl b))"
  by pat_completeness auto
termination
proof (relation "measure (\<lambda>(c, s). length s)")
  fix c :: char and s a b :: string
  assume b: "b = dropWhile (\<lambda>x. x \<noteq> c) s" "b \<noteq> []"
  then have "length (tl b) < length b" by simp
  also have "\<dots> \<le> length s" unfolding b(1) by (rule length_dropWhile_le)
  finally show "((c, tl b), c, s) \<in> measure (\<lambda>(c, s). length s)" by simp
qed simp

declare js_split.simps [simp del]

lemma js_split_none: "c \<notin> set s \<Longrightarrow> js_split c s = [s]"
  by (subst js_split.simps) (auto simp: Let_def takeWhile_eq_all_conv dropWhile_eq_Nil_conv)

lemma js_split_once: "c \<notin> set a \<Longrightarrow> c \<notin> set b \<Longrightarrow> js_split c (a @ c # b) = [a, b]"
proof -
  assume ab: "c \<notin> set a" "c \<notin> set b"
  then have "takeWhile (\<lambda>x. x \<noteq> c) (a @ c # b) = a" "dropWhile (\<lambda>x. x \<noteq> c) (a @ c # b) = c # b"
    by (induction a) auto
  then show ?thesis using ab by (subst js_split.simps) (simp add: Let_def js_split_none)
qed

text \<open>\<open>BigInt(s)\<close> and \<open>Number(s)\<close> on a signed or unsigned run of digits.\<close>

definition signed_digits :: "string \<Rightarrow> int" where
  "signed_digits s = (if s \<noteq> [] \<and> hd s = CHR ''-'' then - int_of_digits (tl s)
                      else if s \<noteq> [] \<and> hd s = CHR ''+'' then int_of_digits (tl s) else int_of_digits s)"

lemma int_of_digits_append: "int_of_digits (a @ b) = int_of_digits a * 10 ^ length b + int_of_digits b"
proof (induction b rule: rev_induct)
  case (snoc c b)
  have "int_of_digits (xs @ [c]) = 10 * int_of_digits xs + int (digit_val c)" for xs by (simp add: int_of_digits_def)
  from this [of "a @ b"] this [of b] show ?case using snoc by (simp add: algebra_simps)
qed (simp add: int_of_digits_def)

lemma int_of_digits_zeros [simp]: "int_of_digits (replicate k CHR ''0'') = 0"
proof (induction k)
  case (Suc k)
  have "int_of_digits ([CHR ''0''] @ replicate k CHR ''0'') = 0" unfolding int_of_digits_append using Suc by (simp add: int_of_digits_def digit_val_def)
  then show ?case by simp
qed (simp add: int_of_digits_def)

lemma digits_exclude: "\<forall>c \<in> set ds. is_digit c \<Longrightarrow> CHR ''e'' \<notin> set ds \<and> CHR ''.'' \<notin> set ds \<and> CHR ''-'' \<notin> set ds \<and> CHR ''+'' \<notin> set ds"
  by (auto simp: is_digit_def)

lemma signed_digits_digits: "\<forall>c \<in> set ds. is_digit c \<Longrightarrow> signed_digits ds = int_of_digits ds"
  using digits_exclude [of ds] by (cases ds) (auto simp: signed_digits_def)

lemma signed_digits_dec: "0 \<le> n \<Longrightarrow> signed_digits (dec_digits n) = n" "0 \<le> n \<Longrightarrow> signed_digits (CHR ''+'' # dec_digits n) = n"
  "0 \<le> n \<Longrightarrow> signed_digits (CHR ''-'' # dec_digits n) = - n"
  using signed_digits_digits [OF dec_digits_digits [of n]] by (simp_all add: signed_digits_def)

definition exponent_text :: "int \<Rightarrow> string" where
  "exponent_text e = (if e = 0 then [] else CHR ''e'' # (if 0 < e then CHR ''+'' # dec_digits e else CHR ''-'' # dec_digits (- e)))"

definition point_text :: "string \<Rightarrow> string" where
  "point_text fp = (if fp = [] then [] else CHR ''.'' # fp)"

text \<open>A printed decimal: digits before and after the point, and an exponent; its value rounds to the number.\<close>

definition prints :: "rat \<Rightarrow> string \<Rightarrow> string \<Rightarrow> string \<Rightarrow> int \<Rightarrow> bool" where
  "prints x s ip fp e \<longleftrightarrow> s = ip @ point_text fp @ exponent_text e \<and> ip \<noteq> [] \<and> (\<forall>c \<in> set (ip @ fp). is_digit c) \<and>
     fl_rat (of_int (int_of_digits (ip @ fp)) * 10 powi (e - int (length fp))) = x"

lemma string_of_pos_prints:
  assumes "is_dbl (Fin x)" "0 < x"
  shows "\<exists>ip fp e. prints x (string_of_pos x) ip fp e"
proof -
  obtain s n where sn: "shortest_digits 16 x (dec_exp x) 1 = (s, n)" by (cases "shortest_digits 16 x (dec_exp x) 1")
  note P = printed_decimal [OF assms sn]
  define ds where "ds = dec_digits s"
  define k where "k = int (length ds)"
  have ds: "\<forall>c \<in> set ds. is_digit c" "int_of_digits ds = s" "ds \<noteq> []" using P(1) dec_digits_digits [of s] by (simp_all add: ds_def)
  have x: "fl_rat (of_int s * 10 powi (n - k)) = x" using P(3) by (simp add: ds_def k_def)
  have k: "1 \<le> k" using ds(3) by (cases ds) (simp_all add: k_def)
  let ?ex = "if 0 \<le> n - 1 then CHR ''+'' # string_of_int (n - 1) else string_of_int (n - 1)"
  have str: "string_of_pos x = (if k \<le> n \<and> n \<le> 21 then ds @ replicate (nat (n - k)) CHR ''0''
      else if 0 < n \<and> n \<le> 21 then take (nat n) ds @ CHR ''.'' # drop (nat n) ds
      else if -6 < n \<and> n \<le> 0 then ''0.'' @ replicate (nat (- n)) CHR ''0'' @ ds
      else if k = 1 then ds @ CHR ''e'' # ?ex else hd ds # CHR ''.'' # tl ds @ CHR ''e'' # ?ex)"
    by (simp add: string_of_pos_def sn Let_def ds_def k_def)
  have ex: "CHR ''e'' # ?ex = exponent_text (n - 1)" if "n > 21 \<or> n \<le> -6"
    using that by (auto simp: exponent_text_def string_of_int_def)
  consider (B) "k \<le> n" "n \<le> 21" | (C) "0 < n" "n \<le> 21" "n < k" | (D) "-6 < n" "n \<le> 0" | (E) "n > 21 \<or> n \<le> -6" "k = 1" | (F) "n > 21 \<or> n \<le> -6" "1 < k"
    using k by linarith
  then show ?thesis
  proof cases
    case B
    have "int_of_digits (ds @ replicate (nat (n - k)) CHR ''0'') = s * 10 ^ nat (n - k)" by (simp add: int_of_digits_append ds(2))
    then have "of_int (int_of_digits (ds @ replicate (nat (n - k)) CHR ''0'')) = of_int s * (10 :: rat) powi (n - k)" using B by (simp add: power_int_def)
    then show ?thesis using str B ds x
      by (intro exI [of _ "ds @ replicate (nat (n - k)) CHR ''0''"] exI [of _ "[]"] exI [of _ 0])
        (auto simp: prints_def point_text_def exponent_text_def is_digit_def)
  next
    case C
    have "int (length (drop (nat n) ds)) = k - n" using C by (simp add: k_def)
    moreover have "drop (nat n) ds \<noteq> []" using C by (simp add: k_def)
    moreover have "take (nat n) ds \<noteq> []" using C ds(3) by simp
    moreover have "string_of_pos x = take (nat n) ds @ CHR ''.'' # drop (nat n) ds" using str C by simp
    ultimately show ?thesis using C ds x
      by (intro exI [of _ "take (nat n) ds"] exI [of _ "drop (nat n) ds"] exI [of _ 0])
        (auto simp: prints_def point_text_def exponent_text_def dest: in_set_takeD in_set_dropD)
  next
    case D
    have "int_of_digits (''0'' @ replicate (nat (- n)) CHR ''0'' @ ds) = s"
      using int_of_digits_append [of "replicate (Suc (nat (- n))) CHR ''0''" ds] ds(2) int_of_digits_zeros [of "Suc (nat (- n))"] by simp
    moreover have "int (length (replicate (nat (- n)) CHR ''0'' @ ds)) = k - n" using D by (simp add: k_def)
    moreover have "string_of_pos x = ''0.'' @ replicate (nat (- n)) CHR ''0'' @ ds" using str D k by simp
    ultimately show ?thesis using ds x
      by (intro exI [of _ "''0''"] exI [of _ "replicate (nat (- n)) CHR ''0'' @ ds"] exI [of _ 0])
        (auto simp: prints_def point_text_def exponent_text_def is_digit_def)
  next
    case E
    then have "string_of_pos x = ds @ exponent_text (n - 1)" using str ex k by auto
    then show ?thesis using ds x E(2) by (intro exI [of _ ds] exI [of _ "[]"] exI [of _ "n - 1"]) (simp add: prints_def point_text_def)
  next
    case F
    then have "string_of_pos x = hd ds # CHR ''.'' # tl ds @ exponent_text (n - 1)" using str ex k by auto
    moreover obtain d t where dt: "ds = d # t" "t \<noteq> []" using F(2) by (cases ds; cases "tl ds") (auto simp: k_def)
    moreover have "fl_rat (of_int s * 10 powi (n - 1 - int (length t))) = x"
      using x dt(1) by (simp add: k_def diff_diff_eq add.commute)
    ultimately have "prints x (string_of_pos x) [d] t (n - 1)" using ds x by (simp add: prints_def point_text_def)
    then show ?thesis by blast
  qed
qed

lemma string_of_num_prints:
  assumes "is_dbl (Fin x)" "0 < x"
  shows "\<exists>ip fp e. prints x (string_of_num (Fin x)) ip fp e"
proof (cases "of_int \<lfloor>x\<rfloor> = x \<and> \<bar>x\<bar> \<le> 2 ^ 53")
  case True
  then obtain n where n: "x = of_int n" "\<lfloor>x\<rfloor> = n" by metis
  have "0 < n" using assms(2) n by simp
  moreover have "fl_rat x = x" using assms(1) by (simp add: is_dbl_def)
  moreover have "string_of_num (Fin x) = dec_digits n" using True n \<open>0 < n\<close> by (simp add: string_of_int_def)
  ultimately show ?thesis using n dec_digits_digits [of n]
    by (intro exI [of _ "dec_digits n"] exI [of _ "[]"] exI [of _ 0]) (simp add: prints_def point_text_def exponent_text_def)
next
  case False
  then have "string_of_num (Fin x) = string_of_pos x" using assms(2) by (auto simp del: string_of_num.simps simp add: string_of_num.simps)
  then show ?thesis using string_of_pos_prints [OF assms] by simp
qed

subsection \<open>Printing and reading back\<close>

lemma decimal_prefix_parts:
  assumes "ip \<noteq> []" "\<forall>c \<in> set (ip @ fp). is_digit c"
  shows "decimal_prefix (ip @ point_text fp @ exponent_text e) = Some (of_int (int_of_digits (ip @ fp)) * 10 powi (e - int (length fp)), [])"
proof -
  let ?r = "point_text fp @ exponent_text e"
  have digits: "takeWhile is_digit (d @ r) = d" "dropWhile is_digit (d @ r) = r" if "\<forall>c \<in> set d. is_digit c" "r = [] \<or> \<not> is_digit (hd r)" for d r
    using that by (induction d) (cases r; simp)+
  have e: "exponent_text e = [] \<or> \<not> is_digit (hd (exponent_text e))" by (auto simp: exponent_text_def is_digit_def)
  have r: "?r = [] \<or> \<not> is_digit (hd ?r)" using e by (auto simp: point_text_def is_digit_def)
  have ip: "takeWhile is_digit (ip @ ?r) = ip" "dropWhile is_digit (ip @ ?r) = ?r" using assms(2) by (intro digits r; simp)+
  have fp: "takeWhile is_digit (fp @ exponent_text e) = fp" "dropWhile is_digit (fp @ exponent_text e) = exponent_text e" using assms(2) by (intro digits e; simp)+
  have ed: "takeWhile is_digit (dec_digits n) = dec_digits n" "dropWhile is_digit (dec_digits n) = []" "int_of_digits (dec_digits n) = n" if "0 \<le> n" for n
    using that dec_digits_digits [OF that] by (simp_all add: dropWhile_eq_Nil_conv)
  have m: "of_int (int_of_digits (ip @ fp)) / 10 ^ length fp * 10 powi e = of_int (int_of_digits (ip @ fp)) * (10 :: rat) powi (e - int (length fp))"
    by (simp add: power_int_diff)
  show ?thesis
  proof (cases "e = 0")
    case True
    have all: "takeWhile is_digit d = d" "dropWhile is_digit d = []" if "\<forall>c \<in> set d. is_digit c" for d
      using that by (simp_all add: takeWhile_eq_all_conv dropWhile_eq_Nil_conv)
    have "takeWhile is_digit ip = ip" "dropWhile is_digit ip = []" "takeWhile is_digit fp = fp" "dropWhile is_digit fp = []"
      using assms(2) by (intro all; simp)+
    note ds = this
    show ?thesis using True assms(1) ip m by (cases "fp = []") (simp_all add: decimal_prefix_def Let_def point_text_def exponent_text_def ds)
  next
    case False
    have E: "exponent_text e = CHR ''e'' # (if 0 < e then CHR ''+'' # dec_digits e else CHR ''-'' # dec_digits (- e))" using False by (simp add: exponent_text_def)
    show ?thesis
      using assms(1) ip fp m False ed [of e] ed [of "- e"]
      by (cases "fp = []"; cases "0 < e") (simp_all add: decimal_prefix_def Let_def point_text_def E)
  qed
qed

lemma trim_unspaced: "s \<noteq> [] \<Longrightarrow> \<not> is_space (hd s) \<Longrightarrow> \<not> is_space (last s) \<Longrightarrow> trim s = s"
proof -
  assume s: "s \<noteq> []" "\<not> is_space (hd s)" "\<not> is_space (last s)"
  then have "dropWhile is_space s = s" by (simp add: dropWhile_eq_self_iff)
  moreover have "dropWhile is_space (rev s) = rev s" using s by (simp add: dropWhile_eq_self_iff hd_rev)
  ultimately show ?thesis by (simp add: trim_def)
qed

lemma js_Number_parts:
  assumes "ip \<noteq> []" "\<forall>c \<in> set (ip @ fp). is_digit c"
  shows "js_Number (ip @ point_text fp @ exponent_text e) = fl (of_int (int_of_digits (ip @ fp)) * 10 powi (e - int (length fp)))"
proof -
  let ?s = "ip @ point_text fp @ exponent_text e"
  have hd: "is_digit (hd ?s)" using assms by (cases ip) auto
  have last: "is_digit (last ?s)"
  proof -
    have "is_digit (last (dec_digits n))" if "0 \<le> n" for n using dec_digits_digits [OF that] by simp
    from this [of e] this [of "- e"] show ?thesis using assms by (auto simp: point_text_def exponent_text_def)
  qed
  have "trim ?s = ?s" using trim_unspaced [of ?s] hd last assms(1) is_digit_not_space by simp
  moreover have "?s \<noteq> ''Infinity''"
  proof
    assume "?s = ''Infinity''"
    with hd show False by (simp only: list.sel) (simp add: is_digit_def)
  qed
  moreover have "hd ?s \<noteq> CHR ''-''" "hd ?s \<noteq> CHR ''+''" "?s \<noteq> []" using hd assms(1) by (auto simp: is_digit_def)
  ultimately show ?thesis using decimal_prefix_parts [OF assms, of e] assms(1) by (simp add: js_Number_def Let_def)
qed

lemma js_Number_string_of_num:
  assumes "is_dbl (Fin x)" "0 < x"
  shows "js_Number (string_of_num (Fin x)) = Fin x"
proof -
  obtain ip fp e where p: "prints x (string_of_num (Fin x)) ip fp e" using string_of_num_prints [OF assms] by blast
  have "js_Number (string_of_num (Fin x)) = fl (of_int (int_of_digits (ip @ fp)) * 10 powi (e - int (length fp)))"
    using p js_Number_parts [of ip fp e] unfolding prints_def by metis
  also have "\<dots> = Fin x"
    using p assms by (auto simp: prints_def fl_def Let_def is_dbl_def)
  finally show ?thesis .
qed
end
