(* ===== verification/OrderQuantity.thy ===== *)
theory OrderQuantity
  imports JsPrint JsJson
begin

text \<open>
  Quantities a venue accepts (\<open>lib/order-quantity.ts\<close>): normalisation of the venue's rules, exact
  decimal rounding to its quantity step and the executable quantity of an entry or a close.  Rules come
  from untyped rows and are \<open>js_value\<close>s, an absent field is undefined.  Big integers are integers, and
  so are decimal exponents, which are read from a printed number.  The value of \<open>10 ** -p\<close>, which the
  language leaves to the implementation, is the parameter \<open>tenth\<close>.
\<close>

subsection \<open>Rules\<close>

record ExchangeQuantityRules =
  quantityStep :: js_value
  quantityPrecision :: js_value
  minQuantity :: js_value
  minNotionalUsdt :: js_value
  minNotional :: js_value
  min_order_size :: js_value
  quantity_step :: js_value
  quantity_precision :: js_value
  min_notional_usdt :: js_value

record NormalizedQuantityRules =
  n_quantityStep :: jsnum
  n_quantityPrecision :: jsnum
  n_minQuantity :: jsnum
  n_minNotionalUsdt :: jsnum

record ExecutableQuantityResult =
  requestedQuantity :: jsnum
  x_quantity :: jsnum
  x_adjusted :: bool
  x_reason :: "string option"

fun positive_first :: "js_value list \<Rightarrow> jsnum" where
  "positive_first [] = Fin 0"
| "positive_first (v # vs) = (let parsed = js_to_Number v in if js_isFinite parsed \<and> js_gt parsed (Fin 0) then parsed else positive_first vs)"

definition integer_in :: "js_value \<Rightarrow> jsnum \<Rightarrow> jsnum" where
  "integer_in v fallback =
     (let parsed = js_to_Number v in if js_isFinite parsed then js_max (Fin 0) (js_min (num_of_int 18) (js_floor parsed)) else fallback)"

text \<open>\<open>const [mantissa, exponent = "0"] = s.split("e")\<close> and the digits after the point.\<close>

definition mantissa_exponent :: "string \<Rightarrow> string \<times> string" where
  "mantissa_exponent s = (let parts = js_split CHR ''e'' s in (hd parts, case parts of _ # ex # _ \<Rightarrow> ex | _ \<Rightarrow> ''0''))"

definition fraction_length :: "string \<Rightarrow> int" where
  "fraction_length mantissa = (case js_split CHR ''.'' mantissa of _ # f # _ \<Rightarrow> int (length f) | _ \<Rightarrow> 0)"

definition precisionForStep :: "jsnum \<Rightarrow> jsnum \<Rightarrow> jsnum" where
  "precisionForStep stp fallback =
     (if \<not> js_gt stp (Fin 0) \<or> \<not> js_isFinite stp then fallback
      else let (m, ex) = mantissa_exponent (string_of_num stp)
           in js_max (Fin 0) (js_min (num_of_int 18) (num_of_int (fraction_length m - signed_digits ex))))"

definition no_rules :: ExchangeQuantityRules where
  "no_rules = \<lparr>quantityStep = VUndefined, quantityPrecision = VUndefined, minQuantity = VUndefined, minNotionalUsdt = VUndefined, minNotional = VUndefined,
     min_order_size = VUndefined, quantity_step = VUndefined, quantity_precision = VUndefined, min_notional_usdt = VUndefined\<rparr>"

definition normalizeExchangeQuantityRules :: "(jsnum \<Rightarrow> jsnum) \<Rightarrow> ExchangeQuantityRules option \<Rightarrow> NormalizedQuantityRules" where
  "normalizeExchangeQuantityRules tenth raw =
     (let source = (case raw of Some r \<Rightarrow> r | None \<Rightarrow> no_rules);
          precision = integer_in (js_nullish (quantityPrecision source) (quantity_precision source)) (num_of_int 12);
          stp = positive_first [quantityStep source, quantity_step source, VNum (tenth precision)]
      in \<lparr>n_quantityStep = stp, n_quantityPrecision = precisionForStep stp precision,
          n_minQuantity = positive_first [minQuantity source, min_order_size source],
          n_minNotionalUsdt = positive_first [minNotionalUsdt source, minNotional source, min_notional_usdt source]\<rparr>)"

subsection \<open>Rounding to the step\<close>

record decimal_parts =
  coefficient :: int
  exponent :: int

definition decimalParts :: "jsnum \<Rightarrow> decimal_parts" where
  "decimalParts v =
     (let (mantissa, ex) = mantissa_exponent (string_of_num v)
      in \<lparr>coefficient = signed_digits (remove1 CHR ''.'' mantissa), exponent = signed_digits ex - fraction_length mantissa\<rparr>)"

text \<open>\<open>Number(`${units * s.coefficient}e${s.exponent}`)\<close>: the grid point after \<open>units\<close> steps.\<close>

definition grid_point :: "int \<Rightarrow> decimal_parts \<Rightarrow> jsnum" where
  "grid_point units s = js_Number (string_of_int (units * coefficient s) @ CHR ''e'' # string_of_int (exponent s))"

text \<open>\<open>numerator\<close> and \<open>denominator\<close> of the exact division of two decimals.\<close>

definition step_numerator :: "decimal_parts \<Rightarrow> decimal_parts \<Rightarrow> int" where
  "step_numerator q s = (let ex = exponent q - exponent s in coefficient q * (if ex > 0 then 10 ^ nat ex else 1))"

definition step_denominator :: "decimal_parts \<Rightarrow> decimal_parts \<Rightarrow> int" where
  "step_denominator q s = (let ex = exponent q - exponent s in coefficient s * (if ex < 0 then 10 ^ nat (- ex) else 1))"

definition roundQuantityToStep :: "jsnum \<Rightarrow> jsnum \<Rightarrow> bool \<Rightarrow> jsnum" where
  "roundQuantityToStep quantity stp up =
     (if \<not> js_isFinite quantity \<or> js_le quantity (Fin 0) then Fin 0
      else if \<not> js_gt stp (Fin 0) \<or> \<not> js_isFinite stp then quantity
      else
        let q = decimalParts quantity; s = decimalParts stp;
            numerator = step_numerator q s; denominator = step_denominator q s;
            units = numerator div denominator; lower = grid_point units s;
            units' = (if up \<and> numerator mod denominator \<noteq> 0 \<and>
                         \<not> (js_gt lower (Fin 0) \<and> js_le (js_sub quantity lower) (js_mul EPSILON (js_max quantity lower)))
                      then units + 1 else units);
            result = grid_point units' s
        in if js_isFinite result then result else Fin 0)"

definition roundQuantityUp :: "jsnum \<Rightarrow> NormalizedQuantityRules \<Rightarrow> jsnum" where
  "roundQuantityUp quantity rules = roundQuantityToStep quantity (n_quantityStep rules) True"

definition roundQuantityDown :: "jsnum \<Rightarrow> NormalizedQuantityRules \<Rightarrow> jsnum" where
  "roundQuantityDown quantity rules = roundQuantityToStep quantity (n_quantityStep rules) False"

subsection \<open>The executable quantity\<close>

definition entry_minimum :: "jsnum \<Rightarrow> jsnum \<Rightarrow> NormalizedQuantityRules \<Rightarrow> jsnum option \<Rightarrow> jsnum \<times> jsnum" where
  "entry_minimum requested price rules universal =
     (let universalMin = positive_first [case universal of Some u \<Rightarrow> VNum u | None \<Rightarrow> VUndefined];
          notionalFloor = (if js_gt price (Fin 0) then js_div (js_max (n_minNotionalUsdt rules) universalMin) price else Fin 0)
      in (js_max (n_minQuantity rules) notionalFloor, notionalFloor))"

definition entry_reasons :: "jsnum \<Rightarrow> jsnum \<Rightarrow> jsnum \<Rightarrow> jsnum \<Rightarrow> jsnum \<Rightarrow> string list" where
  "entry_reasons requested qty minimum minQty notionalFloor =
     (if js_eq qty requested then [] else [''entry quantity rounded up to exchange step'']) @
     (if js_gt minimum requested \<and> js_gt minQty requested then [''exchange minimum quantity enforced''] else []) @
     (if js_gt minimum requested \<and> js_gt notionalFloor requested then [''minimum notional enforced''] else [])"

definition resolveExecutableQuantity :: "(jsnum \<Rightarrow> jsnum) \<Rightarrow> jsnum \<Rightarrow> jsnum \<Rightarrow> ExchangeQuantityRules option \<Rightarrow> bool \<Rightarrow> jsnum option \<Rightarrow> ExecutableQuantityResult" where
  "resolveExecutableQuantity tenth requested price rawRules reduceOnly universal =
     (let rules = normalizeExchangeQuantityRules tenth rawRules
      in if \<not> js_isFinite requested \<or> js_le requested (Fin 0)
         then \<lparr>requestedQuantity = requested, x_quantity = Fin 0, x_adjusted = False, x_reason = None\<rparr>
         else if reduceOnly then
           let qty = roundQuantityDown requested rules
           in \<lparr>requestedQuantity = requested, x_quantity = qty, x_adjusted = (\<not> js_eq qty requested),
               x_reason = (if js_eq qty requested then None else Some ''reduce-only quantity rounded down to exchange step'')\<rparr>
         else
           let (minimum, notionalFloor) = entry_minimum requested price rules universal;
               qty = roundQuantityUp (js_max requested minimum) rules;
               reasons = entry_reasons requested qty minimum (n_minQuantity rules) notionalFloor
           in \<lparr>requestedQuantity = requested, x_quantity = qty, x_adjusted = (\<not> js_eq qty requested),
               x_reason = (if reasons = [] then None else Some (join_with ''; '' reasons))\<rparr>)"

section \<open>A printed decimal taken apart\<close>

lemma int_of_digits_nonneg: "0 \<le> int_of_digits s"
  by (induction s rule: rev_induct) (simp_all add: int_of_digits_def)

lemma mantissa_exponent_prints:
  assumes "prints x s ip fp e"
  shows "mantissa_exponent s = (ip @ point_text fp, if e = 0 then ''0'' else if 0 < e then CHR ''+'' # dec_digits e else CHR ''-'' # dec_digits (- e))"
proof -
  have d: "\<forall>c \<in> set (ip @ fp). is_digit c" using assms by (simp add: prints_def)
  have m: "CHR ''e'' \<notin> set (ip @ point_text fp)" using digits_exclude [OF d] by (auto simp: point_text_def)
  have s: "s = (ip @ point_text fp) @ exponent_text e" using assms by (simp add: prints_def)
  show ?thesis
  proof (cases "e = 0")
    case True
    then show ?thesis using s js_split_none [OF m] by (simp add: mantissa_exponent_def exponent_text_def)
  next
    case False
    let ?ex = "if 0 < e then CHR ''+'' # dec_digits e else CHR ''-'' # dec_digits (- e)"
    have "CHR ''e'' \<notin> set ?ex" using digits_exclude [OF dec_digits_digits [of e]] digits_exclude [OF dec_digits_digits [of "- e"]] False by auto
    then show ?thesis using False s js_split_once [OF m, of ?ex] by (simp add: mantissa_exponent_def exponent_text_def)
  qed
qed

lemma fraction_length_point:
  assumes "\<forall>c \<in> set (ip @ fp). is_digit c"
  shows "fraction_length (ip @ point_text fp) = int (length fp)" "remove1 CHR ''.'' (ip @ point_text fp) = ip @ fp"
proof -
  have n: "CHR ''.'' \<notin> set ip" "CHR ''.'' \<notin> set fp" using digits_exclude [OF assms] by auto
  then show "fraction_length (ip @ point_text fp) = int (length fp)"
    by (cases "fp = []") (simp_all add: fraction_length_def point_text_def js_split_none js_split_once)
  show "remove1 CHR ''.'' (ip @ point_text fp) = ip @ fp" using n by (simp add: remove1_append remove1_idem point_text_def)
qed

text \<open>The value of a decimal, and that the parts of a printed double round back to it.\<close>

definition dec_value :: "decimal_parts \<Rightarrow> rat" where
  "dec_value p = of_int (coefficient p) * 10 powi (exponent p)"

lemma decimalParts_value:
  assumes "is_dbl (Fin x)" "0 < x"
  shows "0 < coefficient (decimalParts (Fin x))" "fl (dec_value (decimalParts (Fin x))) = Fin x"
proof -
  obtain ip fp e where p: "prints x (string_of_num (Fin x)) ip fp e" using string_of_num_prints [OF assms] by blast
  have d: "\<forall>c \<in> set (ip @ fp). is_digit c" using p by (simp add: prints_def)
  have e: "signed_digits (if e = 0 then ''0'' else if 0 < e then CHR ''+'' # dec_digits e else CHR ''-'' # dec_digits (- e)) = e"
    using signed_digits_dec(2) [of e] signed_digits_dec(3) [of "- e"] by (auto simp: signed_digits_def int_of_digits_def digit_val_def)
  have parts: "decimalParts (Fin x) = \<lparr>coefficient = int_of_digits (ip @ fp), exponent = e - int (length fp)\<rparr>"
    unfolding decimalParts_def mantissa_exponent_prints [OF p] Let_def by (simp add: fraction_length_point [OF d] signed_digits_digits [OF d] e)
  then have v: "fl_rat (dec_value (decimalParts (Fin x))) = x" using p by (simp add: prints_def dec_value_def)
  then show "fl (dec_value (decimalParts (Fin x))) = Fin x" using assms by (auto simp: fl_def Let_def is_dbl_def)
  have "int_of_digits (ip @ fp) \<noteq> 0"
  proof
    assume "int_of_digits (ip @ fp) = 0"
    then have "fl_rat (dec_value (decimalParts (Fin x))) = 0" by (simp add: parts dec_value_def)
    then show False using v assms(2) by simp
  qed
  then show "0 < coefficient (decimalParts (Fin x))" using parts int_of_digits_nonneg [of "ip @ fp"] by simp
qed

lemma js_Number_exponent:
  assumes "0 \<le> n"
  shows "js_Number (dec_digits n @ CHR ''e'' # string_of_int e) = fl (of_int n * 10 powi e)"
proof (cases "e < 0")
  case True
  then have "dec_digits n @ CHR ''e'' # string_of_int e = dec_digits n @ point_text [] @ exponent_text e"
    by (simp add: string_of_int_def exponent_text_def point_text_def)
  then show ?thesis using js_Number_parts [of "dec_digits n" "[]" e] dec_digits_digits [OF assms] assms by simp
next
  case False
  let ?s = "dec_digits n @ CHR ''e'' # dec_digits e"
  have dn: "\<forall>c \<in> set (dec_digits n). is_digit c" and de: "\<forall>c \<in> set (dec_digits e). is_digit c"
    using dec_digits_digits [OF assms] dec_digits_digits [of e] False by simp_all
  have e: "\<not> is_digit CHR ''e''" "CHR ''e'' \<noteq> CHR ''.''" by (simp_all add: is_digit_def)
  have cut: "takeWhile is_digit (d @ CHR ''e'' # r) = d" "dropWhile is_digit (d @ CHR ''e'' # r) = CHR ''e'' # r" if "\<forall>c \<in> set d. is_digit c" for d r
    using that e by (induction d) simp_all
  obtain a t where at: "dec_digits e = a # t" using dec_digits_ne by (metis list.exhaust)
  have sg: "a \<noteq> CHR ''+''" "a \<noteq> CHR ''-''" using digits_exclude [OF de] at by auto
  have all: "takeWhile is_digit (a # t) = a # t" "dropWhile is_digit (a # t) = []" using de unfolding at by (simp_all add: takeWhile_eq_all_conv dropWhile_eq_Nil_conv)
  have v: "int_of_digits (a # t) = e" using int_of_digits_dec_digits [of e] False at by simp
  have "decimal_prefix ?s = Some (of_int n * 10 powi e, [])"
    unfolding decimal_prefix_def Let_def cut [OF dn] at using assms sg v all by simp
  moreover have "trim ?s = ?s"
    using dn de is_digit_not_space hd_dec_digits [OF assms] by (intro trim_unspaced) auto
  moreover have "hd ?s \<noteq> CHR ''-''" "hd ?s \<noteq> CHR ''+''" "?s \<noteq> ''Infinity''"
    using hd_dec_digits [OF assms] by (auto simp: is_digit_def append_eq_Cons_conv)
  ultimately show ?thesis using False by (simp add: js_Number_def Let_def string_of_int_def)
qed

lemma grid_point_value:
  assumes "0 \<le> u" "0 < coefficient s"
  shows "grid_point u s = fl (of_int u * dec_value s)"
proof -
  have "0 \<le> u * coefficient s" using assms by simp
  from js_Number_exponent [OF this, of "exponent s"] this show ?thesis
    by (simp add: grid_point_def dec_value_def string_of_int_def [of "u * coefficient s"] mult.assoc)
qed

text \<open>The exact division: the quotient and remainder of the two decimals.\<close>

lemma step_units:
  fixes q s :: decimal_parts
  defines "num \<equiv> step_numerator q s" and "den \<equiv> step_denominator q s"
  assumes "0 < coefficient q" "0 < coefficient s"
  shows "0 \<le> num div den" "of_int (num div den) * dec_value s \<le> dec_value q" "dec_value q < of_int (num div den + 1) * dec_value s"
    "num mod den = 0 \<Longrightarrow> dec_value q = of_int (num div den) * dec_value s" "num mod den \<noteq> 0 \<Longrightarrow> of_int (num div den) * dec_value s < dec_value q"
proof -
  define z where "z = (10 :: rat) powi (min (exponent q) (exponent s))"
  have z: "0 < z" by (simp add: z_def)
  have pos: "0 < num" "0 < den" using assms by (simp_all add: step_numerator_def step_denominator_def Let_def)
  have e: "(10 :: rat) powi (min (exponent q) (exponent s) + d) = z * 10 powi d" for d unfolding z_def by (rule pow10_add)
  have vq: "dec_value q = of_int num * z" using e [of "exponent q - min (exponent q) (exponent s)"]
    by (auto simp: dec_value_def num_def step_numerator_def Let_def power_int_def [of _ "exponent q - _"] min_def z_def)
  have vs: "dec_value s = of_int den * z" using e [of "exponent s - min (exponent q) (exponent s)"]
    by (auto simp: dec_value_def den_def step_denominator_def Let_def power_int_def [of _ "exponent s - _"] min_def z_def)
  note vals = vq vs
  have r: "den * (num div den) + num mod den = num" "0 \<le> num mod den" "num mod den < den" using pos(2) by simp_all
  have dz: "0 < of_int den * z" using pos(2) z by simp
  have "of_int num = of_int den * of_int (num div den) + (of_int (num mod den) :: rat)" using r(1) by (metis of_int_add of_int_mult)
  then have q: "dec_value q = of_int (num div den) * dec_value s + of_int (num mod den) * z"
    unfolding vals by (simp add: algebra_simps)
  have m: "0 \<le> of_int (num mod den) * z" "of_int (num mod den) * z < of_int den * z"
    using r(2,3) z by (simp_all add: mult_strict_right_mono)
  show "of_int (num div den) * dec_value s \<le> dec_value q" "dec_value q < of_int (num div den + 1) * dec_value s"
    using q m vals(2) by (simp_all add: distrib_right)
  show "num mod den = 0 \<Longrightarrow> dec_value q = of_int (num div den) * dec_value s" using q by simp
  show "of_int (num div den) * dec_value s < dec_value q" if "num mod den \<noteq> 0"
  proof -
    have "0 < of_int (num mod den) * z" using that r(2) z by simp
    with q show ?thesis by simp
  qed
  show "0 \<le> num div den" using pos by (simp add: pos_imp_zdiv_nonneg_iff)
qed

section \<open>Closes and entries\<close>

text \<open>Rounding down ends on a grid point at or below the quantity, less than one step away.\<close>

lemma round_down_bounds:
  assumes "is_dbl (Fin x)" "0 < x" "is_dbl (Fin d)" "0 < d"
  shows "\<exists>r u. roundQuantityToStep (Fin x) (Fin d) False = Fin r \<and> 0 \<le> r \<and> r \<le> x \<and> 0 \<le> u \<and> fl (of_int u * dec_value (decimalParts (Fin d))) = Fin r \<and>
    of_int u * dec_value (decimalParts (Fin d)) \<le> dec_value (decimalParts (Fin x)) \<and>
    dec_value (decimalParts (Fin x)) < of_int (u + 1) * dec_value (decimalParts (Fin d))"
proof -
  let ?q = "decimalParts (Fin x)" and ?s = "decimalParts (Fin d)"
  let ?u = "step_numerator ?q ?s div step_denominator ?q ?s"
  note Q = decimalParts_value [OF assms(1,2)] and S = decimalParts_value [OF assms(3,4)]
  note U = step_units [OF Q(1) S(1)]
  have g: "grid_point ?u ?s = fl (of_int ?u * dec_value ?s)" using U(1) S(1) by (rule grid_point_value)
  have "js_le (fl (of_int ?u * dec_value ?s)) (Fin x)" using fl_mono [OF U(2)] Q(2) by simp
  moreover have "js_le (Fin 0) (fl (of_int ?u * dec_value ?s))" using fl_mono [of 0 "of_int ?u * dec_value ?s"] U(1) S(1) by (simp add: dec_value_def)
  ultimately obtain r where r: "fl (of_int ?u * dec_value ?s) = Fin r" "0 \<le> r" "r \<le> x" by (cases "fl (of_int ?u * dec_value ?s)") auto
  have "roundQuantityToStep (Fin x) (Fin d) False = Fin r"
    using assms(2,4) g r(1) by (simp add: roundQuantityToStep_def Let_def js_isFinite_def)
  then show ?thesis using r U by blast
qed

text \<open>C6. A close never over-closes: for every requested quantity and whatever rules the venue publishes,
  the executable reduce-only quantity is at most the requested one; with a step it is a whole number of
  steps, the largest one that fits the decimal the request prints as, so less than one step is left
  behind; and it is reported as adjusted exactly when it differs.\<close>

theorem close_never_overcloses:
  assumes "is_dbl (Fin x)" "0 < x" "n_quantityStep (normalizeExchangeQuantityRules tenth rules) = Fin d" "is_dbl (Fin d)"
    and "res = resolveExecutableQuantity tenth (Fin x) price rules True universal"
  shows "\<exists>r. x_quantity res = Fin r \<and> 0 \<le> r \<and> r \<le> x \<and> x_adjusted res = (r \<noteq> x) \<and>
    (0 < d \<longrightarrow> (\<exists>u. fl (of_int u * dec_value (decimalParts (Fin d))) = Fin r \<and>
       of_int u * dec_value (decimalParts (Fin d)) \<le> dec_value (decimalParts (Fin x)) \<and>
       dec_value (decimalParts (Fin x)) < of_int (u + 1) * dec_value (decimalParts (Fin d))))"
proof -
  let ?r = "roundQuantityToStep (Fin x) (Fin d) False"
  have res: "x_quantity res = ?r" "x_adjusted res = (\<not> js_eq ?r (Fin x))"
    using assms(2,3,5) by (simp_all add: resolveExecutableQuantity_def Let_def js_isFinite_def roundQuantityDown_def)
  show ?thesis
  proof (cases "0 < d")
    case True
    from round_down_bounds [OF assms(1,2,4) True] show ?thesis using res by (auto simp: js_eq_def)
  next
    case False
    then have "?r = Fin x" using assms(2) by (simp add: roundQuantityToStep_def js_isFinite_def)
    then show ?thesis using res assms(2) False by (simp add: js_eq_def)
  qed
qed

definition sample_rules :: ExchangeQuantityRules where
  "sample_rules = no_rules\<lparr>quantityStep := VNum (Fin 2)\<rparr>"

lemma sample_step: "n_quantityStep (normalizeExchangeQuantityRules tenth (Some sample_rules)) = Fin 2"
  by (simp add: normalizeExchangeQuantityRules_def sample_rules_def no_rules_def Let_def js_to_Number_def js_isFinite_def)

theorem close_never_overcloses_witness:
  "\<exists>r u. x_quantity (resolveExecutableQuantity (\<lambda>p. Fin 1) (Fin 5) (Fin 10) (Some sample_rules) True None) = Fin r \<and> r \<le> 5 \<and>
     fl (of_int u * dec_value (decimalParts (Fin 2))) = Fin r \<and> dec_value (decimalParts (Fin 5)) < of_int (u + 1) * dec_value (decimalParts (Fin 2))"
proof -
  have "is_dbl (Fin 5)" "is_dbl (Fin 2)" using is_dbl_int [of 5] is_dbl_int [of 2] by simp_all
  from close_never_overcloses [OF this(1) _ sample_step this(2) refl, of "\<lambda>p. Fin 1" "Fin 10" None] show ?thesis by auto
qed

lemma dec_value_small:
  assumes "fl v = Fin t" "t \<le> 2 ^ 1000"
  shows "v \<le> 2 powi 1001"
proof (rule ccontr)
  assume "\<not> v \<le> 2 powi 1001"
  then have "fl_rat (2 powi 1001) \<le> fl_rat v" by (intro fl_rat_mono) simp
  moreover have "fl_rat (2 powi 1001) = 2 powi 1001" using fl_rat_exact [of 1 1001] by simp
  moreover have "fl_rat v = t" using assms(1) by (auto simp: fl_def Let_def split: if_splits)
  moreover have "(2 :: rat) ^ 1000 < 2 powi 1001" by (simp add: power_int_def)
  ultimately show False using assms(2) by linarith
qed

text \<open>Rounding up ends on a grid point above the quantity, or on the one below it when that is one rounding error away.\<close>

lemma round_up_bounds:
  assumes "is_dbl (Fin t)" "0 < t" "t \<le> 2 ^ 1000" "is_dbl (Fin d)" "0 < d" "d \<le> 2 ^ 1000"
  shows "\<exists>r u. roundQuantityToStep (Fin t) (Fin d) True = Fin r \<and> (t \<le> r \<or> js_le (js_sub (Fin t) (Fin r)) (js_mul EPSILON (Fin t))) \<and>
    fl (of_int u * dec_value (decimalParts (Fin d))) = Fin r \<and> of_int (u - 1) * dec_value (decimalParts (Fin d)) < dec_value (decimalParts (Fin t))"
proof -
  let ?q = "decimalParts (Fin t)" and ?s = "decimalParts (Fin d)"
  let ?n = "step_numerator ?q ?s" and ?m = "step_denominator ?q ?s"
  let ?u = "?n div ?m"
  note Q = decimalParts_value [OF assms(1,2)] and S = decimalParts_value [OF assms(4,5)]
  note U = step_units [OF Q(1) S(1)]
  have sv: "0 < dec_value ?s" using S(1) by (simp add: dec_value_def)
  have small: "dec_value ?q \<le> 2 powi 1001" "dec_value ?s \<le> 2 powi 1001" using dec_value_small Q(2) S(2) assms(3,6) by blast+
  have grid: "grid_point v ?s = Fin (fl_rat (of_int v * dec_value ?s))" if "v = ?u \<or> v = ?u + 1" for v
  proof -
    have "of_int v * dec_value ?s \<le> dec_value ?q + dec_value ?s" using that U(2) sv by (auto simp: distrib_right)
    also have "\<dots> \<le> 2 powi 1002" using small pow2_add [of 1 1001] by simp
    finally have "\<bar>of_int v * dec_value ?s\<bar> \<le> 2 powi 1002" using that U(1) sv by auto
    from fl_bounded [OF this] show ?thesis using that U(1) S(1) grid_point_value [of v ?s] by auto
  qed
  let ?lower = "fl_rat (of_int ?u * dec_value ?s)"
  have lt: "?lower \<le> t" using fl_mono [OF U(2)] Q(2) grid [of ?u] grid_point_value [OF U(1) S(1)] by simp
  define up where "up \<longleftrightarrow> ?n mod ?m \<noteq> 0 \<and> \<not> (0 < ?lower \<and> js_le (js_sub (Fin t) (Fin ?lower)) (js_mul EPSILON (Fin t)))"
  have g: "grid_point ?u ?s = Fin ?lower" "grid_point (?u + 1) ?s = Fin (fl_rat (of_int (?u + 1) * dec_value ?s))" using grid by blast+
  have "js_max (Fin t) (Fin ?lower) = Fin t" using lt by simp
  then have res: "roundQuantityToStep (Fin t) (Fin d) True = Fin (fl_rat (of_int (if up then ?u + 1 else ?u) * dec_value ?s))"
    using assms(2,5) g by (simp add: roundQuantityToStep_def Let_def js_isFinite_def up_def)
  have fl_up: "fl (of_int v * dec_value ?s) = Fin (fl_rat (of_int v * dec_value ?s))" if "v = ?u \<or> v = ?u + 1" for v
    using grid [OF that] grid_point_value [of v ?s] that U(1) S(1) by auto
  show ?thesis
  proof (cases up)
    case True
    have "js_le (Fin t) (fl (of_int (?u + 1) * dec_value ?s))" using fl_mono [of "dec_value ?q" "of_int (?u + 1) * dec_value ?s"] U(3) Q(2) by simp
    moreover have "of_int (?u + 1 - 1) * dec_value ?s < dec_value ?q" using U(5) True by (simp add: up_def)
    ultimately show ?thesis using True res fl_up [of "?u + 1"]
      by (intro exI [of _ "fl_rat (of_int (?u + 1) * dec_value ?s)"] exI [of _ "?u + 1"]) simp
  next
    case False
    then have "t \<le> ?lower \<or> js_le (js_sub (Fin t) (Fin ?lower)) (js_mul EPSILON (Fin t))"
      using U(4) Q(2) fl_up [of ?u] by (auto simp: up_def)
    moreover have "of_int (?u - 1) * dec_value ?s < dec_value ?q" using U(2) sv by (simp add: left_diff_distrib)
    ultimately show ?thesis using False res fl_up [of ?u] by auto
  qed
qed

text \<open>C31. An entry is never silently reduced: the executable quantity of an entry is a whole number of
  steps that covers both the request and the venue's minimum, or falls short of them by one rounding
  error at most, and it is less than one step more than asked for.\<close>

theorem entry_quantity_covers:
  assumes "n_quantityStep (normalizeExchangeQuantityRules tenth rules) = Fin d" "is_dbl (Fin d)" "0 < d" "d \<le> 2 ^ 1000"
    and "0 < x" "js_max (Fin x) (fst (entry_minimum (Fin x) price (normalizeExchangeQuantityRules tenth rules) universal)) = Fin t"
    and "is_dbl (Fin t)" "t \<le> 2 ^ 1000" "res = resolveExecutableQuantity tenth (Fin x) price rules False universal"
  shows "x \<le> t \<and> (\<exists>r u. x_quantity res = Fin r \<and> (t \<le> r \<or> js_le (js_sub (Fin t) (Fin r)) (js_mul EPSILON (Fin t))) \<and>
    fl (of_int u * dec_value (decimalParts (Fin d))) = Fin r \<and>
    of_int (u - 1) * dec_value (decimalParts (Fin d)) < dec_value (decimalParts (Fin t)))"
proof -
  obtain minimum notionalFloor where m: "entry_minimum (Fin x) price (normalizeExchangeQuantityRules tenth rules) universal = (minimum, notionalFloor)"
    by (cases "entry_minimum (Fin x) price (normalizeExchangeQuantityRules tenth rules) universal")
  have "x \<le> t" using assms(6) m by (cases minimum) (auto simp: js_max_def split: if_splits)
  moreover have "x_quantity res = roundQuantityToStep (Fin t) (Fin d) True"
    using assms(1,5,6,9) m by (simp add: resolveExecutableQuantity_def Let_def js_isFinite_def roundQuantityUp_def)
  ultimately show ?thesis using round_up_bounds [OF assms(7) _ assms(8,2,3,4)] assms(5) by simp
qed

theorem entry_quantity_covers_witness:
  "\<exists>r u. x_quantity (resolveExecutableQuantity (\<lambda>p. Fin 1) (Fin 5) (Fin 0) (Some sample_rules) False None) = Fin r \<and>
     fl (of_int u * dec_value (decimalParts (Fin 2))) = Fin r \<and> of_int (u - 1) * dec_value (decimalParts (Fin 2)) < dec_value (decimalParts (Fin 5))"
proof -
  have d: "is_dbl (Fin 5)" "is_dbl (Fin 2)" using is_dbl_int [of 5] is_dbl_int [of 2] by simp_all
  have "js_max (Fin 5) (fst (entry_minimum (Fin 5) (Fin 0) (normalizeExchangeQuantityRules (\<lambda>p. Fin 1) (Some sample_rules)) None)) = Fin 5"
    by (simp add: entry_minimum_def Let_def normalizeExchangeQuantityRules_def sample_rules_def no_rules_def js_to_Number_def js_isFinite_def)
  from entry_quantity_covers [OF sample_step d(2) _ _ _ this d(1) _ refl] show ?thesis by auto
qed

end
