(* ===== verification/BlockCounts.thy ===== *)
theory BlockCounts
  imports RecoveryLevels
begin

text \<open>
  The quantities and the performance gate of the Block lane (\<open>lib/block-count-state.ts\<close>): the count in
  a set key, the profit-factor floor, the absolute target of a count and what is still missing to it.
\<close>

definition BLOCK_COUNT_MIN :: int where "BLOCK_COUNT_MIN = 1"
definition BLOCK_COUNT_MAX :: int where "BLOCK_COUNT_MAX = 6"
definition LEGACY_BLOCK_COUNT_MAX :: int where "LEGACY_BLOCK_COUNT_MAX = 12"
definition BLOCK_PROFIT_FACTOR_RATIO_DEFAULT :: jsnum where "BLOCK_PROFIT_FACTOR_RATIO_DEFAULT = fl (11 / 10)"
definition BLOCK_PROFIT_FACTOR_RATIO_LEGACY_DEFAULT :: jsnum where "BLOCK_PROFIT_FACTOR_RATIO_LEGACY_DEFAULT = fl (8 / 10)"

subsection \<open>Ratios and counts\<close>

definition bounded_ratio :: "jsnum \<Rightarrow> jsnum \<Rightarrow> jsnum" where
  "bounded_ratio parsed fallback =
     (let candidate = (if js_isFinite parsed then parsed else if js_isFinite fallback then fallback else BLOCK_PROFIT_FACTOR_RATIO_DEFAULT);
          candidate = (if js_lt (js_abs (js_sub candidate BLOCK_PROFIT_FACTOR_RATIO_LEGACY_DEFAULT)) (fl (1 / 10 ^ 9)) then BLOCK_PROFIT_FACTOR_RATIO_DEFAULT else candidate)
      in num_toFixed 2 (js_max (fl (2 / 10)) (js_min (num_of_int 5) candidate)))"

text \<open>A blank value stands for the fallback, which is a number.\<close>

definition normalizeBlockProfitFactorRatio :: "js_value \<Rightarrow> jsnum \<Rightarrow> jsnum" where
  "normalizeBlockProfitFactorRatio raw fallback =
     (if raw = VNull \<or> raw = VUndefined \<or> (case raw of VStr s \<Rightarrow> trim s = [] | _ \<Rightarrow> False)
      then bounded_ratio fallback BLOCK_PROFIT_FACTOR_RATIO_DEFAULT
      else bounded_ratio (js_to_Number raw) fallback)"

text \<open>
  \<open>/#block:(?:(?:active|set):)?(\d+)(?:$|[#:_-])/i\<close>: the digits of the first match.  The digits are
  taken greedily; fewer of them would be followed by a digit, which never matches.
\<close>

definition block_here :: "string \<Rightarrow> string option" where
  "block_here s =
     (if \<not> starts_with ''#block:'' (toLowerCase s) then None
      else let rest = drop 7 s;
               body = (if starts_with ''active:'' (toLowerCase rest) then drop 7 rest else if starts_with ''set:'' (toLowerCase rest) then drop 4 rest else rest);
               digits = takeWhile is_digit body; after = dropWhile is_digit body
           in if digits \<noteq> [] \<and> (after = [] \<or> hd after \<in> set ''#:_-'') then Some digits else None)"

fun block_digits :: "string \<Rightarrow> string option" where
  "block_digits [] = None"
| "block_digits (c # cs) = (case block_here (c # cs) of Some ds \<Rightarrow> Some ds | None \<Rightarrow> block_digits cs)"

definition parseBlockCount :: "js_value \<Rightarrow> jsnum option" where
  "parseBlockCount setKey =
     (case block_digits (js_String (js_or setKey (VStr []))) of
        None \<Rightarrow> None
      | Some ds \<Rightarrow>
          let cnt = js_floor (js_Number ds)
          in if js_isFinite cnt \<and> js_ge cnt (num_of_int BLOCK_COUNT_MIN) \<and> js_le cnt (num_of_int LEGACY_BLOCK_COUNT_MAX) then Some cnt else None)"

definition positive_finite :: "jsnum \<Rightarrow> bool" where
  "positive_finite v = (js_isFinite v \<and> js_gt v (Fin 0))"

definition calculateBlockVolumeIncrementRatio :: "jsnum \<Rightarrow> jsnum \<Rightarrow> js_value \<Rightarrow> jsnum \<Rightarrow> jsnum" where
  "calculateBlockVolumeIncrementRatio cnt ratio steps requestedStep =
     (if \<not> (positive_finite cnt \<and> positive_finite ratio) then Fin 0
      else num_toFixed 12 (js_sub (blockVolumeMultiplier cnt ratio steps requestedStep) (num_of_int 1)))"

definition normalize_count :: "jsnum \<Rightarrow> jsnum" where
  "normalize_count raw = (if positive_finite raw then js_floor raw else Fin 0)"

definition resolveMirroredActiveBlockCount :: "jsnum \<Rightarrow> jsnum \<Rightarrow> bool \<Rightarrow> bool \<Rightarrow> jsnum \<Rightarrow> jsnum" where
  "resolveMirroredActiveBlockCount realCount liveCount includeReal includeLive maxStack =
     (let real = (if includeReal then normalize_count realCount else Fin 0);
          live = (if includeLive then normalize_count liveCount else Fin 0);
          maximum = js_max (num_of_int BLOCK_COUNT_MIN) (js_min (num_of_int BLOCK_COUNT_MAX) (num_or (normalize_count maxStack) (num_of_int BLOCK_COUNT_MIN)))
      in js_min maximum (js_max real live))"

subsection \<open>The performance gate\<close>

definition calculateBlockMinimumProfitFactor :: "jsnum \<Rightarrow> jsnum \<Rightarrow> jsnum \<Rightarrow> jsnum" where
  "calculateBlockMinimumProfitFactor defaultMinimum ratio volumeIncrementFactor =
     (if \<not> (positive_finite defaultMinimum \<and> positive_finite ratio \<and> positive_finite volumeIncrementFactor) then Fin 0
      else js_add (num_of_int 1) (js_mul (js_mul (js_max (Fin 0) (js_sub defaultMinimum (num_of_int 1)))
             (normalizeBlockProfitFactorRatio (VNum ratio) BLOCK_PROFIT_FACTOR_RATIO_DEFAULT)) volumeIncrementFactor))"

definition calculateBlockEffectiveMinimumProfitFactor :: "jsnum \<Rightarrow> jsnum \<Rightarrow> jsnum" where
  "calculateBlockEffectiveMinimumProfitFactor configured normal =
     js_max (if positive_finite configured then configured else Fin 0) (if positive_finite normal then normal else Fin 0)"

record BlockProfitFactorDecision =
  comparisonAvailable :: bool
  coldStart :: bool
  observedProfitFactor :: jsnum
  normalProfitFactor :: jsnum
  configuredMinimumProfitFactor :: jsnum
  effectiveMinimumProfitFactor :: jsnum
  profitFactorDifference :: jsnum
  passesProfitFactor :: bool
  sampleCount :: jsnum

record block_gate_input =
  g_defaultMinimum :: jsnum
  g_configuredMinimum :: jsnum
  g_normal :: jsnum
  g_observed :: "jsnum option"
  g_sampleCount :: jsnum
  g_minimumSampleCount :: jsnum

definition positiveOrZero :: "jsnum \<Rightarrow> jsnum" where
  "positiveOrZero v = (if js_isFinite v \<and> js_ge v (Fin 0) then v else Fin 0)"

definition positive_or :: "jsnum \<Rightarrow> jsnum \<Rightarrow> jsnum" where
  "positive_or v fallback = (if positive_finite v then v else fallback)"

definition resolveBlockProfitFactorDecision :: "block_gate_input \<Rightarrow> BlockProfitFactorDecision" where
  "resolveBlockProfitFactorDecision i =
     (let samples = js_max (Fin 0) (js_floor (positiveOrZero (g_sampleCount i)));
          minimumSamples = js_max (num_of_int 1) (js_floor (positive_or (g_minimumSampleCount i) (num_of_int 1)));
          comparison = js_ge samples minimumSamples;
          normal = (if js_isFinite (g_normal i) \<and> js_ge (g_normal i) (Fin 0) then g_normal i else num_of_int 1);
          configured = positiveOrZero (g_configuredMinimum i);
          observed = (if comparison then positiveOrZero (opt_num (g_observed i)) else normal);
          effective = calculateBlockEffectiveMinimumProfitFactor (if comparison then configured else positiveOrZero (g_defaultMinimum i)) normal
      in \<lparr>comparisonAvailable = comparison, coldStart = \<not> comparison, observedProfitFactor = observed, normalProfitFactor = normal,
          configuredMinimumProfitFactor = configured, effectiveMinimumProfitFactor = effective, profitFactorDifference = js_sub observed normal,
          passesProfitFactor = js_ge observed effective, sampleCount = samples\<rparr>)"

subsection \<open>Quantities\<close>

definition calculateBlockAddQuantity :: "jsnum \<Rightarrow> jsnum \<Rightarrow> jsnum \<Rightarrow> js_value \<Rightarrow> jsnum \<Rightarrow> jsnum" where
  "calculateBlockAddQuantity base cnt ratio steps requestedStep =
     (if \<not> (positive_finite base \<and> positive_finite cnt \<and> positive_finite ratio) then Fin 0
      else js_mul base (calculateBlockVolumeIncrementRatio cnt ratio steps requestedStep))"

definition calculateBlockTargetQuantity :: "jsnum \<Rightarrow> jsnum \<Rightarrow> jsnum \<Rightarrow> js_value \<Rightarrow> jsnum \<Rightarrow> jsnum" where
  "calculateBlockTargetQuantity base cnt ratio steps requestedStep =
     (let additional = calculateBlockAddQuantity base cnt ratio steps requestedStep
      in if js_gt additional (Fin 0) then js_add base additional else Fin 0)"

text \<open>The confirmed quantities of the legs; the legs are objects or absent.\<close>

definition calculateConfirmedBlockAddQuantity :: "js_value \<Rightarrow> jsnum" where
  "calculateConfirmedBlockAddQuantity legs =
     (case legs of
        VArr ls \<Rightarrow> foldl (\<lambda>sum leg. js_add sum (let q = js_to_Number (js_get leg ''quantity'') in if positive_finite q then q else Fin 0)) (Fin 0) ls
      | _ \<Rightarrow> Fin 0)"

definition calculateBlockRemainingAddQuantity :: "jsnum \<Rightarrow> jsnum \<Rightarrow> jsnum \<Rightarrow> jsnum \<Rightarrow> js_value \<Rightarrow> jsnum \<Rightarrow> jsnum" where
  "calculateBlockRemainingAddQuantity base cnt ratio confirmed steps requestedStep =
     (let target = calculateBlockAddQuantity base cnt ratio steps requestedStep
      in if js_le target (Fin 0) then Fin 0
         else if \<not> js_isFinite confirmed \<or> js_lt confirmed (Fin 0) then Fin 0
         else let remaining = js_sub target confirmed; tolerance = js_max (fl (1 / 10 ^ 12)) (js_mul target (fl (1 / 10 ^ 9)))
              in if js_gt remaining tolerance then num_toFixed 12 remaining else Fin 0)"

subsection \<open>The leg of a position\<close>

text \<open>\<open>...(condition && { name: v })\<close>.\<close>

definition field_if :: "bool \<Rightarrow> string \<Rightarrow> js_value \<Rightarrow> js_value jsmap" where
  "field_if b name v = (if b then [(name, v)] else [])"

definition leg_count :: "js_value \<Rightarrow> jsnum" where
  "leg_count source = (case parseBlockCount (js_get source ''setKey'') of
     Some n \<Rightarrow> n
   | None \<Rightarrow> js_floor (js_to_Number (js_or (js_get source ''blockCount'') (VNum (Fin 0)))))"

text \<open>The quantities of \<open>exact\<close> are recorded when they are not negative; an empty order id is left out.\<close>

definition buildBlockLegState :: "int \<Rightarrow> js_value \<Rightarrow> jsnum \<Rightarrow> string \<Rightarrow> string \<Rightarrow> js_value \<Rightarrow> js_value jsmap option" where
  "buildBlockLegState now source quantity clientOrderId orderId exact =
     (let cnt = leg_count source; get = js_get source;
          positive = (\<lambda>v fallback. let n = js_to_Number v in if positive_finite n then n else fallback);
          text = (\<lambda>from to. field_if (js_truthy (get from)) to (VStr (js_String (get from))));
          kept = (\<lambda>from to. field_if (js_truthy (get from)) to (get from));
          given = (\<lambda>name. let n = js_to_Number (js_get exact name) in field_if (js_ge n (Fin 0)) name (VNum n));
          entry = js_to_Number (js_get exact ''entryPrice'');
          ratio = positive (get ''blockVolumeRatio'') (num_of_int 1);
          steps = normalizeBlockIncrementSteps (get ''blockIncrementSteps'') BLOCK_INCREMENT_STEPS_DEFAULT;
          effective = blockEffectiveIncrementStep cnt (VNum steps) (js_to_Number (get ''blockEffectiveIncrementStep''))
      in if \<not> js_isFinite cnt \<or> js_lt cnt (num_of_int 1) then None
         else Some
           ([(''setKey'', VStr (js_String (js_or (get ''setKey'') (VStr (''block:'' @ string_of_num cnt)))))] @
            text ''blockLifecycleKey'' ''lifecycleKey'' @
            [(''blockCount'', VNum cnt)] @
            kept ''blockScope'' ''scope'' @ kept ''blockLaneKind'' ''laneKind'' @ text ''blockLaneKey'' ''laneKey'' @ text ''blockSourceId'' ''sourceId'' @
            [(''quantity'', VNum (js_max (Fin 0) (num_or quantity (Fin 0))))] @
            field_if (js_gt entry (Fin 0)) ''entryPrice'' (VNum entry) @
            [(''baseVolumeMultiplier'', VNum (num_of_int 1)), (''volumeRatio'', VNum ratio), (''incrementSteps'', VNum steps), (''effectiveIncrementStep'', VNum effective),
             (''volumeIncrementRatio'', VNum (positive (get ''blockVolumeIncrementRatio'') (calculateBlockVolumeIncrementRatio cnt ratio (VNum steps) effective))),
             (''volumeMultiplier'', VNum (blockVolumeMultiplier cnt ratio (VNum steps) effective))] @
            given ''baseQuantity'' @ given ''targetAdditionalQuantity'' @ given ''confirmedAdditionalQuantityBefore'' @ given ''targetBlockQuantity'' @
            (case js_get exact ''targetSatisfied'' of VBool b \<Rightarrow> [(''targetSatisfied'', VBool b)] | _ \<Rightarrow> []) @
            given ''requestedQuantity'' @ given ''positionQuantityAfter'' @
            [(''pauseCount'', VNum (js_max (num_of_int 1) (js_floor (num_or
               (js_to_Number (js_nullish (js_get (get ''axisWindows'') ''pause'') (js_nullish (get ''pauseCount'') (VNum cnt)))) cnt))))] @
            field_if (clientOrderId \<noteq> []) ''clientOrderId'' (VStr clientOrderId) @ field_if (orderId \<noteq> []) ''orderId'' (VStr orderId) @
            [(''addedAt'', VNum (num_of_int now))]))"

section \<open>Correctness\<close>

subsection \<open>The gate\<close>

text \<open>The floor of a count, in rational numbers: every step of the computation rounds to a double.\<close>

lemma fl_40_bits: "0 \<le> y \<Longrightarrow> y \<le> 2 ^ 40 \<Longrightarrow> fl y = Fin (fl_rat y)"
  by (rule fl_bounded [of _ 40]) (simp_all add: power_int_def)

lemma fl_rat_int_bounds:
  "0 \<le> y \<Longrightarrow> y \<le> of_int n \<Longrightarrow> \<bar>n\<bar> \<le> 2 ^ 53 \<Longrightarrow> 0 \<le> fl_rat y \<and> fl_rat y \<le> of_int n"
  using fl_rat_mono [of y "of_int n"] fl_of_int [of n] fl_rat_nonneg [of y] by (auto simp: fl_def Let_def split: if_splits)

definition to_decimals :: "nat \<Rightarrow> rat \<Rightarrow> rat" where
  "to_decimals d x = fl_rat (of_int \<lfloor>x * 10 ^ d + 1 / 2\<rfloor> / 10 ^ d)"

lemma to_decimals_mono: "x \<le> y \<Longrightarrow> to_decimals d x \<le> to_decimals d y"
  unfolding to_decimals_def by (intro fl_rat_mono divide_right_mono) (simp_all add: floor_mono)

lemma to_decimals_int: "\<bar>n\<bar> \<le> 2 ^ 53 \<Longrightarrow> to_decimals d (of_int n) = of_int n"
proof -
  assume n: "\<bar>n\<bar> \<le> 2 ^ 53"
  have "\<lfloor>(of_int n :: rat) * 10 ^ d + 1 / 2\<rfloor> = n * 10 ^ d" by (rule floor_unique) simp_all
  then show ?thesis using fl_of_int [OF n] by (auto simp: to_decimals_def fl_def Let_def split: if_splits)
qed

lemma to_decimals_bounds: "0 \<le> x \<Longrightarrow> x \<le> of_int n \<Longrightarrow> \<bar>n\<bar> \<le> 2 ^ 53 \<Longrightarrow> 0 \<le> to_decimals d x \<and> to_decimals d x \<le> of_int n"
  using to_decimals_mono [of 0 x d] to_decimals_mono [of x "of_int n" d] to_decimals_int [of 0 d] to_decimals_int [of n d] by simp

lemma toFixed_to_decimals: "0 \<le> x \<Longrightarrow> x \<le> 2 ^ 30 \<Longrightarrow> num_toFixed d (Fin x) = Fin (to_decimals d x)"
proof -
  assume x: "0 \<le> x" "x \<le> 2 ^ 30"
  let ?y = "of_int \<lfloor>x * 10 ^ d + 1 / 2\<rfloor> / 10 ^ d :: rat"
  have "(1 :: rat) \<le> 10 ^ d" by simp
  then have "of_int \<lfloor>x * 10 ^ d + 1 / 2\<rfloor> \<le> (x + 1) * 10 ^ d" using of_int_floor_le [of "x * 10 ^ d + 1 / 2"] unfolding distrib_right by linarith
  then have "?y \<le> x + 1" by (simp add: divide_le_eq)
  then have "fl ?y = Fin (fl_rat ?y)" using x by (intro fl_40_bits) simp_all
  then show ?thesis using x by (simp add: to_decimals_def)
qed

definition volume_chain :: "rat \<Rightarrow> rat \<Rightarrow> rat \<Rightarrow> rat" where
  "volume_chain c r e = to_decimals 12 (fl_rat (to_decimals 12 (fl_rat (1 + fl_rat (fl_rat (c * r) * e))) - 1))"

lemma volume_chain_mono:
  assumes "0 \<le> c" "c \<le> c'" "0 \<le> r" "r \<le> r'" "0 \<le> e" "e \<le> e'"
  shows "volume_chain c r e \<le> volume_chain c' r' e'"
proof -
  have "fl_rat (c * r) \<le> fl_rat (c' * r')" using assms by (intro fl_rat_mono mult_mono) simp_all
  then have "fl_rat (c * r) * e \<le> fl_rat (c' * r') * e'" using assms by (intro mult_mono) (auto intro: fl_rat_nonneg)
  then show ?thesis unfolding volume_chain_def by (intro to_decimals_mono fl_rat_mono add_left_mono diff_right_mono)
qed

lemma volume_chain_ends: "volume_chain 1 (1 / 16) 1 = 1 / 16" "volume_chain 12 16 6 = 1152"
proof -
  have e: "fl_rat (1 / 16) = 1 / 16" "fl_rat (17 / 16) = 17 / 16"
    using fl_rat_exact [of 1 "- 4"] fl_rat_exact [of 17 "- 4"] by (simp_all add: power_int_def power_divide)
  have "\<lfloor>17 / 16 * 10 ^ 12 + 1 / 2 :: rat\<rfloor> = 1062500000000" "\<lfloor>1 / 16 * 10 ^ 12 + 1 / 2 :: rat\<rfloor> = 62500000000" by (rule floor_unique; simp)+
  then have t: "to_decimals 12 (17 / 16) = 17 / 16" "to_decimals 12 (1 / 16) = 1 / 16" unfolding to_decimals_def using e by simp_all
  have "(1 :: rat) + 1 / 16 = 17 / 16" "(17 / 16 :: rat) - 1 = 1 / 16" by simp_all
  then show "volume_chain 1 (1 / 16) 1 = 1 / 16" by (simp only: volume_chain_def mult_1_left mult_1_right e t)
  have i: "fl_rat (of_int n) = of_int n" if "\<bar>n\<bar> \<le> 2 ^ 53" for n using fl_of_int [OF that] by (auto simp: fl_def Let_def split: if_splits)
  show "volume_chain 12 16 6 = 1152"
    using i [of 192] i [of 1152] i [of 1153] to_decimals_int [of 1153 12] to_decimals_int [of 1152 12] by (simp add: volume_chain_def)
qed

lemma volume_increment_chain:
  assumes "1 \<le> a" "a \<le> 12" "1 / 16 \<le> r" "r \<le> 16" "1 \<le> j" "normalizeBlockIncrementSteps steps BLOCK_INCREMENT_STEPS_DEFAULT = num_of_int s" "1 \<le> s" "s \<le> 6"
  shows "calculateBlockVolumeIncrementRatio (num_of_int a) (Fin r) steps (num_of_int j) = Fin (volume_chain (of_int a) r (of_int (min j s)))"
    "1 / 16 \<le> volume_chain (of_int a) r (of_int (min j s))" "volume_chain (of_int a) r (of_int (min j s)) \<le> 1152"
proof -
  let ?e = "of_int (min j s) :: rat" and ?a = "of_int a :: rat"
  have e: "1 \<le> ?e" "?e \<le> 6" using assms(5,7,8) by simp_all
  have a: "1 \<le> ?a" "?a \<le> 12" using assms(1,2) by simp_all
  show low: "1 / 16 \<le> volume_chain ?a r ?e" using volume_chain_mono [of 1 ?a "1 / 16" r 1 ?e] volume_chain_ends a e assms by simp
  show "volume_chain ?a r ?e \<le> 1152" using volume_chain_mono [of ?a 12 r 16 ?e 6] volume_chain_ends a e assms by simp
  have eff: "blockEffectiveIncrementStep (num_of_int a) steps (num_of_int j) = Fin ?e"
    using assms by (simp add: blockEffectiveIncrementStep_def js_isFinite_def num_or_def truthy_def max_def min_def)
  define g1 where "g1 = fl_rat (?a * r)"
  have ar: "0 \<le> ?a * r" "?a * r \<le> of_int 192" using mult_mono [of ?a 12 r 16] a assms(3,4) by simp_all
  have g1: "fl (?a * r) = Fin g1" "0 \<le> g1" "g1 \<le> 192" using fl_40_bits [of "?a * r"] fl_rat_int_bounds [OF ar] ar unfolding g1_def by simp_all
  define g2 where "g2 = fl_rat (g1 * ?e)"
  have ge: "0 \<le> g1 * ?e" "g1 * ?e \<le> of_int 1152" using mult_mono [of g1 192 ?e 6] g1 e by simp_all
  have g2: "fl (g1 * ?e) = Fin g2" "0 \<le> g2" "g2 \<le> 1152" using fl_40_bits [of "g1 * ?e"] fl_rat_int_bounds [OF ge] ge unfolding g2_def by simp_all
  define g3 where "g3 = fl_rat (1 + g2)"
  have g3: "fl (1 + g2) = Fin g3" "0 \<le> g3" "g3 \<le> 1153" "1 \<le> g3"
    using fl_40_bits [of "1 + g2"] fl_rat_int_bounds [of "1 + g2" 1153] fl_rat_mono [of 1 "1 + g2"] fl_of_int [of 1] g2 unfolding g3_def
    by (auto simp: fl_def Let_def split: if_splits)
  define g4 where "g4 = to_decimals 12 g3"
  have g4: "num_toFixed 12 (Fin g3) = Fin g4" "1 \<le> g4" "g4 \<le> 1153"
    using toFixed_to_decimals [of g3 12] to_decimals_bounds [of g3 1153 12] to_decimals_mono [of 1 g3 12] to_decimals_int [of 1 12] g3 unfolding g4_def by simp_all
  define g5 where "g5 = fl_rat (g4 - 1)"
  have g5: "fl (g4 - 1) = Fin g5" "0 \<le> g5" "g5 \<le> 1152" using fl_40_bits [of "g4 - 1"] fl_rat_int_bounds [of "g4 - 1" 1152] g4 unfolding g5_def by simp_all
  have "num_toFixed 12 (Fin g5) = Fin (to_decimals 12 g5)" using g5 by (intro toFixed_to_decimals) simp_all
  moreover have "blockVolumeMultiplier (num_of_int a) (Fin r) steps (num_of_int j) = Fin g4"
    using a(1) assms(1,3) eff g1(1) g2(1) g3(1) g4(1) by (simp add: blockVolumeMultiplier_def js_isFinite_def del: num_toFixed.simps)
  ultimately show "calculateBlockVolumeIncrementRatio (num_of_int a) (Fin r) steps (num_of_int j) = Fin (volume_chain ?a r ?e)"
    using a(1) assms(1,3) g5(1)
    by (simp add: calculateBlockVolumeIncrementRatio_def positive_finite_def js_isFinite_def js_sub_def volume_chain_def g1_def g2_def g3_def g4_def g5_def del: num_toFixed.simps)
qed

lemma bounded_ratio_range: "\<exists>p. bounded_ratio (Fin q) d = Fin p \<and> 0 \<le> p \<and> p \<le> 5"
proof -
  obtain w where w: "fl (2 / 10) = Fin w" "0 \<le> w" "w \<le> 1" using fl_between [OF is_dbl_int [of 0] is_dbl_int [of 1], of "2 / 10"] by auto
  obtain u where u: "BLOCK_PROFIT_FACTOR_RATIO_DEFAULT = Fin u"
    using fl_40_bits [of "11 / 10"] by (simp add: BLOCK_PROFIT_FACTOR_RATIO_DEFAULT_def)
  have z: "js_max (fl (2 / 10)) (js_min (num_of_int 5) (if b then BLOCK_PROFIT_FACTOR_RATIO_DEFAULT else Fin q)) = Fin (max w (min 5 (if b then u else q)))" for b
    using w by (simp add: u)
  define z where "z = (\<lambda>b. max w (min 5 (if b then u else q)))"
  have "0 \<le> z b" "z b \<le> 5" for b using w by (simp_all add: z_def)
  then have "num_toFixed 2 (Fin (z b)) = Fin (to_decimals 2 (z b))" "0 \<le> to_decimals 2 (z b) \<and> to_decimals 2 (z b) \<le> 5" for b
    using toFixed_to_decimals [of "z b" 2] to_decimals_bounds [of "z b" 5 2] order_trans [of "z b" 5 "2 ^ 30"] by simp_all
  moreover have "\<exists>b. bounded_ratio (Fin q) d = num_toFixed 2 (Fin (z b))"
    unfolding bounded_ratio_def Let_def js_isFinite_def jsnum.case if_True z z_def by (rule exI, rule refl)
  ultimately show ?thesis by metis
qed

definition floor_chain :: "rat \<Rightarrow> rat \<Rightarrow> rat \<Rightarrow> rat" where
  "floor_chain gap p v = fl_rat (1 + fl_rat (fl_rat (gap * p) * v))"

lemma floor_chain_mono: "0 \<le> gap \<Longrightarrow> 0 \<le> p \<Longrightarrow> v \<le> v' \<Longrightarrow> floor_chain gap p v \<le> floor_chain gap p v'"
  unfolding floor_chain_def by (intro fl_rat_mono add_left_mono mult_left_mono fl_rat_nonneg) simp_all

lemma floor_chain_ge_1: "0 \<le> gap \<Longrightarrow> 0 \<le> p \<Longrightarrow> 0 \<le> v \<Longrightarrow> 1 \<le> floor_chain gap p v"
  using fl_rat_mono [of 1 "1 + fl_rat (fl_rat (gap * p) * v)"] fl_of_int [of 1] unfolding floor_chain_def
  by (auto simp: fl_rat_nonneg fl_def Let_def split: if_splits)

lemma minimum_factor_chain:
  assumes "0 < dm" "dm \<le> 1000" "0 < q"
  shows "\<exists>gap p. 0 \<le> gap \<and> 0 \<le> p \<and> (\<forall>v. 0 < v \<longrightarrow> v \<le> 1152 \<longrightarrow> calculateBlockMinimumProfitFactor (Fin dm) (Fin q) (Fin v) = Fin (floor_chain gap p v))"
proof -
  obtain p where p: "bounded_ratio (Fin q) BLOCK_PROFIT_FACTOR_RATIO_DEFAULT = Fin p" "0 \<le> p" "p \<le> 5" using bounded_ratio_range by blast
  obtain t where t: "fl (dm - 1) = Fin t" "t \<le> 999"
    using fl_between [OF is_dbl_int [of "- 1"] is_dbl_int [of 999], of "dm - 1"] assms by auto
  define gap where "gap = max 0 t"
  have gap: "js_max (Fin 0) (js_sub (Fin dm) (num_of_int 1)) = Fin gap" "0 \<le> gap" "gap \<le> 999" using t by (simp_all add: js_sub_def gap_def)
  have "gap * p \<le> of_int 4995" using mult_mono [OF gap(3) p(3)] gap p by simp
  note dp = mult_nonneg_nonneg [OF gap(2) p(2)] this
  let ?d = "fl_rat (gap * p)"
  have d: "fl (gap * p) = Fin ?d" "0 \<le> ?d" "?d \<le> 4995" using fl_40_bits [of "gap * p"] fl_rat_int_bounds [OF dp] dp by simp_all
  have "calculateBlockMinimumProfitFactor (Fin dm) (Fin q) (Fin v) = Fin (floor_chain gap p v)" if v: "0 < v" "v \<le> 1152" for v
  proof -
    have "?d * v \<le> of_int 5754240" using mult_mono [OF d(3) v(2)] d v by simp
    note dv = mult_nonneg_nonneg [OF d(2) less_imp_le [OF v(1)]] this
    let ?w = "fl_rat (?d * v)"
    have w: "fl (?d * v) = Fin ?w" "0 \<le> ?w" "?w \<le> 5754240" using fl_40_bits [of "?d * v"] fl_rat_int_bounds [OF dv] dv by simp_all
    then have "fl (1 + ?w) = Fin (fl_rat (1 + ?w))" by (intro fl_40_bits) simp_all
    then show ?thesis using assms v p(1) gap(1) d(1) w(1)
      by (simp add: calculateBlockMinimumProfitFactor_def normalizeBlockProfitFactorRatio_def js_to_Number_def positive_finite_def js_isFinite_def floor_chain_def)
  qed
  with gap(2) p(2) show ?thesis by blast
qed

lemma gate_passes_iff:
  assumes "0 \<le> dm" "0 \<le> f" "0 \<le> n" "0 \<le> x" "0 \<le> sc" "1 \<le> ms"
  shows "passesProfitFactor (resolveBlockProfitFactorDecision \<lparr>g_defaultMinimum = Fin dm, g_configuredMinimum = Fin f, g_normal = Fin n,
      g_observed = Some (Fin x), g_sampleCount = Fin sc, g_minimumSampleCount = Fin ms\<rparr>) \<longleftrightarrow> (if \<lfloor>ms\<rfloor> \<le> \<lfloor>sc\<rfloor> then n \<le> x \<and> f \<le> x else dm \<le> n)"
proof -
  have "calculateBlockEffectiveMinimumProfitFactor (Fin a) (Fin b) = Fin (max a b)" if "0 \<le> a" "0 \<le> b" for a b
    using that by (auto simp: calculateBlockEffectiveMinimumProfitFactor_def positive_finite_def js_isFinite_def max_def)
  then show ?thesis using assms
    by (auto simp: resolveBlockProfitFactorDecision_def Let_def positiveOrZero_def positive_or_def positive_finite_def js_isFinite_def opt_num_def)
qed

text \<open>C11. The gate of a count, over the numbers the stages give it: the stage's floor \<open>dm\<close>, the configured ratio \<open>q\<close>,
  the volume ratio \<open>r\<close> (the stages keep it between 0.1 and 10), the count, the recovery level, the normal profit
  factor \<open>n\<close>, the lane's own \<open>x\<close> and its closes.  With at least the wanted number of own closes a count passes exactly when
  the lane's own profit factor reaches both the normal one and the count's floor, before that exactly when the normal
  one reaches the stage's floor.  The count's floor is never below the neutral one, and a lane that passes at a
  count and level passes at every smaller count and lower level.
\<close>

theorem block_gate_exact:
  fixes dm q r n x sc ms steps
  defines "need \<equiv> \<lambda>c k. calculateBlockMinimumProfitFactor (Fin dm) (Fin q) (calculateBlockVolumeIncrementRatio (num_of_int c) (Fin r) steps (num_of_int k))"
  defines "passes \<equiv> \<lambda>c k. passesProfitFactor (resolveBlockProfitFactorDecision \<lparr>g_defaultMinimum = Fin dm, g_configuredMinimum = need c k, g_normal = Fin n,
      g_observed = Some (Fin x), g_sampleCount = Fin sc, g_minimumSampleCount = Fin ms\<rparr>)"
  assumes "0 < dm" "dm \<le> 1000" "0 < q" "1 / 16 \<le> r" "r \<le> 16" "0 \<le> n" "0 \<le> x" "0 \<le> sc" "1 \<le> ms"
    "1 \<le> a" "a \<le> b" "b \<le> LEGACY_BLOCK_COUNT_MAX" "1 \<le> j" "j \<le> k"
  shows "(passes a j \<longleftrightarrow> (if \<lfloor>ms\<rfloor> \<le> \<lfloor>sc\<rfloor> then n \<le> x \<and> js_le (need a j) (Fin x) else dm \<le> n)) \<and>
    js_le (num_of_int 1) (need a j) \<and> (passes b k \<longrightarrow> passes a j)"
proof -
  obtain s where s: "normalizeBlockIncrementSteps steps BLOCK_INCREMENT_STEPS_DEFAULT = num_of_int s" "1 \<le> s" "s \<le> 6" using increment_steps_range by blast
  obtain gap p where dp: "0 \<le> gap" "0 \<le> p" "\<And>v. 0 < v \<Longrightarrow> v \<le> 1152 \<Longrightarrow> calculateBlockMinimumProfitFactor (Fin dm) (Fin q) (Fin v) = Fin (floor_chain gap p v)"
    using minimum_factor_chain assms(3-5) by meson
  let ?v = "\<lambda>c k. volume_chain (of_int c) r (of_int (min k s))"
  have N: "need c i = Fin (floor_chain gap p (?v c i))" "0 < ?v c i" if "1 \<le> c" "c \<le> b" "1 \<le> i" for c i
    using volume_increment_chain [OF _ _ assms(6,7) that(3) s, of c] dp(3) [of "?v c i"] that assms(14) unfolding need_def LEGACY_BLOCK_COUNT_MAX_def by simp_all
  note A = N [OF assms(12,13,15)] and B = N [of b k]
  have le: "?v a j \<le> ?v b k" using assms s by (intro volume_chain_mono) simp_all
  have "floor_chain gap p (?v a j) \<le> floor_chain gap p (?v b k)" using dp le by (intro floor_chain_mono) simp_all
  moreover have one: "1 \<le> floor_chain gap p (?v c i)" if "1 \<le> c" "c \<le> b" "1 \<le> i" for c i
    using dp N(2) [OF that] by (intro floor_chain_ge_1) simp_all
  moreover have gate: "passes c i \<longleftrightarrow> (if \<lfloor>ms\<rfloor> \<le> \<lfloor>sc\<rfloor> then n \<le> x \<and> js_le (need c i) (Fin x) else dm \<le> n)" if "1 \<le> c" "c \<le> b" "1 \<le> i" for c i
    unfolding passes_def N(1) [OF that] using gate_passes_iff [of dm "floor_chain gap p (?v c i)" n x sc ms] one [OF that] assms by simp
  ultimately show ?thesis
    using gate [of a j] gate [of b k] one [of a j] A(1) B(1) assms(12-16) by (auto split: if_splits)
qed

text \<open>A count of two without enough own closes passes on the normal result; with them it fails below the normal result.\<close>

theorem block_gate_exact_witness:
  "let need = calculateBlockMinimumProfitFactor (Fin 2) (Fin 1) (calculateBlockVolumeIncrementRatio (num_of_int 2) (Fin 1) (VNum (num_of_int 3)) (num_of_int 1));
       gate = (\<lambda>samples. resolveBlockProfitFactorDecision \<lparr>g_defaultMinimum = Fin 2, g_configuredMinimum = need, g_normal = Fin 3,
         g_observed = Some (Fin (5 / 2)), g_sampleCount = Fin samples, g_minimumSampleCount = Fin 4\<rparr>)
   in passesProfitFactor (gate 3) \<and> \<not> passesProfitFactor (gate 4)"
  using block_gate_exact [of 2 1 1 3 "5 / 2" 3 4 2 4 1 1 "VNum (num_of_int 3)"] block_gate_exact [of 2 1 1 3 "5 / 2" 4 4 2 4 1 1 "VNum (num_of_int 3)"]
  by (simp add: LEGACY_BLOCK_COUNT_MAX_def)

subsection \<open>The remaining quantity\<close>

lemma fl_Fin_iff: "fl x = Fin y \<Longrightarrow> y = fl_rat x"
  by (auto simp: fl_def Let_def split: if_splits)

text \<open>Rounding to twelve decimals adds at most half a unit, and one rounding error.\<close>

lemma toFixed_le:
  assumes "0 \<le> x"
  shows "\<exists>r. num_toFixed 12 (Fin x) = Fin r \<and> 0 \<le> r \<and> r \<le> (x + 1 / (2 * 10 ^ 12)) * (1 + 2 powi (- 53))"
proof (cases "10 ^ 21 \<le> x")
  case True
  have "x * 1 \<le> (x + 1 / (2 * 10 ^ 12)) * (1 + 2 powi (- 53))" using assms by (intro mult_mono) simp_all
  then show ?thesis using True assms by simp
next
  case False
  define m where "m = \<lfloor>x * 10 ^ 12 + 1 / 2\<rfloor>"
  let ?y = "of_int m / 10 ^ 12 :: rat"
  have m: "0 \<le> m" "of_int m \<le> x * 10 ^ 12 + 1 / 2" using assms by (simp_all add: m_def)
  have y: "0 \<le> ?y" "?y \<le> x + 1 / (2 * 10 ^ 12)" using m by (simp_all add: field_simps)
  have grow: "?y * (1 + 2 powi (- 53)) \<le> (x + 1 / (2 * 10 ^ 12)) * (1 + 2 powi (- 53))" using y(2) by (intro mult_right_mono) simp_all
  have "num_toFixed 12 (Fin x) = fl ?y" using False assms by (simp add: m_def)
  moreover have "fl ?y = Fin (fl_rat ?y)"
  proof (rule fl_bounded)
    have "?y \<le> 2 ^ 71" using y(2) False by simp
    then show "\<bar>?y\<bar> \<le> 2 powi 71" using y(1) by (simp add: power_int_def)
  qed simp_all
  moreover have "fl_rat ?y \<le> (x + 1 / (2 * 10 ^ 12)) * (1 + 2 powi (- 53))"
  proof (rule order_trans [OF _ grow], cases "m = 0")
    case False
    then have "1 / 10 ^ 12 \<le> ?y" using m by (simp add: field_simps)
    moreover have "(2 :: rat) powi (- 1022) \<le> 2 powi (- 40)" by (rule pow2_mono) simp
    moreover have "(2 :: rat) powi (- 40) \<le> 1 / 10 ^ 12" by (simp add: power_int_def power_one_over)
    ultimately show "fl_rat ?y \<le> ?y * (1 + 2 powi (- 53))" by (intro fl_rat_rel_normal) linarith
  qed simp
  ultimately show ?thesis using fl_rat_nonneg [OF y(1)] by (intro exI [of _ "fl_rat ?y"] conjI) (simp_all only:)
qed

lemma add_quantity_dbl:
  assumes "calculateBlockAddQuantity base cnt ratio steps k = Fin t"
  shows "is_dbl (Fin t)"
proof (cases "positive_finite base \<and> positive_finite cnt \<and> positive_finite ratio")
  case True
  then obtain b where "base = Fin b" by (cases base) (auto simp: positive_finite_def js_isFinite_def)
  then have "js_mul (Fin b) (calculateBlockVolumeIncrementRatio cnt ratio steps k) = Fin t" using assms True by (simp add: calculateBlockAddQuantity_def)
  then show ?thesis using is_dbl_fl
    by (cases "calculateBlockVolumeIncrementRatio cnt ratio steps k") (auto simp: signed_inf_def split: if_splits, metis is_dbl_fl)
next
  case False
  then show ?thesis using assms is_dbl_int [of 0] by (auto simp: calculateBlockAddQuantity_def)
qed

text \<open>C12. The counts share one position: what a count still adds to the confirmed quantity never takes it past the
  count's own absolute target by more than rounding, and nothing is added once the target is reached.
\<close>

theorem block_add_within_target:
  assumes "calculateBlockAddQuantity base cnt ratio steps k = Fin t" "is_dbl (Fin c)" "0 \<le> c"
  shows "\<exists>r. calculateBlockRemainingAddQuantity base cnt ratio (Fin c) steps k = Fin r \<and> 0 \<le> r \<and> c + r \<le> max c (t * (1 + 2 powi (- 51)) + 1 / 10 ^ 12) \<and>
    (t \<le> c \<longrightarrow> r = 0)"
proof (cases "c < t")
  case False
  have "js_le (fl (t - c)) (fl 0)" using False by (intro fl_mono) simp
  moreover have "js_le (fl 0) (fl (1 / 10 ^ 12))" by (intro fl_mono) simp
  ultimately have "\<not> js_lt (js_max (fl (1 / 10 ^ 12)) v) (fl (t - c))" for v
    by (cases "fl (t - c)"; cases "fl (1 / 10 ^ 12)"; cases v) (auto simp: js_max_def)
  then show ?thesis using False assms by (auto simp: calculateBlockRemainingAddQuantity_def Let_def js_sub_def)
next
  case True
  let ?u = "2 powi (- 53) :: rat"
  have t: "is_dbl (Fin t)" "0 < t" using add_quantity_dbl [OF assms(1)] True assms(3) by auto
  obtain x where x: "fl (t - c) = Fin x" "0 \<le> x" using fl_between [OF is_dbl_int [of 0] t(1), of "t - c"] True assms(3) by auto
  have "fl_rat t = t" "fl_rat c = c" using fl_dbl [OF t(1)] fl_dbl [OF assms(2)] fl_Fin_iff by metis+
  then have xle: "x \<le> (t - c) * (1 + ?u)" using fl_rat_diff_rel_err [OF _ _ True] fl_Fin_iff [OF x(1)] by simp
  obtain f where f: "num_toFixed 12 (Fin x) = Fin f" "0 \<le> f" "f \<le> (x + 1 / (2 * 10 ^ 12)) * (1 + ?u)" using toFixed_le [OF x(2)] by blast
  have "f \<le> ((t - c) * (1 + ?u) + 1 / (2 * 10 ^ 12)) * (1 + ?u)" using f(3) xle by (intro order_trans [OF f(3)] mult_right_mono add_mono) simp_all
  also have "\<dots> = (t - c) * (1 + ?u) ^ 2 + 1 / (2 * 10 ^ 12) * (1 + ?u)" by (simp only: power2_eq_square distrib_right mult.assoc)
  also have "\<dots> \<le> (t - c) * (1 + 2 powi (- 51)) + 1 / 10 ^ 12"
    using True by (intro add_mono mult_left_mono) (simp_all add: power_int_def power2_eq_square field_simps)
  finally have "c + f \<le> c + (t - c) * (1 + 2 powi (- 51)) + 1 / 10 ^ 12" by simp
  also have "c + (t - c) * (1 + 2 powi (- 51)) \<le> t * (1 + 2 powi (- 51))"
    using mult_nonneg_nonneg [OF assms(3), of "2 powi (- 51)"] unfolding distrib_left left_diff_distrib by (simp del: power_int_minus power_int_numeral)
  finally have "c + f \<le> t * (1 + 2 powi (- 51)) + 1 / 10 ^ 12" by simp
  then show ?thesis using assms True t x f by (auto simp: calculateBlockRemainingAddQuantity_def Let_def js_sub_def js_isFinite_def)
qed

text \<open>Count four of a base of three: twelve in all, so nine after three.\<close>

lemma toFixed_int: "\<bar>n\<bar> \<le> 2 ^ 53 \<Longrightarrow> 0 \<le> n \<Longrightarrow> num_toFixed 12 (num_of_int n) = num_of_int n"
proof -
  assume n: "\<bar>n\<bar> \<le> 2 ^ 53" "0 \<le> n"
  have "\<lfloor>(of_int n :: rat) * 10 ^ 12 + 1 / 2\<rfloor> = n * 10 ^ 12" by (rule floor_unique) simp_all
  then have "of_int \<lfloor>(of_int n :: rat) * 10 ^ 12 + 1 / 2\<rfloor> / 10 ^ 12 = (of_int n :: rat)" by simp
  moreover have "\<not> 10 ^ 21 \<le> \<bar>of_int n :: rat\<bar>"
  proof -
    have "(of_int n :: rat) \<le> of_int (2 ^ 53)" using n by (simp only: of_int_le_iff)
    then show ?thesis using n by simp
  qed
  ultimately show ?thesis using n fl_of_int [of n] by simp
qed

theorem block_add_within_target_witness:
  "\<exists>r. calculateBlockRemainingAddQuantity (num_of_int 3) (num_of_int 4) (num_of_int 1) (Fin 3) (VNum (num_of_int 3)) (num_of_int 1) = Fin r \<and>
     3 + r \<le> 12 * (1 + 2 powi (- 51)) + 1 / 10 ^ 12"
proof -
  have "blockEffectiveIncrementStep (num_of_int 4) (VNum (num_of_int 3)) (num_of_int 1) = num_of_int 1" using effective_step_int [of 4 3 1] by simp
  then have "blockVolumeMultiplier (num_of_int 4) (num_of_int 1) (VNum (num_of_int 3)) (num_of_int 1) = num_of_int 5"
    using js_mul_int [of 4 1] js_add_int [of 1 4] toFixed_int [of 5] by (simp add: blockVolumeMultiplier_def js_isFinite_def del: num_toFixed.simps)
  then have "calculateBlockVolumeIncrementRatio (num_of_int 4) (num_of_int 1) (VNum (num_of_int 3)) (num_of_int 1) = num_of_int 4"
    using js_sub_int [of 5 1] toFixed_int [of 4] by (simp add: calculateBlockVolumeIncrementRatio_def positive_finite_def js_isFinite_def del: num_toFixed.simps)
  then have "calculateBlockAddQuantity (num_of_int 3) (num_of_int 4) (num_of_int 1) (VNum (num_of_int 3)) (num_of_int 1) = Fin 12"
    using js_mul_int [of 3 4] by (simp add: calculateBlockAddQuantity_def positive_finite_def js_isFinite_def)
  from block_add_within_target [OF this, of 3] is_dbl_int [of 3] show ?thesis by (auto simp: max_def split: if_splits)
qed

subsection \<open>The leg\<close>

lemma field_if_lookup: "map_of (field_if b name v) k = (if b \<and> k = name then Some v else None)"
  by (simp add: field_if_def)

lemma lookup_append: "map_of (xs @ ys) k = (case map_of xs k of None \<Rightarrow> map_of ys k | Some v \<Rightarrow> Some v)"
  by (induction xs) auto

lemma flag_lookup: "k \<noteq> name \<Longrightarrow> map_of (case v of VBool b \<Rightarrow> [(name, VBool b)] | _ \<Rightarrow> []) k = None"
  by (cases v) auto

lemma get_row: "js_get (VObj kvs) k = (case map_of kvs k of None \<Rightarrow> VUndefined | Some v \<Rightarrow> v)"
  by (simp add: js_get_def js_prop_def)

lemma parsed_count_int: "parseBlockCount v = Some n \<Longrightarrow> \<exists>k. n = num_of_int k"
proof -
  assume p: "parseBlockCount v = Some n"
  then obtain ds where "n = js_floor (js_Number ds)" "js_isFinite n" by (auto simp: parseBlockCount_def Let_def split: option.splits if_splits)
  then show ?thesis by (cases "js_Number ds") (auto simp: js_isFinite_def)
qed

lemma leg_count_int:
  assumes "js_isFinite (leg_count source)" "\<not> js_lt (leg_count source) (num_of_int 1)"
  shows "\<exists>n. leg_count source = num_of_int n \<and> 1 \<le> n"
proof -
  have "\<exists>n. leg_count source = num_of_int n"
  proof (cases "parseBlockCount (js_get source ''setKey'')")
    case None
    then have "leg_count source = js_floor (js_to_Number (js_or (js_get source ''blockCount'') (VNum (Fin 0))))" by (simp add: leg_count_def)
    then show ?thesis using assms(1) by (cases "js_to_Number (js_or (js_get source ''blockCount'') (VNum (Fin 0)))") (auto simp: js_isFinite_def)
  qed (use parsed_count_int in \<open>auto simp: leg_count_def\<close>)
  then show ?thesis using assms(2) by auto
qed

lemma floor_num_or_ge: "js_le (num_of_int 1) (js_max (num_of_int 1) (js_floor (num_or v (num_of_int n))))"
proof -
  have "num_or v (num_of_int n) \<noteq> NaN" by simp
  then show ?thesis by (cases "num_or v (num_of_int n)") (auto simp: js_max_def)
qed


definition sample_source :: js_value where
  "sample_source = VObj [(''setKey'', VStr ''ema''), (''blockCount'', VNum (num_of_int 4)), (''blockIncrementSteps'', VNum (num_of_int 9)), (''axisWindows'', VObj [(''pause'', VNull)])]"


end
