(* ===== verification/PositionPnl.thy ===== *)
theory PositionPnl
  imports JsMath JsJson
begin

text \<open>
  What a live position is worth (\<open>lib/live-position-pnl.ts\<close>), with the part of the Forex contract it
  needs (\<open>lib/forex-market.ts\<close>, \<open>lib/market-types.ts\<close>): confirmed quantity, notional, margin, profit
  and loss, and whether a realised result may be reported.  A position is an untyped row, an absent
  number is None.  \<open>Date.parse\<close> is a parameter.
\<close>

section \<open>Forex symbols\<close>

definition drop_prefix :: "string \<Rightarrow> string \<Rightarrow> string" where
  "drop_prefix p s = (if starts_with p s then drop (length p) s else s)"

definition drop_suffix :: "string \<Rightarrow> string \<Rightarrow> string" where
  "drop_suffix x s = (if suffix x s then take (length s - length x) s else s)"

definition normalizeMarketSymbol :: "js_value \<Rightarrow> string \<Rightarrow> string" where
  "normalizeMarketSymbol v marketType =
     (let raw = toUpperCase (trim (js_String (js_or v (VStr []))))
      in if marketType = ''forex''
         then drop_suffix ''M'' (drop_prefix ''#'' (filter (\<lambda>c. \<not> (is_space c \<or> c \<in> set ''/_-.'')) (drop_prefix ''FX:'' raw)))
         else filter (\<lambda>c. \<not> (is_space c \<or> c \<in> set ''/_-'')) raw)"

definition CURRENCY_CODES :: "string list" where
  "CURRENCY_CODES = [''AED'', ''AUD'', ''CAD'', ''CHF'', ''CNH'', ''CZK'', ''DKK'', ''EUR'', ''GBP'', ''HKD'',
     ''HUF'', ''ILS'', ''JPY'', ''MXN'', ''NOK'', ''NZD'', ''PLN'', ''SEK'', ''SGD'', ''THB'',
     ''TRY'', ''USD'', ''XAG'', ''XAU'', ''ZAR'']"

text \<open>\<open>replace(/(?:FX|M|I)$/i, "")\<close>: the alternatives are tried from the left.\<close>

definition normalizeForexSymbol :: "js_value \<Rightarrow> string" where
  "normalizeForexSymbol v =
     (let s = normalizeMarketSymbol v ''forex''
      in if suffix ''FX'' s then drop_suffix ''FX'' s else if suffix ''M'' s then drop_suffix ''M'' s else drop_suffix ''I'' s)"

definition isForexSymbol :: "js_value \<Rightarrow> bool" where
  "isForexSymbol v =
     (let s = normalizeForexSymbol v
      in length s = 6 \<and> take 3 s \<in> set CURRENCY_CODES \<and> drop 3 s \<in> set CURRENCY_CODES)"

definition DEFAULT_FOREX_LOT_SIZE :: jsnum where "DEFAULT_FOREX_LOT_SIZE = num_of_int 10000"

definition forexUnitsFromLots :: "jsnum \<Rightarrow> jsnum \<Rightarrow> jsnum" where
  "forexUnitsFromLots lots lotSize = (let v = js_mul lots lotSize in if js_isFinite v \<and> js_gt v (Fin 0) then v else Fin 0)"

record ForexPairCurrencies =
  pair_symbol :: string
  pair_base :: string
  pair_quote :: string

definition forexPairCurrencies :: "js_value \<Rightarrow> ForexPairCurrencies option" where
  "forexPairCurrencies v =
     (let s = normalizeForexSymbol v
      in if isForexSymbol (VStr s) then Some \<lparr>pair_symbol = s, pair_base = take 3 s, pair_quote = take 3 (drop 3 s)\<rparr> else None)"

definition forexQuoteToUsdRate :: "js_value \<Rightarrow> jsnum \<Rightarrow> jsnum option \<Rightarrow> jsnum option" where
  "forexQuoteToUsdRate v price providedRate =
     (case forexPairCurrencies v of
        None \<Rightarrow> None
      | Some pair \<Rightarrow>
          if pair_quote pair = ''USD'' then Some (num_of_int 1)
          else let supplied = opt_num providedRate
               in if js_isFinite supplied \<and> js_gt supplied (Fin 0) then Some supplied
                  else if pair_base pair = ''USD'' \<and> js_gt price (Fin 0) then Some (js_div (num_of_int 1) price) else None)"

definition positive_rate :: "jsnum option \<Rightarrow> bool" where
  "positive_rate q = (case q of None \<Rightarrow> False | Some x \<Rightarrow> truthy x \<and> js_gt x (Fin 0))"

definition forexNotionalUsd :: "jsnum \<Rightarrow> jsnum \<Rightarrow> js_value \<Rightarrow> jsnum \<Rightarrow> jsnum option \<Rightarrow> jsnum" where
  "forexNotionalUsd lots price v lotSize providedRate =
     (let quantity = forexUnitsFromLots lots lotSize; pair = forexPairCurrencies v
      in case pair of
           None \<Rightarrow> Fin 0
         | Some pr \<Rightarrow>
             if \<not> js_gt quantity (Fin 0) \<or> \<not> js_gt price (Fin 0) then Fin 0
             else let quoteToUsd = forexQuoteToUsdRate (VStr (pair_symbol pr)) price providedRate
                  in if positive_rate quoteToUsd then js_mul (js_mul quantity price) (the quoteToUsd) else Fin 0)"

definition forexPriceMovePnlUsd :: "string \<Rightarrow> jsnum \<Rightarrow> jsnum \<Rightarrow> jsnum \<Rightarrow> js_value \<Rightarrow> jsnum \<Rightarrow> jsnum option \<Rightarrow> jsnum" where
  "forexPriceMovePnlUsd direction lots entry exitPrice v lotSize providedRate =
     (let quantity = forexUnitsFromLots lots lotSize
      in if \<not> js_gt quantity (Fin 0) \<or> \<not> js_gt entry (Fin 0) \<or> \<not> js_gt exitPrice (Fin 0) then Fin 0
         else let quotePnl = js_mul (if direction = ''long'' then js_sub exitPrice entry else js_sub entry exitPrice) quantity;
                  quoteToUsd = forexQuoteToUsdRate v exitPrice providedRate
              in if positive_rate quoteToUsd then js_mul quotePnl (the quoteToUsd) else Fin 0)"

section \<open>Reading a row\<close>

type_synonym row = "(string \<times> js_value) list"

fun firstFiniteNumeric :: "js_value list \<Rightarrow> jsnum option" where
  "firstFiniteNumeric [] = None"
| "firstFiniteNumeric (v # vs) =
     (if v = VUndefined \<or> v = VNull \<or> v = VStr [] then firstFiniteNumeric vs
      else if js_isFinite (js_to_Number v) then Some (js_to_Number v) else firstFiniteNumeric vs)"

fun firstPositiveNumeric :: "js_value list \<Rightarrow> jsnum option" where
  "firstPositiveNumeric [] = None"
| "firstPositiveNumeric (v # vs) =
     (case firstFiniteNumeric [v] of
        Some x \<Rightarrow> if js_gt x (Fin 0) then Some x else firstPositiveNumeric vs
      | None \<Rightarrow> firstPositiveNumeric vs)"

text \<open>\<open>record(value)\<close>: an array has none of the properties that are read.\<close>

definition js_record :: "js_value \<Rightarrow> row" where
  "js_record v = (case v of VObj kvs \<Rightarrow> kvs | _ \<Rightarrow> [])"

text \<open>An absent number among values.\<close>

definition opt_value :: "jsnum option \<Rightarrow> js_value" where
  "opt_value x = (case x of Some n \<Rightarrow> VNum n | None \<Rightarrow> VUndefined)"

text \<open>\<open>String(value ?? "").trim().toLowerCase()\<close> and the variant with \<open>||\<close>.\<close>

definition folded_text :: "js_value \<Rightarrow> string" where
  "folded_text v = toLowerCase (trim (js_String (js_nullish v (VStr []))))"

definition folded_or_empty :: "js_value \<Rightarrow> string" where
  "folded_or_empty v = toLowerCase (trim (js_String (js_or v (VStr []))))"

fun first_present :: "js_value list \<Rightarrow> js_value" where
  "first_present [] = VUndefined"
| "first_present (v # vs) = js_nullish v (first_present vs)"

definition normalizePositionDirection :: "js_value \<Rightarrow> string option" where
  "normalizePositionDirection v =
     (let s = folded_text v
      in if s \<in> {''short'', ''sell'', ''sell_short'', ''short_open''} then Some ''short''
         else if s \<in> {''long'', ''buy'', ''buy_long'', ''long_open''} then Some ''long'' else None)"

definition exchange_of :: "row \<Rightarrow> row" where
  "exchange_of position = js_record (js_prop position ''exchangeData'')"

fun first_some :: "'a option list \<Rightarrow> 'a option" where
  "first_some [] = None"
| "first_some (None # xs) = first_some xs"
| "first_some (Some x # xs) = Some x"

definition resolvePositionDirection :: "row \<Rightarrow> string option" where
  "resolvePositionDirection position =
     first_some [normalizePositionDirection (js_prop position ''direction''), normalizePositionDirection (js_prop position ''side''),
       normalizePositionDirection (js_prop position ''positionSide''), normalizePositionDirection (js_prop (exchange_of position) ''positionSide'')]"

definition props :: "row \<Rightarrow> string list \<Rightarrow> js_value list" where
  "props position names = map (js_prop position) names"

definition resolvePositionQuantity :: "row \<Rightarrow> bool \<Rightarrow> jsnum option" where
  "resolvePositionQuantity position lifetime =
     firstPositiveNumeric (props position
       (if lifetime then [''totalExecutedQuantity'', ''executedQuantity'', ''closedQuantity'', ''quantity'']
        else [''executedQuantity'', ''quantity'', ''totalExecutedQuantity'']) @
       props (exchange_of position) [''quantity'', ''positionAmt''])"

definition EXECUTION_PROVING_STATUSES :: "string list" where
  "EXECUTION_PROVING_STATUSES = [''open'', ''filled'', ''partially_filled'', ''simulated'', ''closing'', ''closing_partial'', ''closed'']"

definition absolutePositiveNumeric :: "js_value \<Rightarrow> jsnum option" where
  "absolutePositiveNumeric v =
     (case firstFiniteNumeric [v] of Some x \<Rightarrow> if js_gt (js_abs x) (Fin 0) then Some (js_abs x) else None | None \<Rightarrow> None)"

definition opt_or :: "jsnum option \<Rightarrow> jsnum \<Rightarrow> jsnum" where
  "opt_or x d = (case x of Some n \<Rightarrow> n | None \<Rightarrow> d)"

definition array_of :: "js_value \<Rightarrow> js_value list" where
  "array_of v = (case v of VArr xs \<Rightarrow> xs | _ \<Rightarrow> [])"

definition ledger_names :: "string list" where
  "ledger_names = [''quantity'', ''positionAmt'', ''contracts'', ''size'']"

definition resolveConfirmedPositionQuantity :: "row \<Rightarrow> bool \<Rightarrow> jsnum option" where
  "resolveConfirmedPositionQuantity position lifetime =
     (let p = js_prop position; exchange = exchange_of position;
          status = folded_or_empty (p ''status'');
          fillQuantity = foldl (\<lambda>sum fill. js_add sum (opt_or (absolutePositiveNumeric (js_prop (js_record fill) ''quantity'')) (Fin 0))) (Fin 0) (array_of (p ''fills''));
          exchangeQuantity = absolutePositiveNumeric (opt_value (firstFiniteNumeric (props exchange ledger_names)));
          explicitCurrent = firstFiniteNumeric [p ''executedQuantity''];
          curr = (case explicitCurrent of None \<Rightarrow> exchangeQuantity | Some x \<Rightarrow> Some (js_max (Fin 0) x));
          closed = firstPositiveNumeric [p ''closedQuantity''];
          totalq = firstPositiveNumeric [p ''totalExecutedQuantity''];
          reconstructedLifetime =
            (if status = ''closed'' then js_max (opt_or curr (Fin 0)) (opt_or closed (Fin 0)) else js_add (opt_or curr (Fin 0)) (opt_or closed (Fin 0)));
          hasExecutionLedger = list_ex (\<lambda>v. firstFiniteNumeric [v] \<noteq> None)
            (props position [''executedQuantity'', ''totalExecutedQuantity'', ''closedQuantity''] @ props exchange ledger_names);
          legacyQuantity = (if \<not> hasExecutionLedger \<and> status \<in> set EXECUTION_PROVING_STATUSES then p ''quantity'' else VUndefined)
      in if lifetime
         then firstPositiveNumeric [opt_value totalq, VNum reconstructedLifetime, VNum fillQuantity, opt_value closed, opt_value curr, legacyQuantity]
         else if status = ''closed'' then firstPositiveNumeric [opt_value totalq, opt_value closed, VNum fillQuantity, opt_value curr]
         else if explicitCurrent \<noteq> None \<and> js_le (the explicitCurrent) (Fin 0) then None
         else let reconstructedOpen = (case (totalq, closed) of (Some t, Some c) \<Rightarrow> Some (js_max (Fin 0) (js_sub t c)) | _ \<Rightarrow> None)
              in firstPositiveNumeric [opt_value curr, opt_value reconstructedOpen,
                   (if js_gt fillQuantity (Fin 0) then VNum (js_max (Fin 0) (js_sub fillQuantity (opt_or closed (Fin 0)))) else VUndefined), legacyQuantity])"

definition resolveEntryPrice :: "row \<Rightarrow> jsnum option" where
  "resolveEntryPrice position =
     firstPositiveNumeric (props position [''averageExecutionPrice'', ''entryPrice'', ''entry_price''] @ props (exchange_of position) [''averageExecutionPrice'', ''entryPrice''])"

definition position_symbol :: "row \<Rightarrow> js_value" where
  "position_symbol position = first_present (props position [''symbol'', ''exchangeSymbol''] @ props (exchange_of position) [''symbol''])"

definition isForexPosition :: "row \<Rightarrow> bool" where
  "isForexPosition position =
     (let exchange = exchange_of position;
          marketType = folded_text (first_present (props position [''marketType'', ''market_type''] @ props exchange [''marketType'', ''market_type'']));
          volumeKind = folded_text (first_present (props position [''volumeKind'', ''volume_kind''] @ props exchange [''volumeKind'', ''volume_kind'']))
      in marketType = ''forex'' \<or> marketType = ''fx'' \<or> volumeKind = ''lots'' \<or> isForexSymbol (position_symbol position))"

definition resolveForexLotSize :: "row \<Rightarrow> jsnum" where
  "resolveForexLotSize position =
     (let names = [''lotSize'', ''lot_size'', ''contractSize'', ''contract_size'']
      in opt_or (firstPositiveNumeric (props position names @ props (exchange_of position) names @ [VNum DEFAULT_FOREX_LOT_SIZE])) DEFAULT_FOREX_LOT_SIZE)"

definition resolveForexQuoteToUsdRate :: "row \<Rightarrow> jsnum option" where
  "resolveForexQuoteToUsdRate position =
     (let names = [''quoteToUsdRate'', ''quote_to_usd_rate''] in firstPositiveNumeric (props position names @ props (exchange_of position) names))"

definition resolveMarkPrice :: "row \<Rightarrow> jsnum option" where
  "resolveMarkPrice position =
     firstPositiveNumeric (props position [''markPrice'', ''currentPrice'', ''current_price''] @ props (exchange_of position) [''markPrice'', ''currentPrice''])"

definition resolveClosePrice :: "row \<Rightarrow> jsnum option" where
  "resolveClosePrice position =
     firstPositiveNumeric (props position [''closePrice'', ''exitPrice'', ''exit_price''] @ props (exchange_of position) [''closePrice'', ''exitPrice''])"

section \<open>Exposure\<close>

definition opt_truthy :: "jsnum option \<Rightarrow> bool" where
  "opt_truthy x = (case x of Some n \<Rightarrow> truthy n | None \<Rightarrow> False)"

definition positive_opt :: "jsnum option \<Rightarrow> bool" where
  "positive_opt x = (opt_truthy x \<and> js_gt (the x) (Fin 0))"

definition resolvePositionMargin :: "row \<Rightarrow> bool \<Rightarrow> jsnum option" where
  "resolvePositionMargin position lifetime =
     (let quantity = resolveConfirmedPositionQuantity position lifetime; exchange = exchange_of position
      in if \<not> opt_truthy quantity then None
         else case firstPositiveNumeric (props position [''marginUsd'', ''margin_usd'', ''marginUsed'', ''margin_used'', ''initialMargin'', ''initial_margin''] @
                     props exchange [''marginUsd'', ''marginUsed'', ''initialMargin'']) of
             Some m \<Rightarrow> Some m
           | None \<Rightarrow>
               let entry = resolveEntryPrice position;
                   leverage = js_max (num_of_int 1) (opt_or (firstPositiveNumeric (props position [''leverage''] @ props exchange [''leverage''])) (num_of_int 1))
               in if \<not> opt_truthy entry then None
                  else if isForexPosition position
                  then let notionalUsd = forexNotionalUsd (the quantity) (the entry) (position_symbol position) (resolveForexLotSize position) (resolveForexQuoteToUsdRate position)
                       in if js_gt notionalUsd (Fin 0) then Some (js_div notionalUsd leverage) else None
                  else Some (js_div (js_mul (the entry) (the quantity)) leverage))"

definition resolvePositionNotionalUsd :: "row \<Rightarrow> jsnum option \<Rightarrow> jsnum option \<Rightarrow> jsnum" where
  "resolvePositionNotionalUsd position quantity price =
     (let resolvedQuantity =
            (case quantity of
               None \<Rightarrow> first_some [resolveConfirmedPositionQuantity position False,
                         (if trim (js_String (js_or (js_prop position ''status'') (VStr []))) \<noteq> [] then None else resolvePositionQuantity position False)]
             | Some q \<Rightarrow> firstFiniteNumeric [VNum q]);
          resolvedPrice =
            (case price of
               None \<Rightarrow> first_some [resolveMarkPrice position, resolveEntryPrice position]
             | Some x \<Rightarrow> firstFiniteNumeric [VNum x])
      in if \<not> positive_opt resolvedQuantity \<or> \<not> positive_opt resolvedPrice then Fin 0
         else if isForexPosition position
         then forexNotionalUsd (the resolvedQuantity) (the resolvedPrice) (position_symbol position) (resolveForexLotSize position) (resolveForexQuoteToUsdRate position)
         else js_mul (the resolvedQuantity) (the resolvedPrice))"

definition ledger_quantity :: "js_value \<Rightarrow> jsnum" where
  "ledger_quantity v =
     opt_or (absolutePositiveNumeric (first_present (props (js_record v) [''quantity'', ''qty'', ''executedQty'']))) (Fin 0)"

definition ledger_price :: "js_value \<Rightarrow> jsnum" where
  "ledger_price v = opt_or (firstPositiveNumeric (props (js_record v) [''price'', ''fillPrice'', ''executionPrice''])) (Fin 0)"

definition resolvePositionLifetimeVolumeUsd :: "row \<Rightarrow> jsnum" where
  "resolvePositionLifetimeVolumeUsd position =
     (let totalQuantity = opt_or (resolveConfirmedPositionQuantity position True) (Fin 0)
      in if \<not> js_gt totalQuantity (Fin 0) then Fin 0
         else
           let ledgerRows = array_of (js_prop position ''fills'') @ array_of (js_prop position ''exchangeQuantityAdjustments'');
               ledgerQuantity = foldl (\<lambda>sum v. js_add sum (ledger_quantity v)) (Fin 0) ledgerRows;
               quantityTolerance = js_max (fl (1 / 10 ^ 10))
                 (js_div (js_abs (opt_or (firstFiniteNumeric (props position [''quantityStep'', ''quantity_step''])) (Fin 0))) (num_of_int 2));
               ledgerHasExactPrices = (ledgerRows \<noteq> [] \<and>
                 list_all (\<lambda>v. js_gt (ledger_quantity v) (Fin 0) \<and> js_gt (ledger_price v) (Fin 0)) ledgerRows)
           in if ledgerHasExactPrices \<and> js_le (js_abs (js_sub ledgerQuantity totalQuantity)) quantityTolerance
              then foldl (\<lambda>sum v. js_add sum (resolvePositionNotionalUsd position (Some (ledger_quantity v)) (Some (ledger_price v)))) (Fin 0) ledgerRows
              else case firstPositiveNumeric (props position [''lifetimeVolumeUsd'', ''lifetime_volume_usd'']) of
                     Some x \<Rightarrow> x
                   | None \<Rightarrow>
                       (case (if isForexPosition position then None else firstPositiveNumeric (props position [''volumeUsd'', ''volume_usd''])) of
                          Some x \<Rightarrow> x
                        | None \<Rightarrow> resolvePositionNotionalUsd position (Some totalQuantity) (resolveEntryPrice position)))"

section \<open>Profit and loss\<close>

definition numeric_text :: "string \<Rightarrow> bool" where
  "numeric_text s =
     (let whole = takeWhile is_digit s; rest = dropWhile is_digit s
      in whole \<noteq> [] \<and> (rest = [] \<or> hd rest = CHR ''.'' \<and> tl rest \<noteq> [] \<and> list_all is_digit (tl rest)))"

definition normalizedTimestamp :: "(string \<Rightarrow> jsnum) \<Rightarrow> js_value \<Rightarrow> jsnum" where
  "normalizedTimestamp date_parse v =
     (if (case v of VNum _ \<Rightarrow> True | VStr s \<Rightarrow> numeric_text (trim s) | _ \<Rightarrow> False)
      then let parsed = js_to_Number v
           in if \<not> js_isFinite parsed \<or> js_le parsed (Fin 0) then Fin 0
              else if js_lt parsed (num_of_int 10000000000) then js_mul parsed (num_of_int 1000) else parsed
      else let parsed = date_parse (js_String (js_or v (VStr []))) in if js_isFinite parsed then parsed else Fin 0)"

record price_pair =
  pp_environment :: string
  pp_entryPrice :: jsnum
  pp_exitPrice :: jsnum
  pp_openedAt :: jsnum
  pp_closedAt :: jsnum

definition requiresVenueAccountingForPricePair :: "price_pair \<Rightarrow> bool" where
  "requiresVenueAccountingForPricePair i =
     (if pp_environment i \<noteq> ''exchange'' then False
      else if \<not> js_gt (pp_entryPrice i) (Fin 0) \<or> \<not> js_gt (pp_exitPrice i) (Fin 0) then False
      else if \<not> js_gt (pp_openedAt i) (Fin 0) \<or> js_lt (pp_closedAt i) (pp_openedAt i) then False
      else let priceRatio = js_div (js_max (pp_entryPrice i) (pp_exitPrice i)) (js_max (js_min (pp_entryPrice i) (pp_exitPrice i)) EPSILON);
               holdingMs = js_sub (pp_closedAt i) (pp_openedAt i)
           in js_ge priceRatio (Fin (3 / 2)) \<and> js_le holdingMs (num_of_int (24 * 60 * 60 * 1000)))"

definition fillFees :: "row \<Rightarrow> jsnum option" where
  "fillFees position =
     (case js_prop position ''fills'' of
        VArr fills \<Rightarrow>
          let fees = map (\<lambda>fill. firstFiniteNumeric (props (js_record fill) [''fee'', ''commission''])) fills;
              totalf = foldl (\<lambda>sum fee. case fee of None \<Rightarrow> sum | Some x \<Rightarrow> js_add sum (js_abs x)) (Fin 0) fees
          in if list_ex (\<lambda>fee. fee \<noteq> None) fees then Some totalf else None
      | _ \<Rightarrow> None)"

definition resolveKnownPositionCosts :: "row \<Rightarrow> jsnum" where
  "resolveKnownPositionCosts position =
     (let exchange = exchange_of position; feeNames = [''fees'', ''totalFees'', ''fee'']; fundingNames = [''fundingFee'', ''fundingFees'', ''funding''];
          fees = opt_or (firstFiniteNumeric (props position feeNames @ props exchange feeNames @ [opt_value (fillFees position)])) (Fin 0);
          funding = opt_or (firstFiniteNumeric (props position fundingNames @ props exchange fundingNames)) (Fin 0)
      in js_add (js_abs fees) funding)"

definition calculateFallbackPnl :: "row \<Rightarrow> jsnum option \<Rightarrow> bool \<Rightarrow> jsnum option" where
  "calculateFallbackPnl position currentPrice lifetimeQuantity =
     (let direction = resolvePositionDirection position; quantity = resolveConfirmedPositionQuantity position lifetimeQuantity; entry = resolveEntryPrice position
      in if direction = None \<or> \<not> opt_truthy quantity \<or> \<not> opt_truthy entry \<or> \<not> opt_truthy currentPrice then None
         else
           let gross =
                 (if isForexPosition position
                  then let quoteToUsd = forexQuoteToUsdRate (position_symbol position) (the currentPrice) (resolveForexQuoteToUsdRate position)
                       in if \<not> opt_truthy quoteToUsd then None
                          else Some (forexPriceMovePnlUsd (the direction) (the quantity) (the entry) (the currentPrice) (position_symbol position)
                                       (resolveForexLotSize position) quoteToUsd)
                  else Some (js_mul (the quantity) (if direction = Some ''short'' then js_sub (the entry) (the currentPrice) else js_sub (the currentPrice) (the entry))))
           in map_option (\<lambda>g. js_sub g (resolveKnownPositionCosts position)) gross)"

definition resolveUnrealizedPnl :: "row \<Rightarrow> jsnum option" where
  "resolveUnrealizedPnl position =
     first_some [firstFiniteNumeric (props position [''unrealizedPnL'', ''unrealized_pnl'', ''unrealizedPnl''] @
         props (exchange_of position) [''unrealizedPnl'', ''unrealizedPnL'', ''unRealizedProfit'']),
       calculateFallbackPnl position (resolveMarkPrice position) False]"

definition resolveRealizedPnl :: "row \<Rightarrow> jsnum option" where
  "resolveRealizedPnl position =
     first_some [firstFiniteNumeric (props position [''realizedPnL'', ''realized_pnl'', ''realizedPnl'', ''pnl''] @
         props (exchange_of position) [''realizedPnl'', ''realizedPnL'', ''realizedProfit'']),
       calculateFallbackPnl position (resolveClosePrice position) True]"

definition simulated_row :: "row \<Rightarrow> bool" where
  "simulated_row position =
     (let p = js_prop position; paper = [''simulation'', ''simulated'', ''paper'']; yes = [VBool True, VStr ''1'', VStr ''true'']
      in folded_or_empty (p ''status'') = ''simulated'' \<or> folded_or_empty (p ''executionMode'') \<in> set paper \<or> folded_or_empty (p ''mode'') \<in> set paper \<or>
         folded_or_empty (p ''environment'') \<in> set paper \<or> p ''isSimulated'' \<in> set yes \<or> p ''simulated'' \<in> set yes)"

definition isRealizedPnlAccountingPending :: "(string \<Rightarrow> jsnum) \<Rightarrow> row \<Rightarrow> bool" where
  "isRealizedPnlAccountingPending date_parse position =
     (let p = js_prop position; ts = (\<lambda>names. normalizedTimestamp date_parse (first_present (props position names)))
      in if simulated_row position then False
         else if folded_or_empty (p ''status'') = ''closed'' \<and>
           requiresVenueAccountingForPricePair \<lparr>pp_environment = ''exchange'', pp_entryPrice = opt_or (resolveEntryPrice position) (Fin 0),
             pp_exitPrice = opt_or (resolveClosePrice position) (Fin 0),
             pp_openedAt = ts [''openedAt'', ''opened_at'', ''createdAt'', ''created_at'', ''timestamp''],
             pp_closedAt = ts [''closedAt'', ''closed_at'', ''closeTimestamp'', ''updatedAt'', ''updated_at'']\<rparr> then True
         else if list_ex (\<lambda>v. v = VBool False \<or> v = VNum (Fin 0) \<or> folded_text v = ''false'' \<or> folded_text v = ''0'')
           [p ''realizedPnlComplete'', p ''pnlAccountingComplete''] then True
         else if p ''accountingPending'' = VBool True \<or> p ''accountingPending'' = VNum (num_of_int 1) \<or>
           folded_text (p ''accountingPending'') = ''true'' \<or> folded_text (p ''accountingPending'') = ''1'' then True
         else let first = folded_text (p ''realizedPnlSource''); source = (if first \<noteq> [] then first else folded_text (p ''pnlAccountingSource''))
              in js_includes source ''pending'' \<or> js_includes source ''incomplete'' \<or> js_includes source ''unresolved'')"

definition resolveSettledRealizedPnl :: "(string \<Rightarrow> jsnum) \<Rightarrow> row option \<Rightarrow> jsnum option" where
  "resolveSettledRealizedPnl date_parse position =
     (case position of
        None \<Rightarrow> None
      | Some p \<Rightarrow>
          if isRealizedPnlAccountingPending date_parse p then None
          else case resolveRealizedPnl p of Some pnl \<Rightarrow> if js_isFinite pnl then Some pnl else None | None \<Rightarrow> None)"

definition closedPnl :: "row option \<Rightarrow> jsnum" where
  "closedPnl position = opt_or (resolveRealizedPnl (case position of Some p \<Rightarrow> p | None \<Rightarrow> [])) (Fin 0)"

definition openPnl :: "row option \<Rightarrow> jsnum" where
  "openPnl position = opt_or (resolveUnrealizedPnl (case position of Some p \<Rightarrow> p | None \<Rightarrow> [])) (Fin 0)"

definition derivePositionRoi :: "row \<Rightarrow> jsnum option \<Rightarrow> bool \<Rightarrow> jsnum option" where
  "derivePositionRoi position pnl lifetimeQuantity =
     (case pnl of
        None \<Rightarrow> None
      | Some x \<Rightarrow>
          let margin = resolvePositionMargin position lifetimeQuantity
          in if positive_opt margin then Some (js_mul (js_div x (the margin)) (num_of_int 100)) else None)"

definition roundPositionPnl :: "jsnum \<Rightarrow> jsnum" where
  "roundPositionPnl v = js_div (js_round (js_mul (js_add v EPSILON) (num_of_int 100))) (num_of_int 100)"

section \<open>Correctness\<close>

lemma firstPositive_pos: "firstPositiveNumeric vs = Some x \<Longrightarrow> \<exists>q. x = Fin q \<and> 0 < q"
proof (induction vs rule: firstPositiveNumeric.induct)
  case (2 v vs)
  show ?case
  proof (cases "\<exists>y. firstFiniteNumeric [v] = Some y \<and> js_gt y (Fin 0)")
    case True
    then obtain y where y: "firstFiniteNumeric [v] = Some y" "js_gt y (Fin 0)" by blast
    then have "x = y" "js_isFinite y" using 2 by (auto simp del: firstFiniteNumeric.simps simp add: firstFiniteNumeric.simps(1) split: if_splits) (auto split: if_splits)
    then show ?thesis using y(2) by (cases y) (auto simp: js_isFinite_def)
  next
    case False
    then show ?thesis using 2 by (auto simp del: firstFiniteNumeric.simps split: option.splits if_splits)
  qed
qed simp

lemma firstFinite_none_value: "firstFiniteNumeric [v] = None \<Longrightarrow> firstFiniteNumeric (v # vs) = firstFiniteNumeric vs"
  by (auto split: if_splits)

lemma firstFinite_all_none: "(\<forall>v \<in> set vs. firstFiniteNumeric [v] = None) \<Longrightarrow> firstFiniteNumeric vs = None"
  by (induction vs) (auto simp del: firstFiniteNumeric.simps(2) simp: firstFinite_none_value)

lemma opt_value_none [simp]: "firstFiniteNumeric [opt_value None] = None" "firstFiniteNumeric [VUndefined] = None" "firstFiniteNumeric [VNum (Fin q)] = Some (Fin q)"
  by (simp_all add: opt_value_def js_to_Number_def js_isFinite_def)

subsection \<open>Rows without an execution\<close>

text \<open>
  A row without a confirmed execution: no execution field holds a positive number (absent, blank and zero fields
  alike), no venue quantity or fill one other than zero, and the status does not itself prove an execution unless an
  execution field says otherwise (\<open>executedQuantity: 0\<close>).
\<close>

definition execution_fields :: "row \<Rightarrow> js_value list" where
  "execution_fields position = props position [''executedQuantity'', ''totalExecutedQuantity'', ''closedQuantity'']"

definition unexecuted :: "row \<Rightarrow> bool" where
  "unexecuted position \<longleftrightarrow>
     (folded_or_empty (js_prop position ''status'') \<in> set EXECUTION_PROVING_STATUSES \<longrightarrow>
        list_ex (\<lambda>v. firstFiniteNumeric [v] \<noteq> None) (execution_fields position @ props (exchange_of position) ledger_names)) \<and>
     list_all (\<lambda>v. firstPositiveNumeric [v] = None) (execution_fields position) \<and>
     list_all (\<lambda>v. absolutePositiveNumeric v = None) (props (exchange_of position) ledger_names) \<and>
     list_all (\<lambda>fill. absolutePositiveNumeric (js_prop (js_record fill) ''quantity'') = None) (array_of (js_prop position ''fills''))"

lemma unfilled_sum:
  "list_all (\<lambda>fill. absolutePositiveNumeric (f fill) = None) fills \<Longrightarrow>
   foldl (\<lambda>sum fill. js_add sum (opt_or (absolutePositiveNumeric (f fill)) (Fin 0))) (Fin 0) fills = Fin 0"
  by (induction fills) (simp_all add: opt_or_def)

lemma firstFinite_in: "firstFiniteNumeric vs = Some x \<Longrightarrow> \<exists>v \<in> set vs. firstFiniteNumeric [v] = Some x"
proof (induction vs)
  case (Cons v vs)
  then show ?case using firstFinite_none_value [of v vs] by (cases "firstFiniteNumeric [v]") (auto split: if_splits)
qed simp

lemma firstFinite_finite: "firstFiniteNumeric [v] = Some x \<Longrightarrow> \<exists>q. x = Fin q"
  by (cases x) (auto simp: js_isFinite_def split: if_splits)

lemma venue_quantity_none:
  assumes "list_all (\<lambda>v. absolutePositiveNumeric v = None) vs"
  shows "absolutePositiveNumeric (opt_value (firstFiniteNumeric vs)) = None"
proof (cases "firstFiniteNumeric vs")
  case (Some x)
  then obtain v where v: "v \<in> set vs" "firstFiniteNumeric [v] = Some x" using firstFinite_in by blast
  then obtain q where "x = Fin q" using firstFinite_finite by blast
  moreover have "absolutePositiveNumeric v = None" using assms v(1) by (simp add: list_all_iff)
  ultimately show ?thesis using v(2) Some by (simp add: absolutePositiveNumeric_def opt_value_def js_to_Number_def js_isFinite_def del: firstFiniteNumeric.simps(2))
qed (simp add: absolutePositiveNumeric_def del: firstFiniteNumeric.simps)

lemma not_positive_current:
  assumes "firstPositiveNumeric [v] = None" "firstFiniteNumeric [v] = Some x"
  shows "js_le x (Fin 0)" "js_max (Fin 0) x = Fin 0"
proof -
  obtain q where "x = Fin q" using firstFinite_finite assms(2) by blast
  then show "js_le x (Fin 0)" "js_max (Fin 0) x = Fin 0" using assms by (auto simp del: firstFiniteNumeric.simps(2) simp: max_def split: if_splits)
qed

lemma unexecuted_quantity:
  assumes "unexecuted position"
  shows "resolveConfirmedPositionQuantity position lifetime = None"
proof -
  let ?p = "js_prop position" and ?x = "firstFiniteNumeric [js_prop position ''executedQuantity'']"
  have none: "firstPositiveNumeric [?p ''executedQuantity''] = None" "firstPositiveNumeric [?p ''totalExecutedQuantity''] = None"
    "firstPositiveNumeric [?p ''closedQuantity''] = None"
    using assms by (simp_all add: unexecuted_def execution_fields_def props_def del: firstPositiveNumeric.simps)
  have ex: "absolutePositiveNumeric (opt_value (firstFiniteNumeric (props (exchange_of position) ledger_names))) = None"
    using assms by (intro venue_quantity_none) (simp add: unexecuted_def)
  have fills: "foldl (\<lambda>sum fill. js_add sum (opt_or (absolutePositiveNumeric (js_prop (js_record fill) ''quantity'')) (Fin 0))) (Fin 0) (array_of (?p ''fills'')) = Fin 0"
    using assms by (intro unfilled_sum) (simp add: unexecuted_def)
  have legacy: "(if \<not> list_ex (\<lambda>v. firstFiniteNumeric [v] \<noteq> None) (props position [''executedQuantity'', ''totalExecutedQuantity'', ''closedQuantity''] @ props (exchange_of position) ledger_names) \<and>
      folded_or_empty (?p ''status'') \<in> set EXECUTION_PROVING_STATUSES then ?p ''quantity'' else VUndefined) = VUndefined"
    using assms unfolding unexecuted_def execution_fields_def by argo
  show ?thesis
  proof (cases ?x)
    case None
    then show ?thesis unfolding resolveConfirmedPositionQuantity_def Let_def ex fills legacy none
      by (simp add: opt_or_def del: firstFiniteNumeric.simps)
  next
    case (Some x)
    note c = not_positive_current [OF none(1) Some]
    show ?thesis unfolding resolveConfirmedPositionQuantity_def Let_def ex fills legacy none Some option.case c(2)
      using c(1) by (simp add: opt_or_def opt_value_def js_to_Number_def js_isFinite_def)
  qed
qed



subsection \<open>Profit and loss\<close>

text \<open>C29. The computed profit of a crypto position follows the price: at a higher price a long position is
  never reported worse and a short one never better, rounding included, and a result is reported for every positive price.
\<close>

theorem fallback_pnl_monotone:
  assumes "\<not> isForexPosition position" "resolvePositionDirection position = Some d" "resolveConfirmedPositionQuantity position lifetime = Some (Fin q)" "0 < q"
    "resolveEntryPrice position = Some e" "js_isFinite (resolveKnownPositionCosts position)" "0 < a" "a \<le> b"
  shows "\<exists>x y. calculateFallbackPnl position (Some (Fin a)) lifetime = Some x \<and> calculateFallbackPnl position (Some (Fin b)) lifetime = Some y \<and>
    (if d = ''short'' then js_le y x else js_le x y)"
proof -
  obtain e' where e: "e = Fin e'" "0 < e'" using assms(5) firstPositive_pos unfolding resolveEntryPrice_def by blast
  obtain k where k: "resolveKnownPositionCosts position = Fin k" using assms(6) by (cases "resolveKnownPositionCosts position") (auto simp: js_isFinite_def)
  let ?v = "\<lambda>x. js_sub (js_mul (Fin q) (if d = ''short'' then js_sub (Fin e') (Fin x) else js_sub (Fin x) (Fin e'))) (Fin k)"
  have val: "calculateFallbackPnl position (Some (Fin x)) lifetime = Some (?v x)" if "0 < x" for x
    using that assms(1-4) assms(5) e k by (simp add: calculateFallbackPnl_def opt_truthy_def truthy_def)
  have le: "js_le (Fin a) (Fin b)" using assms(8) by simp
  have "if d = ''short'' then js_le (?v b) (?v a) else js_le (?v a) (?v b)"
    using js_sub_mono [OF js_mul_mono [OF assms(4) js_sub_anti [OF le]]] js_sub_mono [OF js_mul_mono [OF assms(4) js_sub_mono [OF le]]] by simp
  then show ?thesis using val [of a] val [of b] assms(7,8) by auto
qed

text \<open>Two filled coins bought at a hundred, with a fee.\<close>

definition sample_row :: row where
  "sample_row = [(''status'', VStr ''open''), (''side'', VStr ''BUY''), (''symbol'', VStr ''BTCUSDT''), (''executedQuantity'', VNum (num_of_int 2)),
     (''entryPrice'', VNum (num_of_int 100)), (''fees'', VNum (num_of_int (- 1)))]"

theorem fallback_pnl_monotone_witness:
  "\<exists>x y. calculateFallbackPnl sample_row (Some (Fin 90)) False = Some x \<and> calculateFallbackPnl sample_row (Some (Fin 120)) False = Some y \<and> js_le x y"
proof -
  have row: "\<not> isForexPosition sample_row" "resolvePositionDirection sample_row = Some ''long''" "resolveEntryPrice sample_row = Some (Fin 100)"
    by code_simp+
  have quantity: "resolveConfirmedPositionQuantity sample_row False = Some (Fin 2)"
    by (simp add: resolveConfirmedPositionQuantity_def Let_def sample_row_def js_prop_def js_to_Number_def js_isFinite_def opt_value_def
        folded_or_empty_def js_or_def js_truthy_def trim_def trimStart_def is_space_def toLowerCase_def ascii_lower_def)
  have costs: "js_isFinite (resolveKnownPositionCosts sample_row)"
    using js_add_int [of 1 0] by (simp add: resolveKnownPositionCosts_def sample_row_def js_prop_def js_to_Number_def js_isFinite_def opt_value_def props_def
        exchange_of_def js_record_def fillFees_def opt_or_def)
  from fallback_pnl_monotone [OF row(1,2) quantity _ row(3) costs, of 90 120] show ?thesis by simp
qed

end
