(* ===== verification/BlockOutcomes.thy ===== *)
theory BlockOutcomes
  imports DcaOutcomes BlockCounts PositionPnl
begin

text \<open>
  The stored pauses and recovery levels of the Block lane (\<open>lib/block-count-outcomes.ts\<close> and the Redis half
  of \<open>lib/block-count-state.ts\<close>), on the in-process store.  One hash per connection keeps a JSON state per
  symbol and lane, one set per symbol indexes its fields; a close counts down the pauses of its sources,
  prunes what is provably inactive and settles its own legs.  A leg is an object, and
  \<open>accumulatedSetKeys\<close>, where present, an array.
\<close>

subsection \<open>Keys\<close>

definition BLOCK_PAUSE_STATE_RETENTION_SECONDS :: int where "BLOCK_PAUSE_STATE_RETENTION_SECONDS = 30 * 24 * 60 * 60"
definition BLOCK_PAUSE_INDEXED_FIELD :: string where "BLOCK_PAUSE_INDEXED_FIELD = ''__indexed''"

definition blockPauseKey :: "string \<Rightarrow> string" where
  "blockPauseKey connectionId = ''block_count_pause:'' @ connectionId"

definition blockPauseIndexKey :: "string \<Rightarrow> string \<Rightarrow> string" where
  "blockPauseIndexKey connectionId symbol = ''block_count_pause_index:'' @ connectionId @ '':'' @ symbolKey (VStr symbol)"

text \<open>The other \<open>symbolKey\<close>, of \<open>block-count-state.ts\<close>, keeps more characters.\<close>

definition state_symbolKey :: "js_value \<Rightarrow> string" where
  "state_symbolKey raw = filter (\<lambda>c. c \<notin> set ''-_'') (toUpperCase (trim (text_or_empty raw)))"

definition activeKey :: "string \<Rightarrow> js_value \<Rightarrow> string" where
  "activeKey connectionId symbol = ''block_count_active:'' @ connectionId @ '':'' @ state_symbolKey symbol"

subsection \<open>The index\<close>

text \<open>The fields of a legacy hash by symbol, in order of first appearance.\<close>

definition field_symbol :: "string \<Rightarrow> string option" where
  "field_symbol field =
     (if starts_with ''__'' field \<or> CHR ''|'' \<notin> set field \<or> hd field = CHR ''|'' then None else Some (takeWhile (\<lambda>c. c \<noteq> CHR ''|'') field))"

definition fields_by_symbol :: "string list \<Rightarrow> string list jsmap" where
  "fields_by_symbol flds =
     foldl (\<lambda>m field. case field_symbol field of
              None \<Rightarrow> m
            | Some s \<Rightarrow> AList.update s ((case map_of m s of Some fs \<Rightarrow> fs | None \<Rightarrow> []) @ [field]) m) [] flds"

function sadd_chunks :: "int \<Rightarrow> string \<Rightarrow> string list \<Rightarrow> redis \<Rightarrow> redis" where
  "sadd_chunks now key flds r =
     (if flds = [] then r else sadd_chunks now key (drop 500 flds) (snd (redis_sadd now key (take 500 flds) r)))"
  by pat_completeness auto
termination by (relation "measure (\<lambda>(_, _, flds, _). length flds)") auto

declare sadd_chunks.simps [simp del]

definition ensureBlockPauseIndex :: "int \<Rightarrow> string \<Rightarrow> redis \<Rightarrow> redis" where
  "ensureBlockPauseIndex now connectionId r =
     (let key = blockPauseKey connectionId
      in if redis_hget now r key BLOCK_PAUSE_INDEXED_FIELD = Some ''1'' then r
         else let (stored, r1) = redis_hgetall now key r;
                  r2 = foldl (\<lambda>r (symbol, flds). sadd_chunks now (blockPauseIndexKey connectionId symbol) flds r) r1 (fields_by_symbol (map fst stored))
              in snd (redis_hset now key (HsetField BLOCK_PAUSE_INDEXED_FIELD (HStr ''1'')) r2))"

text \<open>The version, and the fields of one symbol with their values.\<close>

definition readBlockPauseSymbolStates :: "int \<Rightarrow> string \<Rightarrow> string \<Rightarrow> redis \<Rightarrow> (string \<times> string jsmap) \<times> redis" where
  "readBlockPauseSymbolStates now connectionId symbol r =
     (let key = blockPauseKey connectionId; normalized = symbolKey (VStr symbol);
          r1 = ensureBlockPauseIndex now connectionId r;
          (members, r2) = redis_smembers now (blockPauseIndexKey connectionId normalized) r1;
          flds = foldl (\<lambda>m field. case redis_hget now r2 key field of Some v \<Rightarrow> AList.update field v m | None \<Rightarrow> m) [] members
      in ((case redis_hget now r2 key ''__version'' of Some v \<Rightarrow> v | None \<Rightarrow> ''0'', flds), r2))"

definition isBlockPauseStateInactive :: "js_value \<Rightarrow> int \<Rightarrow> string list \<Rightarrow> bool" where
  "isBlockPauseStateInactive state now activeSetKeys =
     (if \<not> js_truthy state then False
      else if js_gt (js_to_Number (js_get state ''remaining'')) (Fin 0) \<or> js_get state ''recovering'' = VBool True then False
      else if js_truthy (js_get state ''setKey'') \<and> js_String (js_get state ''setKey'') \<in> set activeSetKeys then False
      else let updatedAt = js_to_Number (js_get state ''updatedAt'')
           in if \<not> js_isFinite updatedAt \<or> js_le updatedAt (Fin 0) then False
              else js_gt (js_sub (num_of_int now) updatedAt) (num_of_int (BLOCK_PAUSE_STATE_RETENTION_SECONDS * 1000)))"

subsection \<open>Settling a position\<close>

record block_close =
  b_connectionId :: string
  b_positionId :: string
  b_symbol :: string
  b_direction :: string
  b_pnl :: jsnum
  b_legs :: "js_value list"
  b_sourceKeys :: "string list"

definition block_source :: "js_value \<Rightarrow> string" where
  "block_source v = before_marker ''#block:'' (js_String v)"

definition block_close_of :: "row \<Rightarrow> block_close option" where
  "block_close_of position =
     (let p = js_prop position;
          connectionId = js_String (js_or (p ''connectionId'') (js_or (p ''connection_id'') (VStr [])));
          positionId = text_or_empty (p ''id''); symbol = symbolKey (p ''symbol'');
          direction = toLowerCase (js_String (js_or (p ''direction'') (js_or (p ''side'') (VStr []))));
          pnl = js_to_Number (p ''realizedPnL''); legs = array_of (p ''blockLegs'')
      in if connectionId = [] \<or> positionId = [] \<or> symbol = [] \<or> direction \<notin> {''long'', ''short''} then None
         else if p ''status'' \<noteq> VStr ''closed'' \<or> p ''realizedPnlComplete'' = VBool False \<or> p ''pnlAccountingComplete'' = VBool False \<or>
                 p ''realizedPnL'' = VUndefined \<or> p ''realizedPnL'' = VNull \<or> \<not> js_isFinite pnl then None
         else Some \<lparr>b_connectionId = connectionId, b_positionId = positionId, b_symbol = symbol, b_direction = direction, b_pnl = pnl, b_legs = legs,
                b_sourceKeys = map block_source (filter js_truthy
                  ([p ''setKey'', p ''parentSetKey''] @ array_of (p ''accumulatedSetKeys'') @ map (\<lambda>leg. js_or (js_get leg ''lifecycleKey'') (js_get leg ''setKey'')) legs))\<rparr>)"

text \<open>A stored state under a close: counted down, removed, or left alone.\<close>

definition pause_matches :: "block_close \<Rightarrow> js_value \<Rightarrow> bool" where
  "pause_matches c state =
     (let sourceKey = (if js_truthy (js_get state ''sourceKey'') then js_get state ''sourceKey''
                       else VStr (before_marker ''#block:'' (text_or_empty (js_get state ''setKey''))))
      in (\<not> js_truthy (js_get state ''direction'') \<or> js_get state ''direction'' = VStr (b_direction c)) \<and>
         sourceKey \<in> VStr ` set (b_sourceKeys c) \<and> js_gt (js_to_Number (js_get state ''remaining'')) (Fin 0))"

definition pause_change :: "int \<Rightarrow> block_close \<Rightarrow> string list \<Rightarrow> string \<Rightarrow> string \<Rightarrow> string option jsmap \<Rightarrow> string option jsmap" where
  "pause_change now c activeSetKeys field raw changes =
     (let state = parseState (Some raw)
      in if starts_with ''__'' field then changes
         else if \<not> js_truthy state \<or> symbolKey (js_get state ''symbol'') \<noteq> b_symbol c then changes
         else if pause_matches c state
         then let remaining = js_max (Fin 0) (js_sub (js_to_Number (js_get state ''remaining'')) (num_of_int 1))
              in AList.update field
                   (if js_gt remaining (Fin 0)
                    then Some (json_text (VObj (AList.update ''updatedAt'' (VNum (num_of_int now)) (AList.update ''remaining'' (VNum remaining) (js_record state)))))
                    else None) changes
         else if isBlockPauseStateInactive state now activeSetKeys then AList.update field None changes else changes)"

text \<open>Reductions before the leg: the row cannot prove the leg's own result.\<close>

definition reduced_before :: "row \<Rightarrow> js_value \<Rightarrow> bool" where
  "reduced_before position leg =
     list_ex (\<lambda>execution. js_gt (js_to_Number (js_or (js_get execution ''appliedQuantity'') (js_get execution ''cumulativeFilledQuantity''))) (Fin 0) \<and>
         js_gt (js_to_Number (js_get execution ''updatedAt'')) (Fin 0) \<and>
         js_gt (js_to_Number (js_get leg ''addedAt'')) (js_to_Number (js_get execution ''updatedAt'')))
       (array_of (js_prop position ''partialOrderExecutions''))"

definition settled_leg_pnl :: "row \<Rightarrow> block_close \<Rightarrow> js_value \<Rightarrow> jsnum" where
  "settled_leg_pnl position c leg =
     (let p = js_prop position; num = (\<lambda>v. js_to_Number (js_or v (VNum (Fin 0))));
          entry = num (js_get leg ''entryPrice''); quantity = num (js_get leg ''quantity'');
          totalq = num (js_or (p ''totalExecutedQuantity'') (p ''quantity'')); averageEntry = num (js_or (p ''averageExecutionPrice'') (p ''entryPrice''))
      in if js_gt quantity (Fin 0) \<and> js_gt entry (Fin 0) \<and> js_gt averageEntry (Fin 0) \<and> js_gt totalq (Fin 0)
         then js_add (js_div (js_mul (b_pnl c) quantity) totalq)
                (js_mul (if b_direction c = ''long'' then num_of_int 1 else num_of_int (- 1))
                  (js_sub (resolvePositionNotionalUsd position (Some quantity) (Some averageEntry)) (resolvePositionNotionalUsd position (Some quantity) (Some entry))))
         else b_pnl c)"

definition leg_lifecycle_key :: "js_value \<Rightarrow> string" where
  "leg_lifecycle_key leg = js_String (js_or (js_get leg ''lifecycleKey'') (js_get leg ''setKey''))"

definition leg_change :: "int \<Rightarrow> row \<Rightarrow> block_close \<Rightarrow> string jsmap \<Rightarrow> js_value \<Rightarrow> string option jsmap \<Rightarrow> string option jsmap" where
  "leg_change now position c stored leg changes =
     (let field = b_symbol c @ ''|'' @ leg_lifecycle_key leg; num = (\<lambda>v d. js_to_Number (js_or v (VNum (num_of_int d))))
      in if \<not> js_truthy (js_get leg ''setKey'') \<or> js_get leg ''targetSatisfied'' = VBool False \<or> \<not> js_gt (js_to_Number (js_get leg ''blockCount'')) (Fin 0) then changes
         else if reduced_before position leg then changes
         else AList.update field (Some (json_text (lifecycle_object (advanceBlockCountLifecycle (parseState (map_of stored field))
             \<lparr>bl_setKey = leg_lifecycle_key leg, bl_symbol = b_symbol c, bl_direction = b_direction c, bl_sourceKey = before_marker ''#block:'' (leg_lifecycle_key leg),
              bl_blockCount = js_to_Number (js_get leg ''blockCount''),
              bl_pauseCount = js_max (num_of_int 1) (num (js_or (js_get leg ''pauseCount'') (js_get leg ''blockCount'')) 1),
              bl_updatedAt = num_of_int now, in_incrementSteps = VNum (num (js_get leg ''incrementSteps'') 2),
              executedIncrementStep = num (js_get leg ''effectiveIncrementStep'') 1, netPnl = settled_leg_pnl position c leg\<rparr>)))) changes)"

definition block_changes :: "int \<Rightarrow> row \<Rightarrow> block_close \<Rightarrow> string list \<Rightarrow> string jsmap \<Rightarrow> string option jsmap" where
  "block_changes now position c activeSetKeys stored =
     fold (leg_change now position c stored) (b_legs c) (fold (\<lambda>(field, raw). pause_change now c activeSetKeys field raw) stored [])"

definition block_processed_key :: "block_close \<Rightarrow> string" where
  "block_processed_key c = ''block_count_pause_processed:'' @ b_connectionId c @ '':'' @ b_positionId c"

definition write_change :: "int \<Rightarrow> string \<Rightarrow> string \<Rightarrow> string \<times> string option \<Rightarrow> redis \<Rightarrow> redis" where
  "write_change now key indexKey = (\<lambda>(field, v) r.
     case v of
       None \<Rightarrow> snd (redis_srem indexKey [field] (snd (redis_hdel key [field] r)))
     | Some s \<Rightarrow> snd (redis_sadd now indexKey [field] (snd (redis_hset now key (HsetField field (HStr s)) r))))"

definition commit_block :: "int \<Rightarrow> string \<Rightarrow> string \<Rightarrow> string \<Rightarrow> string \<Rightarrow> string option jsmap \<Rightarrow> redis \<Rightarrow> redis" where
  "commit_block now key processed indexKey version changes r =
     (let r1 = fold (write_change now key indexKey) changes r;
          r2 = snd (redis_hset now key (HsetField ''__version'' (HStr (string_of_num (js_add (js_Number (if version = [] then ''0'' else version)) (num_of_int 1))))) r1);
          r3 = snd (redis_set now processed (string_of_int now) no_options r2);
          r4 = snd (redis_expire now processed (num_of_int (30 * 24 * 60 * 60)) r3)
      in snd (redis_persist now key r4))"

definition updateBlockLifecycleForClose :: "int \<Rightarrow> row \<Rightarrow> redis \<Rightarrow> redis" where
  "updateBlockLifecycleForClose now position r =
     (case block_close_of position of
        None \<Rightarrow> r
      | Some c \<Rightarrow>
          let conn = b_connectionId c; key = blockPauseKey conn; processed = block_processed_key c; indexKey = blockPauseIndexKey conn (b_symbol c);
              r1 = ensureBlockPauseIndex now conn r;
              (active, r2) = redis_hgetall now (''block_count_active:'' @ conn @ '':'' @ b_symbol c) r1;
              (seen, r3) = redis_get now processed r2
          in if seen \<noteq> None \<and> seen \<noteq> Some [] then r3
             else let ((version, stored), r4) = readBlockPauseSymbolStates now conn (b_symbol c) r3
                  in commit_block now key processed indexKey version (block_changes now position c (map fst active) stored) r4)"

subsection \<open>Reading\<close>

definition getUnavailableBlockSetKeys :: "int \<Rightarrow> string \<Rightarrow> js_value \<Rightarrow> redis \<Rightarrow> js_value list \<times> redis" where
  "getUnavailableBlockSetKeys now connectionId symbol r =
     (let normalized = state_symbolKey symbol;
          (active, r1) = redis_hgetall now (activeKey connectionId (VStr normalized)) r;
          ((version, pauses), r2) = readBlockPauseSymbolStates now connectionId normalized r1;
          paused = List.map_filter (\<lambda>(field, raw).
            if \<not> starts_with (normalized @ ''|'') field then None
            else case json_parse raw of
                   None \<Rightarrow> None
                 | Some state \<Rightarrow> if js_gt (js_to_Number (js_get state ''remaining'')) (Fin 0) \<and> js_truthy (js_get state ''setKey'') then Some (js_get state ''setKey'') else None) pauses
      in (map (VStr \<circ> fst) active @ paused, r2))"

definition syncActiveBlockCountIndex :: "int \<Rightarrow> row \<Rightarrow> redis \<Rightarrow> redis" where
  "syncActiveBlockCountIndex now position r =
     (let p = js_prop position;
          connectionId = js_String (js_or (p ''connectionId'') (js_or (p ''connection_id'') (VStr []))); symbol = state_symbolKey (p ''symbol'');
          key = activeKey connectionId (VStr symbol);
          terminal = toLowerCase (text_or_empty (p ''status'')) \<in> {''closed'', ''rejected'', ''cancelled'', ''canceled'', ''error''}
      in if connectionId = [] \<or> symbol = [] then r
         else let r1 = foldl (\<lambda>r leg.
                    if \<not> js_truthy (js_get leg ''setKey'') then r
                    else if terminal \<or> js_get leg ''targetSatisfied'' = VBool False then snd (redis_hdel key [js_String (js_get leg ''setKey'')] r)
                    else snd (redis_hset now key (HsetField (js_String (js_get leg ''setKey'')) (HStr (js_String (js_or (p ''id'') (VStr ''active''))))) r)) r (array_of (p ''blockLegs''))
              in snd (redis_expire now key (num_of_int (30 * 24 * 60 * 60)) r1))"

definition getActiveBlockSetKeys :: "int \<Rightarrow> string \<Rightarrow> js_value \<Rightarrow> redis \<Rightarrow> string list \<times> redis" where
  "getActiveBlockSetKeys now connectionId symbol r =
     (let (active, r1) = redis_hgetall now (activeKey connectionId symbol) r in (map fst active, r1))"

text \<open>\<open>advanceBlockCountPausesOnPositionClose\<close>, as the connection's queue runs it.\<close>

definition advanceBlockCountPausesOnPositionClose :: "int \<Rightarrow> row \<Rightarrow> redis \<Rightarrow> redis" where
  "advanceBlockCountPausesOnPositionClose now position r =
     (if js_String (js_or (js_prop position ''connectionId'') (js_or (js_prop position ''connection_id'') (VStr []))) = [] then r
      else updateDcaStepLifecycleForClose now position (updateBlockLifecycleForClose now position r))"

definition getBlockCountLifecycleStates :: "int \<Rightarrow> string \<Rightarrow> js_value \<Rightarrow> redis \<Rightarrow> (js_value \<times> js_value) list \<times> redis" where
  "getBlockCountLifecycleStates now connectionId symbol r =
     (let normalized = state_symbolKey symbol;
          ((version, stored), r1) = readBlockPauseSymbolStates now connectionId normalized r
      in (foldl (\<lambda>states (field, raw).
            if \<not> starts_with (normalized @ ''|'') field then states
            else case json_parse raw of
                   None \<Rightarrow> states
                 | Some state \<Rightarrow> if js_truthy (js_get state ''setKey'') then AList.update (js_get state ''setKey'') state states else states) [] stored, r1))"

definition getBlockCountLifecycleState :: "int \<Rightarrow> string \<Rightarrow> js_value \<Rightarrow> string \<Rightarrow> redis \<Rightarrow> js_value" where
  "getBlockCountLifecycleState now connectionId symbol sk r =
     (case redis_hget now r (blockPauseKey connectionId) (state_symbolKey symbol @ ''|'' @ sk) of
        None \<Rightarrow> VUndefined
      | Some raw \<Rightarrow> if raw = [] then VUndefined else parseState (Some raw))"

section \<open>Views\<close>

abbreviation pause_field :: "redis \<Rightarrow> string \<Rightarrow> string \<Rightarrow> string option" where
  "pause_field r conn f \<equiv> map_of (hash_at r (blockPauseKey conn)) f"

lemma removeAll_empty_mem: "removeAll m s = [] \<Longrightarrow> x \<in> set s \<Longrightarrow> x = m"
  by (metis Diff_iff empty_iff empty_set set_removeAll singletonD)

lemma srem_one:
  "hash_at (snd (redis_srem k [m] r)) = hash_at r" "strings (snd (redis_srem k [m] r)) = strings r" "ttl (snd (redis_srem k [m] r)) = ttl r"
  "x \<noteq> m \<Longrightarrow> x \<in> set (set_at (snd (redis_srem k [m] r)) k') \<longleftrightarrow> x \<in> set (set_at r k')"
  by (auto simp: redis_srem_def hash_at_def set_at_def markDirty_def jsset_delete_def Let_def dest: removeAll_empty_mem split: option.splits if_splits)

lemma hdel_one:
  "strings (snd (redis_hdel k [f] r)) = strings r" "set_at (snd (redis_hdel k [f] r)) = set_at r"
  by (auto simp: redis_hdel_def set_at_def markDirty_def Let_def split: option.splits)

lemma sadd_one:
  "hash_at (snd (redis_sadd now k [m] r)) = hash_at r" "strings (snd (redis_sadd now k [m] r)) = strings r" "ttl (snd (redis_sadd now k [m] r)) = ttl r"
  "x \<noteq> m \<Longrightarrow> x \<in> set (set_at (snd (redis_sadd now k [m] r)) k') \<longleftrightarrow> x \<in> set (set_at r k')"
  "m \<noteq> [] \<Longrightarrow> m \<in> set (set_at (snd (redis_sadd now k [m] r)) k)"
  by (auto simp: redis_sadd_def hash_at_def set_at_def markDirty_def jsset_add_def trackOperation_def Let_def split: option.splits if_splits)

lemma hset_sets: "set_at (snd (redis_hset now key (HsetField f (HStr v)) r)) = set_at r"
  by (auto simp: redis_hset_def Let_def set_at_def markDirty_def trackOperation_def)

lemma write_change_views:
  "map_of (hash_at (write_change now key ik (f, v) r) k) g = (if k = key \<and> g = f then v else map_of (hash_at r k) g)"
  "strings (write_change now key ik (f, v) r) = strings r" "ttl (write_change now key ik (f, v) r) = ttl r"
  "g \<noteq> f \<Longrightarrow> g \<in> set (set_at (write_change now key ik (f, v) r) k') \<longleftrightarrow> g \<in> set (set_at r k')"
  "f \<noteq> [] \<Longrightarrow> v \<noteq> None \<Longrightarrow> f \<in> set (set_at (write_change now key ik (f, v) r) ik)"
  by (cases v; simp add: write_change_def srem_one hdel_one sadd_one hset_sets hset_field hfield_hdel update_conv')+

lemma write_changes_keep:
  "g \<notin> fst ` set changes \<Longrightarrow> g \<in> set (set_at (fold (write_change now key ik) changes r) k') \<longleftrightarrow> g \<in> set (set_at r k')"
  by (induction changes arbitrary: r) (auto simp: write_change_views)

lemma write_changes_views:
  fixes changes :: "string option jsmap"
  assumes "jsmap_wf changes"
  shows "map_of (hash_at (fold (write_change now key ik) changes r) k) g =
      (if k = key then (case map_of changes g of None \<Rightarrow> map_of (hash_at r k) g | Some v \<Rightarrow> v) else map_of (hash_at r k) g)"
    "strings (fold (write_change now key ik) changes r) = strings r" "ttl (fold (write_change now key ik) changes r) = ttl r"
    "g \<noteq> [] \<Longrightarrow> (g, Some s) \<in> set changes \<Longrightarrow> g \<in> set (set_at (fold (write_change now key ik) changes r) ik)"
proof -
  show "map_of (hash_at (fold (write_change now key ik) changes r) k) g =
      (if k = key then (case map_of changes g of None \<Rightarrow> map_of (hash_at r k) g | Some v \<Rightarrow> v) else map_of (hash_at r k) g)"
    using assms
  proof (induction changes arbitrary: r)
    case (Cons ch changes)
    obtain f v where ch: "ch = (f, v)" by fastforce
    then have "map_of changes f = None" using Cons.prems by (simp add: map_of_eq_None_iff)
    then show ?case using Cons ch by (auto simp: write_change_views split: option.split)
  qed simp
  show "strings (fold (write_change now key ik) changes r) = strings r" "ttl (fold (write_change now key ik) changes r) = ttl r"
    by (induction changes arbitrary: r) (auto simp: write_change_views)
  show "g \<noteq> [] \<Longrightarrow> (g, Some s) \<in> set changes \<Longrightarrow> g \<in> set (set_at (fold (write_change now key ik) changes r) ik)"
    using assms
  proof (induction changes arbitrary: r)
    case (Cons ch changes)
    obtain f v where ch: "ch = (f, v)" by fastforce
    show ?case
    proof (cases "ch = (g, Some s)")
      case True
      then have "g \<in> set (set_at (write_change now key ik (g, Some s) r) ik)" using Cons.prems by (intro write_change_views(5)) auto
      moreover have "g \<notin> fst ` set changes" using Cons.prems True by auto
      ultimately show ?thesis using True by (simp add: write_changes_keep)
    next
      case False
      then show ?thesis using Cons by simp
    qed
  qed simp
qed

lemma set_plain_sets: "set_at (snd (redis_set now k v no_options r)) = set_at r"
  by (auto simp: redis_set_def no_options_def Let_def set_at_def markDirty_def trackOperation_def)

lemma persist_sets: "set_at (snd (redis_persist now key r)) = set_at r"
  by (auto simp: redis_persist_def set_at_def markDirty_def)

lemma commit_block_views:
  fixes changes :: "string option jsmap"
  assumes "0 \<le> now" "now \<le> 2 ^ 52" "key \<noteq> processed" "jsmap_wf changes" and r': "r' = commit_block now key processed ik version changes r"
  shows "g \<noteq> ''__version'' \<Longrightarrow> map_of (hash_at r' key) g = (case map_of changes g of None \<Rightarrow> map_of (hash_at r key) g | Some v \<Rightarrow> v)"
    "strings r' = AList.update processed (string_of_int now) (strings r)"
    "map_of (ttl r') processed = Some (num_of_int (now + 2592000000))"
    "k \<noteq> processed \<Longrightarrow> map_of (ttl r') k = map_of (ttl r) k \<or> k = key \<and> map_of (ttl r') k = None"
    "g \<notin> fst ` set changes \<Longrightarrow> g \<in> set (set_at r' k') \<longleftrightarrow> g \<in> set (set_at r k')"
    "g \<noteq> [] \<Longrightarrow> (g, Some s) \<in> set changes \<Longrightarrow> g \<in> set (set_at r' ik)"
proof -
  let ?r1 = "fold (write_change now key ik) changes r"
  let ?r2 = "snd (redis_hset now key (HsetField ''__version'' (HStr (string_of_num (js_add (js_Number (if version = [] then ''0'' else version)) (num_of_int 1))))) ?r1)"
  let ?r3 = "snd (redis_set now processed (string_of_int now) no_options ?r2)"
  let ?r4 = "snd (redis_expire now processed (num_of_int 2592000) ?r3)"
  have r: "r' = snd (redis_persist now key ?r4)" using r' by (simp add: commit_block_def Let_def)
  note w = write_changes_views [OF assms(4), where now = now and key = key and ik = ik]
  have "has_data ?r3 processed" by (simp add: has_data_def set_plain_views)
  then have r4: "?r4 = setKeyTTL now processed (num_of_int 2592000) ?r3" by (simp add: redis_expire_def)
  have "map_of (ttl ?r4) processed = Some (num_of_int (now + 2592000000))"
    unfolding r4 using assms ttl_setKeyTTL [of now 2592000 processed ?r3] by simp
  moreover have "map_of (ttl ?r4) k = map_of (ttl r) k" if "k \<noteq> processed"
    unfolding r4 using that by (simp add: setKeyTTL_def markDirty_def set_plain_views hset_field w)
  moreover note persist_ttl [of now key ?r4 processed] persist_ttl [of now key ?r4 k]
  ultimately show "map_of (ttl r') processed = Some (num_of_int (now + 2592000000))"
    "k \<noteq> processed \<Longrightarrow> map_of (ttl r') k = map_of (ttl r) k \<or> k = key \<and> map_of (ttl r') k = None"
    using assms(3) unfolding r by metis+
  show "strings r' = AList.update processed (string_of_int now) (strings r)" unfolding r by (simp add: set_plain_views hset_field w)
  show "g \<noteq> ''__version'' \<Longrightarrow> map_of (hash_at r' key) g = (case map_of changes g of None \<Rightarrow> map_of (hash_at r key) g | Some v \<Rightarrow> v)"
    unfolding r by (simp add: set_plain_views hset_field w update_conv')
  have sets: "set_at r' = set_at ?r1" unfolding r by (simp add: persist_sets set_plain_sets hset_sets)
  show "g \<notin> fst ` set changes \<Longrightarrow> g \<in> set (set_at r' k') \<longleftrightarrow> g \<in> set (set_at r k')" unfolding sets by (rule write_changes_keep)
  show "g \<noteq> [] \<Longrightarrow> (g, Some s) \<in> set changes \<Longrightarrow> g \<in> set (set_at r' ik)" unfolding sets by (rule w(4))
qed

section \<open>The changes of a close\<close>

text \<open>What a close decides for one stored state: nothing, removal, or a new value.\<close>

definition pause_decision :: "int \<Rightarrow> block_close \<Rightarrow> string list \<Rightarrow> string \<Rightarrow> string \<Rightarrow> string option option" where
  "pause_decision now c activeSetKeys field raw = map_of (pause_change now c activeSetKeys field raw []) field"

lemma pause_change_lookup:
  "map_of (pause_change now c act f raw ch) g = (if g = f then (case pause_decision now c act f raw of None \<Rightarrow> map_of ch f | Some v \<Rightarrow> Some v) else map_of ch g)"
  by (auto simp: pause_decision_def pause_change_def Let_def update_conv')

lemma pause_change_wf: "jsmap_wf ch \<Longrightarrow> jsmap_wf (pause_change now c act f raw ch)"
  by (auto simp: pause_change_def Let_def intro: jsmap_wf_update)

lemma pause_changes_lookup:
  assumes "jsmap_wf stored"
  shows "map_of (fold (\<lambda>(f, raw). pause_change now c act f raw) stored ch) g =
    (case map_of stored g of None \<Rightarrow> map_of ch g | Some raw \<Rightarrow> (case pause_decision now c act g raw of None \<Rightarrow> map_of ch g | Some v \<Rightarrow> Some v))"
  using assms
proof (induction stored arbitrary: ch)
  case (Cons e stored)
  obtain f raw where e: "e = (f, raw)" by fastforce
  then have "map_of stored f = None" using Cons.prems by (simp add: map_of_eq_None_iff)
  then show ?case using Cons e by (auto simp: pause_change_lookup split: option.split)
qed simp

text \<open>The field a leg writes.\<close>

definition leg_field :: "block_close \<Rightarrow> js_value \<Rightarrow> string" where
  "leg_field c leg = b_symbol c @ ''|'' @ leg_lifecycle_key leg"

lemma leg_change_lookup: "g \<noteq> leg_field c leg \<Longrightarrow> map_of (leg_change now position c stored leg ch) g = map_of ch g"
  by (simp add: leg_change_def Let_def leg_field_def update_conv')

lemma leg_change_wf: "jsmap_wf ch \<Longrightarrow> jsmap_wf (leg_change now position c stored leg ch)"
  by (auto simp: leg_change_def Let_def intro: jsmap_wf_update)

lemma block_changes_wf: "jsmap_wf (block_changes now position c act stored)"
proof -
  have "jsmap_wf ch \<Longrightarrow> jsmap_wf (fold (\<lambda>(f, raw). pause_change now c act f raw) st ch)" for st ch
    by (induction st arbitrary: ch) (auto intro: pause_change_wf)
  moreover have "jsmap_wf ch \<Longrightarrow> jsmap_wf (fold (leg_change now position c stored) legs ch)" for legs ch
    by (induction legs arbitrary: ch) (auto intro: leg_change_wf)
  ultimately show ?thesis by (simp add: block_changes_def)
qed

lemma block_changes_lookup:
  assumes "jsmap_wf stored" "\<forall>leg \<in> set (b_legs c). leg_field c leg \<noteq> g"
  shows "map_of (block_changes now position c act stored) g = (case map_of stored g of None \<Rightarrow> None | Some raw \<Rightarrow> pause_decision now c act g raw)"
proof -
  have "\<forall>leg \<in> set legs. leg_field c leg \<noteq> g \<Longrightarrow> map_of (fold (leg_change now position c stored) legs ch) g = map_of ch g" for legs ch
    by (induction legs arbitrary: ch) (auto simp: leg_change_lookup)
  then show ?thesis using assms by (auto simp: block_changes_def pause_changes_lookup split: option.split)
qed

lemma read_fields:
  "jsmap_wf (foldl (\<lambda>m f. case redis_hget now r key f of Some v \<Rightarrow> AList.update f v m | None \<Rightarrow> m) [] members)"
  "map_of (foldl (\<lambda>m f. case redis_hget now r key f of Some v \<Rightarrow> AList.update f v m | None \<Rightarrow> m) [] members) g =
     (if g \<in> set members then redis_hget now r key g else None)"
proof -
  show "jsmap_wf (foldl (\<lambda>m f. case redis_hget now r key f of Some v \<Rightarrow> AList.update f v m | None \<Rightarrow> m) [] members)"
    by (induction members rule: rev_induct) (auto intro: jsmap_wf_update split: option.split)
  show "map_of (foldl (\<lambda>m f. case redis_hget now r key f of Some v \<Rightarrow> AList.update f v m | None \<Rightarrow> m) [] members) g =
     (if g \<in> set members then redis_hget now r key g else None)"
    by (induction members rule: rev_induct) (auto simp: update_conv' split: option.split)
qed

section \<open>The countdown of a pause\<close>

text \<open>
  The contract of a paused lane: each close of one of its sources, in its direction and symbol, counts
  once; the lane is free when as many closes were settled as the pause had.
\<close>

definition pause_settle :: "string \<Rightarrow> string \<Rightarrow> string \<Rightarrow> string set \<times> int \<Rightarrow> int \<times> row \<Rightarrow> string set \<times> int" where
  "pause_settle smb d src = (\<lambda>(seen, m) (now, position).
     case block_close_of position of
       None \<Rightarrow> (seen, m)
     | Some c \<Rightarrow>
         if block_processed_key c \<in> seen then (seen, m)
         else (insert (block_processed_key c) seen,
               if b_symbol c = smb \<and> b_direction c = d \<and> src \<in> set (b_sourceKeys c) \<and> 0 < m then m - 1 else m))"

definition pause_object :: "string \<Rightarrow> string \<Rightarrow> string \<Rightarrow> string \<Rightarrow> row \<Rightarrow> int \<Rightarrow> bool" where
  "pause_object smb d src k st m \<longleftrightarrow> jsonable (VObj st) \<and> symbolKey (js_prop st ''symbol'') = smb \<and> js_prop st ''direction'' = VStr d \<and>
     js_prop st ''sourceKey'' = VStr src \<and> js_prop st ''setKey'' = VStr k \<and> js_prop st ''remaining'' = VNum (num_of_int m)"

definition lane_id :: "string \<Rightarrow> string \<Rightarrow> string" where
  "lane_id smb k = smb @ ''|'' @ k"

definition lane_ok :: "string \<Rightarrow> string \<Rightarrow> string \<Rightarrow> string \<Rightarrow> bool" where
  "lane_ok smb d src k \<longleftrightarrow> list_all is_symbol_char smb \<and> d \<noteq> [] \<and> src \<noteq> [] \<and> k \<noteq> []"

lemma upper_symbol_char: "is_symbol_char c \<Longrightarrow> ascii_upper c = c"
  by (auto simp: is_symbol_char_def ascii_upper_def is_digit_def less_eq_char_def Let_def)

lemma symbolKey_fixed: "list_all is_symbol_char s \<Longrightarrow> symbolKey (VStr s) = s"
proof -
  assume s: "list_all is_symbol_char s"
  then have "toUpperCase s = s" by (induction s) (simp_all add: toUpperCase_def upper_symbol_char)
  then show ?thesis using s by (cases s) (auto simp: symbolKey_def text_or_empty_def js_or_def js_truthy_def list_all_iff)
qed

lemma symbolKey_chars: "list_all is_symbol_char (symbolKey v)"
  by (simp add: symbolKey_def list_all_iff)

lemma lane_id_plain: "lane_ok smb d src k \<Longrightarrow> \<not> starts_with ''__'' (lane_id smb k)"
  by (cases smb) (auto simp: lane_ok_def lane_id_def is_symbol_char_def is_digit_def)

lemma parse_object: "jsonable (VObj st) \<Longrightarrow> parseState (Some (json_text (VObj st))) = VObj st"
  using json_roundtrip [of "VObj st"] by (simp add: parseState_def del: json_text.simps jsonable.simps)

lemma pause_object_step:
  assumes "pause_object smb d src k st m" "1 \<le> m" "m \<le> 2 ^ 53" "0 \<le> now" "now \<le> 2 ^ 52"
  shows "pause_object smb d src k (AList.update ''updatedAt'' (VNum (num_of_int now)) (AList.update ''remaining'' (VNum (num_of_int (m - 1))) st)) (m - 1)"
proof -
  let ?st = "AList.update ''updatedAt'' (VNum (num_of_int now)) (AList.update ''remaining'' (VNum (num_of_int (m - 1))) st)"
  have wf: "distinct (map fst st)" "\<forall>e \<in> set st. jsonable (snd e)" using assms(1) by (simp_all add: pause_object_def)
  have whole: "jsonable (VNum (num_of_int x))" if "0 \<le> x" "x \<le> 2 ^ 53" for x :: int using that by simp
  have "distinct (map fst ?st)" using wf by (intro jsmap_wf_update)
  moreover have "\<forall>e \<in> set ?st. jsonable (snd e)"
    using wf whole [of "m - 1"] whole [of now] assms(2-5) by (auto simp: set_update_wf jsmap_wf_update simp del: jsonable.simps)
  ultimately have "jsonable (VObj ?st)" by simp
  then show ?thesis using assms(1) by (simp add: pause_object_def js_prop_def update_conv')
qed

lemma pause_decides:
  assumes ok: "lane_ok smb d src k" and st: "pause_object smb d src k st m" and m: "1 \<le> m" "m \<le> 2 ^ 53"
  shows "pause_decision now c act (lane_id smb k) (json_text (VObj st)) =
    (if b_symbol c = smb \<and> b_direction c = d \<and> src \<in> set (b_sourceKeys c)
     then Some (if m = 1 then None else Some (json_text (VObj (AList.update ''updatedAt'' (VNum (num_of_int now)) (AList.update ''remaining'' (VNum (num_of_int (m - 1))) st)))))
     else None)"
proof -
  have parse: "parseState (Some (json_text (VObj st))) = VObj st" using st by (intro parse_object) (simp add: pause_object_def)
  have sub: "js_max (Fin 0) (js_sub (num_of_int m) (num_of_int 1)) = num_of_int (m - 1)" using js_sub_int [of m 1] m by simp
  have props: "symbolKey (js_get (VObj st) ''symbol'') = smb" "js_get (VObj st) ''direction'' = VStr d" "js_get (VObj st) ''sourceKey'' = VStr src"
    "js_to_Number (js_get (VObj st) ''remaining'') = num_of_int m"
    using st by (simp_all add: pause_object_def js_get_def js_to_Number_def)
  have "pause_matches c (VObj st) \<longleftrightarrow> b_direction c = d \<and> src \<in> set (b_sourceKeys c)"
    unfolding pause_matches_def props Let_def using ok m by (auto simp: lane_ok_def js_truthy_def)
  moreover have "\<not> isBlockPauseStateInactive (VObj st) now act" unfolding isBlockPauseStateInactive_def props using m by simp
  ultimately show ?thesis
    unfolding pause_decision_def pause_change_def Let_def parse props sub using lane_id_plain [OF ok] m
    by (auto simp: js_truthy_def js_record_def)
qed

text \<open>The store agrees with the contract.\<close>

definition pause_stored :: "string \<Rightarrow> string \<Rightarrow> string \<Rightarrow> string \<Rightarrow> string \<Rightarrow> redis \<Rightarrow> int \<Rightarrow> bool" where
  "pause_stored conn smb d src k r m \<longleftrightarrow>
     (if m = 0 then pause_field r conn (lane_id smb k) = None
      else lane_id smb k \<in> set (set_at r (blockPauseIndexKey conn smb)) \<and>
        (\<exists>st. pause_field r conn (lane_id smb k) = Some (json_text (VObj st)) \<and> pause_object smb d src k st m))"

definition pause_sim :: "int \<Rightarrow> string \<Rightarrow> string \<Rightarrow> string \<Rightarrow> string \<Rightarrow> string \<Rightarrow> redis \<Rightarrow> string set \<times> int \<Rightarrow> bool" where
  "pause_sim t0 conn smb d src k r = (\<lambda>(seen, m).
     (\<forall>p \<in> seen. \<exists>v u. map_of (strings r) p = Some v \<and> v \<noteq> [] \<and> map_of (ttl r) p = Some (num_of_int u) \<and> t0 + 2592000000 \<le> u) \<and>
     (\<forall>c. block_processed_key c \<notin> seen \<longrightarrow> map_of (strings r) (block_processed_key c) = None) \<and> seen \<subseteq> range block_processed_key \<and>
     map_of (ttl r) (blockPauseKey conn) = None \<and> map_of (ttl r) (blockPauseIndexKey conn smb) = None \<and>
     pause_field r conn ''__indexed'' = Some ''1'' \<and> 0 \<le> m \<and> m \<le> 2 ^ 53 \<and> pause_stored conn smb d src k r m)"

lemma block_keys_distinct:
  "blockPauseKey conn \<noteq> block_processed_key c" "blockPauseIndexKey conn smb \<noteq> block_processed_key c" "blockPauseIndexKey conn smb \<noteq> blockPauseKey conn'"
  by (simp_all add: blockPauseKey_def block_processed_key_def blockPauseIndexKey_def)

lemma pause_sim_track [simp]: "pause_sim t0 conn smb d src k (trackOperation t r) s = pause_sim t0 conn smb d src k r s"
  by (simp add: pause_sim_def pause_stored_def)

lemma pause_seen:
  assumes "pause_sim t0 conn smb d src k r (seen, m)" "0 \<le> t0" "t < t0 + 2592000000"
  shows "(visible_string t r (block_processed_key c) \<noteq> None \<and> visible_string t r (block_processed_key c) \<noteq> Some []) \<longleftrightarrow> block_processed_key c \<in> seen"
proof (cases "block_processed_key c \<in> seen")
  case True
  then obtain v u where "map_of (strings r) (block_processed_key c) = Some v" "v \<noteq> []" "map_of (ttl r) (block_processed_key c) = Some (num_of_int u)" "t0 + 2592000000 \<le> u"
    using assms(1) by (auto simp: pause_sim_def)
  then show ?thesis using True assms by (simp add: visible_string_def isExpired_def)
next
  case False
  then have "map_of (strings r) (block_processed_key c) = None" using assms(1) by (simp add: pause_sim_def)
  then show ?thesis using False by (simp add: visible_string_def)
qed

lemma indexed_noop: "pause_sim t0 conn smb d src k r s \<Longrightarrow> ensureBlockPauseIndex t conn r = r"
  by (auto simp: pause_sim_def ensureBlockPauseIndex_def BLOCK_PAUSE_INDEXED_FIELD_def redis_hget_def isExpired_def split: prod.splits)

text \<open>What a close reads of its symbol.\<close>

definition read_states :: "int \<Rightarrow> string \<Rightarrow> string \<Rightarrow> redis \<Rightarrow> string jsmap" where
  "read_states t conn symbol r =
     foldl (\<lambda>m f. case redis_hget t (trackOperation t r) (blockPauseKey conn) f of Some v \<Rightarrow> AList.update f v m | None \<Rightarrow> m) []
       (if isExpired t r (blockPauseIndexKey conn symbol) then [] else set_at r (blockPauseIndexKey conn symbol))"

lemma read_indexed:
  assumes "pause_sim t0 conn smb d src k r s" "list_all is_symbol_char symbol"
  shows "\<exists>v. readBlockPauseSymbolStates t conn symbol r = ((v, read_states t conn symbol r), trackOperation t r)"
  using indexed_noop [OF assms(1), of t] symbolKey_fixed [OF assms(2)]
  by (simp add: readBlockPauseSymbolStates_def Let_def redis_smembers_def read_states_def)

lemma read_states_lookup:
  assumes "pause_sim t0 conn smb d src k r s"
  shows "jsmap_wf (read_states t conn symbol r)"
    "map_of (read_states t conn symbol r) g \<in> {None, pause_field r conn g}"
    "g \<in> set (set_at r (blockPauseIndexKey conn smb)) \<Longrightarrow> map_of (read_states t conn smb r) g = pause_field r conn g"
proof -
  have get: "redis_hget t (trackOperation t r) (blockPauseKey conn) g = pause_field r conn g" for g
    using assms by (auto simp: pause_sim_def redis_hget_def isExpired_def)
  have live: "\<not> isExpired t r (blockPauseIndexKey conn smb)" using assms by (auto simp: pause_sim_def isExpired_def)
  show "jsmap_wf (read_states t conn symbol r)" unfolding read_states_def by (rule read_fields(1))
  show "map_of (read_states t conn symbol r) g \<in> {None, pause_field r conn g}" unfolding read_states_def read_fields(2) unfolding get by simp
  show "g \<in> set (set_at r (blockPauseIndexKey conn smb)) \<Longrightarrow> map_of (read_states t conn smb r) g = pause_field r conn g"
    unfolding read_states_def read_fields(2) unfolding get using live by simp
qed

text \<open>A close of the connection that does not settle the lane itself.\<close>

definition spares_lane :: "string \<Rightarrow> string \<Rightarrow> string \<Rightarrow> row \<Rightarrow> bool" where
  "spares_lane conn smb k position =
     (case block_close_of position of
        None \<Rightarrow> True
      | Some c \<Rightarrow> b_connectionId c = conn \<and> list_all (\<lambda>leg. leg_field c leg \<noteq> lane_id smb k) (b_legs c))"

lemma barred_fields: "leg_field c leg \<noteq> ''__indexed''" "lane_id smb k \<noteq> ''__version''" "lane_id smb k \<noteq> []"
proof -
  have "CHR ''|'' \<in> set (leg_field c leg)" "CHR ''|'' \<in> set (lane_id smb k)" by (simp_all add: leg_field_def lane_id_def)
  moreover have "CHR ''|'' \<notin> set ''__indexed''" "CHR ''|'' \<notin> set ''__version''" by simp_all
  ultimately show "leg_field c leg \<noteq> ''__indexed''" "lane_id smb k \<noteq> ''__version''" "lane_id smb k \<noteq> []" by (metis, metis, metis list.set(1) empty_iff)
qed

lemma close_symbol: "block_close_of position = Some c \<Longrightarrow> list_all is_symbol_char (b_symbol c)"
  by (auto simp: block_close_of_def Let_def symbolKey_chars split: if_splits)

lemma pause_commit:
  assumes sim: "pause_sim t0 conn smb d src k r (seen, m)" and ok: "lane_ok smb d src k" and t: "0 \<le> t0" "t0 \<le> t" "t \<le> 2 ^ 52"
    and c: "block_close_of position = Some c" "spares_lane conn smb k position" "block_processed_key c \<notin> seen"
    and r': "r' = commit_block t (blockPauseKey conn) (block_processed_key c) (blockPauseIndexKey conn (b_symbol c)) v
      (block_changes t position c act (read_states t conn (b_symbol c) r)) r"
  shows "pause_sim t0 conn smb d src k r' (insert (block_processed_key c) seen,
    if b_symbol c = smb \<and> b_direction c = d \<and> src \<in> set (b_sourceKeys c) \<and> 0 < m then m - 1 else m)" (is "pause_sim _ _ _ _ _ _ _ (_, ?m)")
proof -
  let ?ch = "block_changes t position c act (read_states t conn (b_symbol c) r)" and ?f = "lane_id smb k" and ?hit = "b_symbol c = smb \<and> b_direction c = d \<and> src \<in> set (b_sourceKeys c)"
  have t': "0 \<le> t" using t by simp
  note views = commit_block_views [OF t' t(3) block_keys_distinct(1) block_changes_wf r']
  have legs: "\<forall>leg \<in> set (b_legs c). leg_field c leg \<noteq> ?f" "\<forall>leg \<in> set (b_legs c). leg_field c leg \<noteq> ''__indexed''"
    using c(1,2) barred_fields(1) by (auto simp: spares_lane_def list_all_iff)
  note rd = read_states_lookup [OF sim, where t = t]
  note look = block_changes_lookup [OF rd(1) legs(1), where now = t and position = position and act = act]
    block_changes_lookup [OF rd(1) legs(2), where now = t and position = position and act = act]
  have m: "0 \<le> m" "m \<le> 2 ^ 53" and stored: "pause_stored conn smb d src k r m" and idx: "pause_field r conn ''__indexed'' = Some ''1''"
    using sim by (auto simp: pause_sim_def)
  have "map_of ?ch ''__indexed'' = None"
    using look(2) by (auto simp: pause_decision_def pause_change_def Let_def split: option.splits)
  then have "pause_field r' conn ''__indexed'' = Some ''1''" using views(1) idx by simp
  moreover have "pause_stored conn smb d src k r' ?m"
  proof (cases "m = 0")
    case True
    then have "pause_field r conn ?f = None" using stored by (simp add: pause_stored_def)
    then show ?thesis using True look(1) rd(2) [of "b_symbol c" ?f] views(1) [OF barred_fields(2)] by (auto simp: pause_stored_def)
  next
    case False
    then obtain st where st: "pause_field r conn ?f = Some (json_text (VObj st))" "pause_object smb d src k st m" "?f \<in> set (set_at r (blockPauseIndexKey conn smb))"
      using stored by (auto simp: pause_stored_def)
    have m1: "1 \<le> m" using False m by simp
    note dec = pause_decides [OF ok st(2) m1 m(2), of t c act]
    note new = views(1) [OF barred_fields(2), of smb k]
    show ?thesis
    proof (cases ?hit)
      case True
      let ?st = "AList.update ''updatedAt'' (VNum (num_of_int t)) (AList.update ''remaining'' (VNum (num_of_int (m - 1))) st)"
      have ch: "map_of ?ch ?f = Some (if m = 1 then None else Some (json_text (VObj ?st)))"
        using look(1) dec True rd(3) [OF st(3)] st(1) by (simp del: json_text.simps of_int_diff)
      have "?f \<in> set (set_at r' (blockPauseIndexKey conn smb))" if "m \<noteq> 1"
        using views(6) [OF barred_fields(3), of smb k "json_text (VObj ?st)"] map_of_SomeD [OF ch] that True by (simp del: json_text.simps of_int_diff)
      moreover have "pause_object smb d src k ?st (m - 1)" using pause_object_step [OF st(2) m1 m(2) t' t(3)] .
      ultimately show ?thesis using True new ch m1 unfolding pause_stored_def by (auto simp del: json_text.simps of_int_diff)
    next
      case False
      then have none: "map_of ?ch ?f = None" using look(1) dec rd(2) [of "b_symbol c" ?f] st(1) by (auto simp del: json_text.simps split: option.split)
      then have "?f \<notin> fst ` set ?ch" by (simp only: map_of_eq_None_iff) simp
      then show ?thesis using False new none stored views(5) [of ?f] by (auto simp: pause_stored_def)
    qed
  qed
  moreover have "\<exists>v u. map_of (strings r') p = Some v \<and> v \<noteq> [] \<and> map_of (ttl r') p = Some (num_of_int u) \<and> t0 + 2592000000 \<le> u"
    if p: "p \<in> insert (block_processed_key c) seen" for p
  proof (cases "p = block_processed_key c")
    case True
    then show ?thesis using views(2,3) t by (intro exI [of _ "string_of_int t"] exI [of _ "t + 2592000000"]) (simp add: update_conv')
  next
    case False
    then have "p \<in> seen" using p by simp
    then obtain v u where "map_of (strings r) p = Some v" "v \<noteq> []" "map_of (ttl r) p = Some (num_of_int u)" "t0 + 2592000000 \<le> u"
      and "p \<noteq> blockPauseKey conn" using sim block_keys_distinct(1) unfolding pause_sim_def by fastforce
    then show ?thesis using False views(2) views(4) [of p] by (auto simp: update_conv')
  qed
  moreover have "map_of (strings r') (block_processed_key e) = None" if "block_processed_key e \<notin> insert (block_processed_key c) seen" for e
    using that sim views(2) by (simp add: update_conv' pause_sim_def)
  moreover have "map_of (ttl r') (blockPauseKey conn) = None" "map_of (ttl r') (blockPauseIndexKey conn smb) = None"
    using views(4) [of "blockPauseKey conn"] views(4) [of "blockPauseIndexKey conn smb"] sim block_keys_distinct by (auto simp: pause_sim_def)
  ultimately show ?thesis using sim m unfolding pause_sim_def by auto
qed

lemma hget_track: "redis_hget t (trackOperation t' r) key f = redis_hget t r key f"
  by (simp add: redis_hget_def)

lemma pause_step:
  assumes sim: "pause_sim t0 conn smb d src k r s" and ok: "lane_ok smb d src k" and t: "0 \<le> t0" "t0 \<le> t" "t < t0 + 2592000000" "t \<le> 2 ^ 52"
    and spares: "spares_lane conn smb k position"
  shows "pause_sim t0 conn smb d src k (updateBlockLifecycleForClose t position r) (pause_settle smb d src s (t, position))"
proof (cases "block_close_of position")
  case None
  then show ?thesis using sim by (cases s) (simp add: updateBlockLifecycleForClose_def pause_settle_def)
next
  case (Some c)
  obtain seen m where s: "s = (seen, m)" by fastforce
  note seen = pause_seen [OF sim [unfolded s] t(1,3), of c]
  let ?r = "trackOperation t (trackOperation t r)"
  have conn: "b_connectionId c = conn" using spares Some by (simp add: spares_lane_def)
  have noop: "ensureBlockPauseIndex t conn r = r" using indexed_noop [OF sim] .
  show ?thesis
  proof (cases "block_processed_key c \<in> seen")
    case True
    then show ?thesis using Some seen sim s conn noop
      by (auto simp: updateBlockLifecycleForClose_def pause_settle_def Let_def case_prod_unfold redis_hgetall_def)
  next
    case False
    have sim': "pause_sim t0 conn smb d src k ?r (seen, m)" using sim s by simp
    obtain v where read: "readBlockPauseSymbolStates t conn (b_symbol c) ?r = ((v, read_states t conn (b_symbol c) ?r), trackOperation t ?r)"
      using read_indexed [OF sim' close_symbol [OF Some]] by blast
    have rs: "read_states t conn (b_symbol c) (trackOperation t ?r) = read_states t conn (b_symbol c) ?r" unfolding read_states_def hget_track by simp
    let ?act = "map fst (fst (redis_hgetall t (''block_count_active:'' @ conn @ '':'' @ b_symbol c) r))"
    have upd: "updateBlockLifecycleForClose t position r =
      commit_block t (blockPauseKey conn) (block_processed_key c) (blockPauseIndexKey conn (b_symbol c)) v
        (block_changes t position c ?act (read_states t conn (b_symbol c) (trackOperation t ?r))) (trackOperation t ?r)"
      unfolding updateBlockLifecycleForClose_def using Some False seen conn noop read rs by (auto simp: Let_def case_prod_unfold redis_hgetall_def)
    have "pause_sim t0 conn smb d src k (trackOperation t ?r) (seen, m)" using sim' by simp
    from pause_commit [OF this ok t(1,2,4) Some spares False upd] show ?thesis using Some False s by (simp add: pause_settle_def)
  qed
qed

lemma state_symbolKey_fixed: "list_all is_symbol_char s \<Longrightarrow> state_symbolKey (VStr s) = s"
proof -
  assume s: "list_all is_symbol_char s"
  then have "\<forall>c \<in> set s. \<not> is_space c \<and> c \<notin> set ''-_'' \<and> ascii_upper c = c"
    by (auto simp: list_all_iff upper_symbol_char is_symbol_char_def is_space_def is_digit_def Let_def less_eq_char_def)
  note plain = this
  have "dropWhile is_space xs = xs" if "set xs \<subseteq> set s" for xs using that plain by (cases xs) auto
  from this [of s] this [of "rev s"] have "trim s = s" by (simp add: trim_def)
  moreover have "map ascii_upper s = s" "filter (\<lambda>c. c \<notin> set ''-_'') s = s" using plain by (auto simp: map_idI intro: filter_True)
  ultimately have "trim s = s" "map ascii_upper s = s" "filter (\<lambda>c. c \<notin> set ''-_'') s = s" by simp_all
  then have "toUpperCase (trim s) = s" "filter (\<lambda>c. c \<notin> set ''-_'') s = s" by (simp_all add: toUpperCase_def)
  then show ?thesis by (cases s) (simp_all add: state_symbolKey_def text_or_empty_def js_or_def js_truthy_def)
qed

lemma pause_unavailable:
  assumes sim: "pause_sim t0 conn smb d src k r (seen, m)" and ok: "lane_ok smb d src k" and m: "0 < m"
  shows "VStr k \<in> set (fst (getUnavailableBlockSetKeys now conn (VStr smb) r))"
proof -
  have chars: "list_all is_symbol_char smb" using ok by (simp add: lane_ok_def)
  note fixed = state_symbolKey_fixed [OF chars]
  have sim': "pause_sim t0 conn smb d src k (trackOperation now r) (seen, m)" using sim by simp
  obtain v where read: "readBlockPauseSymbolStates now conn smb (trackOperation now r) =
      ((v, read_states now conn smb (trackOperation now r)), trackOperation now (trackOperation now r))"
    using read_indexed [OF sim' chars] by blast
  obtain st where st: "pause_field r conn (lane_id smb k) = Some (json_text (VObj st))" "pause_object smb d src k st m"
    "lane_id smb k \<in> set (set_at r (blockPauseIndexKey conn smb))"
    using sim m by (auto simp: pause_sim_def pause_stored_def)
  have "map_of (read_states now conn smb (trackOperation now r)) (lane_id smb k) = Some (json_text (VObj st))"
    using read_states_lookup(3) [OF sim', of "lane_id smb k" now] st by simp
  then have mem: "(lane_id smb k, json_text (VObj st)) \<in> set (read_states now conn smb (trackOperation now r))" by (rule map_of_SomeD)
  have js: "jsonable (VObj st)" "js_get (VObj st) ''setKey'' = VStr k" "js_to_Number (js_get (VObj st) ''remaining'') = num_of_int m"
    using st(2) by (simp_all add: pause_object_def js_get_def js_to_Number_def)
  have parse: "json_parse (json_text (VObj st)) = Some (VObj st)" using json_roundtrip [OF js(1)] by blast
  have pre: "starts_with (smb @ ''|'') (lane_id smb k)" by (simp add: lane_id_def)
  show ?thesis
    unfolding getUnavailableBlockSetKeys_def Let_def fixed redis_hgetall_def prod.case read
    using mem m ok by (force simp: List.map_filter_def parse js pre lane_ok_def js_truthy_def simp del: json_text.simps split: option.splits)
qed

lemma pause_lifecycle_state:
  assumes sim: "pause_sim t0 conn smb d src k r (seen, m)" and ok: "lane_ok smb d src k"
  shows "getBlockCountLifecycleState now conn (VStr smb) k r = VUndefined \<longleftrightarrow> m = 0"
proof -
  have chars: "list_all is_symbol_char smb" using ok by (simp add: lane_ok_def)
  have get: "redis_hget now r (blockPauseKey conn) (smb @ ''|'' @ k) = pause_field r conn (lane_id smb k)"
    using sim by (auto simp: pause_sim_def redis_hget_def isExpired_def lane_id_def)
  have "json_text (VObj st) \<noteq> []" for st by simp
  then show ?thesis
    unfolding getBlockCountLifecycleState_def state_symbolKey_fixed [OF chars] get
    using sim by (auto simp: pause_sim_def pause_stored_def pause_object_def parse_object simp del: json_text.simps jsonable.simps split: if_splits)
qed

text \<open>The store as the closes find it: no close settled yet, the index built, the lane paused for \<open>m\<close> closes.\<close>

definition pause_start :: "string \<Rightarrow> string \<Rightarrow> string \<Rightarrow> string \<Rightarrow> string \<Rightarrow> redis \<Rightarrow> int \<Rightarrow> bool" where
  "pause_start conn smb d src k r m \<longleftrightarrow>
     list_all (\<lambda>(key, v). \<not> starts_with ''block_count_pause_processed:'' key) (strings r) \<and> map_of (ttl r) (blockPauseKey conn) = None \<and>
     map_of (ttl r) (blockPauseIndexKey conn smb) = None \<and> pause_field r conn ''__indexed'' = Some ''1'' \<and> 1 \<le> m \<and> m \<le> 2 ^ 53 \<and> pause_stored conn smb d src k r m"

lemma pause_start_sim: "pause_start conn smb d src k r m \<Longrightarrow> pause_sim t0 conn smb d src k r ({}, m)"
proof -
  assume start: "pause_start conn smb d src k r m"
  have "map_of (strings r) (block_processed_key c) = None" for c
  proof -
    have "block_processed_key c \<notin> fst ` set (strings r)" using start by (force simp: pause_start_def list_all_iff block_processed_key_def)
    then show ?thesis by (simp add: map_of_eq_None_iff)
  qed
  then show ?thesis using start by (simp add: pause_start_def pause_sim_def)
qed

text \<open>C10. A paused Block lane waits exactly its pause.  For a symbol of capital letters and digits only, a built index
  and a lane paused for \<open>m\<close> closes, over any closes of its connection within thirty days, with repetitions, none of which
  settles the lane itself (has a leg of the lane), the lane's set stays unavailable while fewer closes of its source,
  symbol and direction were settled than the pause counts, and its stored state is gone exactly when they were.
\<close>

theorem block_pause_countdown:
  assumes "lane_ok smb d src k" "0 \<le> t0" "t0 \<le> 2 ^ 51" "pause_start conn smb d src k r m"
    "list_all (\<lambda>(t, position). t0 \<le> t \<and> t < t0 + 2592000000 \<and> spares_lane conn smb k position) closes"
  shows "(0 < snd (foldl (pause_settle smb d src) ({}, m) closes) \<longrightarrow>
      VStr k \<in> set (fst (getUnavailableBlockSetKeys now conn (VStr smb) (foldl (\<lambda>r (t, position). updateBlockLifecycleForClose t position r) r closes)))) \<and>
    (getBlockCountLifecycleState now conn (VStr smb) k (foldl (\<lambda>r (t, position). updateBlockLifecycleForClose t position r) r closes) = VUndefined \<longleftrightarrow>
      snd (foldl (pause_settle smb d src) ({}, m) closes) = 0)"
proof -
  have sim: "pause_sim t0 conn smb d src k (foldl (\<lambda>r (t, position). updateBlockLifecycleForClose t position r) r closes) (foldl (pause_settle smb d src) ({}, m) closes)"
    using assms(5)
  proof (induction closes rule: rev_induct)
    case Nil
    then show ?case using pause_start_sim [OF assms(4)] by simp
  next
    case (snoc e closes)
    obtain t position where e: "e = (t, position)" by fastforce
    show ?case using snoc assms(1-3) e by (auto intro!: pause_step)
  qed
  obtain seen n where s: "foldl (pause_settle smb d src) ({}, m) closes = (seen, n)" by (rule that [OF prod.collapse [symmetric]])
  note sim' = sim [unfolded s]
  show ?thesis unfolding s snd_conv using pause_unavailable [OF sim' assms(1)] pause_lifecycle_state [OF sim' assms(1)] by blast
qed

definition sample_pause :: row where
  "sample_pause = [(''setKey'', VStr ''s1#block:2''), (''symbol'', VStr ''BTCUSDT''), (''direction'', VStr ''long''), (''sourceKey'', VStr ''s1''), (''remaining'', VNum (num_of_int 2))]"

definition paused_store :: redis where
  "paused_store = (redis_empty 0)
     \<lparr>hashes := [(''block_count_pause:c1'', [(''__indexed'', ''1''), (''BTCUSDT|s1#block:2'', json_text (VObj sample_pause))])],
      sets := [(''block_count_pause_index:c1:BTCUSDT'', [''BTCUSDT|s1#block:2''])]\<rparr>"

definition source_close :: "string \<Rightarrow> row" where
  "source_close i = [(''id'', VStr i), (''connectionId'', VStr ''c1''), (''symbol'', VStr ''BTC-USDT''), (''side'', VStr ''LONG''), (''status'', VStr ''closed''),
     (''setKey'', VStr ''s1''), (''realizedPnL'', VNum (num_of_int 3))]"

lemma paused_store_start: "pause_start ''c1'' ''BTCUSDT'' ''long'' ''s1'' ''s1#block:2'' paused_store 2"
proof -
  have keys: "blockPauseKey ''c1'' = ''block_count_pause:c1''" "blockPauseIndexKey ''c1'' ''BTCUSDT'' = ''block_count_pause_index:c1:BTCUSDT''"
    "lane_id ''BTCUSDT'' ''s1#block:2'' = ''BTCUSDT|s1#block:2''" "symbolKey (VStr ''BTCUSDT'') = ''BTCUSDT''" by code_simp+
  have "pause_object ''BTCUSDT'' ''long'' ''s1'' ''s1#block:2'' sample_pause 2"
    using keys(4) by (simp add: pause_object_def sample_pause_def js_prop_def)
  then show ?thesis unfolding pause_start_def pause_stored_def keys
    by (auto simp: paused_store_def redis_empty_def hash_at_def set_at_def simp del: json_text.simps)
qed

text \<open>A repeated close counts once: of a pause of two closes, the second report of the first close leaves one, and another close ends it.\<close>

theorem block_pause_countdown_witness:
  "VStr ''s1#block:2'' \<in> set (fst (getUnavailableBlockSetKeys 9 ''c1'' (VStr ''BTCUSDT'')
      (foldl (\<lambda>r (t, position). updateBlockLifecycleForClose t position r) paused_store [(5, source_close ''p1''), (6, source_close ''p1'')]))) \<and>
   getBlockCountLifecycleState 9 ''c1'' (VStr ''BTCUSDT'') ''s1#block:2''
      (foldl (\<lambda>r (t, position). updateBlockLifecycleForClose t position r) paused_store [(5, source_close ''p1''), (6, source_close ''p1''), (7, source_close ''p2'')]) = VUndefined"
proof -
  have ok: "lane_ok ''BTCUSDT'' ''long'' ''s1'' ''s1#block:2''" by code_simp
  have spares: "spares_lane ''c1'' ''BTCUSDT'' ''s1#block:2'' (source_close ''p1'')" "spares_lane ''c1'' ''BTCUSDT'' ''s1#block:2'' (source_close ''p2'')" by code_simp+
  have runs: "snd (foldl (pause_settle ''BTCUSDT'' ''long'' ''s1'') ({}, 2) [(5, source_close ''p1''), (6, source_close ''p1'')]) = 1"
    "snd (foldl (pause_settle ''BTCUSDT'' ''long'' ''s1'') ({}, 2) [(5, source_close ''p1''), (6, source_close ''p1''), (7, source_close ''p2'')]) = 0" by code_simp+
  have closes: "list_all (\<lambda>(t :: int, position). 0 \<le> t \<and> t < 0 + 2592000000 \<and> spares_lane ''c1'' ''BTCUSDT'' ''s1#block:2'' position) [(5, source_close ''p1''), (6, source_close ''p1'')]"
    "list_all (\<lambda>(t :: int, position). 0 \<le> t \<and> t < 0 + 2592000000 \<and> spares_lane ''c1'' ''BTCUSDT'' ''s1#block:2'' position) [(5, source_close ''p1''), (6, source_close ''p1''), (7, source_close ''p2'')]"
    using spares by simp_all
  note countdown = block_pause_countdown [OF ok _ _ paused_store_start]
  show ?thesis using countdown [OF _ _ closes(1), where now = 9] countdown [OF _ _ closes(2), where now = 9] unfolding runs by simp
qed

end
