(* ===== verification/Spec2Isabelle.thy ===== *)
theory Spec2Isabelle
  imports RedisLocks CircuitBreaker RateLimiter GlobalRateLimiter BoundedConcurrency LiveQuantities IdempotentList RefreshQueue AggregateProtection SignalTrailing ControlCapacity ErrorHandling ProtectionRange DcaConcurrency OrderQuantity BlockOutcomes
begin

text \<open>
  \<^bold>\<open>The program.\<close>  CTS is a crypto trading system: a Next.js server whose engines read markets,
  promote strategy sets through stages and keep live positions protected on exchanges.  All shared
  state is in Redis or in the program's own in-process replacement for it.  Around that store stand
  the mechanisms that keep several workers and an unreliable venue consistent: locks and leases,
  rate limits, a circuit breaker, retries, bounded worker pools, exactly-once batches, a refresh queue
  between processes; and, for each live position, the arithmetic that decides how much is bought,
  closed and protected, and at which price.  This development models those two layers, store and
  coordination below, position arithmetic above, from the sources under \<open>src/lib\<close>.

  \<^bold>\<open>Foundations.\<close>
  \<^item> \<open>Prelude\<close>: maps in insertion order (\<open>jsmap\<close>), sets, \<open>slice\<close>, object spread, the stable
    sort, the binary search loop and the lemmas on them.
  \<^item> \<open>JsNumber\<close>, \<open>JsMath\<close>: JavaScript numbers.  A number is \<open>NaN\<close>, an infinity or \<open>Fin x\<close> with
    a rational \<open>x\<close>; every arithmetic operation rounds to the nearest double (\<open>fl\<close>: ties to even,
    gradual underflow, overflow to infinity), so the bounds below are about doubles and not about
    reals.  Negative zero is not kept apart.
  \<^item> \<open>JsText\<close>, \<open>JsPrint\<close>, \<open>JsJson\<close>: \<open>trim\<close>, \<open>parseInt\<close>, \<open>Number\<close>, \<open>String(x)\<close> with shortest digits,
    and JSON printing and parsing (\<open>JsPrint\<close>: \<open>Number(String(x))\<close> is \<open>x\<close> again); the parser's fuel is \<open>2 * length + 2\<close>, which the round trip shows
    to be enough.  Strings are lists of 8-bit characters.  A locale-dependent comparison is a
    parameter \<open>lc\<close> with the laws of a collation (locale \<open>collation\<close>); it may answer 0 for distinct strings, and
    what needs more says of which strings it tells them apart (locale \<open>strict_collation\<close>).

  \<^bold>\<open>Store and coordination.\<close>
  \<^item> \<open>RedisZset\<close>, \<open>RedisStore\<close> (\<open>lib/redis-db.ts\<close>, class \<open>InlineLocalRedis\<close>): the sorted set with
    its index and the command set over one record \<open>redis\<close> (strings, hashes, sets, lists, sorted sets,
    expiry, dirty marks), time passed as \<open>now\<close>.  \<open>RedisInvariant\<close>, \<open>RedisProps\<close>, \<open>RedisDirty\<close>,
    \<open>RedisSweep\<close>, \<open>RedisViews\<close>: the invariant under every command and pipeline, the refinement of a
    sorted set to a map, the dirty tracking the persistence relies on, deletion and sweeping.
  \<^item> \<open>RedisLocks\<close> (\<open>redis-lock-utils.ts\<close>, \<open>direct-trade-processor-lease.ts\<close>,
    \<open>trade-engine/progression-lock.ts\<close>): one holder at a time, no theft while a lock's
    lifetime reads a second or more, heartbeats.  A run of an acquire says at each command what the clock shows,
    whether the command fails and what other tasks do before it.
  \<^item> \<open>Settings\<close> (\<open>redis-db.ts\<close>, settings): flattening to hashes and reading back.
  \<^item> \<open>IdempotentList\<close> (\<open>redis-idempotent-list.ts\<close>): append and increment exactly once, appends on both
    kinds of client, through an interface locale that both interpret.
  \<^item> \<open>RefreshQueue\<close> (\<open>engine-refresh-queue.ts\<close>): latest request wins, generations increase.
  \<^item> \<open>CircuitBreaker\<close>, \<open>RateLimiter\<close>, \<open>GlobalRateLimiter\<close>, \<open>BoundedConcurrency\<close>,
    \<open>ErrorHandling\<close> (the files of those names): the breaker's counters and transitions, no more
    requests in a window than budgeted and a wake-up while the limits refuse (each clock reading of a drain is
    its own, and a lemma shows the stall this allows), the sliding window, the worker pool as a
    step relation (exactly once, within its limit, always finished; a lemma shows how the adaptive pool can lose a
    failure), the retrying wrapper.

  \<^bold>\<open>Position arithmetic.\<close>
  \<^item> \<open>LiveQuantities\<close> (\<open>live-order-coordination.ts\<close>, \<open>exchange-quantity-ledger.ts\<close>): cumulative
    fills applied once, allocations that sum up, for quantities up to 2047 on the grid of twelve decimals.
  \<^item> \<open>AggregateProtection\<close> (\<open>aggregate-protection-coordination.ts\<close>), \<open>ControlCapacity\<close>
    (\<open>control-order-capacity.ts\<close>): plans that partition the rows, cover only the own quantity and
    put the security stop beyond every row's stop; control orders within the venue's limit, stop
    losses first.
  \<^item> \<open>SignalTrailing\<close> (\<open>signal-trailing.ts\<close>), \<open>ProtectionRange\<close> (\<open>protection-floors.ts\<close>,
    \<open>protection-allowed-range.ts\<close>, \<open>liquidation-safe-leverage.ts\<close>): a trailing stop only moves in
    the position's favour, stops stay in the allowed range, a leverage above one keeps liquidation behind the stop.
  \<^item> \<open>RecoveryLevels\<close> (\<open>block-volume-ratio.cjs\<close>), \<open>DcaStrategy\<close> (\<open>dca-strategy.ts\<close>): the recovery
    ladder, executable profiles, the next averaging step, quantities under the ceiling, the ledger of
    legs.  \<open>DcaOutcomes\<close>, \<open>DcaConcurrency\<close> (\<open>dca-step-outcomes.ts\<close>): the stored levels refine a
    contract over whole numbers, and interleaved writers behind the version guard lose none of them.
  \<^item> \<open>PositionPnl\<close> (\<open>live-position-pnl.ts\<close>, parts of \<open>forex-market.ts\<close>, \<open>market-types.ts\<close>): what a
    row is worth; nothing is reported for a row without a confirmed execution, and profit follows the price.
  \<^item> \<open>BlockCounts\<close>, \<open>BlockOutcomes\<close> (\<open>block-count-state.ts\<close>, \<open>block-count-outcomes.ts\<close>): the Block lane's
    gate (exact, and monotone in count and level through every rounding), quantities, legs, and the pauses stored
    per symbol; a paused lane waits exactly its closes.
  \<^item> \<open>OrderQuantity\<close> (\<open>order-quantity.ts\<close>): executable quantities by exact decimal rounding of
    the printed digits; a close never exceeds the position, an entry covers its request.

  \<^bold>\<open>How it is modelled.\<close>  Objects are records, tagged unions datatypes, untyped settings
  \<open>js_value\<close>s; a method that changes state returns the new state; a throw is a value.  An \<open>await\<close>
  between two store commands is a point where others may run: commands are atomic, and what spans
  several of them is a sequence of steps.  Clocks, random tokens, scripts of a shared Redis and
  collation are parameters.  Loops are structural or have a termination proof; none has a fuel that
  could cut it short except the JSON parser above.

  \<^bold>\<open>Not modelled.\<close>  The live stage, the strategy coordinator, the engine manager and the indication
  processors (tens of thousands of lines of venue calls and candle arithmetic whose pure helpers are
  the components above), the connectors to third-party venues, migrations, the write-ahead log and
  snapshots (file I/O), historic tests, HTTP routes, the user interface, logging, tests and scripts.
  Next in order: the engine state machine, SCAN and the clearing operations of the idempotent lists, pseudo positions.
\<close>

end
